(* ===== verification/Go_Prelude.thy ===== *)
theory Go_Prelude
  imports Main "HOL-Library.Word"
begin

text \<open>
  Shared vocabulary of the development: bytes and machine integers, the Go error values, the slice
  and \<open>copy\<close> primitives of the language, the byte-order codecs of \<open>encoding/binary\<close>, the
  \<open>fmt\<close> verbs that end up in error texts, and \<open>io.ReadFull\<close> over a finite byte stream.  Everything is
  executable; the lemmas on buffers are collected in \<open>buf_simps\<close> so that a layout proof is one
  simplifier call.
\<close>

unbundle bit_operations_syntax

named_theorems buf_simps \<open>normal form of buffers built by make and copy\<close>
named_theorems codec_simps \<open>decoding what was encoded\<close>

section \<open>Types\<close>

type_synonym byte = "8 word"
type_synonym bytes = "byte list"
type_synonym u16 = "16 word"
type_synonym u32 = "32 word"
type_synonym u64 = "64 word"

text \<open>
  Go error values.  \<open>Errorf\<close> is a fresh error with its text, \<open>Wrapf\<close> a \<open>%w\<close> wrapper with its
  prefix, \<open>NetErr\<close> an error handed up by the operating system or a peer (its text is not ours),
  and \<open>Panic\<close> a run-time panic, for example an index out of range.
\<close>

datatype gerror =
    EOF
  | UnexpectedEOF
  | Errorf string
  | Wrapf string gerror
  | NetErr string
  | Panic string

type_synonym 'a result = "gerror + 'a"

fun err_text :: "gerror \<Rightarrow> string" where
  "err_text EOF = ''EOF''"
| "err_text UnexpectedEOF = ''unexpected EOF''"
| "err_text (Errorf s) = s"
| "err_text (Wrapf p e) = p @ err_text e"
| "err_text (NetErr s) = s"
| "err_text (Panic s) = ''panic: '' @ s"

section \<open>Slices and buffers\<close>

text \<open>\<open>buf[lo:hi]\<close>, used where \<open>hi \<le> len(buf)\<close> is known.\<close>

definition slice :: "nat \<Rightarrow> nat \<Rightarrow> 'a list \<Rightarrow> 'a list" where
  "slice lo hi xs = take (hi - lo) (drop lo xs)"

text \<open>\<open>make([]byte, n)\<close>: a zeroed buffer.\<close>

definition mk_buf :: "nat \<Rightarrow> bytes" where
  "mk_buf n = replicate n 0"

text \<open>\<open>copy(buf[lo:hi], src)\<close>: the shorter of the two lengths is copied, the rest is kept.\<close>

definition copy_to :: "nat \<Rightarrow> nat \<Rightarrow> 'a list \<Rightarrow> 'a list \<Rightarrow> 'a list" where
  "copy_to lo hi src buf =
     (let n = min (hi - lo) (length src) in take lo buf @ take n src @ drop (lo + n) buf)"

text \<open>\<open>copy(buf[lo:], src)\<close>.\<close>

definition copy_from :: "nat \<Rightarrow> 'a list \<Rightarrow> 'a list \<Rightarrow> 'a list" where
  "copy_from lo src buf = copy_to lo (length buf) src buf"

section \<open>Byte order (\<open>encoding/binary\<close>)\<close>

definition putBE16 :: "u16 \<Rightarrow> bytes" where
  "putBE16 w = [ucast (drop_bit 8 w), ucast w]"

definition putBE32 :: "u32 \<Rightarrow> bytes" where
  "putBE32 w = [ucast (drop_bit 24 w), ucast (drop_bit 16 w), ucast (drop_bit 8 w), ucast w]"

definition putBE64 :: "u64 \<Rightarrow> bytes" where
  "putBE64 w = [ucast (drop_bit 56 w), ucast (drop_bit 48 w), ucast (drop_bit 40 w),
     ucast (drop_bit 32 w), ucast (drop_bit 24 w), ucast (drop_bit 16 w), ucast (drop_bit 8 w), ucast w]"

definition putLE16 :: "u16 \<Rightarrow> bytes" where
  "putLE16 w = [ucast w, ucast (drop_bit 8 w)]"

definition putLE32 :: "u32 \<Rightarrow> bytes" where
  "putLE32 w = [ucast w, ucast (drop_bit 8 w), ucast (drop_bit 16 w), ucast (drop_bit 24 w)]"

definition be16 :: "bytes \<Rightarrow> u16" where
  "be16 b = ucast (b ! 1) OR push_bit 8 (ucast (b ! 0))"

definition be32 :: "bytes \<Rightarrow> u32" where
  "be32 b = ucast (b ! 3) OR push_bit 8 (ucast (b ! 2)) OR push_bit 16 (ucast (b ! 1))
     OR push_bit 24 (ucast (b ! 0))"

definition be64 :: "bytes \<Rightarrow> u64" where
  "be64 b = ucast (b ! 7) OR push_bit 8 (ucast (b ! 6)) OR push_bit 16 (ucast (b ! 5))
     OR push_bit 24 (ucast (b ! 4)) OR push_bit 32 (ucast (b ! 3)) OR push_bit 40 (ucast (b ! 2))
     OR push_bit 48 (ucast (b ! 1)) OR push_bit 56 (ucast (b ! 0))"

definition le16 :: "bytes \<Rightarrow> u16" where
  "le16 b = ucast (b ! 0) OR push_bit 8 (ucast (b ! 1))"

definition le32 :: "bytes \<Rightarrow> u32" where
  "le32 b = ucast (b ! 0) OR push_bit 8 (ucast (b ! 1)) OR push_bit 16 (ucast (b ! 2))
     OR push_bit 24 (ucast (b ! 3))"

section \<open>Strings and the \<open>fmt\<close> verbs\<close>

text \<open>A Go string is a byte sequence; a literal of the source is its ASCII bytes.\<close>

definition str_bytes :: "string \<Rightarrow> bytes" where
  "str_bytes s = map (\<lambda>c. of_nat (of_char c)) s"

definition hex_digit :: "nat \<Rightarrow> char" where
  "hex_digit n = ''0123456789abcdef'' ! n"

text \<open>\<open>%02x\<close> of a byte, and \<open>%x\<close> of a byte slice.\<close>

definition hex2 :: "byte \<Rightarrow> string" where
  "hex2 b = [hex_digit (unat b div 16), hex_digit (unat b mod 16)]"

definition hexs :: "bytes \<Rightarrow> string" where
  "hexs bs = concat (map hex2 bs)"

text \<open>\<open>%04x\<close> of a 16-bit value.\<close>

definition hex4 :: "u16 \<Rightarrow> string" where
  "hex4 w = hexs (putBE16 w)"

text \<open>\<open>%x\<close> of a value below 16.\<close>

definition hex1 :: "byte \<Rightarrow> string" where
  "hex1 b = [hex_digit (unat b mod 16)]"

text \<open>\<open>%d\<close> of a non-negative integer.\<close>

fun dec :: "nat \<Rightarrow> string" where
  "dec n = (if n < 10 then [hex_digit n] else dec (n div 10) @ [hex_digit (n mod 10)])"

declare dec.simps [simp del]

section \<open>Byte streams\<close>

text \<open>
  \<open>io.ReadFull(r, buf)\<close> with \<open>len(buf) = n\<close> over a peer that will still send the given bytes and
  then close: nothing read is \<open>io.EOF\<close>, a partial read \<open>io.ErrUnexpectedEOF\<close> (the bytes are gone),
  and a zero-length read succeeds without touching the stream.
\<close>

definition ReadFull :: "nat \<Rightarrow> bytes \<Rightarrow> bytes result \<times> bytes" where
  "ReadFull n s =
     (if n \<le> length s then (Inr (take n s), drop n s)
      else if s = [] then (Inl EOF, [])
      else (Inl UnexpectedEOF, []))"

section \<open>Lemmas: buffers\<close>

lemma length_mk_buf [simp, buf_simps]: "length (mk_buf n) = n"
  by (simp add: mk_buf_def)

lemma length_slice [simp]: "length (slice lo hi xs) = min (hi - lo) (length xs - lo)"
  by (simp add: slice_def)

lemma length_copy_to [simp]:
  "lo \<le> length buf \<Longrightarrow> hi \<le> length buf \<Longrightarrow> length (copy_to lo hi src buf) = length buf"
  by (auto simp: copy_to_def Let_def min_def)

lemma length_copy_from [simp]:
  "lo \<le> length buf \<Longrightarrow> length (copy_from lo src buf) = length buf"
  by (simp add: copy_from_def)

lemma copy_to_fits [buf_simps]:
  "length src \<le> hi - lo \<Longrightarrow>
     copy_to lo hi src buf = take lo buf @ src @ drop (lo + length src) buf"
  by (simp add: copy_to_def min_def)

lemma slice_nth: "i < hi - lo \<Longrightarrow> lo + i < length xs \<Longrightarrow> slice lo hi xs ! i = xs ! (lo + i)"
  by (simp add: slice_def)

lemma slice_append1: "hi \<le> length xs \<Longrightarrow> slice lo hi (xs @ ys) = slice lo hi xs"
  by (cases "lo \<le> hi") (auto simp: slice_def)

lemma slice_at_append [buf_simps]:
  "length xs = lo \<Longrightarrow> hi - lo = length ys \<Longrightarrow> slice lo hi (xs @ ys @ zs) = ys"
  by (simp add: slice_def)

lemma slice_tail: "length xs = lo \<Longrightarrow> hi - lo = length ys \<Longrightarrow> slice lo hi (xs @ ys) = ys"
  by (simp add: slice_def)

lemma slice_join: "lo \<le> mid \<Longrightarrow> mid \<le> hi \<Longrightarrow> slice lo mid xs @ slice mid hi xs = slice lo hi xs"
  using take_add [of "mid - lo" "hi - mid" "drop lo xs"] by (simp add: slice_def)

lemma slice_full: "length xs = n \<Longrightarrow> slice 0 n xs = xs"
  by (simp add: slice_def)

lemma buf_upd [buf_simps]: "i < length buf \<Longrightarrow> buf[i := x] = take i buf @ [x] @ drop (Suc i) buf"
  by (simp add: upd_conv_take_nth_drop)

text \<open>
  The buffer normal form keeps every field opaque (only its length is known) and the gaps as
  \<open>replicate\<close>, so that offsets that depend on a string's length still simplify.
\<close>

lemmas layout_simps = buf_simps mk_buf_def copy_from_def take_append drop_append take_Cons' drop_Cons'

section \<open>Lemmas: byte order\<close>

lemma length_put [simp]:
  "length (putBE16 w) = 2" "length (putBE32 v) = 4" "length (putBE64 u) = 8"
  "length (putLE16 w) = 2" "length (putLE32 v) = 4"
  by (simp_all add: putBE16_def putBE32_def putBE64_def putLE16_def putLE32_def)

lemma bit_byte_at:
  fixes w :: "'a::len word"
  shows "bit (push_bit k (ucast (ucast (drop_bit k w) :: byte)) :: 'a word) n
     \<longleftrightarrow> k \<le> n \<and> n < k + 8 \<and> bit w n"
  by (auto simp: bit_simps dest: bit_imp_le_length)

lemma bit_byte_low:
  fixes w :: "'a::len word"
  shows "bit (ucast (ucast w :: byte) :: 'a word) n \<longleftrightarrow> n < 8 \<and> bit w n"
  by (auto simp: bit_simps dest: bit_imp_le_length)

lemmas bytes_of_word = bit_byte_at bit_byte_low bit_or_iff

lemma be16_putBE16 [simp, codec_simps]: "be16 (putBE16 w) = w"
  by (rule bit_word_eqI) (auto simp: be16_def putBE16_def bytes_of_word)

lemma be32_putBE32 [simp, codec_simps]: "be32 (putBE32 w) = w"
  by (rule bit_word_eqI) (auto simp: be32_def putBE32_def bytes_of_word)

lemma le16_putLE16 [simp, codec_simps]: "le16 (putLE16 w) = w"
  by (rule bit_word_eqI) (auto simp: le16_def putLE16_def bytes_of_word)

lemma le32_putLE32 [simp, codec_simps]: "le32 (putLE32 w) = w"
  by (rule bit_word_eqI) (auto simp: le32_def putLE32_def bytes_of_word)

lemma be64_putBE64 [simp, codec_simps]: "be64 (putBE64 w) = w"
proof (rule bit_word_eqI)
  fix n assume "n < LENGTH(64)"
  then have "n < 8 \<or> 8 \<le> n \<and> n < 16 \<or> 16 \<le> n \<and> n < 24 \<or> 24 \<le> n \<and> n < 32 \<or> 32 \<le> n \<and> n < 40
     \<or> 40 \<le> n \<and> n < 48 \<or> 48 \<le> n \<and> n < 56 \<or> 56 \<le> n \<and> n < 64"
    by (simp, arith)
  then show "bit (be64 (putBE64 w)) n = bit w n"
    by (elim disjE) (simp_all add: be64_def putBE64_def bytes_of_word)
qed

lemma not_bit_byte [simp]: "8 \<le> n \<Longrightarrow> \<not> bit (b :: byte) n"
  using bit_imp_le_length [of b n] by auto

lemma length2_conv: "length xs = 2 \<longleftrightarrow> (\<exists>a b. xs = [a, b])"
  by (auto simp: numeral_2_eq_2 length_Suc_conv)

lemma length4_conv: "length xs = 4 \<longleftrightarrow> (\<exists>a b c d. xs = [a, b, c, d])"
  by (auto simp: numeral_eq_Suc length_Suc_conv)

lemma putBE16_be16 [simp]: "length xs = 2 \<Longrightarrow> putBE16 (be16 xs) = xs"
  by (auto simp: length2_conv be16_def putBE16_def bit_simps intro!: bit_word_eqI)

lemma putBE32_be32 [simp]: "length xs = 4 \<Longrightarrow> putBE32 (be32 xs) = xs"
  by (auto simp: length4_conv be32_def putBE32_def bit_simps intro!: bit_word_eqI)

lemma unat_u32_bound: "unat (w :: u32) < 4294967296"
  using unsigned_less [of w, where ?'a = nat] by simp

lemma unat_u16_bound: "unat (w :: u16) < 65536"
  using unsigned_less [of w, where ?'a = nat] by simp

lemma unat_byte_bound: "unat (w :: byte) < 256"
  using unsigned_less [of w, where ?'a = nat] by simp

lemma unat_of_nat_u16 [simp]: "n < 65536 \<Longrightarrow> unat (of_nat n :: u16) = n"
  by (simp add: unat_of_nat)

lemma unat_of_nat_u32 [simp]: "n < 4294967296 \<Longrightarrow> unat (of_nat n :: u32) = n"
  by (simp add: unat_of_nat)

lemma unat_of_nat_byte [simp]: "n < 256 \<Longrightarrow> unat (of_nat n :: byte) = n"
  by (simp add: unat_of_nat)

section \<open>Lemmas: streams\<close>

lemma ReadFull_append [simp]:
  "length xs = n \<Longrightarrow> ReadFull n (xs @ ys) = (Inr xs, ys)"
  by (simp add: ReadFull_def)

lemma ReadFull_short: "length s < n \<Longrightarrow> \<exists>e. ReadFull n s = (Inl e, [])"
  by (auto simp: ReadFull_def)

lemma ReadFull_Inr:
  "ReadFull n s = (Inr xs, ys) \<longleftrightarrow> s = xs @ ys \<and> length xs = n"
  by (auto simp: ReadFull_def split: if_splits)

end
