(* ===== verification/Apcp_Frame.thy ===== *)
theory Apcp_Frame
  imports Go_Prelude
begin

text \<open>
  The wire frames of package \<open>apcp\<close> (\<open>internal/apcp/frame.go\<close>, \<open>msgtype.go\<close>, \<open>avpt.go\<close>): the APCP
  session request and setup, the AVMP login and the AVMP envelope, and the BEEF (AVPT) envelope with the
  KVM login packets.  Encoders fill a zeroed buffer exactly as the code does; decoders return a
  \<open>result\<close>.  The lemmas give each encoder's byte layout, the round trips, and the exact set of inputs
  each reader accepts.  The locale \<open>framing\<close> states what the read loops rely on and is interpreted by
  both envelopes.
\<close>

section \<open>Constants\<close>

definition MagicAPCP :: bytes where "MagicAPCP = [0x41, 0x50, 0x43, 0x50]"
definition MagicAVMP :: bytes where "MagicAVMP = [0x41, 0x56, 0x4D, 0x50]"
definition MagicBEEF :: bytes where "MagicBEEF = [0x42, 0x45, 0x45, 0x46]"

abbreviation (input) AVMPHeaderLen :: nat where "AVMPHeaderLen \<equiv> 10"
abbreviation (input) SessionRequestLen :: nat where "SessionRequestLen \<equiv> 53"
abbreviation (input) LoginLen :: nat where "LoginLen \<equiv> 153"
abbreviation (input) AVPTHeaderLen :: nat where "AVPTHeaderLen \<equiv> 8"
abbreviation (input) KVMLoginBodyLen :: nat where "KVMLoginBodyLen \<equiv> 208"

definition SessionSetupStatusOK :: u16 where "SessionSetupStatusOK = 0x8100"
definition ProtoVersion :: u16 where "ProtoVersion = 0x0100"

section \<open>APCP session request and setup\<close>

record SessionRequest =
  sr_SessionType :: byte
  sr_Field2 :: byte
  sr_Field3 :: byte
  sr_Capability :: u32
  sr_Nonce :: bytes
  sr_NonceLen :: byte

definition EncodeSessionRequest :: "SessionRequest \<Rightarrow> bytes" where
  "EncodeSessionRequest r =
     (let buf = mk_buf SessionRequestLen;
          buf = copy_to 0 4 MagicAPCP buf;
          buf = copy_to 4 8 (putBE32 53) buf;
          buf = copy_to 8 10 (putBE16 ProtoVersion) buf;
          buf = buf[12 := sr_SessionType r];
          buf = buf[13 := sr_Field2 r];
          buf = buf[14 := sr_Field3 r];
          buf = copy_to 16 20 (putBE32 (sr_Capability r)) buf;
          buf = buf[20 := sr_NonceLen r]
      in copy_to 21 53 (sr_Nonce r) buf)"

record SessionSetup =
  ss_Status :: u16
  ss_VersionMajor :: byte
  ss_VersionMinor :: byte
  ss_Capabilities :: u32
  ss_TCPPort :: u16
  ss_NonceLen :: byte
  ss_Nonce :: bytes

definition SupportsSSL :: "SessionSetup \<Rightarrow> bool" where
  "SupportsSSL s \<longleftrightarrow> ss_Capabilities s AND 4 \<noteq> 0"

definition DecodeSessionSetup :: "bytes \<Rightarrow> SessionSetup result" where
  "DecodeSessionSetup buf =
     (if length buf < SessionRequestLen
      then Inl (Errorf (''apcp: session setup too short: '' @ dec (length buf)))
      else if slice 0 4 buf \<noteq> MagicAPCP
      then Inl (Errorf (''apcp: bad magic '' @ hexs (slice 0 4 buf)))
      else let status = be16 (slice 8 10 buf) in
        if status \<noteq> SessionSetupStatusOK
        then Inl (Errorf (''apcp: session setup status 0x'' @ hex4 status @ '', want 0x'' @ hex4 SessionSetupStatusOK))
        else Inr \<lparr>ss_Status = status, ss_VersionMajor = buf ! 12, ss_VersionMinor = buf ! 13,
                  ss_Capabilities = be32 (slice 14 18 buf), ss_TCPPort = be16 (slice 18 20 buf),
                  ss_NonceLen = buf ! 20, ss_Nonce = slice 21 53 buf\<rparr>)"

section \<open>AVMP login\<close>

record LoginRequest =
  lr_Username :: bytes
  lr_Password :: bytes
  lr_Preempt :: bool

definition EncodeLogin :: "LoginRequest \<Rightarrow> bytes result" where
  "EncodeLogin l =
     (if length (lr_Username l) > 96 then Inl (Errorf ''apcp: username longer than 96 bytes'')
      else if length (lr_Password l) > 32 then Inl (Errorf ''apcp: password longer than 32 bytes'')
      else let buf = mk_buf LoginLen;
               buf = copy_to 0 4 MagicAVMP buf;
               buf = copy_to 4 8 (putBE32 153) buf;
               buf = copy_to 8 10 (putBE16 ProtoVersion) buf;
               buf = buf[12 := of_nat (length (lr_Username l))];
               buf = copy_to 13 109 (lr_Username l) buf;
               buf = copy_to 109 141 (lr_Password l) buf;
               buf = (if lr_Preempt l then buf[152 := 1] else buf)
           in Inr buf)"

record LoginStatus =
  ls_Status :: byte
  ls_CanRejectPreemption :: bool
  ls_Username :: bytes

definition LoginStatusCode :: "(byte \<times> string) list" where
  "LoginStatusCode =
     [(0, ''SUCCEEDED''), (1, ''INVALID_USER_NAME''), (2, ''INVALID_PASSWORD''),
      (3, ''CHANNEL_ACCESS_DENIED''), (4, ''CHANNEL_IN_USE''), (5, ''CHANNEL_NOT_FOUND''),
      (6, ''SERVER_NOT_AVAILABLE_CAN_PREEMPT''), (8, ''ALL_CHANNELS_IN_USE''),
      (11, ''CHANNEL_IN_USE_BY_LOCAL_USER_CAN_PREEMPT''), (22, ''NETWORK_AUTH_SERVER_ERROR''),
      (23, ''INVALID_EXPIRED_CERT_ERROR''), (52, ''PREEMPT_REJECTED''), (255, ''GENERIC_FAILED'')]"

definition LoginStatusName :: "byte \<Rightarrow> string" where
  "LoginStatusName b = (case map_of LoginStatusCode b of
     Some name \<Rightarrow> name | None \<Rightarrow> ''UNKNOWN('' @ dec (unat b) @ '')'')"

definition DecodeLoginStatus :: "bytes \<Rightarrow> LoginStatus result" where
  "DecodeLoginStatus buf =
     (if length buf < 111 then Inl (Errorf (''apcp: login status too short: '' @ dec (length buf)))
      else if slice 0 4 buf \<noteq> MagicAVMP
      then Inl (Errorf (''apcp: bad AVMP magic in LoginStatus: '' @ hexs (slice 0 4 buf)))
      else let status = be16 (slice 8 10 buf) in
        if status \<noteq> SessionSetupStatusOK
        then Inl (Errorf (''apcp: login status status 0x'' @ hex4 status @ '', want 0x'' @ hex4 SessionSetupStatusOK))
        else let nameLen = unat (buf ! 14);
                 nameLen = (if nameLen > 96 then 96 else nameLen)
             in Inr \<lparr>ls_Status = buf ! 12, ls_CanRejectPreemption = (buf ! 13 AND 1 \<noteq> 0),
                     ls_Username = (if 15 + nameLen \<le> length buf then slice 15 (15 + nameLen) buf else [])\<rparr>)"

section \<open>The AVMP envelope\<close>

record Frame =
  f_Type :: u16
  f_Payload :: bytes

definition Encode :: "Frame \<Rightarrow> bytes" where
  "Encode f =
     (let total = AVMPHeaderLen + length (f_Payload f);
          buf = mk_buf total;
          buf = copy_to 0 4 MagicAVMP buf;
          buf = copy_to 4 8 (putBE32 (of_nat total)) buf;
          buf = copy_to 8 10 (putBE16 (f_Type f)) buf
      in copy_from 10 (f_Payload f) buf)"

definition ReadFrame :: "bytes \<Rightarrow> Frame result \<times> bytes" where
  "ReadFrame r =
     (case ReadFull AVMPHeaderLen r of
        (Inl e, r) \<Rightarrow> (Inl e, r)
      | (Inr hdr, r) \<Rightarrow>
          if slice 0 4 hdr \<noteq> MagicAVMP then (Inl (Errorf (''apcp: bad AVMP magic: '' @ hexs (slice 0 4 hdr))), r)
          else let total = be32 (slice 4 8 hdr) in
            if total < 10 then (Inl (Errorf (''apcp: bogus frame length '' @ dec (unat total))), r)
            else let msgType = be16 (slice 8 10 hdr) in
              case ReadFull (unat total - AVMPHeaderLen) r of
                (Inl e, r) \<Rightarrow> (Inl e, r)
              | (Inr payload, r) \<Rightarrow> (Inr \<lparr>f_Type = msgType, f_Payload = payload\<rparr>, r))"

definition MsgHeartbeat :: u16 where "MsgHeartbeat = 0x0400"

definition Heartbeat :: Frame where
  "Heartbeat = \<lparr>f_Type = MsgHeartbeat, f_Payload = []\<rparr>"

section \<open>AVMP message types\<close>

text \<open>The client-to-server and server-to-client catalogues of \<open>msgtype.go\<close>.\<close>

definition client_msgs :: "(u16 \<times> string) list" where
  "client_msgs =
     [(0x0120, ''PREEMPT_RESPONSE''), (0x0200, ''GET_VDISK_INFO''), (0x0210, ''VDISK_REQUEST''),
      (0x0211, ''VDISK_REQUEST2''), (0x0213, ''VCARD_REQUEST''), (0x0220, ''VDISK_RELEASE''),
      (0x0230, ''VDISK_SET_ENABLE''), (0x0300, ''VDISK_READ_DATA''), (0x0301, ''VCARD_DATA_BLOCK''),
      (0x0320, ''VDISK_ALTERNATE_TOC_DATA''), (0x0400, ''HEARTBEAT''), (0x0410, ''CLIENT_STATUS''),
      (0x0420, ''USB_RESET''), (0x0430, ''CLIENT_CONFIGURATION_OPTION'')]"

definition server_msgs :: "(u16 \<times> string) list" where
  "server_msgs =
     [(0x8110, ''DISCONNECT''), (0x8120, ''DISCONNECT_CANCEL''), (0x8200, ''VDISK_INFO''),
      (0x8140, ''VDISK_REQUEST_RELEASE''), (0x8300, ''VDISK_READ''), (0x8301, ''VCARD_XFER_BLOCK''),
      (0x8310, ''VDISK_WRITE''), (0x8320, ''VDISK_GET_ALTERNATE_TOC_DATA''), (0x8410, ''DEVICE_STATUS''),
      (0x8430, ''DEVICE_CONFIGURATION_OPTION'')]"

definition msgTypeName :: "(u16 \<times> string) list" where
  "msgTypeName = client_msgs @ server_msgs"

definition MsgTypeName :: "u16 \<Rightarrow> string" where
  "MsgTypeName t = (case map_of msgTypeName t of Some name \<Rightarrow> name | None \<Rightarrow> ''UNKNOWN'')"

abbreviation (input) MsgVdiskRequest :: u16 where "MsgVdiskRequest \<equiv> 0x0210"
abbreviation (input) MsgVcardRequest :: u16 where "MsgVcardRequest \<equiv> 0x0213"
abbreviation (input) MsgVdiskRelease :: u16 where "MsgVdiskRelease \<equiv> 0x0220"
abbreviation (input) MsgVdiskReadData :: u16 where "MsgVdiskReadData \<equiv> 0x0300"
abbreviation (input) MsgVcardDataBlock :: u16 where "MsgVcardDataBlock \<equiv> 0x0301"
abbreviation (input) MsgVdiskAlternateTocData :: u16 where "MsgVdiskAlternateTocData \<equiv> 0x0320"
abbreviation (input) MsgClientStatus :: u16 where "MsgClientStatus \<equiv> 0x0410"
abbreviation (input) MsgDisconnect :: u16 where "MsgDisconnect \<equiv> 0x8110"
abbreviation (input) MsgVdiskInfo :: u16 where "MsgVdiskInfo \<equiv> 0x8200"
abbreviation (input) MsgVdiskRequestRelease :: u16 where "MsgVdiskRequestRelease \<equiv> 0x8140"
abbreviation (input) MsgVdiskRead :: u16 where "MsgVdiskRead \<equiv> 0x8300"
abbreviation (input) MsgVcardXferBlock :: u16 where "MsgVcardXferBlock \<equiv> 0x8301"
abbreviation (input) MsgVdiskWrite :: u16 where "MsgVdiskWrite \<equiv> 0x8310"
abbreviation (input) MsgVdiskGetAlternateTocData :: u16 where "MsgVdiskGetAlternateTocData \<equiv> 0x8320"
abbreviation (input) MsgDeviceStatus :: u16 where "MsgDeviceStatus \<equiv> 0x8410"
abbreviation (input) MsgDeviceConfigurationOption :: u16 where "MsgDeviceConfigurationOption \<equiv> 0x8430"

section \<open>The BEEF (AVPT) envelope and the KVM login\<close>

record AVPTFrame =
  a_ID :: u16
  a_Payload :: bytes

definition AVPTEncode :: "AVPTFrame \<Rightarrow> bytes" where
  "AVPTEncode f =
     (let total = AVPTHeaderLen + length (a_Payload f);
          buf = mk_buf total;
          buf = copy_to 0 4 MagicBEEF buf;
          buf = copy_to 4 6 (putBE16 (a_ID f)) buf;
          buf = copy_to 6 8 (putBE16 (of_nat total)) buf
      in copy_from 8 (a_Payload f) buf)"

definition KVMHeartbeat :: bytes where
  "KVMHeartbeat = AVPTEncode \<lparr>a_ID = 1024, a_Payload = mk_buf 8\<rparr>"

definition ReadAVPTFrame :: "bytes \<Rightarrow> AVPTFrame result \<times> bytes" where
  "ReadAVPTFrame r =
     (case ReadFull AVPTHeaderLen r of
        (Inl e, r) \<Rightarrow> (Inl e, r)
      | (Inr hdr, r) \<Rightarrow>
          let id = be16 (slice 4 6 hdr); total = be16 (slice 6 8 hdr) in
          if unat total < AVPTHeaderLen
          then (Inl (Errorf (''apcp: bogus AVPT length '' @ dec (unat total))), r)
          else case ReadFull (unat total - AVPTHeaderLen) r of
              (Inl e, r) \<Rightarrow> (Inl e, r)
            | (Inr payload, r) \<Rightarrow> (Inr \<lparr>a_ID = id, a_Payload = payload\<rparr>, r))"

record KVMLoginRequest =
  kl_Username :: bytes
  kl_Password :: bytes
  kl_ProtoMajor :: byte
  kl_ProtoMinor :: byte
  kl_Session :: u32
  kl_Extended :: bool
  kl_Option :: byte

definition EncodeKVMLogin :: "KVMLoginRequest \<Rightarrow> bytes result" where
  "EncodeKVMLogin l =
     (if length (kl_Username l) > 96 then Inl (Errorf ''apcp: username longer than 96'')
      else if length (kl_Password l) > 96 then Inl (Errorf ''apcp: password longer than 96'')
      else let body = mk_buf KVMLoginBodyLen;
               body = body[0 := of_nat (length (kl_Username l))];
               body = copy_to 1 97 (kl_Username l) body;
               body = body[97 := of_nat (length (kl_Password l))];
               body = copy_to 98 194 (kl_Password l) body;
               body = body[202 := kl_ProtoMajor l];
               body = body[203 := kl_ProtoMinor l];
               body = copy_to 204 208 (putBE32 (kl_Session l)) body;
               (id, body) = (if kl_Extended l then (258, body @ [kl_Option l]) else (256, body))
           in Inr (AVPTEncode \<lparr>a_ID = id, a_Payload = body\<rparr>))"

record KVMLoginResponse =
  kr_Status :: byte
  kr_SessionID :: u32
  kr_Flags :: u16
  kr_Username :: bytes
  kr_NeedsCompanion :: bool

definition kr_zero :: KVMLoginResponse where
  "kr_zero = \<lparr>kr_Status = 0, kr_SessionID = 0, kr_Flags = 0, kr_Username = [], kr_NeedsCompanion = False\<rparr>"

definition DecodeKVMLoginResponse :: "AVPTFrame \<Rightarrow> KVMLoginResponse" where
  "DecodeKVMLoginResponse f =
     (let p = a_Payload f in
      if length p < 10 then kr_zero
      else
        let extended = (a_ID f = 33541);
            flags = (if extended then (if length p \<ge> 10 then be16 (slice 8 10 p) else 0)
                     else ucast (p ! 3));
            sid = (if length p \<ge> 8 then be32 (slice 4 8 p) else 0);
            uname =
              (if extended
               then (if length p \<ge> 11
                     then let nameLen = unat (p ! 10)
                          in if 11 + nameLen \<le> length p then slice 11 (11 + nameLen) p else []
                     else [])
               else (if length p \<ge> 9
                     then let nameLen = unat (p ! 8)
                          in if 9 + nameLen \<le> length p then slice 9 (9 + nameLen) p else []
                     else []))
        in \<lparr>kr_Status = p ! 0, kr_SessionID = sid, kr_Flags = flags, kr_Username = uname,
            kr_NeedsCompanion = (flags AND 1 = 0)\<rparr>)"

definition EncodeVideoSyncDC :: "u32 \<Rightarrow> u32 \<Rightarrow> bytes" where
  "EncodeVideoSyncDC clientSessionID serverSessionID =
     (let buf = mk_buf 16;
          buf = buf[4 := 1];
          buf = buf[5 := 1];
          buf = copy_to 6 8 (putBE16 16) buf;
          buf = copy_to 8 12 (putBE32 clientSessionID) buf
      in copy_to 12 16 (putBE32 serverSessionID) buf)"

section \<open>Read loops over an envelope\<close>

text \<open>
  \<open>for \<lbrace> f, err := Read(conn); if err \<noteq> nil \<lbrace> return \<rbrace>; \<dots> \<rbrace>\<close> over a finite stream: the frames
  delivered and the error that ended the loop.  The fuel bounds the number of frames; a stream of
  \<open>n\<close> bytes never holds more than \<open>n\<close> of them (\<open>read_all_enough\<close>).
\<close>

fun read_all :: "(bytes \<Rightarrow> 'f result \<times> bytes) \<Rightarrow> nat \<Rightarrow> bytes \<Rightarrow> ('f list \<times> gerror) option" where
  "read_all rd 0 s = None"
| "read_all rd (Suc fuel) s =
     (case rd s of
        (Inl e, _) \<Rightarrow> Some ([], e)
      | (Inr f, s') \<Rightarrow> map_option (\<lambda>(fs, e). (f # fs, e)) (read_all rd fuel s'))"

locale framing =
  fixes enc :: "'f \<Rightarrow> bytes"
    and rd :: "bytes \<Rightarrow> 'f result \<times> bytes"
    and ok :: "'f \<Rightarrow> bool"
  assumes rd_enc: "ok f \<Longrightarrow> rd (enc f @ rest) = (Inr f, rest)"
    and rd_eof: "rd [] = (Inl EOF, [])"
    and rd_shrinks: "rd s = (Inr f, s') \<Longrightarrow> length s' < length s"
begin

lemma enc_prefix_free:
  assumes "ok f" "ok g" "enc f @ r = enc g @ r'"
  shows "f = g \<and> r = r'"
proof -
  have "(Inr f, r) = rd (enc f @ r)" by (rule rd_enc [OF assms(1), symmetric])
  also have "\<dots> = rd (enc g @ r')" by (rule arg_cong [OF assms(3)])
  also have "\<dots> = (Inr g, r')" by (rule rd_enc [OF assms(2)])
  finally show ?thesis by simp
qed

lemma read_all_frames:
  "list_all ok fs \<Longrightarrow> length fs < fuel \<Longrightarrow> read_all rd fuel (concat (map enc fs)) = Some (fs, EOF)"
proof (induction fs arbitrary: fuel)
  case Nil
  then show ?case by (cases fuel) (auto simp: rd_eof)
next
  case (Cons f fs)
  then show ?case by (cases fuel) (auto simp: rd_enc)
qed

lemma read_all_enough: "length s < fuel \<Longrightarrow> \<exists>fs e. read_all rd fuel s = Some (fs, e)"
proof (induction fuel arbitrary: s)
  case (Suc fuel)
  show ?case
  proof (cases "rd s")
    case (Pair r s')
    show ?thesis
    proof (cases r)
      case (Inr f)
      with Pair Suc.prems rd_shrinks have "length s' < fuel" by fastforce
      then show ?thesis using Suc.IH [of s'] Pair Inr by auto
    qed (use Pair in auto)
  qed
qed simp

end

section \<open>Lemmas: the AVMP envelope\<close>

lemma length_magics [simp]: "length MagicAPCP = 4" "length MagicAVMP = 4" "length MagicBEEF = 4"
  by (simp_all add: MagicAPCP_def MagicAVMP_def MagicBEEF_def)

lemma Encode_layout:
  "Encode f = MagicAVMP @ putBE32 (of_nat (10 + length (f_Payload f))) @ putBE16 (f_Type f) @ f_Payload f"
  unfolding Encode_def Let_def by (simp add: layout_simps)

lemma length_Encode [simp]: "length (Encode f) = 10 + length (f_Payload f)"
  by (simp add: Encode_layout)

lemma slice3_split:
  "length xs = 10 \<Longrightarrow> xs = slice 0 4 xs @ slice 4 8 xs @ slice 8 10 xs"
  by (simp add: slice_join slice_full)

lemma ReadFrame_Encode:
  "length (f_Payload f) < 4294967286 \<Longrightarrow> ReadFrame (Encode f @ rest) = (Inr f, rest)"
proof -
  assume len: "length (f_Payload f) < 4294967286"
  let ?n = "of_nat (10 + length (f_Payload f)) :: u32"
  let ?hdr = "MagicAVMP @ putBE32 ?n @ putBE16 (f_Type f)"
  have u: "unat ?n = 10 + length (f_Payload f)" using len by (subst unat_of_nat_u32) simp_all
  have nlt: "\<not> ?n < 10" using u by (simp add: word_less_nat_alt)
  have e: "Encode f @ rest = ?hdr @ f_Payload f @ rest" by (simp add: Encode_layout)
  have s: "slice 0 4 ?hdr = MagicAVMP" "slice 4 8 ?hdr = putBE32 ?n" "slice 8 10 ?hdr = putBE16 (f_Type f)"
    by (simp_all add: slice_def)
  have r1: "ReadFull 10 (?hdr @ f_Payload f @ rest) = (Inr ?hdr, f_Payload f @ rest)"
    by (rule ReadFull_append) simp
  have r2: "ReadFull (unat ?n - 10) (f_Payload f @ rest) = (Inr (f_Payload f), rest)"
    by (rule ReadFull_append) (simp add: u del: of_nat_add)
  show ?thesis unfolding e ReadFrame_def r1
    by (simp only: r2 prod.case sum.case s Let_def be32_putBE32 be16_putBE16 nlt if_False simp_thms)
      simp
qed

lemma ReadFrame_Inr:
  assumes "ReadFrame s = (Inr f, rest)"
  shows "s = Encode f @ rest \<and> length (f_Payload f) < 4294967286"
proof -
  obtain hdr r where 1: "ReadFull 10 s = (Inr hdr, r)"
    using assms by (auto simp: ReadFrame_def split: prod.splits sum.splits)
  let ?t = "be32 (slice 4 8 hdr)"
  have m: "slice 0 4 hdr = MagicAVMP" and t: "\<not> ?t < 10"
    and 2: "ReadFull (unat ?t - 10) r = (Inr (f_Payload f), rest)"
    and ty: "f_Type f = be16 (slice 8 10 hdr)"
    using assms 1 by (auto simp: ReadFrame_def Let_def split: prod.splits sum.splits if_splits)
  have h: "length hdr = 10" "s = hdr @ f_Payload f @ rest" "length (f_Payload f) = unat ?t - 10"
    using 1 2 by (auto simp: ReadFull_Inr)
  have ge: "10 \<le> unat ?t" using t by (simp add: word_less_nat_alt)
  then have "of_nat (10 + length (f_Payload f)) = ?t" by (simp add: h(3) del: of_nat_add)
  then have "Encode f = slice 0 4 hdr @ slice 4 8 hdr @ slice 8 10 hdr @ f_Payload f"
    by (simp add: Encode_layout m ty h(1) del: of_nat_add)
  moreover have "length (f_Payload f) < 4294967286"
    using h(3) ge unat_u32_bound [of ?t] by simp
  ultimately show ?thesis using h(2) slice3_split [OF h(1)] by simp
qed

section \<open>Lemmas: the BEEF envelope\<close>

lemma AVPTEncode_layout:
  "AVPTEncode f = MagicBEEF @ putBE16 (a_ID f) @ putBE16 (of_nat (8 + length (a_Payload f))) @ a_Payload f"
  unfolding AVPTEncode_def Let_def by (simp add: layout_simps)

lemma length_AVPTEncode [simp]: "length (AVPTEncode f) = 8 + length (a_Payload f)"
  by (simp add: AVPTEncode_layout)

lemma ReadAVPTFrame_any_magic:
  assumes len: "length (a_Payload f) < 65528" and m: "length magic = 4"
  shows "ReadAVPTFrame (magic @ drop 4 (AVPTEncode f) @ rest) = (Inr f, rest)"
proof -
  let ?n = "of_nat (8 + length (a_Payload f)) :: u16"
  let ?hdr = "magic @ putBE16 (a_ID f) @ putBE16 ?n"
  have u: "unat ?n = 8 + length (a_Payload f)" using len by (subst unat_of_nat_u16) simp_all
  have nlt: "\<not> unat ?n < 8" using u by simp
  have e: "magic @ drop 4 (AVPTEncode f) @ rest = ?hdr @ a_Payload f @ rest"
    by (simp add: AVPTEncode_layout)
  have s: "slice 4 6 ?hdr = putBE16 (a_ID f)" "slice 6 8 ?hdr = putBE16 ?n"
    using m by (simp_all add: slice_def)
  have r1: "ReadFull 8 (?hdr @ a_Payload f @ rest) = (Inr ?hdr, a_Payload f @ rest)"
    by (rule ReadFull_append) (simp add: m)
  have r2: "ReadFull (unat ?n - 8) (a_Payload f @ rest) = (Inr (a_Payload f), rest)"
    by (rule ReadFull_append) (simp add: u del: of_nat_add)
  show ?thesis unfolding e ReadAVPTFrame_def r1
    by (simp only: r2 prod.case sum.case s Let_def be16_putBE16 nlt if_False) simp
qed

lemma ReadAVPTFrame_Encode:
  "length (a_Payload f) < 65528 \<Longrightarrow> ReadAVPTFrame (AVPTEncode f @ rest) = (Inr f, rest)"
  using ReadAVPTFrame_any_magic [of f MagicBEEF rest] by (simp add: AVPTEncode_layout)

lemma ReadAVPTFrame_Inr:
  assumes "ReadAVPTFrame s = (Inr f, rest)"
  shows "s = take 4 s @ drop 4 (AVPTEncode f) @ rest \<and> 4 \<le> length s \<and> length (a_Payload f) < 65528"
proof -
  obtain hdr r where 1: "ReadFull 8 s = (Inr hdr, r)"
    using assms by (auto simp: ReadAVPTFrame_def split: prod.splits sum.splits)
  let ?t = "be16 (slice 6 8 hdr)"
  have t: "\<not> unat ?t < 8"
    and 2: "ReadFull (unat ?t - 8) r = (Inr (a_Payload f), rest)"
    and ty: "a_ID f = be16 (slice 4 6 hdr)"
    using assms 1 by (auto simp: ReadAVPTFrame_def Let_def split: prod.splits sum.splits if_splits)
  have h: "length hdr = 8" "s = hdr @ a_Payload f @ rest" "length (a_Payload f) = unat ?t - 8"
    using 1 2 by (auto simp: ReadFull_Inr)
  have hd: "hdr = take 4 s @ slice 4 6 hdr @ slice 6 8 hdr"
    using h(1) by (simp add: h(2) slice_join) (simp add: slice_def)
  have "of_nat (8 + length (a_Payload f)) = ?t" using t by (simp add: h(3) del: of_nat_add)
  then have e: "drop 4 (AVPTEncode f) = slice 4 6 hdr @ slice 6 8 hdr @ a_Payload f"
    by (simp add: AVPTEncode_layout ty h(1) del: of_nat_add)
  have "s = take 4 s @ drop 4 (AVPTEncode f) @ rest"
    unfolding e using h(2) hd by (metis append.assoc)
  moreover have "length (a_Payload f) < 65528"
    using h(3) t unat_u16_bound [of ?t] by simp
  ultimately show ?thesis using h by simp
qed

interpretation avmp: framing Encode ReadFrame "\<lambda>f. length (f_Payload f) < 4294967286"
proof unfold_locales
  show "ReadFrame [] = (Inl EOF, [])" by (simp add: ReadFrame_def ReadFull_def)
qed (auto simp: ReadFrame_Encode dest!: ReadFrame_Inr)

interpretation avpt: framing AVPTEncode ReadAVPTFrame "\<lambda>f. length (a_Payload f) < 65528"
proof unfold_locales
  show "ReadAVPTFrame [] = (Inl EOF, [])" by (simp add: ReadAVPTFrame_def ReadFull_def)
next
  fix s f s' assume "ReadAVPTFrame s = (Inr f, s')"
  then have "s = take 4 s @ drop 4 (AVPTEncode f) @ s'" "4 \<le> length s"
    by (auto dest: ReadAVPTFrame_Inr)
  then have "length s = 4 + (4 + length (a_Payload f)) + length s'"
    by (metis (no_types, lifting) length_AVPTEncode add.assoc diff_add_inverse length_append
        length_drop length_take min.absorb2 numeral_Bit0)
  then show "length s' < length s" by simp
qed (simp add: ReadAVPTFrame_Encode)

section \<open>Lemmas: the handshake packets\<close>

lemma EncodeSessionRequest_layout:
  "length (sr_Nonce r) = 32 \<Longrightarrow>
   EncodeSessionRequest r = MagicAPCP @ putBE32 53 @ putBE16 ProtoVersion @ replicate 2 0
     @ [sr_SessionType r, sr_Field2 r, sr_Field3 r] @ replicate 1 0 @ putBE32 (sr_Capability r)
     @ [sr_NonceLen r] @ sr_Nonce r"
  unfolding EncodeSessionRequest_def Let_def by (simp add: layout_simps)

lemma EncodeLogin_layout:
  assumes "length (lr_Username l) \<le> 96" "length (lr_Password l) \<le> 32"
  shows "EncodeLogin l = Inr (MagicAVMP @ putBE32 153 @ putBE16 ProtoVersion @ replicate 2 0
     @ [of_nat (length (lr_Username l))]
     @ lr_Username l @ replicate (96 - length (lr_Username l)) 0 @ lr_Password l
     @ (if lr_Preempt l then replicate (43 - length (lr_Password l)) 0 @ [1]
        else replicate (44 - length (lr_Password l)) 0))"
  using assms unfolding EncodeLogin_def Let_def by (simp add: layout_simps)

lemma EncodeKVMLogin_layout:
  assumes "length (kl_Username l) \<le> 96" "length (kl_Password l) \<le> 96"
  shows "EncodeKVMLogin l = Inr (AVPTEncode
     \<lparr>a_ID = (if kl_Extended l then 258 else 256),
      a_Payload = [of_nat (length (kl_Username l))]
        @ kl_Username l @ replicate (96 - length (kl_Username l)) 0
        @ [of_nat (length (kl_Password l))]
        @ kl_Password l @ replicate (104 - length (kl_Password l)) 0
        @ [kl_ProtoMajor l, kl_ProtoMinor l] @ putBE32 (kl_Session l)
        @ (if kl_Extended l then [kl_Option l] else [])\<rparr>)"
  using assms unfolding EncodeKVMLogin_def Let_def by (simp add: layout_simps)

lemma EncodeVideoSyncDC_layout:
  "EncodeVideoSyncDC c s = replicate 4 0 @ [1, 1] @ putBE16 16 @ putBE32 c @ putBE32 s"
  unfolding EncodeVideoSyncDC_def Let_def by (simp add: layout_simps)

lemma EncodeLogin_fields:
  assumes "EncodeLogin l = Inr buf"
  shows "length buf = 153 \<and> slice 0 4 buf = MagicAVMP \<and> be32 (slice 4 8 buf) = 153
    \<and> unat (buf ! 12) = length (lr_Username l)
    \<and> slice 13 (13 + unat (buf ! 12)) buf = lr_Username l
    \<and> take (length (lr_Password l)) (slice 109 141 buf) = lr_Password l
    \<and> list_all (\<lambda>b. b = 0) (drop (length (lr_Password l)) (slice 109 152 buf))
    \<and> (buf ! 152 = (if lr_Preempt l then 1 else 0))"
proof -
  from assms have le: "length (lr_Username l) \<le> 96" "length (lr_Password l) \<le> 32"
    by (auto simp: EncodeLogin_def split: if_splits)
  then have buf: "buf = MagicAVMP @ putBE32 153 @ putBE16 ProtoVersion @ replicate 2 0
     @ [of_nat (length (lr_Username l))]
     @ lr_Username l @ replicate (96 - length (lr_Username l)) 0 @ lr_Password l
     @ (if lr_Preempt l then replicate (43 - length (lr_Password l)) 0 @ [1]
        else replicate (44 - length (lr_Password l)) 0)"
    using assms EncodeLogin_layout [OF le] by simp
  have n: "unat (of_nat (length (lr_Username l)) :: byte) = length (lr_Username l)"
    using le by (intro unat_of_nat_byte) simp
  show ?thesis unfolding buf using le
    by (auto simp: n slice_def nth_append list_all_iff layout_simps split: if_splits)
qed

lemma unat_len_byte: "length xs \<le> 96 \<Longrightarrow> unat (of_nat (length xs) :: byte) = length xs"
  by (intro unat_of_nat_byte) simp

section \<open>Properties\<close>

text \<open>C3: The AVMP reader accepts exactly the encodings: it returns a frame and leaves \<open>rest\<close> unread if
  and only if the stream is that frame's encoding followed by \<open>rest\<close> (and the length fits its 32-bit
  field).  Hence decoding inverts encoding, no byte of a following frame is consumed, and no other
  input is taken for a frame.\<close>

theorem ReadFrame_exact:
  "ReadFrame s = (Inr f, rest) \<longleftrightarrow> s = Encode f @ rest \<and> length (f_Payload f) < 2 ^ 32 - 10"
  using ReadFrame_Inr [of s f rest] ReadFrame_Encode [of f rest] by auto

text \<open>A read loop over the concatenated encodings of any list of AVMP frames delivers exactly those
  frames, in order, and then ends with a clean \<open>io.EOF\<close>.\<close>

theorem avmp_stream_delivers:
  assumes "list_all (\<lambda>f. length (f_Payload f) < 2 ^ 32 - 10) fs"
  shows "read_all ReadFrame (Suc (length fs)) (concat (map Encode fs)) = Some (fs, EOF)"
  using assms by (intro avmp.read_all_frames) auto

theorem avmp_stream_delivers_witness:
  "read_all ReadFrame 3 (concat (map Encode [Heartbeat, \<lparr>f_Type = 0x8110, f_Payload = [1]\<rparr>]))
     = Some ([Heartbeat, \<lparr>f_Type = 0x8110, f_Payload = [1]\<rparr>], EOF)"
  using avmp_stream_delivers [of "[Heartbeat, \<lparr>f_Type = 0x8110, f_Payload = [1]\<rparr>]"]
  by (simp add: Heartbeat_def numeral_3_eq_3)

text \<open>The BEEF reader accepts a stream exactly when, after any four magic bytes (the BMC often sends
  zeros), it continues with the encoding of the frame it returns; it consumes nothing beyond it.\<close>

theorem ReadAVPTFrame_exact:
  "ReadAVPTFrame s = (Inr f, rest) \<longleftrightarrow>
     4 \<le> length s \<and> s = take 4 s @ drop 4 (AVPTEncode f) @ rest \<and> length (a_Payload f) < 2 ^ 16 - 8"
proof
  assume "ReadAVPTFrame s = (Inr f, rest)"
  then show "4 \<le> length s \<and> s = take 4 s @ drop 4 (AVPTEncode f) @ rest \<and> length (a_Payload f) < 2 ^ 16 - 8"
    by (auto dest: ReadAVPTFrame_Inr)
next
  assume r: "4 \<le> length s \<and> s = take 4 s @ drop 4 (AVPTEncode f) @ rest \<and> length (a_Payload f) < 2 ^ 16 - 8"
  then have "ReadAVPTFrame (take 4 s @ drop 4 (AVPTEncode f) @ rest) = (Inr f, rest)"
    by (intro ReadAVPTFrame_any_magic) auto
  with r show "ReadAVPTFrame s = (Inr f, rest)" by metis
qed

text \<open>The BEEF length field is 16 bits wide and \<open>Encode\<close> does not check it: a frame survives the
  round trip if and only if its payload is shorter than 65528 bytes.\<close>

theorem avpt_roundtrip_iff_short:
  "ReadAVPTFrame (AVPTEncode f @ rest) = (Inr f, rest) \<longleftrightarrow> length (a_Payload f) < 65528"
  using ReadAVPTFrame_Inr [of "AVPTEncode f @ rest" f rest] ReadAVPTFrame_Encode [of f rest] by auto

text \<open>\<open>EncodeLogin\<close> refuses exactly the over-long credentials; otherwise it produces a 153-byte AVMP
  frame from which the user name (by its length byte), the zero-padded password and the preempt flag
  can be read back.\<close>

theorem login_frame_fields:
  "case EncodeLogin l of
     Inl e \<Rightarrow> length (lr_Username l) > 96 \<or> length (lr_Password l) > 32
   | Inr buf \<Rightarrow> length (lr_Username l) \<le> 96 \<and> length (lr_Password l) \<le> 32
       \<and> length buf = 153 \<and> slice 0 4 buf = MagicAVMP \<and> be32 (slice 4 8 buf) = 153
       \<and> slice 13 (13 + unat (buf ! 12)) buf = lr_Username l
       \<and> take (length (lr_Password l)) (slice 109 141 buf) = lr_Password l
       \<and> list_all (\<lambda>b. b = 0) (drop (length (lr_Password l)) (slice 109 152 buf))
       \<and> (buf ! 152 = 1 \<longleftrightarrow> lr_Preempt l)"
proof (cases "EncodeLogin l")
  case (Inl e)
  then show ?thesis by (auto simp: EncodeLogin_def Let_def split: if_splits)
next
  case (Inr buf)
  then have "length (lr_Username l) \<le> 96" "length (lr_Password l) \<le> 32"
    by (auto simp: EncodeLogin_def split: if_splits)
  with Inr EncodeLogin_fields [OF Inr] show ?thesis by auto
qed

text \<open>The KVM login packet, read back through the BEEF reader, is one frame of id 256 (258 when
  extended) whose payload has 208 (209) bytes and carries the user name, the password, the session id
  and the protocol version at the documented offsets.\<close>

theorem kvm_login_roundtrip:
  assumes "EncodeKVMLogin l = Inr buf"
  shows "\<exists>p. ReadAVPTFrame (buf @ rest) = (Inr \<lparr>a_ID = (if kl_Extended l then 258 else 256), a_Payload = p\<rparr>, rest)
     \<and> length p = (if kl_Extended l then 209 else 208)
     \<and> slice 1 (1 + unat (p ! 0)) p = kl_Username l
     \<and> slice 98 (98 + unat (p ! 97)) p = kl_Password l
     \<and> p ! 202 = kl_ProtoMajor l \<and> p ! 203 = kl_ProtoMinor l
     \<and> be32 (slice 204 208 p) = kl_Session l
     \<and> (if kl_Extended l then p ! 208 = kl_Option l else True)"
proof -
  from assms have le: "length (kl_Username l) \<le> 96" "length (kl_Password l) \<le> 96"
    by (auto simp: EncodeKVMLogin_def split: if_splits)
  define p where "p = [of_nat (length (kl_Username l))]
        @ kl_Username l @ replicate (96 - length (kl_Username l)) 0
        @ [of_nat (length (kl_Password l))]
        @ kl_Password l @ replicate (104 - length (kl_Password l)) 0
        @ [kl_ProtoMajor l, kl_ProtoMinor l] @ putBE32 (kl_Session l)
        @ (if kl_Extended l then [kl_Option l] else [])"
  let ?f = "\<lparr>a_ID = (if kl_Extended l then 258 else 256), a_Payload = p\<rparr>"
  have len: "length p = (if kl_Extended l then 209 else 208)" using le by (simp add: p_def)
  have buf: "buf = AVPTEncode ?f" using assms EncodeKVMLogin_layout [OF le] by (simp add: p_def)
  have rd: "ReadAVPTFrame (buf @ rest) = (Inr ?f, rest)"
    unfolding buf by (rule ReadAVPTFrame_Encode) (simp add: len)
  have u: "slice 1 (1 + unat (p ! 0)) p = kl_Username l"
    using le by (simp add: p_def slice_def unat_len_byte)
  have pw: "p ! 97 = of_nat (length (kl_Password l))" "slice 98 (98 + length (kl_Password l)) p = kl_Password l"
    using le by (simp_all add: p_def nth_append nth_Cons' slice_def drop_append drop_Cons')
  have dr: "drop 202 p = [kl_ProtoMajor l, kl_ProtoMinor l] @ putBE32 (kl_Session l)
      @ (if kl_Extended l then [kl_Option l] else [])"
    using le by (simp add: p_def drop_append drop_Cons')
  have tail: "p ! 202 = kl_ProtoMajor l" "p ! 203 = kl_ProtoMinor l"
    "if kl_Extended l then p ! 208 = kl_Option l else True"
    using nth_drop [of 202 p 0] nth_drop [of 202 p 1] nth_drop [of 202 p 6]
    by (cases "kl_Extended l"; simp add: dr len putBE32_def)+
  have "drop 204 p = putBE32 (kl_Session l) @ (if kl_Extended l then [kl_Option l] else [])"
    using drop_drop [of 2 202 p] by (simp add: dr)
  then have sess: "be32 (slice 204 208 p) = kl_Session l" by (simp add: slice_def)
  show ?thesis using rd len u pw tail sess le
    by (intro exI [of _ p]) (simp add: unat_len_byte)
qed

theorem kvm_login_roundtrip_witness:
  "\<exists>buf p. EncodeKVMLogin \<lparr>kl_Username = [97, 98], kl_Password = [99], kl_ProtoMajor = 1, kl_ProtoMinor = 0,
       kl_Session = 42, kl_Extended = True, kl_Option = 0\<rparr> = Inr buf
     \<and> ReadAVPTFrame buf = (Inr \<lparr>a_ID = 258, a_Payload = p\<rparr>, []) \<and> be32 (slice 204 208 p) = 42"
proof -
  let ?l = "\<lparr>kl_Username = [97, 98], kl_Password = [99], kl_ProtoMajor = 1, kl_ProtoMinor = 0,
       kl_Session = 42, kl_Extended = True, kl_Option = 0\<rparr>"
  obtain buf where b: "EncodeKVMLogin ?l = Inr buf" using EncodeKVMLogin_layout [of ?l] by simp
  from kvm_login_roundtrip [OF b, of "[]"] b show ?thesis by auto
qed

text \<open>A KVM login reply of fewer than ten payload bytes decodes to the zero response, which reads as
  status \<open>SUCCEEDED\<close> and as needing no companion socket; from ten bytes on the companion flag is the
  complement of bit 0 of the flags and the status is the first byte.\<close>

theorem kvm_response_decoding:
  "if length (a_Payload f) < 10
   then LoginStatusName (kr_Status (DecodeKVMLoginResponse f)) = ''SUCCEEDED''
     \<and> \<not> kr_NeedsCompanion (DecodeKVMLoginResponse f)
   else kr_Status (DecodeKVMLoginResponse f) = a_Payload f ! 0
     \<and> (kr_NeedsCompanion (DecodeKVMLoginResponse f) \<longleftrightarrow> \<not> bit (kr_Flags (DecodeKVMLoginResponse f)) 0)
     \<and> kr_Flags (DecodeKVMLoginResponse f)
        = (if a_ID f = 33541 then be16 (slice 8 10 (a_Payload f)) else ucast (a_Payload f ! 3))"
proof -
  have b0: "(w AND 1 = 0) \<longleftrightarrow> \<not> bit w 0" for w :: u16
    by (simp add: and_one_eq bit_0 mod_2_eq_odd)
  have ok: "LoginStatusName 0 = ''SUCCEEDED''" by code_simp
  show ?thesis by (simp add: DecodeKVMLoginResponse_def Let_def kr_zero_def ok b0)
qed

text \<open>In the AVMP message catalogue the names are pairwise distinct and the top bit of the type tells
  the direction: set for the server's messages, clear for the client's.\<close>

theorem msg_type_catalogue:
  "distinct (map fst msgTypeName) \<and> distinct (map snd msgTypeName)
   \<and> list_all (\<lambda>(t, n). \<not> bit t 15 \<and> MsgTypeName t = n) client_msgs
   \<and> list_all (\<lambda>(t, n). bit t 15 \<and> MsgTypeName t = n) server_msgs"
  by code_simp

end
