(* ===== verification/Input_Event.thy ===== *)
theory Input_Event
  imports Apcp_Frame
begin

text \<open>
  Keyboard and mouse events as BEEF frames (\<open>internal/input/input.go\<close>).  Go's conversions
  \<open>uint16(x)\<close> of an \<open>int\<close> keep the low sixteen bits, which is \<open>word_of_int\<close>.
\<close>

definition KeyEvent :: "u16 \<Rightarrow> bool \<Rightarrow> bytes" where
  "KeyEvent key pressed =
     (let body = mk_buf 8;
          body = (if \<not> pressed then body[1 := 1] else body);
          body = copy_to 2 4 (putBE16 key) body
      in AVPTEncode \<lparr>a_ID = 512, a_Payload = body\<rparr>)"

definition MouseAbsolute :: "int \<Rightarrow> int \<Rightarrow> byte \<Rightarrow> int \<Rightarrow> bytes" where
  "MouseAbsolute x y buttons wheel =
     (let x = (if x < 0 then 0 else x);
          y = (if y < 0 then 0 else y);
          body = mk_buf 8;
          body = body[1 := buttons];
          body = copy_to 2 4 (putBE16 (word_of_int x)) body;
          body = copy_to 4 6 (putBE16 (word_of_int y)) body;
          body = copy_to 6 8 (putBE16 (word_of_int wheel)) body
      in AVPTEncode \<lparr>a_ID = 513, a_Payload = body\<rparr>)"

definition MouseRelative :: "int \<Rightarrow> int \<Rightarrow> byte \<Rightarrow> int \<Rightarrow> bytes" where
  "MouseRelative dx dy buttons wheel =
     (let body = mk_buf 8;
          body = body[1 := buttons];
          body = copy_to 2 4 (putBE16 (word_of_int dx)) body;
          body = copy_to 4 6 (putBE16 (word_of_int dy)) body;
          body = copy_to 6 8 (putBE16 (word_of_int wheel)) body
      in AVPTEncode \<lparr>a_ID = 521, a_Payload = body\<rparr>)"

section \<open>Lemmas\<close>

lemma KeyEvent_layout:
  "KeyEvent key pressed = AVPTEncode \<lparr>a_ID = 512,
     a_Payload = [0, if pressed then 0 else 1] @ putBE16 key @ replicate 4 0\<rparr>"
  unfolding KeyEvent_def Let_def by (simp add: layout_simps numeral_2_eq_2)

lemma MouseAbsolute_layout:
  "MouseAbsolute x y buttons wheel = AVPTEncode \<lparr>a_ID = 513,
     a_Payload = [0, buttons] @ putBE16 (word_of_int (max 0 x)) @ putBE16 (word_of_int (max 0 y))
       @ putBE16 (word_of_int wheel)\<rparr>"
  unfolding MouseAbsolute_def Let_def by (simp add: layout_simps max_def)

lemma MouseRelative_layout:
  "MouseRelative dx dy buttons wheel = AVPTEncode \<lparr>a_ID = 521,
     a_Payload = [0, buttons] @ putBE16 (word_of_int dx) @ putBE16 (word_of_int dy)
       @ putBE16 (word_of_int wheel)\<rparr>"
  unfolding MouseRelative_def Let_def by (simp add: layout_simps)

lemma sint_u16_id: "- 32768 \<le> k \<Longrightarrow> k < 32768 \<Longrightarrow> sint (word_of_int k :: u16) = k"
  by (simp add: signed_of_int signed_take_bit_int_eq_self)

lemma uint_u16_id: "0 \<le> k \<Longrightarrow> k < 65536 \<Longrightarrow> uint (word_of_int k :: u16) = k"
  by (simp add: unsigned_of_int take_bit_int_eq_self)

section \<open>Properties\<close>

text \<open>Every input event becomes one BEEF frame that reads back whole and whose fields decode to the
  event: a key with its press flag and usage code; an absolute mouse position with negative coordinates
  clamped to zero and everything else in 16-bit range unchanged; a relative motion with signed deltas;
  the wheel as a signed short.\<close>

theorem input_frames_decode:
  assumes "x < 2 ^ 16" "y < 2 ^ 16" "- (2 ^ 15) \<le> dx" "dx < 2 ^ 15" "- (2 ^ 15) \<le> dy" "dy < 2 ^ 15"
    and "- (2 ^ 15) \<le> wheel" "wheel < 2 ^ 15"
  shows "(\<exists>p. ReadAVPTFrame (KeyEvent key pressed @ rest) = (Inr \<lparr>a_ID = 512, a_Payload = p\<rparr>, rest)
      \<and> length p = 8 \<and> (p ! 1 = 0 \<longleftrightarrow> pressed) \<and> be16 (slice 2 4 p) = key)
    \<and> (\<exists>p. ReadAVPTFrame (MouseAbsolute x y buttons wheel @ rest) = (Inr \<lparr>a_ID = 513, a_Payload = p\<rparr>, rest)
      \<and> p ! 1 = buttons \<and> uint (be16 (slice 2 4 p)) = max 0 x \<and> uint (be16 (slice 4 6 p)) = max 0 y
      \<and> sint (be16 (slice 6 8 p)) = wheel)
    \<and> (\<exists>p. ReadAVPTFrame (MouseRelative dx dy buttons wheel @ rest) = (Inr \<lparr>a_ID = 521, a_Payload = p\<rparr>, rest)
      \<and> p ! 1 = buttons \<and> sint (be16 (slice 2 4 p)) = dx \<and> sint (be16 (slice 4 6 p)) = dy
      \<and> sint (be16 (slice 6 8 p)) = wheel)"
proof (intro conjI)
  note rd = ReadAVPTFrame_Encode and fields = slice_def sint_u16_id uint_u16_id
  show "\<exists>p. ReadAVPTFrame (KeyEvent key pressed @ rest) = (Inr \<lparr>a_ID = 512, a_Payload = p\<rparr>, rest)
      \<and> length p = 8 \<and> (p ! 1 = 0 \<longleftrightarrow> pressed) \<and> be16 (slice 2 4 p) = key"
    by (simp add: KeyEvent_layout rd fields)
  show "\<exists>p. ReadAVPTFrame (MouseAbsolute x y buttons wheel @ rest) = (Inr \<lparr>a_ID = 513, a_Payload = p\<rparr>, rest)
      \<and> p ! 1 = buttons \<and> uint (be16 (slice 2 4 p)) = max 0 x \<and> uint (be16 (slice 4 6 p)) = max 0 y
      \<and> sint (be16 (slice 6 8 p)) = wheel"
    using assms by (simp add: MouseAbsolute_layout rd fields)
  show "\<exists>p. ReadAVPTFrame (MouseRelative dx dy buttons wheel @ rest) = (Inr \<lparr>a_ID = 521, a_Payload = p\<rparr>, rest)
      \<and> p ! 1 = buttons \<and> sint (be16 (slice 2 4 p)) = dx \<and> sint (be16 (slice 4 6 p)) = dy
      \<and> sint (be16 (slice 6 8 p)) = wheel"
    using assms by (simp add: MouseRelative_layout rd fields)
qed

theorem input_frames_decode_witness:
  "\<exists>p. ReadAVPTFrame (MouseAbsolute (-5) 767 1 (-1)) = (Inr \<lparr>a_ID = 513, a_Payload = p\<rparr>, [])
     \<and> uint (be16 (slice 2 4 p)) = 0 \<and> uint (be16 (slice 4 6 p)) = 767 \<and> sint (be16 (slice 6 8 p)) = -1"
  using input_frames_decode [of "-5" 767 0 0 "-1" 4 True "[]" 1] by auto

end
