(* ===== verification/Capture_Log.thy ===== *)
theory Capture_Log
  imports Apcp_Frame
begin

text \<open>
  Session captures (\<open>internal/apcplog/capture.go\<close>).  A writer is the content of its two files; the
  clock reading and the outcome of each file write are arguments.  A failed write is taken to have
  written nothing.  The record format of the package comment is given as a reader specification
  (\<open>read_record\<close>), against which \<open>Raw\<close> is shown to round-trip through the \<open>framing\<close> interface.
\<close>

text \<open>A direction is a byte: 0 client to server, 1 server to client, 2 note.\<close>

definition dir_string :: "byte \<Rightarrow> string" where
  "dir_string d = (if d = 0 then ''c2s'' else if d = 1 then ''s2c'' else if d = 2 then ''note''
     else ''dir'' @ dec (unat d))"

text \<open>One line of the \<open>.jsonl\<close> sidecar: a frame record, or an annotation.\<close>

datatype json_line =
    JFrame u64 string u16 string nat string
  | JNote u64 string bytes

record Writer =
  w_bin :: bytes
  w_json :: "json_line list"

text \<open>The outcomes of creating the directory and the two files, and of closing them, are arguments.\<close>

definition NewWriter :: "gerror option \<Rightarrow> gerror option \<Rightarrow> gerror option \<Rightarrow> Writer result" where
  "NewWriter mkdir create_bin create_json =
     (case mkdir of
        Some e \<Rightarrow> Inl e
      | None \<Rightarrow>
          (case create_bin of
             Some e \<Rightarrow> Inl e
           | None \<Rightarrow> (case create_json of Some e \<Rightarrow> Inl e | None \<Rightarrow> Inr \<lparr>w_bin = [], w_json = []\<rparr>)))"

definition writer_Close :: "gerror option \<Rightarrow> gerror option \<Rightarrow> gerror option" where
  "writer_Close err1 err2 = (if err1 \<noteq> None then err1 else err2)"

definition raw_header :: "u64 \<Rightarrow> byte \<Rightarrow> nat \<Rightarrow> bytes" where
  "raw_header now dir n =
     (let hdr = mk_buf 13;
          hdr = copy_to 0 8 (putBE64 now) hdr;
          hdr = hdr[8 := dir]
      in copy_to 9 13 (putBE32 (of_nat n)) hdr)"

definition Raw ::
  "u64 \<Rightarrow> gerror option \<Rightarrow> gerror option \<Rightarrow> byte \<Rightarrow> bytes \<Rightarrow> Writer \<Rightarrow> gerror option \<times> Writer" where
  "Raw now wr1 wr2 dir data w =
     (case wr1 of
        Some e \<Rightarrow> (Some e, w)
      | None \<Rightarrow>
          let w = w\<lparr>w_bin := w_bin w @ raw_header now dir (length data)\<rparr>
          in case wr2 of
               Some e \<Rightarrow> (Some e, w)
             | None \<Rightarrow> (None, w\<lparr>w_bin := w_bin w @ data\<rparr>))"

definition LogFrame ::
  "u64 \<Rightarrow> gerror option \<Rightarrow> byte \<Rightarrow> u16 \<Rightarrow> string \<Rightarrow> bytes \<Rightarrow> Writer \<Rightarrow> gerror option \<times> Writer" where
  "LogFrame now wr dir msgType typeName payload w =
     (let preview = (if length payload > 256 then take 256 payload else payload);
          line = JFrame now (dir_string dir) msgType typeName (length payload) (hexs preview)
      in case wr of Some e \<Rightarrow> (Some e, w) | None \<Rightarrow> (None, w\<lparr>w_json := w_json w @ [line]\<rparr>))"

definition jsonNote :: "u64 \<Rightarrow> gerror option \<Rightarrow> bytes \<Rightarrow> Writer \<Rightarrow> gerror option \<times> Writer" where
  "jsonNote now wr msg w =
     (case wr of Some e \<Rightarrow> (Some e, w)
      | None \<Rightarrow> (None, w\<lparr>w_json := w_json w @ [JNote now ''note'' msg]\<rparr>))"

definition Note ::
  "u64 \<Rightarrow> u64 \<Rightarrow> gerror option \<Rightarrow> gerror option \<Rightarrow> gerror option \<Rightarrow> bytes \<Rightarrow> Writer
     \<Rightarrow> gerror option \<times> Writer" where
  "Note now1 now2 wr1 wr2 wr3 msg w =
     (case Raw now1 wr1 wr2 2 msg w of
        (Some e, w) \<Rightarrow> (Some e, w)
      | (None, w) \<Rightarrow> jsonNote now2 wr3 msg w)"

text \<open>
  The tee adapters: what the wrapped reader returned (bytes and error) is passed on unchanged, and the
  capture's own errors are dropped.
\<close>

definition tee_read ::
  "u64 \<Rightarrow> gerror option \<Rightarrow> gerror option \<Rightarrow> byte \<Rightarrow> bytes \<times> gerror option \<Rightarrow> Writer
     \<Rightarrow> (bytes \<times> gerror option) \<times> Writer" where
  "tee_read now wr1 wr2 dir r w =
     (if length (fst r) > 0 then (r, snd (Raw now wr1 wr2 dir (fst r) w)) else (r, w))"

definition tee_write ::
  "u64 \<Rightarrow> gerror option \<Rightarrow> gerror option \<Rightarrow> byte \<Rightarrow> (bytes \<Rightarrow> 'r) \<Rightarrow> bytes \<Rightarrow> Writer \<Rightarrow> 'r \<times> Writer" where
  "tee_write now wr1 wr2 dir dst p w = (dst p, snd (Raw now wr1 wr2 dir p w))"

section \<open>The documented record format\<close>

record capture_record =
  r_micros :: u64
  r_dir :: byte
  r_data :: bytes

definition enc_record :: "capture_record \<Rightarrow> bytes" where
  "enc_record r = raw_header (r_micros r) (r_dir r) (length (r_data r)) @ r_data r"

definition read_record :: "bytes \<Rightarrow> capture_record result \<times> bytes" where
  "read_record s =
     (case ReadFull 13 s of
        (Inl e, s) \<Rightarrow> (Inl e, s)
      | (Inr hdr, s) \<Rightarrow>
          (case ReadFull (unat (be32 (slice 9 13 hdr))) s of
             (Inl e, s) \<Rightarrow> (Inl e, s)
           | (Inr data, s) \<Rightarrow> (Inr \<lparr>r_micros = be64 (slice 0 8 hdr), r_dir = hdr ! 8, r_data = data\<rparr>, s)))"

section \<open>Lemmas\<close>

lemma raw_header_layout: "raw_header now dir n = putBE64 now @ [dir] @ putBE32 (of_nat n)"
  unfolding raw_header_def Let_def by (simp add: layout_simps)

lemma length_raw_header [simp]: "length (raw_header now dir n) = 13"
  by (simp add: raw_header_layout)

lemma Raw_ok: "Raw now None None dir data w
    = (None, w\<lparr>w_bin := w_bin w @ enc_record \<lparr>r_micros = now, r_dir = dir, r_data = data\<rparr>\<rparr>)"
  by (simp add: Raw_def enc_record_def)

lemma read_record_enc:
  assumes "length (r_data r) < 4294967296"
  shows "read_record (enc_record r @ rest) = (Inr r, rest)"
proof -
  let ?h = "raw_header (r_micros r) (r_dir r) (length (r_data r))"
  have 1: "ReadFull 13 (enc_record r @ rest) = (Inr ?h, r_data r @ rest)"
    unfolding enc_record_def append_assoc by (rule ReadFull_append) simp
  have 2: "slice 0 8 ?h = putBE64 (r_micros r)" "?h ! 8 = r_dir r"
    "slice 9 13 ?h = putBE32 (of_nat (length (r_data r)))"
    by (simp_all add: raw_header_layout slice_def nth_append)
  show ?thesis using assms by (simp add: read_record_def 1 2)
qed

interpretation capture: framing enc_record read_record "\<lambda>r. length (r_data r) < 4294967296"
proof unfold_locales
  show "read_record [] = (Inl EOF, [])" by (simp add: read_record_def ReadFull_def)
next
  fix s f s' assume "read_record s = (Inr f, s')"
  then show "length s' < length s"
    by (auto simp: read_record_def ReadFull_Inr split: prod.splits sum.splits)
qed (rule read_record_enc)

text \<open>A sequence of mirrored reads, each with its clock reading.\<close>

fun tee_reads :: "byte \<Rightarrow> (u64 \<times> bytes) list \<Rightarrow> Writer \<Rightarrow> Writer" where
  "tee_reads dir [] w = w"
| "tee_reads dir ((now, data) # rs) w = tee_reads dir rs (snd (tee_read now None None dir (data, None) w))"

definition records_of :: "byte \<Rightarrow> (u64 \<times> bytes) list \<Rightarrow> capture_record list" where
  "records_of dir rs = map (\<lambda>(now, data). \<lparr>r_micros = now, r_dir = dir, r_data = data\<rparr>)
     (filter (\<lambda>(now, data). data \<noteq> []) rs)"

lemma tee_reads_bin:
  "w_bin (tee_reads dir rs w) = w_bin w @ concat (map enc_record (records_of dir rs))"
  by (induction rs arbitrary: w) (auto simp: records_of_def tee_read_def Raw_ok)

section \<open>Properties\<close>

text \<open>Mirroring a sequence of reads into a fresh capture writes a file that parses, by the
  documented record format, into exactly one record per non-empty read, in order, with its time,
  direction and bytes; in particular the recorded payloads concatenate to the byte stream that was
  read.\<close>

theorem capture_roundtrip:
  assumes "list_all (\<lambda>(now, data). length data < 2 ^ 32) rs" and "w_bin w = []"
  shows "read_all read_record (Suc (length (records_of dir rs))) (w_bin (tee_reads dir rs w))
           = Some (records_of dir rs, EOF)
       \<and> concat (map r_data (records_of dir rs)) = concat (map snd rs)"
proof
  have "list_all (\<lambda>r. length (r_data r) < 4294967296) (records_of dir rs)"
    using assms(1) by (auto simp: list_all_iff records_of_def)
  then show "read_all read_record (Suc (length (records_of dir rs))) (w_bin (tee_reads dir rs w))
      = Some (records_of dir rs, EOF)"
    unfolding tee_reads_bin assms(2) append_Nil by (rule capture.read_all_frames) simp
  show "concat (map r_data (records_of dir rs)) = concat (map snd rs)"
    by (induction rs) (auto simp: records_of_def)
qed

theorem capture_roundtrip_witness:
  "read_all read_record 3 (w_bin (tee_reads 1 [(5, [1, 2]), (6, []), (7, [3])] \<lparr>w_bin = [], w_json = []\<rparr>))
     = Some ([\<lparr>r_micros = 5, r_dir = 1, r_data = [1, 2]\<rparr>, \<lparr>r_micros = 7, r_dir = 1, r_data = [3]\<rparr>], EOF)"
  using capture_roundtrip [of "[(5, [1, 2]), (6, []), (7, [3])]" "\<lparr>w_bin = [], w_json = []\<rparr>" 1]
  by (simp add: records_of_def numeral_3_eq_3)

lemma length_hexs: "length (hexs bs) = 2 * length bs"
  by (induction bs) (simp_all add: hexs_def hex2_def)

lemma LogFrame_preview_bounded:
  "LogFrame now None dir t n payload w = (r, w') \<Longrightarrow>
     \<exists>h. w_json w' = w_json w @ [JFrame now (dir_string dir) t n (length payload) h] \<and> length h \<le> 512"
  by (auto simp: LogFrame_def Let_def length_hexs)

end
