(* ===== verification/Video_Decoder.thy ===== *)
theory Video_Decoder
  imports Go_Prelude
begin

text \<open>
  The framebuffer and the run-length video decoder (\<open>internal/video/decoder.go\<close>).  Positions are Go \<open>int\<close>s, kept
  as \<open>int\<close>; reading or writing a pixel outside the slice is the panic it is in Go, so that its absence is a theorem.
\<close>

section \<open>Framebuffer\<close>

record Framebuffer =
  fb_Pixels :: "u32 list"
  fb_W :: int
  fb_H :: int
  fb_Cur :: int
  fb_Dirty :: bool

abbreviation npix :: "Framebuffer \<Rightarrow> int" where "npix fb \<equiv> int (length (fb_Pixels fb))"

abbreviation (input) pixel_panic :: gerror where "pixel_panic \<equiv> Panic ''index out of range''"

text \<open>\<open>f.Pixels[i] = c\<close> and \<open>f.Pixels[i]\<close>.\<close>

definition set_pixel :: "int \<Rightarrow> u32 \<Rightarrow> Framebuffer \<Rightarrow> Framebuffer result" where
  "set_pixel i c fb =
     (if 0 \<le> i \<and> i < npix fb then Inr (fb\<lparr>fb_Pixels := (fb_Pixels fb)[nat i := c]\<rparr>) else Inl pixel_panic)"

definition pixel_at :: "int \<Rightarrow> Framebuffer \<Rightarrow> u32 result" where
  "pixel_at i fb = (if 0 \<le> i \<and> i < npix fb then Inr (fb_Pixels fb ! nat i) else Inl pixel_panic)"

definition NewFramebuffer :: "nat \<Rightarrow> nat \<Rightarrow> Framebuffer" where
  "NewFramebuffer w h = \<lparr>fb_Pixels = replicate (w * h) 0, fb_W = int w, fb_H = int h, fb_Cur = 0, fb_Dirty = False\<rparr>"

text \<open>The slice is nil exactly when it was never made; a made slice of length zero is not nil.\<close>

definition Resize :: "nat \<Rightarrow> nat \<Rightarrow> Framebuffer \<Rightarrow> Framebuffer" where
  "Resize w h fb =
     (if int w = fb_W fb \<and> int h = fb_H fb then fb
      else \<lparr>fb_Pixels = replicate (w * h) 0xFF000000, fb_W = int w, fb_H = int h, fb_Cur = 0, fb_Dirty = True\<rparr>)"

definition putPixel :: "u32 \<Rightarrow> Framebuffer \<Rightarrow> Framebuffer result" where
  "putPixel c fb =
     (let fb = (if fb_Cur fb < 0 \<or> fb_Cur fb \<ge> npix fb then fb\<lparr>fb_Cur := 0\<rparr> else fb)
      in case set_pixel (fb_Cur fb) c fb of
           Inl e \<Rightarrow> Inl e
         | Inr fb \<Rightarrow> Inr (fb\<lparr>fb_Cur := fb_Cur fb + 1, fb_Dirty := True\<rparr>))"

function copy_loop :: "int \<Rightarrow> int \<Rightarrow> int \<Rightarrow> Framebuffer \<Rightarrow> Framebuffer result" where
  "copy_loop i stop src fb =
     (if i < stop \<and> src < npix fb then
        (case pixel_at src fb of
           Inl e \<Rightarrow> Inl e
         | Inr p \<Rightarrow>
             (case set_pixel i p fb of
                Inl e \<Rightarrow> Inl e
              | Inr fb \<Rightarrow> copy_loop (i + 1) stop (src + 1) fb))
      else Inr fb)"
  by pat_completeness auto
termination by (relation "measure (\<lambda>(i, stop, src, fb). nat (stop - i))") auto

definition copyFromPrev :: "int \<Rightarrow> int \<Rightarrow> Framebuffer \<Rightarrow> Framebuffer result" where
  "copyFromPrev src n fb =
     (if n \<le> 0 then Inr fb
      else if src < 0 then Inr fb
      else
        let stop = fb_Cur fb + n;
            stop = (if stop > npix fb then npix fb else stop)
        in case copy_loop (fb_Cur fb) stop src fb of
             Inl e \<Rightarrow> Inl e
           | Inr fb \<Rightarrow> Inr (fb\<lparr>fb_Cur := stop, fb_Dirty := True\<rparr>))"

function repeat_loop :: "int \<Rightarrow> int \<Rightarrow> u32 \<Rightarrow> Framebuffer \<Rightarrow> Framebuffer result" where
  "repeat_loop i stop c fb =
     (if i < stop then
        (case set_pixel i c fb of Inl e \<Rightarrow> Inl e | Inr fb \<Rightarrow> repeat_loop (i + 1) stop c fb)
      else Inr fb)"
  by pat_completeness auto
termination by (relation "measure (\<lambda>(i, stop, c, fb). nat (stop - i))") auto

definition repeatColor :: "u32 \<Rightarrow> int \<Rightarrow> Framebuffer \<Rightarrow> Framebuffer result" where
  "repeatColor c n fb =
     (if n \<le> 0 then Inr fb
      else
        let stop = fb_Cur fb + n;
            stop = (if stop > npix fb then npix fb else stop)
        in case repeat_loop (fb_Cur fb) stop c fb of
             Inl e \<Rightarrow> Inl e
           | Inr fb \<Rightarrow> Inr (fb\<lparr>fb_Cur := stop, fb_Dirty := True\<rparr>))"

definition writePixels :: "u32 list \<Rightarrow> Framebuffer \<Rightarrow> Framebuffer result" where
  "writePixels src fb =
     (let n = int (length src);
          stop = fb_Cur fb + n;
          (stop, n) = (if stop > npix fb then (npix fb, npix fb - fb_Cur fb) else (stop, n))
      in if 0 \<le> fb_Cur fb \<and> fb_Cur fb \<le> stop \<and> 0 \<le> n then
           Inr (fb\<lparr>fb_Pixels := copy_to (nat (fb_Cur fb)) (nat stop) (take (nat n) src) (fb_Pixels fb),
                  fb_Cur := stop, fb_Dirty := True\<rparr>)
         else Inl (Panic ''slice bounds out of range''))"

definition getPixel :: "int \<Rightarrow> Framebuffer \<Rightarrow> u32" where
  "getPixel i fb = (if i < 0 \<or> i \<ge> npix fb then 0xFF000000 else fb_Pixels fb ! nat i)"

section \<open>Colours\<close>

abbreviation Depth7Gray :: int where "Depth7Gray \<equiv> 7"
abbreviation Depth7Palette :: int where "Depth7Palette \<equiv> 8"
abbreviation Depth15 :: int where "Depth15 \<equiv> 15"
abbreviation Depth21 :: int where "Depth21 \<equiv> 21"

record Decoder =
  d_depth :: int
  d_lut :: "u32 list"
  d_palette :: "u32 list option"

definition cube_step :: "nat \<Rightarrow> u32" where
  "cube_step i = [0, 64, 128, 192, 255] ! i"

definition paletteC7 :: "u32 list" where
  "paletteC7 =
     concat (map (\<lambda>r. concat (map (\<lambda>g. map (\<lambda>b.
       0xFF000000 OR push_bit 16 (cube_step r) OR push_bit 8 (cube_step g) OR cube_step b) [0..<5]) [0..<5])) [0..<5])
     @ [0xFF606060, 0xFF9F9F9F, 0xFFDFDFDF]"

definition SetPalette :: "u32 list \<Rightarrow> Decoder \<Rightarrow> Decoder" where
  "SetPalette entries d =
     (let pal = (case d_palette d of None \<Rightarrow> paletteC7 | Some p \<Rightarrow> p);
          n = (if length entries > 128 then 128 else length entries)
      in d\<lparr>d_palette := Some (copy_to 0 n (take n entries) pal)\<rparr>)"

definition rgb555 :: "u32 \<Rightarrow> u32" where
  "rgb555 i =
     (let r = drop_bit 7 (i AND 0x7C00); g = drop_bit 2 (i AND 0x03E0); b = push_bit 3 (i AND 0x001F)
      in 0xFF000000 OR push_bit 16 r OR push_bit 8 g OR b)"

definition dec_int :: "int \<Rightarrow> string" where
  "dec_int n = (if n < 0 then ''-'' @ dec (nat (- n)) else dec (nat n))"

definition NewDecoder :: "int \<Rightarrow> Decoder result" where
  "NewDecoder depth =
     (if depth = Depth15 then
        Inr \<lparr>d_depth = depth, d_lut = map (\<lambda>i. rgb555 (of_nat i)) [0..<2 ^ 15], d_palette = None\<rparr>
      else if depth \<in> {Depth7Gray, Depth7Palette, Depth21} then
        Inr \<lparr>d_depth = depth, d_lut = [], d_palette = None\<rparr>
      else Inl (Panic (''video: depth '' @ dec_int depth @ '' not supported'')))"

text \<open>A colour or the error, with the number of bytes taken; a look-up past its table is a panic.\<close>

definition nth_or_panic :: "u32 list \<Rightarrow> nat \<Rightarrow> u32 result" where
  "nth_or_panic xs i = (if i < length xs then Inr (xs ! i) else Inl pixel_panic)"

definition readColor :: "Decoder \<Rightarrow> byte \<Rightarrow> bytes \<Rightarrow> (u32 \<times> nat) result" where
  "readColor d op tail =
     (if d_depth d = Depth7Gray then
        let g = push_bit 1 (ucast (op AND 0x7F)) :: u32
        in Inr (0xFF000000 OR push_bit 16 g OR push_bit 8 g OR g, 0)
      else if d_depth d = Depth7Palette then
        (case nth_or_panic (case d_palette d of Some p \<Rightarrow> p | None \<Rightarrow> paletteC7) (unat (op AND 0x7F)) of
           Inl e \<Rightarrow> Inl e | Inr c \<Rightarrow> Inr (c, 0))
      else if d_depth d = Depth15 then
        (if length tail < 1 then Inl (Errorf ''video: truncated RGB555 color'')
         else
           let idx = push_bit 8 (ucast (op AND 0x7F)) OR ucast (tail ! 0) :: u32
           in case nth_or_panic (d_lut d) (unat (idx AND 0x7FFF)) of Inl e \<Rightarrow> Inl e | Inr c \<Rightarrow> Inr (c, 1))
      else if d_depth d = Depth21 then
        (if length tail < 2 then Inl (Errorf ''video: truncated RGB777 color'')
         else
           let v = push_bit 16 (ucast (op AND 0x7F)) OR push_bit 8 (ucast (tail ! 0)) OR ucast (tail ! 1) :: u32;
               r = drop_bit 15 (v AND 0x7F8000);
               g = drop_bit 7 (v AND 0x007F80);
               b = push_bit 1 (v AND 0x00007F)
           in Inr (0xFF000000 OR push_bit 16 r OR push_bit 8 g OR (b AND 0xFF), 2))
      else Inl (Errorf (''video: depth '' @ dec_int (d_depth d) @ '' not supported'')))"

section \<open>Opcodes\<close>

function run_loop_video :: "byte \<Rightarrow> bytes \<Rightarrow> nat \<Rightarrow> nat \<Rightarrow> nat \<Rightarrow> nat \<times> nat" where
  "run_loop_video family tail run consumed shift =
     (if consumed < 4 \<and> consumed < length tail then
        let b = tail ! consumed
        in if b AND 0xE0 \<noteq> family then (run, consumed)
           else run_loop_video family tail (run OR push_bit shift (unat (b AND 0x1F))) (consumed + 1) (shift + 5)
      else (run, consumed))"
  by pat_completeness auto
termination by (relation "measure (\<lambda>(family, tail, run, consumed, shift). 4 - consumed)") auto

definition readRunLength :: "byte \<Rightarrow> byte \<Rightarrow> bytes \<Rightarrow> nat \<times> nat" where
  "readRunLength op family tail = run_loop_video family tail (unat (op AND 0x1F)) 0 5"

definition pickBit :: "byte \<Rightarrow> byte \<Rightarrow> u32 \<Rightarrow> u32 \<Rightarrow> u32" where
  "pickBit b m ifSet ifClear = (if b AND m \<noteq> 0 then ifSet else ifClear)"

text \<open>The scan for the previous distinct pixel: \<open>k\<close> counts down to \<open>lo\<close>.\<close>

function scan_back :: "int \<Rightarrow> int \<Rightarrow> u32 \<Rightarrow> Framebuffer \<Rightarrow> u32" where
  "scan_back k lo lastp fb =
     (if k \<ge> 0 \<and> k \<ge> lo then
        let p = getPixel k fb in if p \<noteq> lastp then p else scan_back (k - 1) lo lastp fb
      else lastp)"
  by pat_completeness auto
termination by (relation "measure (\<lambda>(k, lo, lastp, fb). nat (k + 1))") auto

fun pattern_loop :: "byte \<Rightarrow> bytes \<Rightarrow> u32 \<Rightarrow> u32 \<Rightarrow> Framebuffer \<Rightarrow> (nat \<times> Framebuffer) result" where
  "pattern_loop op [] prev lastp fb = Inr (0, fb)"
| "pattern_loop op (nb # tail) prev lastp fb =
     (if op AND 0x10 \<noteq> 0 then
        (case writePixels (map (\<lambda>m. pickBit nb m prev lastp) [0x40, 0x20, 0x10, 0x08, 0x04, 0x02, 0x01]) fb of
           Inl e \<Rightarrow> Inl e
         | Inr fb \<Rightarrow>
             (case pattern_loop nb tail prev lastp fb of
                Inl e \<Rightarrow> Inl e
              | Inr (n, fb) \<Rightarrow> Inr (Suc n, fb)))
      else Inr (0, fb))"

definition decode_pattern :: "byte \<Rightarrow> bytes \<Rightarrow> Framebuffer \<Rightarrow> (nat \<times> Framebuffer) result" where
  "decode_pattern op tail fb =
     (let lastp = getPixel (fb_Cur fb - 1) fb;
          limit = fb_Cur fb - 1;
          limit = (if limit > fb_W fb then fb_W fb else limit);
          prev = scan_back (fb_Cur fb - 1) (fb_Cur fb - 1 - limit) lastp fb
      in case writePixels (map (\<lambda>m. pickBit op m prev lastp) [0x08, 0x04, 0x02, 0x01]) fb of
           Inl e \<Rightarrow> Inl e
         | Inr fb \<Rightarrow> pattern_loop op tail prev lastp fb)"

text \<open>One opcode: the bytes taken after it, the error if any, the framebuffer.  \<open>Inl\<close> is a panic.\<close>

definition decode_op :: "Decoder \<Rightarrow> nat \<Rightarrow> byte \<Rightarrow> bytes \<Rightarrow> Framebuffer \<Rightarrow> (nat \<times> gerror option \<times> Framebuffer) result" where
  "decode_op d at op tail fb =
     (let family = op AND 0xE0
      in if family = 0x00 then
           (case readRunLength op 0x00 tail of
              (run, consumed) \<Rightarrow>
                let fb = fb\<lparr>fb_Cur := fb_Cur fb + int run\<rparr>;
                    fb = (if fb_Cur fb > npix fb then fb\<lparr>fb_Cur := npix fb\<rparr> else fb)
                in Inr (consumed, None, fb\<lparr>fb_Dirty := True\<rparr>))
         else if family = 0x40 then
           (case readRunLength op 0x40 tail of
              (run, consumed) \<Rightarrow>
                (case copyFromPrev (fb_Cur fb - fb_W fb) (int run) fb of
                   Inl e \<Rightarrow> Inl e | Inr fb \<Rightarrow> Inr (consumed, None, fb)))
         else if family = 0x20 then
           (case readRunLength op 0x20 tail of
              (run, consumed) \<Rightarrow>
                (case repeatColor (getPixel (fb_Cur fb - 1) fb) (int run) fb of
                   Inl e \<Rightarrow> Inl e | Inr fb \<Rightarrow> Inr (consumed, None, fb)))
         else if family = 0x60 then
           (case decode_pattern op tail fb of Inl e \<Rightarrow> Inl e | Inr (n, fb) \<Rightarrow> Inr (n, None, fb))
         else if op AND 0x80 = 0 then Inr (0, Some (Errorf (''video: unknown opcode 0x'' @ hex2 op @ '' at '' @ dec at)), fb)
         else
           (case readColor d op tail of
              Inl (Panic m) \<Rightarrow> Inl (Panic m)
            | Inl e \<Rightarrow> Inr (0, Some e, fb)
            | Inr (c, consumed) \<Rightarrow>
                (case putPixel c fb of Inl e \<Rightarrow> Inl e | Inr fb \<Rightarrow> Inr (consumed, None, fb))))"

text \<open>\<open>Decode\<close>: the position reached, the error if any, the framebuffer.\<close>

function decode_from :: "Decoder \<Rightarrow> bytes \<Rightarrow> nat \<Rightarrow> Framebuffer \<Rightarrow> (nat \<times> gerror option \<times> Framebuffer) result" where
  "decode_from d data pos fb =
     (if pos < length data then
        (case decode_op d pos (data ! pos) (drop (pos + 1) data) fb of
           Inl e \<Rightarrow> Inl e
         | Inr (consumed, Some e, fb) \<Rightarrow> Inr (pos + 1, Some e, fb)
         | Inr (consumed, None, fb) \<Rightarrow> decode_from d data (pos + 1 + consumed) fb)
      else Inr (pos, None, fb))"
  by pat_completeness auto
termination by (relation "measure (\<lambda>(d, data, pos, fb). length data - pos)") auto

definition video_Decode :: "Decoder \<Rightarrow> Framebuffer \<Rightarrow> bytes \<Rightarrow> (nat \<times> gerror option \<times> Framebuffer) result" where
  "video_Decode d fb data = decode_from d data 0 fb"

declare copy_loop.simps [simp del] repeat_loop.simps [simp del] run_loop_video.simps [simp del] scan_back.simps [simp del]
  decode_from.simps [simp del]

section \<open>Lemmas: framebuffer operations\<close>

definition fb_ok :: "Framebuffer \<Rightarrow> bool" where
  "fb_ok fb \<longleftrightarrow> fb_Pixels fb \<noteq> [] \<and> 0 \<le> fb_W fb \<and> 0 \<le> fb_Cur fb \<and> fb_Cur fb \<le> npix fb"

definition same_shape :: "Framebuffer \<Rightarrow> Framebuffer \<Rightarrow> bool" where
  "same_shape fb fb' \<longleftrightarrow> length (fb_Pixels fb') = length (fb_Pixels fb) \<and> fb_W fb' = fb_W fb \<and> fb_H fb' = fb_H fb"

lemma same_shape_refl [simp]: "same_shape fb fb"
  by (simp add: same_shape_def)

lemma same_shape_trans: "same_shape a b \<Longrightarrow> same_shape b c \<Longrightarrow> same_shape a c"
  by (simp add: same_shape_def)

text \<open>Framebuffers whose pixel count matches their dimensions: every position inside them has a pixel.\<close>

definition fb_rect :: "Framebuffer \<Rightarrow> bool" where
  "fb_rect fb \<longleftrightarrow> 0 \<le> fb_W fb \<and> 0 \<le> fb_H fb \<and> npix fb = fb_W fb * fb_H fb"

lemma pixel_in_range:
  assumes "fb_rect fb" "0 \<le> yy" "yy < fb_H fb" "0 \<le> xx" "xx < fb_W fb"
  shows "0 \<le> yy * fb_W fb + xx" "yy * fb_W fb + xx < npix fb"
proof -
  have "yy * fb_W fb + xx < (yy + 1) * fb_W fb" using assms(5) by (simp add: algebra_simps)
  also have "\<dots> \<le> fb_H fb * fb_W fb" using assms(2-5) by (intro mult_right_mono) auto
  finally show "yy * fb_W fb + xx < npix fb" using assms(1) by (simp add: fb_rect_def mult.commute)
  show "0 \<le> yy * fb_W fb + xx" using assms by (simp add: fb_rect_def)
qed

lemma fb_rect_shape: "same_shape fb fb' \<Longrightarrow> fb_rect fb \<Longrightarrow> fb_rect fb'"
  by (simp add: same_shape_def fb_rect_def)

lemma set_pixel_shape: "set_pixel i c fb = Inr fb' \<Longrightarrow> same_shape fb fb'"
  by (auto simp: set_pixel_def same_shape_def split: if_splits)

abbreviation (input) pix :: "Framebuffer \<Rightarrow> int \<Rightarrow> u32" where "pix fb k \<equiv> fb_Pixels fb ! nat k"

lemma set_pixel_exact:
  "0 \<le> i \<Longrightarrow> i < npix fb \<Longrightarrow> \<exists>fb'. set_pixel i c fb = Inr fb' \<and> same_shape fb fb' \<and> fb_Dirty fb' = fb_Dirty fb
     \<and> (\<forall>k. 0 \<le> k \<longrightarrow> k < npix fb \<longrightarrow> pix fb' k = (if k = i then c else pix fb k))"
  by (auto simp: set_pixel_def same_shape_def nth_list_update nat_eq_iff)

lemma row_major_inj:
  assumes "0 \<le> xx" "xx < fw" "0 \<le> u" "u < (fw :: int)" "yy * fw + xx = v * fw + u"
  shows "yy = v" "xx = u"
proof -
  have "yy = (yy * fw + xx) div fw" "v = (v * fw + u) div fw" using assms(1-4) by auto
  then show "yy = v" using assms(5) by simp
  then show "xx = u" using assms(5) by simp
qed

lemma repeat_loop_spec:
  "0 \<le> i \<Longrightarrow> i \<le> stop \<Longrightarrow> stop \<le> npix fb \<Longrightarrow>
    repeat_loop i stop c fb = Inr (fb\<lparr>fb_Pixels := take (nat i) (fb_Pixels fb) @ replicate (nat (stop - i)) c @ drop (nat stop) (fb_Pixels fb)\<rparr>)"
proof (induction "nat (stop - i)" arbitrary: i fb)
  case 0
  then show ?case by (simp add: repeat_loop.simps)
next
  case (Suc n)
  let ?px = "fb_Pixels fb"
  let ?fb1 = "fb\<lparr>fb_Pixels := ?px[nat i := c]\<rparr>"
  have i: "i < stop" "nat (i + 1) = Suc (nat i)" "nat i < length ?px" "nat i < nat stop" using Suc by auto
  have step: "repeat_loop i stop c fb = repeat_loop (i + 1) stop c ?fb1"
    using Suc.prems i by (subst repeat_loop.simps) (simp add: set_pixel_def)
  have "take (Suc (nat i)) (?px[nat i := c]) = take (nat i) ?px @ [c]"
    using i by (simp add: take_Suc_conv_app_nth)
  moreover have "c # replicate (nat (stop - (i + 1))) c = replicate (nat (stop - i)) c"
    using i Suc.prems by (simp flip: replicate_Suc add: Suc_nat_eq_nat_zadd1)
  moreover have "drop (nat stop) (?px[nat i := c]) = drop (nat stop) ?px" using i by simp
  ultimately show ?case using Suc.hyps(1) [of "i + 1" ?fb1] Suc.prems Suc.hyps(2) i by (simp add: step)
qed

lemma repeatColor_spec:
  assumes "fb_ok fb" "0 \<le> n" "stop = min (fb_Cur fb + n) (npix fb)"
  shows "repeatColor c n fb = Inr (if n = 0 then fb else fb\<lparr>fb_Pixels := take (nat (fb_Cur fb)) (fb_Pixels fb)
      @ replicate (nat (stop - fb_Cur fb)) c @ drop (nat stop) (fb_Pixels fb), fb_Cur := stop, fb_Dirty := True\<rparr>)"
  using assms repeat_loop_spec [of "fb_Cur fb" stop fb c]
  by (auto simp: repeatColor_def Let_def fb_ok_def min_def not_less)

lemma copy_loop_spec:
  "0 \<le> i \<Longrightarrow> i \<le> stop \<Longrightarrow> stop \<le> npix fb \<Longrightarrow> 0 \<le> src \<Longrightarrow> src \<le> i \<Longrightarrow>
    \<exists>px. copy_loop i stop src fb = Inr (fb\<lparr>fb_Pixels := px\<rparr>) \<and> length px = length (fb_Pixels fb)
      \<and> (\<forall>j < length px. int j < i \<or> stop \<le> int j \<longrightarrow> px ! j = fb_Pixels fb ! j)
      \<and> (\<forall>j < length px. i \<le> int j \<and> int j < stop \<longrightarrow> px ! j = px ! nat (int j - i + src))"
proof (induction "nat (stop - i)" arbitrary: i src fb)
  case 0
  then show ?case by (intro exI [of _ "fb_Pixels fb"]) (auto simp: copy_loop.simps)
next
  case (Suc n)
  let ?px = "fb_Pixels fb"
  define fb1 where "fb1 = fb\<lparr>fb_Pixels := ?px[nat i := ?px ! nat src]\<rparr>"
  have i: "i < stop" "src < npix fb" "nat i < length ?px" "nat (i + 1) = Suc (nat i)" using Suc by auto
  have step: "copy_loop i stop src fb = copy_loop (i + 1) stop (src + 1) fb1"
    using Suc.prems i by (subst copy_loop.simps) (simp add: set_pixel_def pixel_at_def fb1_def)
  have "n = nat (stop - (i + 1))" "0 \<le> i + 1" "i + 1 \<le> stop" "stop \<le> npix fb1" "0 \<le> src + 1" "src + 1 \<le> i + 1"
    using Suc i by (auto simp: fb1_def)
  from Suc.hyps(1) [OF this] obtain px where px0: "copy_loop (i + 1) stop (src + 1) fb1 = Inr (fb1\<lparr>fb_Pixels := px\<rparr>)"
    "length px = length (fb_Pixels fb1)" "\<forall>j < length px. int j < i + 1 \<or> stop \<le> int j \<longrightarrow> px ! j = fb_Pixels fb1 ! j"
    "\<forall>j < length px. i + 1 \<le> int j \<and> int j < stop \<longrightarrow> px ! j = px ! nat (int j - (i + 1) + (src + 1))" by blast
  note px = px0(1) px0(2) [unfolded fb1_def, simplified] px0(3) [unfolded fb1_def, simplified, rule_format] px0(4) [rule_format]
  have at_i: "px ! nat i = ?px ! nat src" using px(3) [of "nat i"] px(2) i Suc.prems by simp
  have at_src: "px ! nat src = ?px ! nat src"
    using px(3) [of "nat src"] px(2) i Suc.prems at_i by (cases "src = i") (auto simp: nth_list_update)
  have "px ! j = ?px ! j" if "j < length px" "int j < i \<or> stop \<le> int j" for j
    using px(3) [of j] that i px(2) by (auto simp: nth_list_update)
  moreover have "px ! j = px ! nat (int j - i + src)" if "j < length px" "i \<le> int j \<and> int j < stop" for j
  proof (cases "int j = i")
    case True
    then show ?thesis using at_i at_src by (simp add: nat_int_comparison) (metis nat_int)
  next
    case False
    then show ?thesis using px(4) [of j] that by (simp add: algebra_simps)
  qed
  moreover have "fb1\<lparr>fb_Pixels := px\<rparr> = fb\<lparr>fb_Pixels := px\<rparr>" by (simp add: fb1_def)
  ultimately show ?case using step px(1,2) by (intro exI [of _ px]) auto
qed

lemma copyFromPrev_ok:
  assumes "fb_ok fb" "src \<le> fb_Cur fb"
  shows "\<exists>fb'. copyFromPrev src n fb = Inr fb' \<and> fb_ok fb' \<and> same_shape fb fb'"
proof (cases "n \<le> 0 \<or> src < 0")
  case True
  then show ?thesis using assms by (auto simp: copyFromPrev_def)
next
  case False
  define stop where "stop = (if fb_Cur fb + n > npix fb then npix fb else fb_Cur fb + n)"
  have "0 \<le> fb_Cur fb" "fb_Cur fb \<le> stop" "stop \<le> npix fb" "0 \<le> src" using assms False by (auto simp: stop_def fb_ok_def)
  from copy_loop_spec [OF this assms(2)] obtain px where
    "copy_loop (fb_Cur fb) stop src fb = Inr (fb\<lparr>fb_Pixels := px\<rparr>)" "length px = length (fb_Pixels fb)" by blast
  then show ?thesis using False assms(1) \<open>fb_Cur fb \<le> stop\<close> \<open>stop \<le> npix fb\<close>
    by (auto simp: copyFromPrev_def Let_def same_shape_def fb_ok_def simp flip: stop_def)
qed

lemma writePixels_ok:
  assumes "fb_ok fb"
  shows "\<exists>fb'. writePixels src fb = Inr fb' \<and> fb_ok fb' \<and> same_shape fb fb'"
proof -
  have "length (copy_to a b c (fb_Pixels fb)) = length (fb_Pixels fb)" if "a \<le> b" "b \<le> length (fb_Pixels fb)" for a b c
    using that by (auto simp: copy_to_def Let_def)
  then show ?thesis using assms
    by (auto simp: writePixels_def Let_def fb_ok_def same_shape_def nat_le_iff simp flip: length_greater_0_conv)
qed

lemma putPixel_ok:
  assumes "fb_ok fb"
  shows "\<exists>fb'. putPixel c fb = Inr fb' \<and> fb_ok fb' \<and> same_shape fb fb'"
proof -
  have "0 < length (fb_Pixels fb)" using assms by (simp add: fb_ok_def)
  then show ?thesis using assms by (auto simp: putPixel_def Let_def set_pixel_def fb_ok_def same_shape_def)
qed

lemma repeatColor_ok:
  assumes "fb_ok fb" "0 \<le> n"
  shows "\<exists>fb'. repeatColor c n fb = Inr fb' \<and> fb_ok fb' \<and> same_shape fb fb'"
  using repeatColor_spec [OF assms refl, of c] assms by (auto simp: fb_ok_def same_shape_def min_def)

lemma run_loop_consumed:
  "c \<le> length tail \<Longrightarrow> snd (run_loop_video f tail r c s) \<le> length tail"
  by (induction f tail r c s rule: run_loop_video.induct) (subst run_loop_video.simps, auto simp: Let_def)

lemma pattern_loop_ok:
  "fb_ok fb \<Longrightarrow> \<exists>n fb'. pattern_loop op tail prev lastp fb = Inr (n, fb') \<and> n \<le> length tail \<and> fb_ok fb' \<and> same_shape fb fb'"
proof (induction tail arbitrary: op fb)
  case (Cons nb tail)
  obtain fb1 where w: "writePixels (map (\<lambda>m. pickBit nb m prev lastp) [0x40, 0x20, 0x10, 0x08, 0x04, 0x02, 0x01]) fb = Inr fb1"
    "fb_ok fb1" "same_shape fb fb1" using writePixels_ok [OF Cons.prems] by blast
  from Cons.IH [OF w(2), of nb] show ?case using w Cons.prems same_shape_trans [OF w(3)] by auto
qed auto

section \<open>Lemmas: decoding\<close>

definition decoder_ok :: "Decoder \<Rightarrow> bool" where
  "decoder_ok d \<longleftrightarrow> (d_depth d = Depth15 \<longrightarrow> length (d_lut d) = 2 ^ 15)
     \<and> (case d_palette d of None \<Rightarrow> True | Some p \<Rightarrow> length p = 128)"

lemma length_paletteC7 [simp]: "length paletteC7 = 128"
  by (simp add: paletteC7_def upt_rec)

lemma NewDecoder_ok: "NewDecoder depth = Inr d \<Longrightarrow> decoder_ok d"
  by (auto simp: NewDecoder_def decoder_ok_def split: if_splits)

lemma SetPalette_ok: "decoder_ok d \<Longrightarrow> decoder_ok (SetPalette entries d)"
  by (auto simp: SetPalette_def decoder_ok_def Let_def copy_to_def split: option.splits)

lemma unat_and_le: "unat (a AND b) \<le> unat (b :: 'a::len word)"
  using word_and_le1 [of a b] by (simp add: word_le_nat_alt)

lemma readColor_no_panic:
  assumes "decoder_ok d"
  shows "readColor d op tail \<noteq> Inl (Panic m)"
    and "readColor d op tail = Inr (c, n) \<Longrightarrow> n \<le> length tail"
proof -
  have p: "unat (op AND 0x7F) < 128" using unat_and_le [of op "0x7F"] by simp
  have l: "unat (x AND 0x7FFF) < 32768" for x :: u32 using unat_and_le [of x "0x7FFF"] by simp
  show "readColor d op tail \<noteq> Inl (Panic m)"
    using assms p l by (auto simp: readColor_def decoder_ok_def nth_or_panic_def Let_def split: option.splits)
  show "readColor d op tail = Inr (c, n) \<Longrightarrow> n \<le> length tail"
    by (auto simp: readColor_def Let_def Suc_le_eq split: if_splits sum.splits)
qed

lemma decode_op_ok:
  assumes "decoder_ok d" "fb_ok fb"
  shows "\<exists>n e fb'. decode_op d at op tail fb = Inr (n, e, fb') \<and> n \<le> length tail \<and> fb_ok fb' \<and> same_shape fb fb'"
proof -
  have run: "readRunLength op f tail = (r, c) \<Longrightarrow> c \<le> length tail" for f r c
    using run_loop_consumed [of 0 tail] by (metis le0 readRunLength_def snd_conv)
  have copy: "\<exists>fb'. copyFromPrev (fb_Cur fb - fb_W fb) (int r) fb = Inr fb' \<and> fb_ok fb' \<and> same_shape fb fb'" for r
    using copyFromPrev_ok [OF assms(2), of "fb_Cur fb - fb_W fb"] assms(2) by (auto simp: fb_ok_def)
  have rep: "\<exists>fb'. repeatColor c (int r) fb = Inr fb' \<and> fb_ok fb' \<and> same_shape fb fb'" for c r
    using repeatColor_ok [OF assms(2)] by simp
  have pat: "\<exists>n fb'. decode_pattern op tail fb = Inr (n, fb') \<and> n \<le> length tail \<and> fb_ok fb' \<and> same_shape fb fb'"
  proof -
    let ?l = "getPixel (fb_Cur fb - 1) fb"
    define prev where "prev = scan_back (fb_Cur fb - 1) (fb_Cur fb - 1 - (if fb_Cur fb - 1 > fb_W fb then fb_W fb else fb_Cur fb - 1)) ?l fb"
    obtain fb1 where w: "writePixels (map (\<lambda>m. pickBit op m prev ?l) [0x08, 0x04, 0x02, 0x01]) fb = Inr fb1"
      "fb_ok fb1" "same_shape fb fb1" using writePixels_ok [OF assms(2)] by blast
    from pattern_loop_ok [OF w(2), of op tail prev ?l] show ?thesis
      using w same_shape_trans [OF w(3)] by (auto simp: decode_pattern_def Let_def simp flip: prev_def)
  qed
  have put: "\<exists>fb'. putPixel c fb = Inr fb' \<and> fb_ok fb' \<and> same_shape fb fb'" for c using putPixel_ok [OF assms(2)] by blast
  consider "op AND 0xE0 = 0x00" | "op AND 0xE0 = 0x40" | "op AND 0xE0 = 0x20" | "op AND 0xE0 = 0x60"
    | "op AND 0xE0 \<notin> {0x00, 0x20, 0x40, 0x60}" by blast
  then show ?thesis
  proof cases
    case 1
    obtain r c where "readRunLength op 0 tail = (r, c)" by fastforce
    then show ?thesis using 1 run assms(2) by (auto simp: decode_op_def Let_def fb_ok_def same_shape_def)
  next
    case 2
    obtain r c where "readRunLength op 0x40 tail = (r, c)" by fastforce
    then show ?thesis using 2 run copy [of r] by (auto simp: decode_op_def Let_def)
  next
    case 3
    obtain r c where "readRunLength op 0x20 tail = (r, c)" by fastforce
    then show ?thesis using 3 run rep [of "getPixel (fb_Cur fb - 1) fb" r] by (auto simp: decode_op_def Let_def)
  next
    case 4
    then show ?thesis using pat by (auto simp: decode_op_def Let_def)
  next
    case 5
    then show ?thesis
    proof (cases "readColor d op tail")
      case (Inl e)
      then show ?thesis using 5 assms readColor_no_panic(1) [OF assms(1), of op tail]
        by (cases e) (auto simp: decode_op_def Let_def)
    next
      case (Inr p)
      then obtain c n where "readColor d op tail = Inr (c, n)" by (cases p) auto
      then show ?thesis using 5 assms(2) put [of c] readColor_no_panic(2) [OF assms(1)] by (auto simp: decode_op_def Let_def)
    qed
  qed
qed

lemma decode_from_ok:
  assumes "decoder_ok d"
  shows "fb_ok fb \<Longrightarrow> pos \<le> length data \<Longrightarrow> \<exists>n e fb'. decode_from d data pos fb = Inr (n, e, fb') \<and> n \<le> length data
    \<and> fb_ok fb' \<and> same_shape fb fb' \<and> (e = None \<longrightarrow> n = length data)"
proof (induction "length data - pos" arbitrary: pos fb rule: less_induct)
  case less
  show ?case
  proof (cases "pos < length data")
    case False
    then show ?thesis using less.prems by (subst decode_from.simps) auto
  next
    case True
    from decode_op_ok [OF assms less.prems(1), of pos "data ! pos" "drop (pos + 1) data"] obtain n e fb1 where
      o: "decode_op d pos (data ! pos) (drop (pos + 1) data) fb = Inr (n, e, fb1)" "n \<le> length data - (pos + 1)"
        "fb_ok fb1" "same_shape fb fb1" by auto
    show ?thesis
    proof (cases e)
      case (Some e')
      then show ?thesis using True o by (subst decode_from.simps) auto
    next
      case None
      have "pos + 1 + n \<le> length data" using True o(2) by simp
      moreover have "length data - (pos + 1 + n) < length data - pos" using True by simp
      ultimately obtain n' e' fb2 where "decode_from d data (pos + 1 + n) fb1 = Inr (n', e', fb2)" "n' \<le> length data"
        "fb_ok fb2" "same_shape fb1 fb2" "e' = None \<longrightarrow> n' = length data" using less.hyps o(3) by blast
      then show ?thesis using True o None same_shape_trans [OF o(4)] by (subst decode_from.simps) auto
    qed
  qed
qed

section \<open>Lemmas: run lengths\<close>

text \<open>A run length in groups of five bits, least significant first, each under the family's prefix.\<close>

fun enc_run :: "byte \<Rightarrow> nat \<Rightarrow> bytes" where
  "enc_run f n = (f OR of_nat (n mod 32)) # (if n < 32 then [] else enc_run f (n div 32))"

declare enc_run.simps [simp del]

definition families :: "byte set" where
  "families = {0x00, 0x20, 0x40}"

lemma family_byte:
  assumes "f \<in> families" "n < 32"
  shows "(f OR of_nat n) AND 0xE0 = f" "unat ((f OR of_nat n) AND 0x1F) = n"
proof -
  have all: "\<forall>f \<in> set [0x00, 0x20, 0x40 :: byte]. \<forall>n \<in> set [0..<32]. (f OR of_nat n) AND 0xE0 = f \<and> unat ((f OR of_nat n) AND 0x1F) = n"
    by code_simp
  have "f \<in> set [0x00, 0x20, 0x40]" "n \<in> set [0..<32]" using assms by (auto simp: families_def)
  then show "(f OR of_nat n) AND 0xE0 = f" "unat ((f OR of_nat n) AND 0x1F) = n" using all by blast+
qed

lemma or_push_bit_nat: "(a :: nat) < 2 ^ s \<Longrightarrow> a OR push_bit s b = a + b * 2 ^ s"
proof -
  assume a: "a < 2 ^ s"
  have "a AND push_bit s b = 0"
  proof (rule bit_eqI)
    fix n
    have "\<not> bit a n" if "s \<le> n"
      using a that by (simp add: bit_iff_odd div_less) (metis div_less less_le_trans one_le_numeral power_increasing even_zero)
    then show "bit (a AND push_bit s b) n = bit (0 :: nat) n" by (auto simp: bit_simps)
  qed
  from disjunctive_add_eq_or [OF this] show ?thesis by (simp add: push_bit_eq_mult)
qed

lemma run_loop_decodes:
  assumes "f \<in> families" "rest = [] \<or> hd rest AND 0xE0 \<noteq> f"
  shows "n < 32 ^ (4 - length pre) \<Longrightarrow> length pre < 4 \<Longrightarrow> r < 2 ^ s \<Longrightarrow>
    run_loop_video f (pre @ enc_run f n @ rest) r (length pre) s = (r + n * 2 ^ s, length pre + length (enc_run f n))"
proof (induction n arbitrary: pre r s rule: less_induct)
  case (less n)
  let ?b = "f OR of_nat (n mod 32) :: byte"
  let ?tl = "if n < 32 then [] else enc_run f (n div 32)"
  have b: "?b AND 0xE0 = f" "unat (?b AND 0x1F) = n mod 32" using family_byte [OF assms(1), of "n mod 32"] by simp_all
  have e: "enc_run f n = ?b # ?tl" by (rule enc_run.simps)
  have r': "r OR push_bit s (n mod 32) = r + n mod 32 * 2 ^ s" using or_push_bit_nat [OF less.prems(3)] by simp
  have lt: "r + n mod 32 * 2 ^ s < 2 ^ (s + 5)"
  proof -
    have "n mod 32 * 2 ^ s \<le> 31 * 2 ^ s" by (intro mult_le_mono1) (simp add: less_Suc_eq_le [symmetric])
    then have "r + n mod 32 * 2 ^ s < 2 ^ s + 31 * 2 ^ s" using less.prems(3) by linarith
    then show ?thesis by (simp add: power_add)
  qed
  have step: "run_loop_video f (pre @ enc_run f n @ rest) r (length pre) s
      = run_loop_video f ((pre @ [?b]) @ ?tl @ rest) (r + n mod 32 * 2 ^ s) (length (pre @ [?b])) (s + 5)"
    using less.prems(2) b r' by (subst run_loop_video.simps) (simp add: e nth_append)
  show ?case
  proof (cases "n < 32")
    case True
    have "run_loop_video f ((pre @ [?b]) @ rest) x (length (pre @ [?b])) y = (x, length (pre @ [?b]))" for x y
      using assms(2) by (subst run_loop_video.simps) (auto simp: nth_append Let_def hd_conv_nth)
    then show ?thesis using step True by (simp add: e)
  next
    case False
    have l: "length pre \<noteq> 3" using less.prems(1) False by auto
    have "4 - length pre = Suc (3 - length pre)" using less.prems(2) by simp
    then have "n < 32 * 32 ^ (3 - length pre)" using less.prems(1) by (simp del: One_nat_def)
    then have n': "n div 32 < 32 ^ (4 - length (pre @ [?b]))" by (simp add: div_less_iff_less_mult mult.commute)
    have "n div 32 < n" using False by simp
    from less.IH [OF this n' _ lt] l less.prems(2) have
      "run_loop_video f ((pre @ [?b]) @ enc_run f (n div 32) @ rest) (r + n mod 32 * 2 ^ s) (length (pre @ [?b])) (s + 5)
        = (r + n mod 32 * 2 ^ s + n div 32 * 2 ^ (s + 5), length (pre @ [?b]) + length (enc_run f (n div 32)))" by simp
    moreover have "n mod 32 * 2 ^ s + n div 32 * 2 ^ (s + 5) = n * 2 ^ s"
    proof -
      have "n mod 32 * 2 ^ s + n div 32 * 2 ^ (s + 5) = (n mod 32 + 32 * (n div 32)) * 2 ^ s"
        unfolding power_add distrib_right by simp
      also have "n mod 32 + 32 * (n div 32) = n" by simp
      finally show ?thesis .
    qed
    ultimately show ?thesis using step False by (simp add: e)
  qed
qed

lemma readRunLength_enc:
  assumes "f \<in> families" "n < 2 ^ 25" "rest = [] \<or> hd rest AND 0xE0 \<noteq> f"
  shows "enc_run f n = op # tail \<Longrightarrow> readRunLength op f (tail @ rest) = (n, length tail)"
proof -
  assume e: "enc_run f n = op # tail"
  have op: "op = f OR of_nat (n mod 32)" "tail = (if n < 32 then [] else enc_run f (n div 32))"
    using e enc_run.simps [of f n] by auto
  have u: "unat (op AND 0x1F) = n mod 32" using family_byte(2) [OF assms(1), of "n mod 32"] by (simp add: op)
  show ?thesis
  proof (cases "n < 32")
    case True
    then show ?thesis using u op assms(3)
      by (simp add: readRunLength_def, subst run_loop_video.simps) (auto simp: hd_conv_nth Let_def)
  next
    case False
    have "n div 32 < 32 ^ (4 - length ([] :: bytes))" using assms(2) by (simp add: div_less_iff_less_mult)
    from run_loop_decodes [OF assms(1,3) this, of "n mod 32" 5] False show ?thesis
      by (simp add: readRunLength_def u op(2))
  qed
qed

text \<open>An encoder for grey pixels: each run is one colour opcode and, for more than one pixel, a repeat opcode.\<close>

definition gray :: "byte \<Rightarrow> u32" where
  "gray v = (let g = push_bit 1 (ucast v) in 0xFF000000 OR push_bit 16 g OR push_bit 8 g OR g)"

definition enc_gray :: "byte \<times> nat \<Rightarrow> bytes" where
  "enc_gray vn = (0x80 OR fst vn) # (if snd vn > 1 then enc_run 0x20 (snd vn - 1) else [])"

definition gray_run :: "byte \<times> nat \<Rightarrow> bool" where
  "gray_run vn \<longleftrightarrow> fst vn < 0x80 \<and> 1 \<le> snd vn \<and> snd vn \<le> 2 ^ 25"

definition paint_runs :: "(byte \<times> nat) list \<Rightarrow> u32 list" where
  "paint_runs runs = concat (map (\<lambda>(v, n). replicate n (gray v)) runs)"

lemma colour_byte:
  fixes v :: byte
  assumes "v < 0x80"
  shows "(0x80 OR v) AND 0xE0 \<notin> {0x00, 0x20, 0x40, 0x60}" "(0x80 OR v) AND 0x80 \<noteq> 0" "(0x80 OR v) AND 0x7F = v"
proof -
  have all: "\<forall>n \<in> set [0..<128]. (0x80 OR of_nat n) AND 0xE0 \<notin> {0x00, 0x20, 0x40, 0x60 :: byte}
      \<and> (0x80 OR of_nat n) AND 0x80 \<noteq> (0 :: byte) \<and> (0x80 OR of_nat n) AND 0x7F = (of_nat n :: byte)" by code_simp
  have "unat v \<in> set [0..<128]" using assms by (simp add: word_less_nat_alt)
  from bspec [OF all this] show "(0x80 OR v) AND 0xE0 \<notin> {0x00, 0x20, 0x40, 0x60}" "(0x80 OR v) AND 0x80 \<noteq> 0" "(0x80 OR v) AND 0x7F = v"
    by simp_all
qed

definition painted :: "int \<Rightarrow> u32 list \<Rightarrow> Framebuffer \<Rightarrow> Framebuffer" where
  "painted n cs fb = fb\<lparr>fb_Pixels := take (nat (fb_Cur fb)) (fb_Pixels fb) @ cs @ drop (nat (fb_Cur fb + n)) (fb_Pixels fb),
     fb_Cur := fb_Cur fb + n, fb_Dirty := True\<rparr>"

lemma decode_op_gray:
  assumes "d_depth d = Depth7Gray" "v < 0x80" "fb_ok fb" "fb_Cur fb < npix fb"
  shows "decode_op d at (0x80 OR v) tail fb = Inr (0, None, painted 1 [gray v] fb)"
proof -
  have "readColor d (0x80 OR v) tail = Inr (gray v, 0)" using assms(1) colour_byte(3) [OF assms(2)]
    by (simp add: readColor_def gray_def Let_def)
  moreover have "putPixel (gray v) fb = Inr (painted 1 [gray v] fb)"
    using assms(3,4) by (auto simp: putPixel_def set_pixel_def painted_def fb_ok_def Let_def upd_conv_take_nth_drop nat_add_distrib)
  ultimately show ?thesis using colour_byte(1,2) [OF assms(2)] by (simp add: decode_op_def Let_def)
qed

lemma decode_op_repeat:
  assumes "0 < m" "m < 2 ^ 25" "fb_ok fb" "0 < fb_Cur fb" "fb_Cur fb + int m \<le> npix fb" "rest = [] \<or> hd rest AND 0xE0 \<noteq> 0x20"
    "enc_run 0x20 m = op # tail"
  shows "decode_op d at op (tail @ rest) fb = Inr (length tail, None, painted (int m) (replicate m (fb_Pixels fb ! nat (fb_Cur fb - 1))) fb)"
proof -
  have f: "0x20 \<in> families" by (simp add: families_def)
  have op: "op AND 0xE0 = 0x20" using family_byte(1) [OF f, of "m mod 32"] enc_run.simps [of "0x20" m] assms(7) by auto
  have "getPixel (fb_Cur fb - 1) fb = fb_Pixels fb ! nat (fb_Cur fb - 1)"
    using assms(3,4) by (auto simp: getPixel_def fb_ok_def)
  moreover have "repeatColor c (int m) fb = Inr (painted (int m) (replicate m c) fb)" for c
    using repeatColor_spec [OF assms(3) _ refl, of "int m" c] assms(1,5) by (simp add: painted_def min_def)
  ultimately show ?thesis
    using readRunLength_enc [OF f assms(2,6,7)] op by (simp add: decode_op_def Let_def)
qed

lemma painted_twice:
  assumes "fb_ok fb" "fb_Cur fb + 1 + int m \<le> npix fb"
  shows "painted (int m) (replicate m (fb_Pixels (painted 1 [c] fb) ! nat (fb_Cur (painted 1 [c] fb) - 1))) (painted 1 [c] fb)
     = painted (1 + int m) (replicate (Suc m) c) fb"
proof -
  have k: "0 \<le> fb_Cur fb" "nat (fb_Cur fb) < length (fb_Pixels fb)" "nat (fb_Cur fb + 1) = Suc (nat (fb_Cur fb))"
    "nat (1 + fb_Cur fb) = Suc (nat (fb_Cur fb))"
    "nat (fb_Cur fb + 1 + int m) = Suc (nat (fb_Cur fb)) + m" "nat (fb_Cur fb + (1 + int m)) = Suc (nat (fb_Cur fb)) + m"
    using assms by (auto simp: fb_ok_def)
  then show ?thesis by (simp add: painted_def nth_append min_def add.commute add.left_commute replicate_append_same)
qed

lemma painted_painted:
  assumes "fb_ok fb" "fb_Cur fb + int k \<le> npix fb" "length cs = k"
  shows "painted (int j) ds (painted (int k) cs fb) = painted (int (k + j)) (cs @ ds) fb"
proof -
  obtain c where c: "fb_Cur fb = int c" using assms(1) by (metis fb_ok_def nonneg_int_cases)
  have "nat (int c + int k + int j) = c + k + j" "nat (int c + int k) = c + k" "nat (int c + (int k + int j)) = c + k + j" by simp_all
  moreover have "c + k \<le> length (fb_Pixels fb)" using assms(2) c by simp
  moreover have "j + (c + k) = c + k + j" by simp
  ultimately show ?thesis using assms(3) by (simp add: painted_def c min_def add.assoc [symmetric]) (simp add: ac_simps)
qed

lemma decode_gray_run:
  assumes "d_depth d = Depth7Gray" "gray_run (v, n)" "fb_ok fb" "fb_Cur fb + int n \<le> npix fb" "rest = [] \<or> hd rest AND 0xE0 \<noteq> 0x20"
    "data = pre @ enc_gray (v, n) @ rest"
  shows "decode_from d data (length pre) fb = decode_from d data (length pre + length (enc_gray (v, n))) (painted (int n) (replicate n (gray v)) fb)"
proof -
  have v: "v < 0x80" "1 \<le> n" "n \<le> 2 ^ 25" using assms(2) by (auto simp: gray_run_def)
  have cur: "fb_Cur fb < npix fb" using assms(4) v(2) by linarith
  let ?fb1 = "painted 1 [gray v] fb"
  have hd1: "data ! length pre = 0x80 OR v" "length pre < length data" by (simp_all add: assms(6) enc_gray_def nth_append)
  have one: "decode_from d data (length pre) fb = decode_from d data (Suc (length pre)) ?fb1"
    using decode_op_gray [OF assms(1) v(1) assms(3) cur] hd1 by (subst decode_from.simps) simp
  show ?thesis
  proof (cases "n = 1")
    case True
    then show ?thesis using one by (simp add: enc_gray_def)
  next
    case False
    define m where "m = n - 1"
    have m: "0 < m" "m < 2 ^ 25" "n = Suc m" using v False by (auto simp: m_def)
    obtain op tail where e: "enc_run 0x20 m = op # tail" by (subst (asm) enc_run.simps) auto
    have en: "enc_gray (v, n) = (0x80 OR v) # op # tail" using m e False v by (simp add: enc_gray_def)
    have ok1: "fb_ok ?fb1" "0 < fb_Cur ?fb1" "fb_Cur ?fb1 + int m \<le> npix ?fb1"
      using assms(3,4) m cur by (auto simp: fb_ok_def painted_def nat_add_distrib)
    have "data ! Suc (length pre) = op" "Suc (length pre) < length data" "drop (Suc (length pre) + 1) data = tail @ rest"
      by (simp_all add: assms(6) en nth_append)
    then have "decode_from d data (Suc (length pre)) ?fb1 = decode_from d data (Suc (length pre) + 1 + length tail)
        (painted (int m) (replicate m (fb_Pixels ?fb1 ! nat (fb_Cur ?fb1 - 1))) ?fb1)"
      using decode_op_repeat [OF m(1,2) ok1 assms(5) e, of d "Suc (length pre)"] by (subst decode_from.simps) simp
    moreover have "fb_Cur fb + 1 + int m \<le> npix fb" using assms(4) m by simp
    ultimately show ?thesis using one painted_twice [OF assms(3)] m en [unfolded m(3)] by simp
  qed
qed

lemma decode_gray_runs:
  assumes "d_depth d = Depth7Gray"
  shows "list_all gray_run runs \<Longrightarrow> fb_ok fb \<Longrightarrow> fb_Cur fb + int (length (paint_runs runs)) \<le> npix fb
    \<Longrightarrow> data = pre @ concat (map enc_gray runs) \<Longrightarrow> fb_Dirty fb \<or> runs \<noteq> [] \<Longrightarrow>
    decode_from d data (length pre) fb = Inr (length data, None, painted (int (length (paint_runs runs))) (paint_runs runs) fb)"
proof (induction runs arbitrary: pre fb)
  case Nil
  then show ?case by (subst decode_from.simps) (simp add: painted_def paint_runs_def)
next
  case (Cons vn runs)
  obtain v n where vn: "vn = (v, n)" by (cases vn)
  let ?rest = "concat (map enc_gray runs)"
  let ?fb1 = "painted (int n) (replicate n (gray v)) fb"
  have g: "gray_run (v, n)" "list_all gray_run runs" using Cons.prems(1) vn by auto
  have rest: "?rest = [] \<or> hd ?rest AND 0xE0 \<noteq> 0x20"
    using g(2) by (cases runs) (auto simp: enc_gray_def gray_run_def dest: colour_byte(1))
  have len: "length (paint_runs (vn # runs)) = n + length (paint_runs runs)" by (simp add: paint_runs_def vn)
  have cur: "fb_Cur fb + int n \<le> npix fb" using Cons.prems(3) len by linarith
  have "data = pre @ enc_gray (v, n) @ ?rest" using Cons.prems(4) vn by simp
  note step = decode_gray_run [OF assms g(1) Cons.prems(2) cur rest this]
  have ok: "fb_ok ?fb1" "npix ?fb1 = npix fb" using Cons.prems(2) cur g(1) by (auto simp: fb_ok_def painted_def gray_run_def nat_add_distrib)
  have "decode_from d data (length (pre @ enc_gray (v, n))) ?fb1 = Inr (length data, None, painted (int (length (paint_runs runs))) (paint_runs runs) ?fb1)"
    using Cons.IH [OF g(2) ok(1), of "pre @ enc_gray (v, n)"] Cons.prems(3,4) len ok(2) vn by (simp add: painted_def)
  moreover have "painted (int (length (paint_runs runs))) (paint_runs runs) ?fb1 = painted (int (length (paint_runs (vn # runs)))) (paint_runs (vn # runs)) fb"
    using painted_painted [OF Cons.prems(2) cur, of "replicate n (gray v)" "length (paint_runs runs)" "paint_runs runs"]
    by (simp add: len) (simp add: paint_runs_def vn)
  ultimately show ?case using step by simp
qed

section \<open>Properties\<close>

text \<open>C38: Decoding is memory safe and total.  On a non-empty framebuffer whose cursor is inside it, with a decoder made by
  \<open>NewDecoder\<close> and \<open>SetPalette\<close>, every payload is decoded without a panic; the framebuffer keeps its size, the cursor stays
  inside, at most the payload is consumed, and without an error all of it.\<close>

theorem video_decode_safe:
  assumes "NewDecoder depth = Inr d0" and "d = d0 \<or> (\<exists>entries. d = SetPalette entries d0)"
    and "fb_Pixels fb \<noteq> []" and "0 \<le> fb_W fb" and "0 \<le> fb_Cur fb" and "fb_Cur fb \<le> npix fb"
  shows "\<exists>n e fb'. video_Decode d fb data = Inr (n, e, fb') \<and> n \<le> length data \<and> (e = None \<longrightarrow> n = length data)
     \<and> length (fb_Pixels fb') = length (fb_Pixels fb) \<and> fb_W fb' = fb_W fb \<and> fb_H fb' = fb_H fb
     \<and> 0 \<le> fb_Cur fb' \<and> fb_Cur fb' \<le> npix fb'"
proof -
  have d: "decoder_ok d" using assms(2) NewDecoder_ok [OF assms(1)] SetPalette_ok by blast
  have "fb_ok fb" using assms(3-6) by (simp add: fb_ok_def)
  from decode_from_ok [OF d this, of 0 data] show ?thesis
    by (auto simp: video_Decode_def fb_ok_def same_shape_def)
qed

theorem video_decode_safe_witness:
  "\<exists>d0 n e fb'. NewDecoder 7 = Inr d0 \<and> video_Decode d0 (NewFramebuffer 2 2) [0x85, 0x3F, 0x40] = Inr (n, e, fb')
     \<and> n \<le> 3 \<and> length (fb_Pixels fb') = 4"
proof -
  obtain d0 where d: "NewDecoder 7 = Inr d0" by (simp add: NewDecoder_def)
  have "fb_Pixels (NewFramebuffer 2 2) \<noteq> []" "length (fb_Pixels (NewFramebuffer 2 2)) = 4" "0 \<le> fb_W (NewFramebuffer 2 2)"
    "0 \<le> fb_Cur (NewFramebuffer 2 2)" "fb_Cur (NewFramebuffer 2 2) \<le> npix (NewFramebuffer 2 2)" by (simp_all add: NewFramebuffer_def)
  with video_decode_safe [OF d, of d0 "NewFramebuffer 2 2" "[0x85, 0x3F, 0x40]"] obtain n e fb' where
    "video_Decode d0 (NewFramebuffer 2 2) [0x85, 0x3F, 0x40] = Inr (n, e, fb')" "n \<le> 3" "length (fb_Pixels fb') = 4" by auto
  then show ?thesis using d by blast
qed

text \<open>Compression round trip.  An image given as runs of 7-bit grey values, each run up to \<open>2^25\<close> pixels, encoded with one
  colour opcode and one variable-length repeat opcode per run, decodes back to exactly those pixels at the cursor, touching
  no other pixel and consuming the whole stream.\<close>

theorem video_gray_roundtrip:
  assumes "d_depth d = Depth7Gray" and "runs \<noteq> []" and "\<forall>(v, n) \<in> set runs. v < 0x80 \<and> 1 \<le> n \<and> n \<le> 2 ^ 25"
    and "0 \<le> fb_W fb" and "0 \<le> fb_Cur fb" and "fb_Cur fb + int (length (paint_runs runs)) \<le> npix fb"
  shows "\<exists>fb'. video_Decode d fb (concat (map enc_gray runs)) = Inr (length (concat (map enc_gray runs)), None, fb')
     \<and> fb_Pixels fb' = take (nat (fb_Cur fb)) (fb_Pixels fb) @ concat (map (\<lambda>(v, n). replicate n (gray v)) runs)
         @ drop (nat (fb_Cur fb) + length (paint_runs runs)) (fb_Pixels fb)
     \<and> fb_Cur fb' = fb_Cur fb + int (length (paint_runs runs))"
proof -
  have runs: "list_all gray_run runs" using assms(3) by (auto simp: list_all_iff gray_run_def)
  have "paint_runs runs \<noteq> []" using assms(2,3) by (cases runs) (auto simp: paint_runs_def)
  then have "0 < length (paint_runs runs)" by simp
  then have "0 < npix fb" "fb_Cur fb \<le> npix fb" using assms(5,6) by linarith+
  then have ok: "fb_ok fb" using assms(4,5) by (auto simp: fb_ok_def)
  have "nat (fb_Cur fb + int (length (paint_runs runs))) = nat (fb_Cur fb) + length (paint_runs runs)"
    using assms(5) by (simp add: nat_add_distrib)
  with decode_gray_runs [OF assms(1) runs ok assms(6), of "concat (map enc_gray runs)" "[]"] assms(2) show ?thesis
    by (simp add: video_Decode_def painted_def) (simp add: paint_runs_def)
qed

theorem video_gray_roundtrip_witness:
  "\<exists>d fb'. NewDecoder 7 = Inr d \<and> concat (map enc_gray [(5, 40), (0x7F, 1), (6, 7)]) = [0x85, 0x27, 0x21, 0xFF, 0x86, 0x26]
     \<and> video_Decode d (NewFramebuffer 8 6) [0x85, 0x27, 0x21, 0xFF, 0x86, 0x26] = Inr (6, None, fb')
     \<and> fb_Pixels fb' = replicate 40 (gray 5) @ replicate 1 (gray 0x7F) @ replicate 7 (gray 6)"
proof -
  let ?runs = "[(5, 40), (0x7F, 1), (6, 7)] :: (byte \<times> nat) list"
  obtain d where d: "NewDecoder 7 = Inr d" "d_depth d = 7" by (simp add: NewDecoder_def)
  have e: "concat (map enc_gray ?runs) = [0x85, 0x27, 0x21, 0xFF, 0x86, 0x26]" by code_simp
  have l: "length (paint_runs ?runs) = 48" by (simp add: paint_runs_def)
  from video_gray_roundtrip [OF d(2), of ?runs "NewFramebuffer 8 6"] l show ?thesis
    unfolding e by (auto simp: NewFramebuffer_def d(1) e)
qed

text \<open>A copy opcode repeats the line above: when the cursor is at least one line into the framebuffer, every pixel in the copied
  range equals, afterwards, the pixel one width before it, also where source and destination overlap, and no other pixel
  changes.\<close>

theorem copy_repeats_line_above:
  assumes "fb_ok fb" and "0 < n" and "fb_W fb \<le> fb_Cur fb"
  shows "\<exists>fb'. copyFromPrev (fb_Cur fb - fb_W fb) n fb = Inr fb' \<and> length (fb_Pixels fb') = length (fb_Pixels fb)
     \<and> fb_Cur fb' = min (fb_Cur fb + n) (npix fb)
     \<and> (\<forall>j < length (fb_Pixels fb). if fb_Cur fb \<le> int j \<and> int j < fb_Cur fb'
          then fb_Pixels fb' ! j = fb_Pixels fb' ! nat (int j - fb_W fb) else fb_Pixels fb' ! j = fb_Pixels fb ! j)"
proof -
  define stop where "stop = min (fb_Cur fb + n) (npix fb)"
  have b: "0 \<le> fb_Cur fb" "fb_Cur fb \<le> stop" "stop \<le> npix fb" "0 \<le> fb_Cur fb - fb_W fb" "fb_Cur fb - fb_W fb \<le> fb_Cur fb"
    using assms by (auto simp: stop_def fb_ok_def)
  from copy_loop_spec [OF b] obtain px where
    px: "copy_loop (fb_Cur fb) stop (fb_Cur fb - fb_W fb) fb = Inr (fb\<lparr>fb_Pixels := px\<rparr>)" "length px = length (fb_Pixels fb)"
      "\<forall>j < length px. int j < fb_Cur fb \<or> stop \<le> int j \<longrightarrow> px ! j = fb_Pixels fb ! j"
      "\<forall>j < length px. fb_Cur fb \<le> int j \<and> int j < stop \<longrightarrow> px ! j = px ! nat (int j - fb_Cur fb + (fb_Cur fb - fb_W fb))" by blast
  have "copyFromPrev (fb_Cur fb - fb_W fb) n fb = Inr (fb\<lparr>fb_Pixels := px, fb_Cur := stop, fb_Dirty := True\<rparr>)"
    using px(1) assms(2) b(4) by (auto simp: copyFromPrev_def Let_def stop_def min_def not_less)
  then show ?thesis using px(2-4) by (auto simp: stop_def not_le not_less)
qed

theorem copy_repeats_line_above_witness:
  "\<exists>fb fb'. copyFromPrev (fb_Cur fb - fb_W fb) 3 fb = Inr fb' \<and> fb_Pixels fb = [7, 8, 1, 2, 3, 4] \<and> fb_Pixels fb' ! 4 = fb_Pixels fb' ! 2
     \<and> fb_Pixels fb' ! 5 = 4"
proof -
  let ?fb = "\<lparr>fb_Pixels = [7, 8, 1, 2, 3, 4], fb_W = 2, fb_H = 3, fb_Cur = 2, fb_Dirty = False\<rparr>"
  have "fb_ok ?fb" by (simp add: fb_ok_def)
  from copy_repeats_line_above [OF this, of 3] obtain fb' where c: "copyFromPrev (fb_Cur ?fb - fb_W ?fb) 3 ?fb = Inr fb'"
    "\<forall>j < 6. if 2 \<le> int j \<and> int j < 5 then fb_Pixels fb' ! j = fb_Pixels fb' ! nat (int j - 2) else fb_Pixels fb' ! j = [7, 8, 1, 2, 3, 4] ! j"
    by auto
  from c(2) [rule_format, of 4] c(2) [rule_format, of 5] have "fb_Pixels fb' ! 4 = fb_Pixels fb' ! 2" "fb_Pixels fb' ! 5 = 4" by simp_all
  then show ?thesis using c(1) by (intro exI [of _ ?fb] exI [of _ fb']) simp
qed

end
