(* ===== verification/Video_Avocent2.thy ===== *)
theory Video_Avocent2
  imports Video_Decoder
begin

text \<open>
  The packet-type dispatcher for video packets (\<open>internal/video/avocent2*.go\<close>): buffering, run-length
  expansion and tile painting.  Slices that start out nil are options; every index and slice expression whose bounds the
  code does not check is the panic it would be.  The framebuffer passed in is never nil.
\<close>

section \<open>State\<close>

record AvocentTileDesc =
  td_X2 :: int
  td_X1 :: int
  td_Y2 :: int
  td_Y1 :: int
  td_W :: int
  td_H :: int
  td_N :: int

text \<open>The two-element arrays \<open>S\<close>, \<open>X\<close>, \<open>U\<close> and \<open>W\<close> are lists of length two.\<close>

record AvocentV2 =
  a_E :: nat
  a_D :: nat
  a_F :: nat
  a_A :: nat
  a_B :: nat
  a_G :: nat
  a_J :: "AvocentTileDesc list"
  a_S :: "bytes option list"
  a_X :: "bytes option list"
  a_U :: "nat list"
  a_W :: "nat list"
  a_V :: nat
  a_y :: bool
  a_probeW :: nat
  a_probeH :: nat
  a_sawInit :: bool

definition zero_tile :: AvocentTileDesc where
  "zero_tile = \<lparr>td_X2 = 0, td_X1 = 0, td_Y2 = 0, td_Y1 = 0, td_W = 0, td_H = 0, td_N = 0\<rparr>"

definition NewAvocentV2 :: AvocentV2 where
  "NewAvocentV2 = \<lparr>a_E = 0, a_D = 0, a_F = 0, a_A = 0, a_B = 0, a_G = 0, a_J = replicate 64 zero_tile,
     a_S = [None, None], a_X = [None, None], a_U = [0, 0], a_W = [0, 0], a_V = 131072, a_y = False,
     a_probeW = 0, a_probeH = 0, a_sawInit = False\<rparr>"

abbreviation (input) slice_panic :: gerror where "slice_panic \<equiv> Panic ''slice bounds out of range''"

section \<open>Run-length expansion\<close>

text \<open>The loop of \<open>rleExpand\<close>: input position, output position and output buffer.  A run may replace the buffer by a larger one;
  the result is the final buffer with the number of valid bytes, or an error together with the buffer reached.\<close>

function rle_loop :: "byte \<Rightarrow> byte \<Rightarrow> bytes \<Rightarrow> nat \<Rightarrow> nat \<Rightarrow> nat \<Rightarrow> bytes \<Rightarrow> gerror option \<times> nat \<times> bytes" where
  "rle_loop Aval Bval src n4 i o' dst =
     (if i < n4 then
        if i \<ge> length src then (Some (Panic ''index out of range''), o', dst)
        else if src ! i = Bval then
          if i + 1 \<ge> n4 then (Some (Errorf (''avo2: rle B-trunc at '' @ dec i)), o', dst)
          else if i + 1 \<ge> length src then (Some (Panic ''index out of range''), o', dst)
          else
            let v = src ! (i + 1)
            in if o' + 3 > length dst then (Some (Errorf ''avo2: rle out overflow''), o', dst)
               else rle_loop Aval Bval src n4 (i + 2) (o' + 3) (dst[o' := v, o' + 1 := v, o' + 2 := v])
        else if src ! i = Aval then
          if i + 1 \<ge> length src then (Some (Errorf (''avo2: rle A-trunc at '' @ dec i)), o', dst)
          else
            let n = unat (src ! (i + 1)) + 1;
                v = (if i + 2 < length src then src ! (i + 2) else 0)
            in if n = 1 then
                 if o' + 1 > length dst then (Some (Errorf ''avo2: rle out overflow''), o', dst)
                 else rle_loop Aval Bval src n4 (i + 2) (o' + 1) (dst[o' := Aval])
               else if n = 2 then
                 if o' + 1 > length dst then (Some (Errorf ''avo2: rle out overflow''), o', dst)
                 else rle_loop Aval Bval src n4 (i + 2) (o' + 1) (dst[o' := Bval])
               else
                 let dst = (if o' + n > length dst then
                              let grow = length dst * 2;
                                  grow = (if grow < o' + n then o' + n else grow)
                              in copy_to 0 grow (take o' dst) (mk_buf grow)
                            else dst)
                 in rle_loop Aval Bval src n4 (i + 3) (o' + n) (copy_to o' (o' + n) (replicate n v) dst)
        else if o' + 1 > length dst then (Some (Errorf (''avo2: rle out overflow at '' @ dec o')), o', dst)
        else rle_loop Aval Bval src n4 (i + 1) (o' + 1) (dst[o' := src ! i])
      else (None, o', dst))"
  by pat_completeness auto
termination by (relation "measure (\<lambda>(A, B, src, n4, i, o', dst). n4 - i)") auto

declare rle_loop.simps [simp del]

definition rleExpand :: "nat \<Rightarrow> AvocentV2 \<Rightarrow> gerror option \<times> AvocentV2" where
  "rleExpand idx a =
     (case a_S a ! idx of
        None \<Rightarrow> (Some (Errorf (''avo2: rle idx '' @ dec idx @ '' no buf'')), a)
      | Some src \<Rightarrow>
          let n4 = a_U a ! idx;
              dst = (case a_X a ! idx of
                       Some x \<Rightarrow> if length x < n4 * 8 then mk_buf (if n4 * 8 < 1024 then 1024 else n4 * 8) else x
                     | None \<Rightarrow> mk_buf (if n4 * 8 < 1024 then 1024 else n4 * 8));
              a = a\<lparr>a_X := (a_X a)[idx := Some dst]\<rparr>
          in if a_A a = 0 \<and> a_B a = 0 then
               if n4 \<le> length src then
                 (None, a\<lparr>a_X := (a_X a)[idx := Some (copy_to 0 n4 (take n4 src) dst)], a_W := (a_W a)[idx := n4]\<rparr>)
               else (Some (Panic ''index out of range''), a)
             else if a_A a = a_B a then (Some (Errorf (''avo2: rle A==B=='' @ dec (a_A a))), a)
             else
               (case rle_loop (of_nat (a_A a)) (of_nat (a_B a)) src n4 0 0 dst of
                  (Some e, _, dst) \<Rightarrow> (Some e, a\<lparr>a_X := (a_X a)[idx := Some dst]\<rparr>)
                | (None, n, dst) \<Rightarrow> (None, a\<lparr>a_X := (a_X a)[idx := Some dst], a_W := (a_W a)[idx := n]\<rparr>)))"

section \<open>Painting\<close>

abbreviation (input) rgb :: "byte \<Rightarrow> byte \<Rightarrow> byte \<Rightarrow> u32" where
  "rgb r g b \<equiv> 0xFF000000 OR push_bit 16 (ucast r) OR push_bit 8 (ucast g) OR ucast b"

definition byte_at :: "int \<Rightarrow> bytes \<Rightarrow> byte result" where
  "byte_at i x = (if 0 \<le> i \<and> i < int (length x) then Inr (x ! nat i) else Inl (Panic ''index out of range''))"

text \<open>One row of \<open>paintTileRGB\<close>: the flag tells that the painter returned early.\<close>

function rgb_cols :: "AvocentTileDesc \<Rightarrow> bytes \<Rightarrow> int \<Rightarrow> int \<Rightarrow> int \<Rightarrow> int \<Rightarrow> int \<Rightarrow> Framebuffer
    \<Rightarrow> (bool \<times> (int \<times> int \<times> int) \<times> Framebuffer) result" where
  "rgb_cols t x base col r g b fb =
     (if col < td_W t then
        let xx = td_X1 t + col
        in if xx < 0 \<or> xx \<ge> fb_W fb then rgb_cols t x base (col + 1) (r + 1) (g + 1) (b + 1) fb
           else if r \<ge> int (length x) \<or> g \<ge> int (length x) \<or> b \<ge> int (length x) then Inr (True, (r, g, b), fb)
           else
             (case (byte_at r x, byte_at g x, byte_at b x) of
                (Inr R, Inr G, Inr B) \<Rightarrow>
                  (case set_pixel (base + xx) (rgb R G B) fb of
                     Inl e \<Rightarrow> Inl e
                   | Inr fb \<Rightarrow> rgb_cols t x base (col + 1) (r + 1) (g + 1) (b + 1) fb)
              | _ \<Rightarrow> Inl (Panic ''index out of range''))
      else Inr (False, (r, g, b), fb))"
  by pat_completeness auto
termination by (relation "measure (\<lambda>(t, x, base, col, r, g, b, fb). nat (td_W t - col))") auto

function rgb_rows :: "AvocentTileDesc \<Rightarrow> bytes \<Rightarrow> int \<Rightarrow> int \<Rightarrow> int \<Rightarrow> int \<Rightarrow> Framebuffer \<Rightarrow> Framebuffer result" where
  "rgb_rows t x row r g b fb =
     (if row < td_H t then
        let yy = td_Y1 t + row
        in if yy < 0 \<or> yy \<ge> fb_H fb then rgb_rows t x (row + 1) (r + td_W t) (g + td_W t) (b + td_W t) fb
           else
             (case rgb_cols t x (yy * fb_W fb) 0 r g b fb of
                Inl e \<Rightarrow> Inl e
              | Inr (True, _, fb) \<Rightarrow> Inr fb
              | Inr (False, (r, g, b), fb) \<Rightarrow> rgb_rows t x (row + 1) r g b fb)
      else Inr fb)"
  by pat_completeness auto
termination by (relation "measure (\<lambda>(t, x, row, r, g, b, fb). nat (td_H t - row))") auto

definition pixel16 :: "bool \<Rightarrow> byte \<Rightarrow> byte \<Rightarrow> u32" where
  "pixel16 y n11 n12 =
     (let n10 = push_bit 8 (ucast n11) OR ucast n12 :: u32;
          R = (if y then push_bit 3 (drop_bit 10 n10 AND 0x1F) else push_bit 3 (drop_bit 11 n10 AND 0x1F));
          G = (if y then push_bit 3 (drop_bit 5 n10 AND 0x1F) else push_bit 2 (drop_bit 5 n10 AND 0x3F));
          B = push_bit 3 (n10 AND 0x1F)
      in 0xFF000000 OR push_bit 16 R OR push_bit 8 G OR B)"

function cols16 :: "bool \<Rightarrow> AvocentTileDesc \<Rightarrow> bytes \<Rightarrow> int \<Rightarrow> int \<Rightarrow> int \<Rightarrow> int \<Rightarrow> Framebuffer
    \<Rightarrow> ((int \<times> int) \<times> Framebuffer) result" where
  "cols16 y t x base col r g fb =
     (if col < td_W t then
        let xx = td_X1 t + col
        in if xx < 0 \<or> xx \<ge> fb_W fb \<or> r \<ge> int (length x) \<or> g \<ge> int (length x) then
             cols16 y t x base (col + 1) (r + 1) (g + 1) fb
           else
             (case (byte_at r x, byte_at g x) of
                (Inr n11, Inr n12) \<Rightarrow>
                  (case set_pixel (base + xx) (pixel16 y n11 n12) fb of
                     Inl e \<Rightarrow> Inl e
                   | Inr fb \<Rightarrow> cols16 y t x base (col + 1) (r + 1) (g + 1) fb)
              | _ \<Rightarrow> Inl (Panic ''index out of range''))
      else Inr ((r, g), fb))"
  by pat_completeness auto
termination by (relation "measure (\<lambda>(y, t, x, base, col, r, g, fb). nat (td_W t - col))") auto

function paintTile16 :: "bool \<Rightarrow> AvocentTileDesc \<Rightarrow> bytes \<Rightarrow> int \<Rightarrow> int \<Rightarrow> int \<Rightarrow> Framebuffer \<Rightarrow> Framebuffer result" where
  "paintTile16 y t x row r g fb =
     (if row < td_H t then
        let yy = td_Y1 t + row
        in if yy < 0 \<or> yy \<ge> fb_H fb then paintTile16 y t x (row + 1) (r + td_W t) (g + td_W t) fb
           else
             (case cols16 y t x (yy * fb_W fb) 0 r g fb of
                Inl e \<Rightarrow> Inl e
              | Inr ((r, g), fb) \<Rightarrow> paintTile16 y t x (row + 1) r g fb)
      else Inr fb)"
  by pat_completeness auto
termination by (relation "measure (\<lambda>(y, t, x, row, r, g, fb). nat (td_H t - row))") auto

declare rgb_cols.simps [simp del] rgb_rows.simps [simp del] cols16.simps [simp del] paintTile16.simps [simp del]

definition paintTileRGB :: "AvocentV2 \<Rightarrow> AvocentTileDesc \<Rightarrow> bytes \<Rightarrow> int \<Rightarrow> int \<Rightarrow> int \<Rightarrow> Framebuffer \<Rightarrow> Framebuffer result" where
  "paintTileRGB a t x r g b fb =
     (if td_W t \<le> 0 \<or> td_H t \<le> 0 then Inr fb
      else if a_F a = 16 \<or> a_F a \<noteq> 24 \<and> a_F a \<noteq> 32 \<and> a_F a \<noteq> 0 then paintTile16 (a_y a) t x 0 r g fb
      else rgb_rows t x 0 r g b fb)"

fun paint_tile_list :: "AvocentV2 \<Rightarrow> AvocentTileDesc list \<Rightarrow> bytes \<Rightarrow> int \<Rightarrow> int \<Rightarrow> int \<Rightarrow> Framebuffer \<Rightarrow> Framebuffer result" where
  "paint_tile_list a [] x p0 p1 p2 fb = Inr fb"
| "paint_tile_list a (t # ts) x p0 p1 p2 fb =
     (if td_N t \<le> 0 then paint_tile_list a ts x p0 p1 p2 fb
      else
        (case paintTileRGB a t x p0 p1 p2 fb of
           Inl e \<Rightarrow> Inl e
         | Inr fb \<Rightarrow> paint_tile_list a ts x (p0 + td_N t) (p1 + td_N t) (p2 + td_N t) fb))"

text \<open>\<open>a.X[0][:a.W[0]]\<close>; slicing a nil slice to length zero is allowed.\<close>

definition plane :: "AvocentV2 \<Rightarrow> bytes result" where
  "plane a =
     (let x = (case a_X a ! 0 of None \<Rightarrow> [] | Some x \<Rightarrow> x)
      in if a_W a ! 0 \<le> length x then Inr (take (a_W a ! 0) x) else Inl slice_panic)"

definition paintTiles :: "AvocentV2 \<Rightarrow> Framebuffer \<Rightarrow> Framebuffer result" where
  "paintTiles a fb =
     (if a_G a = 0 then Inr fb
      else if a_G a > length (a_J a) then Inl (Panic ''index out of range'')
      else
        let tiles = take (a_G a) (a_J a);
            tot = sum_list (map td_N tiles)
        in if tot = 0 then Inr fb
           else
             (case plane a of
                Inl e \<Rightarrow> Inl e
              | Inr x \<Rightarrow>
                  if 2 * tot + tot > int (length x) \<and> length x < 3 then Inr fb
                  else
                    (case paint_tile_list a tiles x 0 tot (2 * tot) fb of
                       Inl e \<Rightarrow> Inl e
                     | Inr fb \<Rightarrow> Inr (fb\<lparr>fb_Dirty := True\<rparr>))))"

definition paintFullFrame :: "AvocentV2 \<Rightarrow> Framebuffer \<Rightarrow> Framebuffer result" where
  "paintFullFrame a fb =
     (if a_E a = 0 \<or> a_D a = 0 then Inr fb
      else
        let tot = a_E a * a_D a
        in case plane a of
             Inl e \<Rightarrow> Inl e
           | Inr x \<Rightarrow>
               if length x < 3 * tot then Inr fb
               else
                 let fb = (if fb_W fb \<noteq> int (a_E a) \<or> fb_H fb \<noteq> int (a_D a) then Resize (a_E a) (a_D a) fb else fb)
                 in if tot \<le> length (fb_Pixels fb) then
                      Inr (fb\<lparr>fb_Pixels := copy_to 0 tot (map (\<lambda>i. rgb (x ! i) (x ! (tot + i)) (x ! (2 * tot + i))) [0..<tot]) (fb_Pixels fb),
                             fb_Dirty := True\<rparr>)
                    else Inl (Panic ''index out of range''))"

section \<open>Packet handlers\<close>

text \<open>A handler returns whether the frame is complete, the error if any (a panic included), the decoder and the framebuffer.\<close>

type_synonym handled = "(bool \<times> gerror option) \<times> AvocentV2 \<times> Framebuffer"

definition handleType0 :: "bytes \<Rightarrow> AvocentV2 \<Rightarrow> gerror option \<times> AvocentV2" where
  "handleType0 p a =
     (if length p < 6 then (Some (Errorf (''avo2: type-0 short: '' @ dec (length p))), a)
      else (None, a\<lparr>a_probeW := unat (be16 (slice 2 4 p)), a_probeH := unat (be16 (slice 4 6 p))\<rparr>))"

definition bytes_per_pixel :: "nat \<Rightarrow> nat" where
  "bytes_per_pixel F =
     (let bpp = F div 8;
          bpp = (if F \<ge> 24 then 4 else bpp);
          bpp = (if F = 16 then 3 else bpp)
      in if F = 4 then 1 else bpp)"

definition handleType1 :: "bytes \<Rightarrow> AvocentV2 \<Rightarrow> Framebuffer \<Rightarrow> gerror option \<times> AvocentV2 \<times> Framebuffer" where
  "handleType1 p a fb =
     (if length p < 16 then (Some (Errorf (''avo2: type-1 short: '' @ dec (length p))), a, fb)
      else
        let a = a\<lparr>a_E := unat (be16 (slice 4 6 p)), a_D := unat (be16 (slice 6 8 p)), a_F := unat (p ! 11),
                 a_y := (p ! 1 AND 8 > 0)\<rparr>;
            need = a_E a * a_D a * bytes_per_pixel (a_F a);
            a = (if a_V a < need then
                   a\<lparr>a_V := need, a_S := [Some (mk_buf need), Some (mk_buf need)], a_X := [Some (mk_buf need), Some (mk_buf need)]\<rparr>
                 else a);
            a = a\<lparr>a_sawInit := True\<rparr>;
            fb = (if (fb_W fb \<noteq> int (a_E a) \<or> fb_H fb \<noteq> int (a_D a)) \<and> a_E a > 0 \<and> a_D a > 0
                  then Resize (a_E a) (a_D a) fb else fb)
        in (None, a, fb))"

text \<open>The part that packet types 2 and 3 share: reset on the first packet, allocate, append the body.  The caller names the
  buffer and the overflow message.\<close>

definition buffer_body :: "nat \<Rightarrow> (nat \<Rightarrow> nat \<Rightarrow> nat \<Rightarrow> string) \<Rightarrow> bytes \<Rightarrow> AvocentV2 \<Rightarrow> gerror option \<times> AvocentV2" where
  "buffer_body idx msg p a =
     (let a = a\<lparr>a_A := unat (p ! 2), a_B := unat (p ! 3)\<rparr>;
          body = drop 12 p;
          a = (if p ! 1 AND 1 > 0 then a\<lparr>a_U := (a_U a)[idx := 0], a_W := (a_W a)[idx := 0]\<rparr> else a);
          a = (case a_S a ! idx of
                 None \<Rightarrow> a\<lparr>a_S := (a_S a)[idx := Some (mk_buf (a_V a))], a_X := (a_X a)[idx := Some (mk_buf (a_V a))]\<rparr>
               | Some _ \<Rightarrow> a);
          nBody = length body;
          u = a_U a ! idx;
          s = (case a_S a ! idx of None \<Rightarrow> [] | Some s \<Rightarrow> s)
      in if nBody > 0 then
           if u + nBody > a_V a then (Some (Errorf (msg u nBody (a_V a))), a)
           else if u > length s then (Some slice_panic, a)
           else (None, a\<lparr>a_S := (a_S a)[idx := Some (copy_from u body s)], a_U := (a_U a)[idx := u + nBody]\<rparr>)
         else (None, a))"

definition handleType2 :: "bytes \<Rightarrow> AvocentV2 \<Rightarrow> Framebuffer \<Rightarrow> handled" where
  "handleType2 p a fb =
     (if length p < 12 then ((False, Some (Errorf (''avo2: type-2 short: '' @ dec (length p)))), a, fb)
      else
        (case buffer_body 0 (\<lambda>u n v. ''avo2: type-2 overflow at '' @ dec u @ ''+'' @ dec n @ ''>'' @ dec v) p a of
           (Some e, a) \<Rightarrow> ((False, Some e), a, fb)
         | (None, a) \<Rightarrow>
             if p ! 1 AND 2 = 0 then ((False, None), a, fb)
             else (case rleExpand 0 a of (e, a) \<Rightarrow> ((False, e), a, fb))))"

definition handleType3 :: "bytes \<Rightarrow> AvocentV2 \<Rightarrow> Framebuffer \<Rightarrow> handled" where
  "handleType3 p a fb =
     (if length p < 12 then ((False, Some (Errorf (''avo2: type-3 short: '' @ dec (length p)))), a, fb)
      else
        (case buffer_body 1 (\<lambda>u n v. ''avo2: type-3 overflow'') p a of
           (Some e, a) \<Rightarrow> ((False, Some e), a, fb)
         | (None, a) \<Rightarrow>
             if p ! 1 AND 2 = 0 then ((False, None), a, fb)
             else
               (case rleExpand 1 a of
                  (Some e, a) \<Rightarrow> ((False, Some e), a, fb)
                | (None, a) \<Rightarrow>
                    if a_W a ! 0 > 0 \<and> a_E a > 0 \<and> a_D a > 0 then
                      (case paintFullFrame a fb of
                         Inl e \<Rightarrow> ((False, Some e), a, fb)
                       | Inr fb \<Rightarrow> ((True, None), a, fb))
                    else ((True, None), a, fb))))"

text \<open>Tile descriptors are eight bytes of signed shorts.\<close>

definition short_at :: "nat \<Rightarrow> bytes \<Rightarrow> int" where
  "short_at i body = sint (be16 (slice i (i + 2) body))"

definition tile_desc :: "bytes \<Rightarrow> nat \<Rightarrow> AvocentTileDesc" where
  "tile_desc body i =
     (let x2 = short_at (i * 8) body; x1 = short_at (i * 8 + 2) body;
          y2 = short_at (i * 8 + 4) body; y1 = short_at (i * 8 + 6) body;
          w = x2 - x1 + 1; h = y2 - y1 + 1
      in \<lparr>td_X2 = x2, td_X1 = x1, td_Y2 = y2, td_Y1 = y1, td_W = w, td_H = h, td_N = w * h\<rparr>)"

text \<open>Doubling until the size suffices; a size of zero would never grow.\<close>

function grow_to :: "nat \<Rightarrow> nat \<Rightarrow> nat option" where
  "grow_to v need = (if v < need then if v = 0 then None else grow_to (v * 2) need else Some v)"
  by pat_completeness auto
termination by (relation "measure (\<lambda>(v, need). need - v)") auto

declare grow_to.simps [simp del]

definition start_tiles :: "bytes \<Rightarrow> bytes \<Rightarrow> AvocentV2 \<Rightarrow> gerror option \<times> nat \<times> AvocentV2" where
  "start_tiles p body a =
     (let a = a\<lparr>a_U := (a_U a)[0 := 0], a_W := (a_W a)[0 := 0], a_G := unat (p ! 9), a_F := unat (p ! 8),
               a_E := unat (be16 (slice 4 6 p)), a_D := unat (be16 (slice 6 8 p))\<rparr>;
          a = (if a_G a > length (a_J a) then a\<lparr>a_J := replicate (a_G a) zero_tile\<rparr> else a);
          descBytes = a_G a * 8
      in if descBytes > length body then
           (Some (Errorf (''avo2: tile descriptors '' @ dec descBytes @ '' > body '' @ dec (length body))), 0, a)
         else
           let a = a\<lparr>a_J := map (tile_desc body) [0..<a_G a] @ drop (a_G a) (a_J a)\<rparr>;
               a = (case a_S a ! 0 of
                      None \<Rightarrow>
                        let a = (if a_V a < 131072 then a\<lparr>a_V := 131072\<rparr> else a)
                        in a\<lparr>a_S := (a_S a)[0 := Some (mk_buf (a_V a))], a_X := (a_X a)[0 := Some (mk_buf (a_V a))]\<rparr>
                    | Some _ \<Rightarrow> a)
           in (None, descBytes, a))"

text \<open>Appending the rest of the body to \<open>S[0]\<close>, growing both buffers when it does not fit.\<close>

definition append_tiles :: "bytes \<Rightarrow> AvocentV2 \<Rightarrow> gerror option \<times> AvocentV2" where
  "append_tiles rest a =
     (let rem = length rest;
          u = a_U a ! 0;
          s = (case a_S a ! 0 of None \<Rightarrow> [] | Some s \<Rightarrow> s)
      in if rem > 0 then
           if u > length s then (Some slice_panic, a)
           else if u + rem > a_V a then
             (case grow_to (a_V a) (u + rem) of
                None \<Rightarrow> (Some (Panic ''does not return''), a)
              | Some newV \<Rightarrow>
                  let ns = copy_from 0 (take u s) (mk_buf newV)
                  in (None, a\<lparr>a_S := (a_S a)[0 := Some (copy_from u rest ns)], a_X := (a_X a)[0 := Some (mk_buf newV)],
                              a_V := newV, a_U := (a_U a)[0 := u + rem]\<rparr>))
           else (None, a\<lparr>a_S := (a_S a)[0 := map_option (copy_from u rest) (a_S a ! 0)], a_U := (a_U a)[0 := u + rem]\<rparr>)
         else (None, a))"

definition handleType4 :: "bytes \<Rightarrow> AvocentV2 \<Rightarrow> Framebuffer \<Rightarrow> handled" where
  "handleType4 p a fb =
     (if length p < 12 then ((False, Some (Errorf (''avo2: type-4/5/6 short: '' @ dec (length p)))), a, fb)
      else
        let a = a\<lparr>a_A := unat (p ! 2), a_B := unat (p ! 3)\<rparr>;
            body = drop 12 p
        in case (if p ! 1 AND 1 > 0 then start_tiles p body a else (None, 0, a)) of
             (Some e, _, a) \<Rightarrow> ((False, Some e), a, fb)
           | (None, bodyOff, a) \<Rightarrow>
               (case append_tiles (drop bodyOff body) a of
                  (Some e, a) \<Rightarrow> ((False, Some e), a, fb)
                | (None, a) \<Rightarrow>
                    if p ! 1 AND 2 = 0 then ((False, None), a, fb)
                    else
                      (case rleExpand 0 a of
                         (Some e, a) \<Rightarrow> ((False, Some e), a, fb)
                       | (None, a) \<Rightarrow>
                           if a_W a ! 0 > 0 \<and> a_G a > 0 then
                             (case paintTiles a fb of
                                Inl e \<Rightarrow> ((False, Some e), a, fb)
                              | Inr fb \<Rightarrow> ((True, None), a, fb))
                           else ((True, None), a, fb))))"

definition avo2_Decode :: "AvocentV2 \<Rightarrow> Framebuffer \<Rightarrow> bytes \<Rightarrow> handled" where
  "avo2_Decode a fb payload =
     (if length payload < 1 then ((False, Some (Errorf ''avo2: empty payload'')), a, fb)
      else
        let h = payload ! 0
        in if h = 0 then (case handleType0 payload a of (e, a) \<Rightarrow> ((False, e), a, fb))
           else if h = 1 then (case handleType1 payload a fb of (e, a, fb) \<Rightarrow> ((False, e), a, fb))
           else if h = 2 then handleType2 payload a fb
           else if h = 3 then handleType3 payload a fb
           else if h = 4 \<or> h = 5 \<or> h = 6 then handleType4 payload a fb
           else if h = 7 \<or> h = 8 then ((False, None), a, fb)
           else ((False, Some (Errorf (''avo2: unknown packet type '' @ dec (unat h)))), a, fb))"

section \<open>Lemmas: expansion\<close>

text \<open>What the encoder of the run-length format can say: a byte that is no marker, either marker, three equal bytes, or a run.\<close>

datatype rle_token = Lit byte | MarkA | MarkB | Triple byte | Run nat byte

fun token_bytes :: "byte \<Rightarrow> byte \<Rightarrow> rle_token \<Rightarrow> bytes" where
  "token_bytes A B (Lit b) = [b]"
| "token_bytes A B MarkA = [A, 0]"
| "token_bytes A B MarkB = [A, 1]"
| "token_bytes A B (Triple v) = [B, v]"
| "token_bytes A B (Run n v) = [A, of_nat (n - 1), v]"

fun token_out :: "byte \<Rightarrow> byte \<Rightarrow> rle_token \<Rightarrow> bytes" where
  "token_out A B (Lit b) = [b]"
| "token_out A B MarkA = [A]"
| "token_out A B MarkB = [B]"
| "token_out A B (Triple v) = [v, v, v]"
| "token_out A B (Run n v) = replicate n v"

fun token_ok :: "byte \<Rightarrow> byte \<Rightarrow> rle_token \<Rightarrow> bool" where
  "token_ok A B (Lit b) \<longleftrightarrow> b \<noteq> A \<and> b \<noteq> B"
| "token_ok A B (Run n v) \<longleftrightarrow> 3 \<le> n \<and> n \<le> 256"
| "token_ok A B _ \<longleftrightarrow> True"

abbreviation enc_tokens :: "byte \<Rightarrow> byte \<Rightarrow> rle_token list \<Rightarrow> bytes" where
  "enc_tokens A B ts \<equiv> concat (map (token_bytes A B) ts)"

abbreviation out_tokens :: "byte \<Rightarrow> byte \<Rightarrow> rle_token list \<Rightarrow> bytes" where
  "out_tokens A B ts \<equiv> concat (map (token_out A B) ts)"

lemma rle_token_step:
  assumes "A \<noteq> B" "token_ok A B t" "src = pre @ token_bytes A B t @ post" "length pre + length (token_bytes A B t) \<le> n4"
    "length (token_out A B t) \<le> length free"
  shows "rle_loop A B src n4 (length pre) (length out) (out @ free)
     = rle_loop A B src n4 (length pre + length (token_bytes A B t)) (length out + length (token_out A B t))
         ((out @ token_out A B t) @ drop (length (token_out A B t)) free)"
proof (cases t)
  case (Lit b)
  obtain f fs where "free = f # fs" using assms(5) Lit by (cases free) auto
  then show ?thesis using assms Lit by (subst rle_loop.simps) (simp add: nth_append list_update_append)
next
  case MarkA
  obtain f fs where "free = f # fs" using assms(5) MarkA by (cases free) auto
  then show ?thesis using assms MarkA by (subst rle_loop.simps) (simp add: nth_append list_update_append Let_def)
next
  case MarkB
  obtain f fs where "free = f # fs" using assms(5) MarkB by (cases free) auto
  then show ?thesis using assms MarkB by (subst rle_loop.simps) (simp add: nth_append list_update_append Let_def)
next
  case (Triple v)
  obtain f g h fs where "free = f # g # h # fs" using assms(5) Triple
    by (cases free; cases "tl free"; cases "tl (tl free)") auto
  then show ?thesis using assms Triple by (subst rle_loop.simps) (simp add: nth_append list_update_append Let_def numeral_3_eq_3)
next
  case (Run n v)
  have n: "3 \<le> n" "n \<le> 256" using assms(2) Run by auto
  have un: "unat (of_nat (n - 1) :: byte) = n - 1" using n by (simp add: unat_of_nat del: of_nat_diff)
  have src: "src ! length pre = A" "src ! (length pre + 1) = of_nat (n - 1)" "src ! (length pre + 2) = v" "length pre + 2 < length src"
    using assms(3) Run by (simp_all add: nth_append)
  have "copy_to (length out) (length out + n) (replicate n v) (out @ free) = (out @ replicate n v) @ drop n free"
    using assms(5) Run by (simp add: copy_to_def)
  moreover have "rle_loop A B src n4 (length pre) (length out) (out @ free)
      = rle_loop A B src n4 (length pre + 3) (length out + n) (copy_to (length out) (length out + n) (replicate n v) (out @ free))"
    using assms(1,4,5) Run n src un by (subst rle_loop.simps) (simp add: Let_def del: of_nat_diff)
  ultimately show ?thesis using Run by (simp add: numeral_3_eq_3)
qed

lemma rle_loop_prefix:
  assumes "A \<noteq> B"
  shows "list_all (token_ok A B) ts \<Longrightarrow> src = pre @ enc_tokens A B ts @ post \<Longrightarrow> length (out_tokens A B ts) \<le> length free
    \<Longrightarrow> length pre + length (enc_tokens A B ts) \<le> n4
    \<Longrightarrow> rle_loop A B src n4 (length pre) (length out) (out @ free)
      = rle_loop A B src n4 (length pre + length (enc_tokens A B ts)) (length out + length (out_tokens A B ts))
          (out @ out_tokens A B ts @ drop (length (out_tokens A B ts)) free)"
proof (induction ts arbitrary: pre out free)
  case (Cons t ts)
  let ?tb = "token_bytes A B t" and ?to = "token_out A B t"
  have step: "rle_loop A B src n4 (length pre) (length out) (out @ free)
     = rle_loop A B src n4 (length (pre @ ?tb)) (length (out @ ?to)) ((out @ ?to) @ drop (length ?to) free)"
    using rle_token_step [OF assms, of t src pre "enc_tokens A B ts @ post" n4 free out] Cons.prems by simp
  have "length (out_tokens A B ts) \<le> length (drop (length ?to) free)" using Cons.prems(3) by simp
  with Cons.IH [of "pre @ ?tb" "drop (length ?to) free" "out @ ?to"] Cons.prems(1,2,4) show ?case
    unfolding step by (simp add: add.assoc add.commute [of "length (out_tokens A B ts)"])
qed simp

lemma rle_loop_tokens:
  assumes "A \<noteq> B" "list_all (token_ok A B) ts" "length (out_tokens A B ts) \<le> length dst"
  shows "rle_loop A B (enc_tokens A B ts @ pad) (length (enc_tokens A B ts)) 0 0 dst
      = (None, length (out_tokens A B ts), out_tokens A B ts @ drop (length (out_tokens A B ts)) dst)"
  using rle_loop_prefix [OF assms(1,2), of "enc_tokens A B ts @ pad" "[]" pad dst "length (enc_tokens A B ts)" "[]"] assms(3)
  by (simp add: rle_loop.simps [of _ _ _ _ "length (enc_tokens A B ts)"])

lemma rle_loop_no_panic:
  "n4 \<le> length src \<Longrightarrow> A \<noteq> B \<Longrightarrow> rle_loop A B src n4 i o' dst \<noteq> (Some (Panic m), n, dst')"
proof (induction "n4 - i" arbitrary: i o' dst rule: less_induct)
  case less
  have IH: "rle_loop A B src n4 i' o2 d \<noteq> (Some (Panic m), n, dst')" if "i < i'" "i < n4" for i' o2 d
    using less.hyps [of i' o2 d] less.prems that by simp
  show ?case using less.prems by (subst rle_loop.simps) (simp add: Let_def IH)
qed

section \<open>Lemmas: painting\<close>

lemma rgb_cols_safe:
  "fb_rect fb \<Longrightarrow> 0 \<le> yy \<Longrightarrow> yy < fb_H fb \<Longrightarrow> 0 \<le> r \<Longrightarrow> 0 \<le> g \<Longrightarrow> 0 \<le> b \<Longrightarrow>
    \<exists>stop r' g' b' fb'. rgb_cols t x (yy * fb_W fb) col r g b fb = Inr (stop, (r', g', b'), fb') \<and> same_shape fb fb'
      \<and> 0 \<le> r' \<and> 0 \<le> g' \<and> 0 \<le> b'"
proof (induction "nat (td_W t - col)" arbitrary: col r g b fb)
  case 0
  then show ?case by (subst rgb_cols.simps) auto
next
  case (Suc n)
  let ?xx = "td_X1 t + col"
  have c: "col < td_W t" "n = nat (td_W t - (col + 1))" using Suc.hyps(2) by auto
  show ?case
  proof (cases "?xx < 0 \<or> ?xx \<ge> fb_W fb")
    case True
    then show ?thesis using Suc.hyps(1) [OF c(2) Suc.prems(1-3), of "r + 1" "g + 1" "b + 1"] Suc.prems c(1)
      by (subst rgb_cols.simps) simp
  next
    case False
    show ?thesis
    proof (cases "r \<ge> int (length x) \<or> g \<ge> int (length x) \<or> b \<ge> int (length x)")
      case True
      then show ?thesis using False Suc.prems c(1) by (subst rgb_cols.simps) auto
    next
      case in_x: False
      obtain R G B where v: "byte_at r x = Inr R" "byte_at g x = Inr G" "byte_at b x = Inr B"
        using in_x Suc.prems(4-6) by (auto simp: byte_at_def)
      obtain fb1 where s: "set_pixel (yy * fb_W fb + ?xx) (rgb R G B) fb = Inr fb1"
        using pixel_in_range [OF Suc.prems(1-3), of ?xx] False by (auto simp: set_pixel_def)
      have sh: "same_shape fb fb1" using set_pixel_shape [OF s] .
      have w: "fb_W fb1 = fb_W fb" "fb_H fb1 = fb_H fb" using sh by (simp_all add: same_shape_def)
      from Suc.hyps(1) [OF c(2) fb_rect_shape [OF sh Suc.prems(1)] Suc.prems(2), of "r + 1" "g + 1" "b + 1"] Suc.prems
      obtain stop r' g' b' fb' where "rgb_cols t x (yy * fb_W fb) (col + 1) (r + 1) (g + 1) (b + 1) fb1 = Inr (stop, (r', g', b'), fb')"
        "same_shape fb1 fb'" "0 \<le> r'" "0 \<le> g'" "0 \<le> b'" by (auto simp: w)
      then show ?thesis using False in_x v s c(1) same_shape_trans [OF sh] by (subst rgb_cols.simps) auto
    qed
  qed
qed

text \<open>One row of a tile that lies inside the framebuffer and whose three planes are long enough.\<close>

lemma rgb_cols_exact:
  assumes "0 \<le> td_X1 t" "td_X1 t + td_W t \<le> fw" "0 \<le> yy" "yy < fh"
    "0 \<le> r0" "0 \<le> g0" "0 \<le> b0" "r0 + td_W t \<le> int (length x)" "g0 + td_W t \<le> int (length x)" "b0 + td_W t \<le> int (length x)"
  shows "fb_rect fb \<Longrightarrow> fb_W fb = fw \<Longrightarrow> fb_H fb = fh \<Longrightarrow> 0 \<le> col \<Longrightarrow> col \<le> td_W t \<Longrightarrow>
    \<exists>fb'. rgb_cols t x (yy * fw) col (r0 + col) (g0 + col) (b0 + col) fb = Inr (False, (r0 + td_W t, g0 + td_W t, b0 + td_W t), fb')
      \<and> same_shape fb fb' \<and> fb_Dirty fb' = fb_Dirty fb
      \<and> (\<forall>k. 0 \<le> k \<longrightarrow> k < npix fb \<longrightarrow> pix fb' k = (let j = k - (yy * fw + td_X1 t) in
           if col \<le> j \<and> j < td_W t then rgb (x ! nat (r0 + j)) (x ! nat (g0 + j)) (x ! nat (b0 + j)) else pix fb k))"
proof (induction "nat (td_W t - col)" arbitrary: col fb)
  case 0
  then show ?case by (subst rgb_cols.simps) (auto simp: Let_def)
next
  case (Suc n)
  let ?xx = "td_X1 t + col"
  let ?c = "rgb (x ! nat (r0 + col)) (x ! nat (g0 + col)) (x ! nat (b0 + col))"
  have c: "col < td_W t" "n = nat (td_W t - (col + 1))" "0 \<le> col + 1" "col + 1 \<le> td_W t" using Suc by auto
  have v: "byte_at (r0 + col) x = Inr (x ! nat (r0 + col))" "byte_at (g0 + col) x = Inr (x ! nat (g0 + col))"
    "byte_at (b0 + col) x = Inr (x ! nat (b0 + col))" using assms c Suc.prems(4) by (auto simp: byte_at_def)
  have xx: "0 \<le> ?xx" "?xx < fb_W fb" using assms(1,2) c(1) Suc.prems by auto
  have rng: "0 \<le> yy * fw + ?xx" "yy * fw + ?xx < npix fb"
    using pixel_in_range [OF Suc.prems(1) assms(3) _ xx] Suc.prems assms(4) by auto
  obtain fb1 where s: "set_pixel (yy * fw + ?xx) ?c fb = Inr fb1" "same_shape fb fb1" "fb_Dirty fb1 = fb_Dirty fb"
    "\<And>k. 0 \<le> k \<Longrightarrow> k < npix fb \<Longrightarrow> pix fb1 k = (if k = yy * fw + ?xx then ?c else pix fb k)"
    using set_pixel_exact [OF rng, of ?c] by blast
  have w: "fb_W fb1 = fw" "fb_H fb1 = fh" "npix fb1 = npix fb" using s(2) Suc.prems by (simp_all add: same_shape_def)
  obtain fb' where r: "rgb_cols t x (yy * fw) (col + 1) (r0 + (col + 1)) (g0 + (col + 1)) (b0 + (col + 1)) fb1
      = Inr (False, (r0 + td_W t, g0 + td_W t, b0 + td_W t), fb')" "same_shape fb1 fb'" "fb_Dirty fb' = fb_Dirty fb1"
    "\<And>k. 0 \<le> k \<Longrightarrow> k < npix fb1 \<Longrightarrow> pix fb' k = (let j = k - (yy * fw + td_X1 t) in
           if col + 1 \<le> j \<and> j < td_W t then rgb (x ! nat (r0 + j)) (x ! nat (g0 + j)) (x ! nat (b0 + j)) else pix fb1 k)"
    using Suc.hyps(1) [OF c(2) fb_rect_shape [OF s(2) Suc.prems(1)] w(1,2) c(3,4)] by blast
  have "rgb_cols t x (yy * fw) col (r0 + col) (g0 + col) (b0 + col) fb
      = rgb_cols t x (yy * fw) (col + 1) (r0 + (col + 1)) (g0 + (col + 1)) (b0 + (col + 1)) fb1"
    using c(1) xx assms(8-10) s(1) Suc.prems(2) v by (subst rgb_cols.simps) (simp add: Let_def add.assoc)
  moreover have "pix fb' k = (let j = k - (yy * fw + td_X1 t) in
           if col \<le> j \<and> j < td_W t then rgb (x ! nat (r0 + j)) (x ! nat (g0 + j)) (x ! nat (b0 + j)) else pix fb k)"
    if "0 \<le> k" "k < npix fb" for k
    using that r(4) [of k] s(4) [of k] w(3) c(1) by (auto simp: Let_def)
  ultimately show ?case using r(1-3) s(3) same_shape_trans [OF s(2) r(2)] by auto
qed

lemma rgb_rows_exact:
  assumes "0 \<le> td_X1 t" "td_X1 t + td_W t \<le> fw" "0 \<le> td_Y1 t" "td_Y1 t + td_H t \<le> fh" "0 < td_W t"
    "0 \<le> r0" "0 \<le> g0" "0 \<le> b0"
    "r0 + td_H t * td_W t \<le> int (length x)" "g0 + td_H t * td_W t \<le> int (length x)" "b0 + td_H t * td_W t \<le> int (length x)"
  shows "fb_rect fb \<Longrightarrow> fb_W fb = fw \<Longrightarrow> fb_H fb = fh \<Longrightarrow> 0 \<le> row \<Longrightarrow> row \<le> td_H t \<Longrightarrow>
    \<exists>fb'. rgb_rows t x row (r0 + row * td_W t) (g0 + row * td_W t) (b0 + row * td_W t) fb = Inr fb'
      \<and> same_shape fb fb' \<and> fb_Dirty fb' = fb_Dirty fb
      \<and> (\<forall>u v. 0 \<le> u \<longrightarrow> u < fw \<longrightarrow> 0 \<le> v \<longrightarrow> v < fh \<longrightarrow> pix fb' (v * fw + u) =
           (let i = v - td_Y1 t; j = u - td_X1 t; k = i * td_W t + j in
            if row \<le> i \<and> i < td_H t \<and> 0 \<le> j \<and> j < td_W t
            then rgb (x ! nat (r0 + k)) (x ! nat (g0 + k)) (x ! nat (b0 + k)) else pix fb (v * fw + u)))"
proof (induction "nat (td_H t - row)" arbitrary: row fb)
  case 0
  then show ?case by (subst rgb_rows.simps) (auto simp: Let_def)
next
  case (Suc n)
  let ?yy = "td_Y1 t + row" and ?o = "row * td_W t"
  have c: "row < td_H t" "n = nat (td_H t - (row + 1))" "0 \<le> row + 1" "row + 1 \<le> td_H t" using Suc by auto
  have "(row + 1) * td_W t \<le> td_H t * td_W t" using c(4) assms(5) by (intro mult_right_mono) auto
  then have o: "0 \<le> ?o" "?o + td_W t \<le> td_H t * td_W t" using Suc.prems(4) assms(5) by (auto simp: algebra_simps)
  have yy: "0 \<le> ?yy" "?yy < fh" using assms(3,4) c(1) Suc.prems(4) by auto
  have pl: "0 \<le> r0 + ?o" "0 \<le> g0 + ?o" "0 \<le> b0 + ?o" "r0 + ?o + td_W t \<le> int (length x)"
    "g0 + ?o + td_W t \<le> int (length x)" "b0 + ?o + td_W t \<le> int (length x)" using o assms(6-11) by linarith+
  obtain fb1 where s: "rgb_cols t x (?yy * fw) 0 (r0 + ?o) (g0 + ?o) (b0 + ?o) fb
      = Inr (False, (r0 + ?o + td_W t, g0 + ?o + td_W t, b0 + ?o + td_W t), fb1)"
    "same_shape fb fb1" "fb_Dirty fb1 = fb_Dirty fb"
    "\<And>k. 0 \<le> k \<Longrightarrow> k < npix fb \<Longrightarrow> pix fb1 k = (let j = k - (?yy * fw + td_X1 t) in
       if 0 \<le> j \<and> j < td_W t then rgb (x ! nat (r0 + ?o + j)) (x ! nat (g0 + ?o + j)) (x ! nat (b0 + ?o + j)) else pix fb k)"
    using rgb_cols_exact [OF assms(1,2) yy pl Suc.prems(1-3), of 0] assms(5) by auto
  have w: "fb_W fb1 = fw" "fb_H fb1 = fh" "npix fb1 = npix fb" using s(2) Suc.prems by (simp_all add: same_shape_def)
  have nxt: "r0 + (row + 1) * td_W t = r0 + ?o + td_W t" "g0 + (row + 1) * td_W t = g0 + ?o + td_W t"
    "b0 + (row + 1) * td_W t = b0 + ?o + td_W t" by (simp_all add: algebra_simps)
  obtain fb' where r: "rgb_rows t x (row + 1) (r0 + ?o + td_W t) (g0 + ?o + td_W t) (b0 + ?o + td_W t) fb1 = Inr fb'"
    "same_shape fb1 fb'" "fb_Dirty fb' = fb_Dirty fb1"
    "\<And>u v. 0 \<le> u \<Longrightarrow> u < fw \<Longrightarrow> 0 \<le> v \<Longrightarrow> v < fh \<Longrightarrow> pix fb' (v * fw + u) =
           (let i = v - td_Y1 t; j = u - td_X1 t; k = i * td_W t + j in
            if row + 1 \<le> i \<and> i < td_H t \<and> 0 \<le> j \<and> j < td_W t
            then rgb (x ! nat (r0 + k)) (x ! nat (g0 + k)) (x ! nat (b0 + k)) else pix fb1 (v * fw + u))"
    using Suc.hyps(1) [OF c(2) fb_rect_shape [OF s(2) Suc.prems(1)] w(1,2) c(3,4), unfolded nxt] by blast
  have "rgb_rows t x row (r0 + ?o) (g0 + ?o) (b0 + ?o) fb
      = rgb_rows t x (row + 1) (r0 + ?o + td_W t) (g0 + ?o + td_W t) (b0 + ?o + td_W t) fb1"
    using c(1) yy s(1) Suc.prems(2,3) by (subst rgb_rows.simps) (simp add: Let_def)
  moreover have "pix fb' (v * fw + u) = (let i = v - td_Y1 t; j = u - td_X1 t; k = i * td_W t + j in
            if row \<le> i \<and> i < td_H t \<and> 0 \<le> j \<and> j < td_W t
            then rgb (x ! nat (r0 + k)) (x ! nat (g0 + k)) (x ! nat (b0 + k)) else pix fb (v * fw + u))"
    if uv: "0 \<le> u" "u < fw" "0 \<le> v" "v < fh" for u v
  proof -
    have k: "0 \<le> v * fw + u" "v * fw + u < npix fb"
      using pixel_in_range [OF Suc.prems(1), of v u] uv Suc.prems(2,3) by auto
    let ?j = "v * fw + u - (?yy * fw + td_X1 t)"
    have "0 \<le> ?j \<and> ?j < td_W t \<longleftrightarrow> v = ?yy \<and> 0 \<le> u - td_X1 t \<and> u - td_X1 t < td_W t"
    proof
      assume j: "0 \<le> ?j \<and> ?j < td_W t"
      have e: "v * fw + u = ?yy * fw + (td_X1 t + ?j)" by simp
      have b: "0 \<le> td_X1 t + ?j" "td_X1 t + ?j < fw" using assms(1,2) j by linarith+
      have "v = ?yy" "u = td_X1 t + ?j" by (rule row_major_inj [OF uv(1,2) b e])+
      then show "v = ?yy \<and> 0 \<le> u - td_X1 t \<and> u - td_X1 t < td_W t" using j by linarith
    qed simp
    with s(4) [OF k] r(4) [OF uv] c(1) show ?thesis by (auto simp: Let_def add.assoc)
  qed
  ultimately show ?case using r(1-3) s(3) same_shape_trans [OF s(2) r(2)] by auto
qed

text \<open>Any tile is painted without a fault as long as the plane offsets are not negative: rows and columns outside the
  framebuffer are skipped and missing plane data ends the painting.\<close>

lemma rgb_rows_safe:
  "fb_rect fb \<Longrightarrow> 0 \<le> td_W t \<Longrightarrow> 0 \<le> r \<Longrightarrow> 0 \<le> g \<Longrightarrow> 0 \<le> b \<Longrightarrow> \<exists>fb'. rgb_rows t x row r g b fb = Inr fb' \<and> same_shape fb fb'"
proof (induction "nat (td_H t - row)" arbitrary: row r g b fb)
  case 0
  then show ?case by (subst rgb_rows.simps) auto
next
  case (Suc n)
  let ?yy = "td_Y1 t + row"
  have c: "row < td_H t" "n = nat (td_H t - (row + 1))" using Suc.hyps(2) by auto
  show ?case
  proof (cases "?yy < 0 \<or> ?yy \<ge> fb_H fb")
    case True
    then show ?thesis using Suc.hyps(1) [OF c(2) Suc.prems(1,2), of "r + td_W t" "g + td_W t" "b + td_W t"] Suc.prems c(1)
      by (subst rgb_rows.simps) simp
  next
    case False
    then obtain stop r' g' b' fb1 where s: "rgb_cols t x (?yy * fb_W fb) 0 r g b fb = Inr (stop, (r', g', b'), fb1)"
      "same_shape fb fb1" "0 \<le> r'" "0 \<le> g'" "0 \<le> b'"
      using rgb_cols_safe [of fb ?yy r g b t x 0] Suc.prems by auto
    obtain fb2 where "rgb_rows t x (row + 1) r' g' b' fb1 = Inr fb2" "same_shape fb1 fb2"
      using Suc.hyps(1) [OF c(2) fb_rect_shape [OF s(2) Suc.prems(1)] Suc.prems(2) s(3-5)] by blast
    then show ?thesis using False s(1,2) c(1) same_shape_trans [OF s(2)] by (subst rgb_rows.simps) (cases stop; simp)
  qed
qed

lemma cols16_safe:
  "fb_rect fb \<Longrightarrow> 0 \<le> yy \<Longrightarrow> yy < fb_H fb \<Longrightarrow> 0 \<le> r \<Longrightarrow> 0 \<le> g \<Longrightarrow>
    \<exists>r' g' fb'. cols16 y t x (yy * fb_W fb) col r g fb = Inr ((r', g'), fb') \<and> same_shape fb fb' \<and> 0 \<le> r' \<and> 0 \<le> g'"
proof (induction "nat (td_W t - col)" arbitrary: col r g fb)
  case 0
  then show ?case by (subst cols16.simps) auto
next
  case (Suc n)
  let ?xx = "td_X1 t + col"
  have c: "col < td_W t" "n = nat (td_W t - (col + 1))" using Suc.hyps(2) by auto
  show ?case
  proof (cases "?xx < 0 \<or> ?xx \<ge> fb_W fb \<or> r \<ge> int (length x) \<or> g \<ge> int (length x)")
    case True
    then show ?thesis using Suc.hyps(1) [OF c(2) Suc.prems(1-3), of "r + 1" "g + 1"] Suc.prems c(1)
      by (subst cols16.simps) simp
  next
    case False
    obtain R G where v: "byte_at r x = Inr R" "byte_at g x = Inr G" using False Suc.prems(4,5) by (auto simp: byte_at_def)
    obtain fb1 where s: "set_pixel (yy * fb_W fb + ?xx) (pixel16 y R G) fb = Inr fb1"
      using pixel_in_range [OF Suc.prems(1-3), of ?xx] False by (auto simp: set_pixel_def)
    have sh: "same_shape fb fb1" using set_pixel_shape [OF s] .
    have w: "fb_W fb1 = fb_W fb" "fb_H fb1 = fb_H fb" using sh by (simp_all add: same_shape_def)
    from Suc.hyps(1) [OF c(2) fb_rect_shape [OF sh Suc.prems(1)] Suc.prems(2), of "r + 1" "g + 1"] Suc.prems
    obtain r' g' fb' where "cols16 y t x (yy * fb_W fb) (col + 1) (r + 1) (g + 1) fb1 = Inr ((r', g'), fb')"
      "same_shape fb1 fb'" "0 \<le> r'" "0 \<le> g'" by (auto simp: w)
    then show ?thesis using False v s c(1) same_shape_trans [OF sh] by (subst cols16.simps) auto
  qed
qed

lemma paintTile16_safe:
  "fb_rect fb \<Longrightarrow> 0 \<le> td_W t \<Longrightarrow> 0 \<le> r \<Longrightarrow> 0 \<le> g \<Longrightarrow> \<exists>fb'. paintTile16 y t x row r g fb = Inr fb' \<and> same_shape fb fb'"
proof (induction "nat (td_H t - row)" arbitrary: row r g fb)
  case 0
  then show ?case by (subst paintTile16.simps) auto
next
  case (Suc n)
  let ?yy = "td_Y1 t + row"
  have c: "row < td_H t" "n = nat (td_H t - (row + 1))" using Suc.hyps(2) by auto
  show ?case
  proof (cases "?yy < 0 \<or> ?yy \<ge> fb_H fb")
    case True
    then show ?thesis using Suc.hyps(1) [OF c(2) Suc.prems(1,2), of "r + td_W t" "g + td_W t"] Suc.prems c(1)
      by (subst paintTile16.simps) simp
  next
    case False
    then obtain r' g' fb1 where s: "cols16 y t x (?yy * fb_W fb) 0 r g fb = Inr ((r', g'), fb1)"
      "same_shape fb fb1" "0 \<le> r'" "0 \<le> g'"
      using cols16_safe [of fb ?yy r g y t x 0] Suc.prems by auto
    obtain fb2 where "paintTile16 y t x (row + 1) r' g' fb1 = Inr fb2" "same_shape fb1 fb2"
      using Suc.hyps(1) [OF c(2) fb_rect_shape [OF s(2) Suc.prems(1)] Suc.prems(2) s(3,4)] by blast
    then show ?thesis using False s(1,2) c(1) same_shape_trans [OF s(2)] by (subst paintTile16.simps) simp
  qed
qed

lemma paintTileRGB_safe:
  "fb_rect fb \<Longrightarrow> 0 \<le> r \<Longrightarrow> 0 \<le> g \<Longrightarrow> 0 \<le> b \<Longrightarrow> \<exists>fb'. paintTileRGB a t x r g b fb = Inr fb' \<and> same_shape fb fb'"
  using rgb_rows_safe [of fb t r g b x 0] paintTile16_safe [of fb t r g "a_y a" x 0] by (auto simp: paintTileRGB_def)

lemma paint_tile_list_safe:
  "fb_rect fb \<Longrightarrow> 0 \<le> p0 \<Longrightarrow> 0 \<le> p1 \<Longrightarrow> 0 \<le> p2 \<Longrightarrow> \<exists>fb'. paint_tile_list a ts x p0 p1 p2 fb = Inr fb' \<and> same_shape fb fb'"
proof (induction ts arbitrary: p0 p1 p2 fb)
  case (Cons t ts)
  show ?case
  proof (cases "td_N t \<le> 0")
    case False
    obtain fb1 where s: "paintTileRGB a t x p0 p1 p2 fb = Inr fb1" "same_shape fb fb1"
      using paintTileRGB_safe [OF Cons.prems] by blast
    obtain fb2 where "paint_tile_list a ts x (p0 + td_N t) (p1 + td_N t) (p2 + td_N t) fb1 = Inr fb2" "same_shape fb1 fb2"
      using Cons.IH [OF fb_rect_shape [OF s(2) Cons.prems(1)], of "p0 + td_N t" "p1 + td_N t" "p2 + td_N t"] Cons.prems False by auto
    then show ?thesis using False s same_shape_trans [OF s(2)] by simp
  qed (use Cons in simp)
qed simp

text \<open>The room \<open>rleExpand\<close> starts with.\<close>

definition out_room :: "nat \<Rightarrow> AvocentV2 \<Rightarrow> nat" where
  "out_room idx a =
     (case a_X a ! idx of
        Some x \<Rightarrow> if length x < a_U a ! idx * 8 then max 1024 (a_U a ! idx * 8) else length x
      | None \<Rightarrow> max 1024 (a_U a ! idx * 8))"

lemma rleExpand_tokens:
  assumes "a_A a < 256" "a_B a < 256" "a_A a \<noteq> a_B a" "list_all (token_ok (of_nat (a_A a)) (of_nat (a_B a))) ts"
    "a_S a ! idx = Some (enc_tokens (of_nat (a_A a)) (of_nat (a_B a)) ts @ pad)"
    "a_U a ! idx = length (enc_tokens (of_nat (a_A a)) (of_nat (a_B a)) ts)"
    "length (out_tokens (of_nat (a_A a)) (of_nat (a_B a)) ts) \<le> out_room idx a"
  shows "\<exists>tl. rleExpand idx a = (None, a\<lparr>a_X := (a_X a)[idx := Some (out_tokens (of_nat (a_A a)) (of_nat (a_B a)) ts @ tl)],
      a_W := (a_W a)[idx := length (out_tokens (of_nat (a_A a)) (of_nat (a_B a)) ts)]\<rparr>)"
proof -
  let ?A = "of_nat (a_A a) :: byte" and ?B = "of_nat (a_B a) :: byte"
  let ?dst = "case a_X a ! idx of
                       Some x \<Rightarrow> if length x < a_U a ! idx * 8 then mk_buf (if a_U a ! idx * 8 < 1024 then 1024 else a_U a ! idx * 8) else x
                     | None \<Rightarrow> mk_buf (if a_U a ! idx * 8 < 1024 then 1024 else a_U a ! idx * 8)"
  have "unat ?A \<noteq> unat ?B" using assms(1-3) by (simp add: unat_of_nat)
  then have ne: "?A \<noteq> ?B" by metis
  have "length ?dst = out_room idx a" by (auto simp: out_room_def max_def split: option.splits)
  then have "rle_loop ?A ?B (enc_tokens ?A ?B ts @ pad) (length (enc_tokens ?A ?B ts)) 0 0 ?dst
      = (None, length (out_tokens ?A ?B ts), out_tokens ?A ?B ts @ drop (length (out_tokens ?A ?B ts)) ?dst)"
    using rle_loop_tokens [OF ne assms(4), of ?dst pad] assms(7) by simp
  then show ?thesis using assms(3,5,6) unfolding rleExpand_def Let_def by auto
qed

text \<open>A single-packet burst with one 24-bit tile at \<open>(x1, y1)\<close> of \<open>w\<close> by \<open>h\<close> pixels; the screen is \<open>l\<close> by \<open>k\<close>.\<close>

definition tile_packet :: "byte \<Rightarrow> byte \<Rightarrow> u16 \<Rightarrow> u16 \<Rightarrow> nat \<Rightarrow> nat \<Rightarrow> nat \<Rightarrow> nat \<Rightarrow> bytes \<Rightarrow> bytes" where
  "tile_packet A B l k x1 y1 w h data =
     [4, 3, A, B] @ putBE16 l @ putBE16 k @ [24, 1, 0, 0]
       @ putBE16 (of_nat (x1 + w - 1)) @ putBE16 (of_nat x1) @ putBE16 (of_nat (y1 + h - 1)) @ putBE16 (of_nat y1) @ data"

lemma sint_u16: "n < 32768 \<Longrightarrow> sint (of_nat n :: u16) = int n"
  by transfer (simp add: signed_take_bit_int_eq_self)

lemma length_putBE16 [simp]: "length (putBE16 w) = 2"
  by (simp add: putBE16_def)

lemma tile_packet_desc:
  assumes "0 < w" "0 < h" "x1 + w \<le> 32768" "y1 + h \<le> 32768"
  shows "tile_desc (drop 12 (tile_packet A B l k x1 y1 w h data)) 0
     = \<lparr>td_X2 = int (x1 + w - 1), td_X1 = int x1, td_Y2 = int (y1 + h - 1), td_Y1 = int y1,
        td_W = int w, td_H = int h, td_N = int (w * h)\<rparr>"
proof -
  have s: "sint (of_nat (x1 + w - 1) :: u16) = int (x1 + w - 1)" "sint (of_nat x1 :: u16) = int x1"
    "sint (of_nat (y1 + h - 1) :: u16) = int (y1 + h - 1)" "sint (of_nat y1 :: u16) = int y1"
    using assms by (intro sint_u16, simp)+
  have d: "drop 12 (tile_packet A B l k x1 y1 w h data)
      = putBE16 (of_nat (x1 + w - 1)) @ putBE16 (of_nat x1) @ putBE16 (of_nat (y1 + h - 1)) @ putBE16 (of_nat y1) @ data"
    by (simp add: tile_packet_def)
  have "short_at 0 (drop 12 (tile_packet A B l k x1 y1 w h data)) = int (x1 + w - 1)"
    "short_at 2 (drop 12 (tile_packet A B l k x1 y1 w h data)) = int x1"
    "short_at 4 (drop 12 (tile_packet A B l k x1 y1 w h data)) = int (y1 + h - 1)"
    "short_at 6 (drop 12 (tile_packet A B l k x1 y1 w h data)) = int y1"
    unfolding d short_at_def slice_def by (simp_all add: s s [unfolded One_nat_def] del: of_nat_add of_nat_diff)
  then show ?thesis using assms(1,2) by (simp add: tile_desc_def Let_def numeral_2_eq_2 of_nat_diff)
qed

text \<open>The decoder when the whole packet has been buffered.\<close>

definition tile_ready :: "byte \<Rightarrow> byte \<Rightarrow> u16 \<Rightarrow> u16 \<Rightarrow> AvocentTileDesc \<Rightarrow> bytes \<Rightarrow> AvocentV2" where
  "tile_ready A B l k t data = NewAvocentV2\<lparr>a_E := unat l, a_D := unat k, a_F := 24, a_A := unat A, a_B := unat B, a_G := 1,
     a_J := t # replicate 63 zero_tile, a_S := [Some (data @ mk_buf (131072 - length data)), None],
     a_X := [Some (mk_buf 131072), None], a_U := [length data, 0]\<rparr>"

lemma tile_packet_header:
  "tile_packet A B l k x1 y1 w h data ! 0 = 4" "tile_packet A B l k x1 y1 w h data ! 1 = 3" "tile_packet A B l k x1 y1 w h data ! 2 = A"
  "tile_packet A B l k x1 y1 w h data ! 3 = B" "slice 4 6 (tile_packet A B l k x1 y1 w h data) = putBE16 l"
  "slice 6 8 (tile_packet A B l k x1 y1 w h data) = putBE16 k" "tile_packet A B l k x1 y1 w h data ! 8 = 24"
  "tile_packet A B l k x1 y1 w h data ! 9 = 1" "length (tile_packet A B l k x1 y1 w h data) = 20 + length data"
  "drop 20 (tile_packet A B l k x1 y1 w h data) = data"
  by (simp_all add: tile_packet_def slice_def nth_append)

lemma handleType4_tile:
  assumes "0 < length data" "length data \<le> 131072"
  shows "handleType4 (tile_packet A B l k x1 y1 w h data) NewAvocentV2 fb =
    (let t = tile_desc (drop 12 (tile_packet A B l k x1 y1 w h data)) 0
     in case rleExpand 0 (tile_ready A B l k t data) of
          (Some e, a) \<Rightarrow> ((False, Some e), a, fb)
        | (None, a) \<Rightarrow>
            if a_W a ! 0 > 0 \<and> a_G a > 0 then
              (case paintTiles a fb of Inl e \<Rightarrow> ((False, Some e), a, fb) | Inr fb \<Rightarrow> ((True, None), a, fb))
            else ((True, None), a, fb))"
proof -
  let ?p = "tile_packet A B l k x1 y1 w h data"
  let ?t = "tile_desc (drop 12 ?p) 0"
  let ?a = "NewAvocentV2\<lparr>a_A := unat A, a_B := unat B\<rparr>"
  let ?b = "?a\<lparr>a_E := unat l, a_D := unat k, a_F := 24, a_G := 1,
     a_J := ?t # replicate 63 zero_tile, a_S := [Some (mk_buf 131072), None], a_X := [Some (mk_buf 131072), None]\<rparr>"
  have st: "start_tiles ?p (drop 12 ?p) ?a = (None, 8, ?b)"
    by (simp add: start_tiles_def Let_def tile_packet_header NewAvocentV2_def)
  have "copy_from 0 data (mk_buf 131072) = data @ mk_buf (131072 - length data)"
    using assms(2) by (simp add: copy_from_def copy_to_fits) (simp add: mk_buf_def)
  then have ap: "append_tiles data ?b = (None, tile_ready A B l k ?t data)"
    using assms by (simp add: append_tiles_def tile_ready_def NewAvocentV2_def Let_def)
  have "drop 8 (drop 12 ?p) = data" using tile_packet_header(10) [of A B l k x1 y1 w h data] by simp
  then show ?thesis using st ap unfolding handleType4_def Let_def
    by (simp add: tile_packet_header tile_packet_header(2) [unfolded One_nat_def])
qed

lemma tile_ready_fields:
  "a_A (tile_ready A B l k t data) = unat A" "a_B (tile_ready A B l k t data) = unat B"
  "a_S (tile_ready A B l k t data) ! 0 = Some (data @ mk_buf (131072 - length data))"
  "a_U (tile_ready A B l k t data) ! 0 = length data" "a_X (tile_ready A B l k t data) = [Some (mk_buf 131072), None]"
  "a_W (tile_ready A B l k t data) = [0, 0]"
  by (simp_all add: tile_ready_def NewAvocentV2_def)

lemma rleExpand_tile_ready:
  assumes "A \<noteq> B" "list_all (token_ok A B) ts" "length (out_tokens A B ts) \<le> 131072"
  shows "\<exists>tl. rleExpand 0 (tile_ready A B l k t (enc_tokens A B ts)) = (None, (tile_ready A B l k t (enc_tokens A B ts))
     \<lparr>a_X := [Some (out_tokens A B ts @ tl), None], a_W := [length (out_tokens A B ts), 0]\<rparr>)"
proof -
  let ?a = "tile_ready A B l k t (enc_tokens A B ts)"
  have ab: "of_nat (a_A ?a) = A" "of_nat (a_B ?a) = B" "a_A ?a < 256" "a_B ?a < 256"
    using unsigned_less [of A, where 'a = nat] unsigned_less [of B, where 'a = nat] by (simp_all add: tile_ready_fields)
  have ne: "a_A ?a \<noteq> a_B ?a" using assms(1) by (simp add: tile_ready_fields word_unat_eq_iff)
  have "131072 \<le> out_room 0 ?a" by (simp add: out_room_def tile_ready_fields)
  then have "length (out_tokens A B ts) \<le> out_room 0 ?a" using assms(3) by simp
  from rleExpand_tokens [OF ab(3,4) ne, of ts 0, unfolded ab(1,2), OF assms(2) tile_ready_fields(3,4) this]
  show ?thesis by (simp add: tile_ready_fields)
qed

text \<open>A pixel of a tile whose three planes follow one another.\<close>

lemma planar_pixel:
  assumes "fb_rect fb" "length red = w * h" "length green = w * h" "length blue = w * h"
    and f: "\<And>u v. 0 \<le> u \<Longrightarrow> u < fb_W fb \<Longrightarrow> 0 \<le> v \<Longrightarrow> v < fb_H fb \<Longrightarrow> pix fb1 (v * fb_W fb + u) =
           (let i = v - int y1; j = u - int x1; k = i * int w + j in
            if 0 \<le> i \<and> i < int h \<and> 0 \<le> j \<and> j < int w
            then rgb ((red @ green @ blue) ! nat k) ((red @ green @ blue) ! nat (int (w * h) + k)) ((red @ green @ blue) ! nat (2 * int (w * h) + k))
            else pix fb (v * fb_W fb + u))"
    and uv: "int u < fb_W fb" "int v < fb_H fb"
  shows "fb_Pixels fb1 ! (v * nat (fb_W fb) + u) =
         (if y1 \<le> v \<and> v < y1 + h \<and> x1 \<le> u \<and> u < x1 + w
          then let i = (v - y1) * w + (u - x1) in rgb (red ! i) (green ! i) (blue ! i)
          else fb_Pixels fb ! (v * nat (fb_W fb) + u))"
proof -
  have e: "nat (int v * fb_W fb + int u) = v * nat (fb_W fb) + u" using assms(1) by (simp add: fb_rect_def nat_add_distrib nat_mult_distrib)
  show ?thesis
  proof (cases "y1 \<le> v \<and> v < y1 + h \<and> x1 \<le> u \<and> u < x1 + w")
    case True
    let ?i = "(v - y1) * w + (u - x1)"
    have "Suc (v - y1) * w \<le> h * w" using True by (intro mult_right_mono) auto
    moreover have "u - x1 < w" using True by linarith
    ultimately have i: "?i < w * h" unfolding mult_Suc mult.commute [of h w] by linarith
    have k: "(int v - int y1) * int w + (int u - int x1) = int ?i" using True by (simp add: of_nat_diff)
    have n: "nat (int (w * h) + int ?i) = length red + ?i" "nat (2 * int (w * h) + int ?i) = length red + (length green + ?i)"
      using assms(2,3) by linarith+
    have "(red @ green @ blue) ! j = red ! j" "(red @ green @ blue) ! (length red + j) = green ! j" "(red @ green @ blue) ! (length red + (length green + j)) = blue ! j"
      if "j < w * h" for j using that assms(2-4) by (simp_all add: nth_append)
    from this [OF i] show ?thesis using f [of "int u" "int v"] uv True unfolding Let_def k n e nat_int by simp
  next
    case False
    then show ?thesis using f [of "int u" "int v"] uv e by (auto simp: Let_def)
  qed
qed

section \<open>Properties: video packet dispatcher\<close>

text \<open>C32: run-length expansion inverts its encoding: whatever tokens (literal bytes, escaped markers, triples and runs of 3 to
  256 bytes) were buffered, expansion yields exactly their bytes as the valid part of the plane, as long as they fit in the
  room the expander starts with.\<close>

theorem rle_roundtrip:
  assumes "a_A a < 256" "a_B a < 256" "a_A a \<noteq> a_B a" "idx < length (a_X a)" "idx < length (a_W a)"
    "list_all (token_ok (of_nat (a_A a)) (of_nat (a_B a))) ts"
    "a_S a ! idx = Some (enc_tokens (of_nat (a_A a)) (of_nat (a_B a)) ts @ pad)"
    "a_U a ! idx = length (enc_tokens (of_nat (a_A a)) (of_nat (a_B a)) ts)"
    "length (out_tokens (of_nat (a_A a)) (of_nat (a_B a)) ts) \<le> out_room idx a"
  shows "\<exists>a' x. rleExpand idx a = (None, a') \<and> a_X a' ! idx = Some x
      \<and> take (a_W a' ! idx) x = out_tokens (of_nat (a_A a)) (of_nat (a_B a)) ts"
  using rleExpand_tokens [OF assms(1-3,6-9)] assms(4,5) by force

theorem rle_roundtrip_witness:
  "\<exists>a' x. rleExpand 0 (NewAvocentV2\<lparr>a_A := 7, a_B := 8, a_S := [Some [1, 7, 0, 8, 5, 7, 4, 9], None], a_U := [8, 0]\<rparr>) = (None, a')
      \<and> a_X a' ! 0 = Some x \<and> take (a_W a' ! 0) x = [1, 7, 5, 5, 5] @ replicate 5 9"
  using rle_roundtrip [of "NewAvocentV2\<lparr>a_A := 7, a_B := 8, a_S := [Some [1, 7, 0, 8, 5, 7, 4, 9], None], a_U := [8, 0]\<rparr>"
      0 "[Lit 1, MarkA, Triple 5, Run 5 9]" "[]"]
  by (simp add: NewAvocentV2_def out_room_def)

text \<open>painting a tile list never faults and keeps the framebuffer's dimensions, wherever the tiles lie and however little
  plane data there is, if the tiles' pixel counts do not sum to a negative number.\<close>

theorem paint_tiles_safe:
  assumes "fb_rect fb" "a_G a \<le> length (a_J a)" "a_X a ! 0 = Some x" "a_W a ! 0 \<le> length x"
    "0 \<le> sum_list (map td_N (take (a_G a) (a_J a)))"
  shows "\<exists>fb'. paintTiles a fb = Inr fb' \<and> fb_W fb' = fb_W fb \<and> fb_H fb' = fb_H fb \<and> length (fb_Pixels fb') = length (fb_Pixels fb)"
proof -
  let ?ts = "take (a_G a) (a_J a)" and ?x = "take (a_W a ! 0) x"
  let ?tot = "sum_list (map td_N ?ts)"
  have pl: "plane a = Inr ?x" using assms(3,4) by (simp add: plane_def)
  obtain fb1 where "paint_tile_list a ?ts ?x 0 ?tot (2 * ?tot) fb = Inr fb1" "same_shape fb fb1"
    using paint_tile_list_safe [of fb 0 ?tot "2 * ?tot" a ?ts ?x] assms(1,5) by auto
  then show ?thesis using assms(2) by (simp add: paintTiles_def Let_def pl same_shape_def)
qed

theorem paint_tiles_safe_witness:
  "\<exists>fb'. paintTiles (NewAvocentV2\<lparr>a_G := 1, a_F := 24, a_J := [\<lparr>td_X2 = 1, td_X1 = -1, td_Y2 = 1, td_Y1 = -1, td_W = 3, td_H = 3, td_N = 9\<rparr>],
       a_X := [Some [1, 2, 3], None], a_W := [3, 0]\<rparr>) (NewFramebuffer 2 2) = Inr fb' \<and> fb_W fb' = 2 \<and> fb_H fb' = 2 \<and> length (fb_Pixels fb') = 4"
  using paint_tiles_safe [of "NewFramebuffer 2 2" "NewAvocentV2\<lparr>a_G := 1, a_F := 24,
       a_J := [\<lparr>td_X2 = 1, td_X1 = -1, td_Y2 = 1, td_Y1 = -1, td_W = 3, td_H = 3, td_N = 9\<rparr>],
       a_X := [Some [1, 2, 3], None], a_W := [3, 0]\<rparr>" "[1, 2, 3]"]
  by (simp add: NewFramebuffer_def NewAvocentV2_def fb_rect_def)



text \<open>where the dispatcher fails on data that it should accept.  Four runs of 256 bytes fill the 1024 bytes a short stream is
  given, and the literal byte that follows is refused although a fifth run would have grown the buffer; and tiles whose pixel
  counts sum to a negative number make the painter read at a negative offset, a fault that ends the process.\<close>

theorem avo2_expand_and_paint_limits:
  "fst (rleExpand 0 (NewAvocentV2\<lparr>a_A := 1, a_B := 2, a_U := [13, 0],
     a_S := [Some [1, 255, 9, 1, 255, 9, 1, 255, 9, 1, 255, 9, 5], None]\<rparr>)) = Some (Errorf (''avo2: rle out overflow at '' @ dec 1024))
   \<and> fst (rleExpand 0 (NewAvocentV2\<lparr>a_A := 1, a_B := 2, a_U := [15, 0],
     a_S := [Some [1, 255, 9, 1, 255, 9, 1, 255, 9, 1, 255, 9, 1, 255, 9], None]\<rparr>)) = None
   \<and> paintTiles (NewAvocentV2\<lparr>a_F := 24, a_G := 2, a_W := [3, 0], a_X := [Some [1, 2, 3], None],
       a_J := [\<lparr>td_X2 = 1, td_X1 = 0, td_Y2 = 1, td_Y1 = 0, td_W = 2, td_H = 2, td_N = 4\<rparr>,
               \<lparr>td_X2 = 9, td_X1 = 0, td_Y2 = 0, td_Y1 = 2, td_W = 10, td_H = -1, td_N = -10\<rparr>]\<rparr>) (NewFramebuffer 4 4)
     = Inl (Panic ''index out of range'')"
proof (intro conjI)
  let ?r = "Run 256 (9 :: byte)"
  let ?runs = "[?r, ?r, ?r, ?r]"
  have enc: "enc_tokens 1 2 ?runs = [1, 255, 9, 1, 255, 9, 1, 255, 9, 1, 255, (9 :: byte)]" by simp
  have len: "length (enc_tokens 1 2 ?runs) = 12" by simp
  have out: "out_tokens 1 2 ?runs = replicate 1024 9"
    by (simp add: replicate_add [symmetric])
  have pre: "rle_loop 1 2 (enc_tokens 1 2 ?runs @ post) n4 0 0 (mk_buf 1024)
      = rle_loop 1 2 (enc_tokens 1 2 ?runs @ post) n4 12 1024 (replicate 1024 9)" if "12 \<le> n4" for n4 post
    using rle_loop_prefix [of 1 2 ?runs "enc_tokens 1 2 ?runs @ post" "[]" post "mk_buf 1024" n4 "[]"] that
    unfolding out len by simp
  show "fst (rleExpand 0 (NewAvocentV2\<lparr>a_A := 1, a_B := 2, a_U := [13, 0],
     a_S := [Some [1, 255, 9, 1, 255, 9, 1, 255, 9, 1, 255, 9, 5], None]\<rparr>)) = Some (Errorf (''avo2: rle out overflow at '' @ dec 1024))"
    using pre [of 13 "[5]"] unfolding enc
    by (simp add: rleExpand_def NewAvocentV2_def) (subst rle_loop.simps, simp)
  show "fst (rleExpand 0 (NewAvocentV2\<lparr>a_A := 1, a_B := 2, a_U := [15, 0],
     a_S := [Some [1, 255, 9, 1, 255, 9, 1, 255, 9, 1, 255, 9, 1, 255, 9], None]\<rparr>)) = None"
    using pre [of 15 "[1, 255, 9]"] unfolding enc
    by (simp add: rleExpand_def NewAvocentV2_def) (subst rle_loop.simps, simp add: Let_def, subst rle_loop.simps, simp)
qed (simp add: paintTiles_def NewAvocentV2_def plane_def paintTileRGB_def rgb_rows.simps rgb_cols.simps byte_at_def NewFramebuffer_def)

end
