(* ===== verification/Avocent_Bits.thy ===== *)
theory Avocent_Bits
  imports Go_Prelude
begin

text \<open>
  The bit buffer of the tile codec (\<open>internal/video/avocent.go\<close>: \<open>fill\<close>, \<open>readWord\<close>, \<open>consume\<close>;
  \<open>avocent_dct.go\<close>: \<open>peekBits\<close>, \<open>getBits\<close>).  The buffer is the first part of the decoder's record, so
  its operations run on the whole decoder.  The refinement is against the stream of bits that the source's 32-bit words
  spell, followed by zeros.
\<close>

section \<open>Bit buffer\<close>

text \<open>\<open>nb\<close> is the current word, \<open>mb\<close> the next one with \<open>ob\<close> valid bits at its top.\<close>

record bitbuf =
  nb :: u32
  mb :: u32
  ob :: nat
  src :: bytes
  pos :: nat
  consumedB :: nat

definition BitOrderLE :: bool where
  "BitOrderLE = True"

definition readWord :: "'a bitbuf_scheme \<Rightarrow> u32 \<times> 'a bitbuf_scheme" where
  "readWord d =
     (let p = pos d;
          w = (if BitOrderLE then
                 ucast (src d ! p) OR push_bit 8 (ucast (src d ! (p + 1))) OR push_bit 16 (ucast (src d ! (p + 2)))
                   OR push_bit 24 (ucast (src d ! (p + 3)))
               else
                 push_bit 24 (ucast (src d ! p)) OR push_bit 16 (ucast (src d ! (p + 1))) OR push_bit 8 (ucast (src d ! (p + 2)))
                   OR ucast (src d ! (p + 3)))
      in (w, d\<lparr>pos := p + 4\<rparr>))"

definition fill :: "'a bitbuf_scheme \<Rightarrow> 'a bitbuf_scheme" where
  "fill d =
     (if ob d = 0 \<and> pos d + 4 \<le> length (src d) then
        let (w, d) = readWord d;
            d = d\<lparr>nb := w\<rparr>
        in if pos d + 4 \<le> length (src d) then
             let (w, d) = readWord d in d\<lparr>mb := w, ob := 32\<rparr>
           else d
      else d)"

text \<open>\<open>consume\<close> for up to 32 bits; larger amounts are split.  A shift by the width of the word or more is zero, as in Go.\<close>

definition consume_step :: "nat \<Rightarrow> 'a bitbuf_scheme \<Rightarrow> 'a bitbuf_scheme" where
  "consume_step n d =
     (let d = d\<lparr>consumedB := consumedB d + n\<rparr>
      in if ob d > n then
           if n = 32 then d\<lparr>nb := mb d, mb := 0, ob := ob d - n\<rparr>
           else d\<lparr>nb := push_bit n (nb d) OR drop_bit (32 - n) (mb d), mb := push_bit n (mb d), ob := ob d - n\<rparr>
         else
           let (n6, d) = (if pos d + 4 \<le> length (src d) then readWord d else (0, d))
           in if n = 32 then
                if ob d = 0 then d\<lparr>nb := n6, mb := 0\<rparr>
                else d\<lparr>nb := mb d OR drop_bit (ob d) n6, mb := push_bit (32 - ob d) n6\<rparr>
              else
                let mixed = (if ob d = 0 then n6 else mb d OR drop_bit (ob d) n6)
                in d\<lparr>nb := push_bit n (nb d) OR drop_bit (32 - n) mixed,
                     mb := (if n - ob d = 32 then 0 else push_bit (n - ob d) n6),
                     ob := 32 + ob d - n\<rparr>)"

function consume :: "nat \<Rightarrow> 'a bitbuf_scheme \<Rightarrow> 'a bitbuf_scheme" where
  "consume n d =
     (if n = 0 then d
      else if n > 32 then consume (n - 32) (consume 32 d)
      else consume_step n d)"
  by pat_completeness auto
termination by (relation "measure fst") auto

declare consume.simps [simp del]

definition peekBits :: "nat \<Rightarrow> 'a bitbuf_scheme \<Rightarrow> u32" where
  "peekBits n d = (if n = 0 then 0 else drop_bit (32 - n) (nb d))"

definition getBits :: "nat \<Rightarrow> 'a bitbuf_scheme \<Rightarrow> u32 \<times> 'a bitbuf_scheme" where
  "getBits n d = (let v = peekBits n d in (v, consume n d))"

section \<open>The abstract stream\<close>

definition src_word :: "bytes \<Rightarrow> nat \<Rightarrow> u32" where
  "src_word s i = (if 4 * i + 4 \<le> length s then le32 (slice (4 * i) (4 * i + 4) s) else 0)"

definition stream_bit :: "bytes \<Rightarrow> nat \<Rightarrow> bool" where
  "stream_bit s i = bit (src_word s (i div 32)) (31 - i mod 32)"

text \<open>The buffer stands at bit \<open>consumedB\<close> of the stream: \<open>nb\<close> is the next 32 bits, the valid part of \<open>mb\<close> what follows, and the
  words read are exactly those that cover both.\<close>

definition buf_inv :: "'a bitbuf_scheme \<Rightarrow> bool" where
  "buf_inv d \<longleftrightarrow> (\<exists>m. consumedB d + 32 + ob d = 32 * m \<and> pos d = 4 * min m (length (src d) div 4) \<and> ob d \<le> 32
     \<and> (\<forall>i < 32. bit (nb d) i = stream_bit (src d) (consumedB d + 31 - i))
     \<and> (\<forall>i < 32. bit (mb d) i = (31 - i < ob d \<and> stream_bit (src d) (consumedB d + 63 - i))))"

lemma readWord_src_word:
  assumes "pos d = 4 * m" "4 * m + 4 \<le> length (src d)"
  shows "readWord d = (src_word (src d) m, d\<lparr>pos := 4 * m + 4\<rparr>)"
proof -
  have "slice (4 * m) (4 * m + 4) (src d) = [src d ! (4 * m), src d ! (4 * m + 1), src d ! (4 * m + 2), src d ! (4 * m + 3)]"
    using assms(2) by (intro nth_equalityI) (auto simp: slice_nth less_Suc_eq numeral_eq_Suc)
  then show ?thesis using assms by (simp add: readWord_def src_word_def BitOrderLE_def Let_def le32_def or.assoc)
qed

lemma stream_bit_word: "i < 32 \<Longrightarrow> stream_bit s (32 * m + 31 - i) = bit (src_word s m) i"
proof -
  assume i: "i < 32"
  have "32 * m + 31 - i = 31 - i + 32 * m" using i by simp
  then have "(32 * m + 31 - i) div 32 = m" "(32 * m + 31 - i) mod 32 = 31 - i"
    using i by (simp_all del: add_diff_assoc add_diff_assoc2)
  then show ?thesis using i by (simp add: stream_bit_def)
qed

lemma push_bit_all [simp]: "push_bit 32 (w :: u32) = 0"
  by (rule bit_word_eqI) (simp add: bit_simps)

lemma no_high_bit: "32 \<le> i \<Longrightarrow> \<not> bit (w :: u32) i"
  by (simp add: impossible_bit)

lemma bit_shift_in:
  "n \<le> 32 \<Longrightarrow> i < 32 \<Longrightarrow> bit (push_bit n w OR drop_bit (32 - n) (v :: u32)) i = (if n \<le> i then bit w (i - n) else bit v (i + 32 - n))"
  by (auto simp: bit_simps no_high_bit add.commute)

text \<open>The word a refill delivers, past the end of the source the zero word.\<close>

definition refill :: "nat \<Rightarrow> 'a bitbuf_scheme \<Rightarrow> 'a bitbuf_scheme" where
  "refill m d = d\<lparr>pos := 4 * min (Suc m) (length (src d) div 4)\<rparr>"

lemma refill_read:
  assumes "pos d = 4 * min m (length (src d) div 4)"
  shows "(if pos d + 4 \<le> length (src d) then readWord d else (0, d)) = (src_word (src d) m, refill m d)"
proof (cases "m < length (src d) div 4")
  case True
  then have "4 * m + 4 \<le> length (src d)" by linarith
  then show ?thesis using assms True readWord_src_word [of d m] by (simp add: refill_def min_def Suc_le_eq)
next
  case False
  then have "length (src d) < 4 * m + 4" "length (src d) < 4 * (length (src d) div 4) + 4" by linarith+
  then show ?thesis using assms False by (simp add: refill_def src_word_def min_def)
qed

lemma consume_step_keep:
  "n < ob d \<Longrightarrow> ob d \<le> 32 \<Longrightarrow> consume_step n d = d\<lparr>consumedB := consumedB d + n,
     nb := push_bit n (nb d) OR drop_bit (32 - n) (mb d), mb := push_bit n (mb d), ob := ob d - n\<rparr>"
  by (simp add: consume_step_def)

lemma consume_step_refill:
  assumes "ob d \<le> n" "n \<le> 32" "pos d = 4 * min m (length (src d) div 4)" "ob d = 0 \<Longrightarrow> mb d = 0"
  shows "consume_step n d = (let w = src_word (src d) m in (refill m d)\<lparr>consumedB := consumedB d + n,
     nb := push_bit n (nb d) OR drop_bit (32 - n) (mb d OR drop_bit (ob d) w), mb := push_bit (n - ob d) w, ob := 32 + ob d - n\<rparr>)"
proof -
  let ?d = "d\<lparr>consumedB := consumedB d + n\<rparr>"
  have r: "(if pos ?d + 4 \<le> length (src ?d) then readWord ?d else (0, ?d)) = (src_word (src d) m, refill m ?d)"
    using refill_read [of ?d m] assms(3) by simp
  have nl: "\<not> n < ob ?d" using assms(1) by simp
  have f: "ob (refill m ?d) = ob d" "nb (refill m ?d) = nb d" "mb (refill m ?d) = mb d" by (simp_all add: refill_def)
  show ?thesis unfolding consume_step_def Let_def r prod.case using assms(1,2,4)
    by (auto simp: f refill_def)
qed

lemma consume_step_inv:
  assumes inv: "buf_inv d" and n: "n \<le> 32"
  shows "buf_inv (consume_step n d)"
proof -
  obtain m where m: "consumedB d + 32 + ob d = 32 * m" "pos d = 4 * min m (length (src d) div 4)" "ob d \<le> 32"
    and nb: "\<And>i. i < 32 \<Longrightarrow> bit (nb d) i = stream_bit (src d) (consumedB d + 31 - i)"
    and mb: "\<And>i. i < 32 \<Longrightarrow> bit (mb d) i = (31 - i < ob d \<and> stream_bit (src d) (consumedB d + 63 - i))"
    using inv unfolding buf_inv_def by blast
  show ?thesis
  proof (cases "n < ob d")
    case True
    let ?d = "consume_step n d"
    have "bit (nb ?d) i = stream_bit (src d) (consumedB d + n + 31 - i)" if "i < 32" for i
      using that True m(3) nb [of "i - n"] mb [of "i + 32 - n"]
      by (cases "n \<le> i") (auto simp: consume_step_keep bit_shift_in ac_simps)
    moreover have "bit (mb ?d) i = (31 - i < ob d - n \<and> stream_bit (src d) (consumedB d + n + 63 - i))" if "i < 32" for i
      using that True m(3) mb [of "i - n"] by (cases "n \<le> i") (auto simp: consume_step_keep bit_simps ac_simps)
    ultimately show ?thesis using True m unfolding buf_inv_def
      by (intro exI [of _ m]) (simp add: consume_step_keep)
  next
    case False
    let ?d = "consume_step n d" and ?w = "src_word (src d) m"
    have z: "mb d = 0" if "ob d = 0" using mb that by (intro bit_word_eqI) simp
    define x where "x = mb d OR drop_bit (ob d) ?w"
    have cs: "?d = (refill m d)\<lparr>consumedB := consumedB d + n, nb := push_bit n (nb d) OR drop_bit (32 - n) x,
        mb := push_bit (n - ob d) ?w, ob := 32 + ob d - n\<rparr>"
      using consume_step_refill [OF _ n m(2) z] False unfolding Let_def x_def by simp
    have w: "bit ?w i = stream_bit (src d) (consumedB d + 63 + ob d - i)" if "i < 32" for i
    proof -
      have "consumedB d + 63 + ob d - i = 32 * m + 31 - i" using m(1) by linarith
      then show ?thesis using stream_bit_word [OF that] by simp
    qed
    have mix: "bit x i = stream_bit (src d) (consumedB d + 63 - i)" if "i < 32" for i
      using that mb [OF that] w [of "i + ob d"] no_high_bit [of "i + ob d" ?w] by (cases "31 - i < ob d") (auto simp: x_def bit_simps ac_simps)
    have "bit (nb ?d) i = stream_bit (src d) (consumedB d + n + 31 - i)" if "i < 32" for i
      using that n nb [of "i - n"] mix [of "i + 32 - n"]
      by (cases "n \<le> i") (auto simp: cs bit_shift_in ac_simps)
    moreover have "bit (mb ?d) i = (31 - i < 32 + ob d - n \<and> stream_bit (src d) (consumedB d + n + 63 - i))" if "i < 32" for i
      using that False n w [of "i - (n - ob d)"] by (cases "n - ob d \<le> i") (auto simp: cs bit_simps ac_simps)
    ultimately show ?thesis using False n m unfolding buf_inv_def
      by (intro exI [of _ "Suc m"]) (simp add: cs refill_def)
  qed
qed

lemma consume_step_fields [simp]:
  "src (consume_step n d) = src d" "consumedB (consume_step n d) = consumedB d + n"
  by (auto simp: consume_step_def Let_def readWord_def split: if_splits)

lemma consume_spec: "src (consume n d) = src d \<and> consumedB (consume n d) = consumedB d + n \<and> (buf_inv d \<longrightarrow> buf_inv (consume n d))"
proof (induction n arbitrary: d rule: less_induct)
  case (less n)
  have "n = 32 + (n - 32)" if "n > 32" using that by simp
  then show ?case using less.IH [of 32 d] less.IH [of "n - 32" "consume 32 d"]
    by (subst (1 2 3) consume.simps) (auto simp: consume_step_inv)
qed

lemmas consume_src [simp] = consume_spec [THEN conjunct1]
lemmas consume_consumed [simp] = consume_spec [THEN conjunct2, THEN conjunct1]
lemmas consume_inv = consume_spec [THEN conjunct2, THEN conjunct2, rule_format]

lemma fill_inv:
  assumes "pos d = 0" "ob d = 0" "consumedB d = 0" "nb d = 0" "mb d = 0"
  shows "buf_inv (fill d)" "src (fill d) = src d" "consumedB (fill d) = 0"
proof -
  have r0: "readWord d = (src_word (src d) 0, d\<lparr>pos := 4\<rparr>)" if "4 \<le> length (src d)"
    using readWord_src_word [of d 0] assms(1) that by simp
  have r1: "readWord (d\<lparr>pos := 4, nb := w\<rparr>) = (src_word (src d) 1, d\<lparr>pos := 8, nb := w\<rparr>)" if "8 \<le> length (src d)" for w
    using readWord_src_word [of "d\<lparr>pos := 4, nb := w\<rparr>" 1] that by simp
  have past: "src_word (src d) i = 0" if "length (src d) < 4 * i + 4" for i using that by (simp add: src_word_def)
  have f: "fill d = (if 8 \<le> length (src d) then d\<lparr>pos := 8, nb := src_word (src d) 0, mb := src_word (src d) 1, ob := 32\<rparr>
      else if 4 \<le> length (src d) then d\<lparr>pos := 4, nb := src_word (src d) 0\<rparr> else d)"
    using assms r0 r1 by (simp add: fill_def)
  show "src (fill d) = src d" "consumedB (fill d) = 0" using assms by (simp_all add: f)
  have b: "stream_bit (src d) (31 - i) = bit (src_word (src d) 0) i" "stream_bit (src d) (63 - i) = bit (src_word (src d) 1) i"
    if "i < 32" for i using stream_bit_word [OF that, of "src d" 0] stream_bit_word [OF that, of "src d" 1] by simp_all
  consider "length (src d) < 4" | "4 \<le> length (src d)" "length (src d) < 8" | "8 \<le> length (src d)" by linarith
  then show "buf_inv (fill d)"
  proof cases
    case 1
    then show ?thesis using assms past [of 0] unfolding buf_inv_def by (intro exI [of _ 1]) (simp add: f b)
  next
    case 2
    then have "length (src d) div 4 = 1" by linarith
    then show ?thesis using 2 assms unfolding buf_inv_def by (intro exI [of _ 1]) (simp add: f b)
  next
    case 3
    then have "2 \<le> length (src d) div 4" by linarith
    then show ?thesis using 3 assms unfolding buf_inv_def by (intro exI [of _ 2]) (auto simp: f b)
  qed
qed

section \<open>Reading bit strings\<close>

definition bits_val :: "bool list \<Rightarrow> int" where
  "bits_val bs = horner_sum of_bool 2 (rev bs)"

definition next_bits :: "nat \<Rightarrow> 'a bitbuf_scheme \<Rightarrow> bool list" where
  "next_bits n d = map (\<lambda>i. stream_bit (src d) (consumedB d + i)) [0..<n]"

lemma length_next_bits [simp]: "length (next_bits n d) = n"
  by (simp add: next_bits_def)

lemma next_bits_split: "next_bits (m + n) d = next_bits m d @ next_bits n (consume m d)"
  by (intro nth_equalityI) (auto simp: next_bits_def nth_append)

lemma take_next_bits: "m \<le> n \<Longrightarrow> take m (next_bits n d) = next_bits m d"
  by (simp add: next_bits_def take_map)

lemma peekBits_val:
  assumes "buf_inv d" "n \<le> 32"
  shows "uint (peekBits n d) = bits_val (next_bits n d)"
proof (cases "n = 0")
  case False
  have nb: "bit (nb d) i = stream_bit (src d) (consumedB d + 31 - i)" if "i < 32" for i
    using assms(1) that unfolding buf_inv_def by blast
  have p: "bit (peekBits n d) i = (i < n \<and> bit (nb d) (i + 32 - n))" for i
  proof -
    have "i < n" if "bit (nb d) (i + 32 - n)" using no_high_bit [of "i + 32 - n" "nb d"] that assms(2) by linarith
    then show ?thesis using False assms(2) by (auto simp: peekBits_def bit_simps add.commute)
  qed
  have "uint (peekBits n d) = take_bit n (uint (peekBits n d))"
    by (rule bit_eqI) (auto simp: bit_simps p)
  also have "\<dots> = horner_sum of_bool 2 (map (bit (uint (peekBits n d))) [0..<n])"
    by (simp add: horner_sum_bit_eq_take_bit)
  also have "map (bit (uint (peekBits n d))) [0..<n] = rev (next_bits n d)"
    using assms(2) by (intro nth_equalityI) (auto simp: next_bits_def rev_nth bit_simps p nb intro!: arg_cong [of _ _ "stream_bit (src d)"])
  finally show ?thesis by (simp add: bits_val_def)
qed (simp add: peekBits_def bits_val_def next_bits_def)

section \<open>Properties: bit buffer\<close>

definition open_bits :: "bytes \<Rightarrow> bitbuf" where
  "open_bits s = fill \<lparr>nb = 0, mb = 0, ob = 0, src = s, pos = 0, consumedB = 0\<rparr>"

text \<open>C11: the bit buffer refines the stream of bits.  After any sequence of reads of any sizes, its current word is the 32 bits of the
  stream that follow what was read, zeros standing in past the end; so every read of up to 32 bits returns exactly the next bits of
  the source, whatever the alignment.\<close>

theorem bit_buffer_refines_stream:
  "let d = foldl (\<lambda>d n. consume n d) (open_bits s) ns in
     consumedB d = sum_list ns
     \<and> (\<forall>n. uint (fst (getBits (min n 32) d)) = bits_val (map (\<lambda>i. stream_bit s (sum_list ns + i)) [0..<min n 32]))"
proof -
  have open_inv: "buf_inv (open_bits s)" "src (open_bits s) = s" "consumedB (open_bits s) = 0"
    using fill_inv [of "\<lparr>nb = 0, mb = 0, ob = 0, src = s, pos = 0, consumedB = 0\<rparr>"] by (simp_all add: open_bits_def)
  have run: "buf_inv (foldl (\<lambda>d n. consume n d) e ns) \<and> src (foldl (\<lambda>d n. consume n d) e ns) = src e
      \<and> consumedB (foldl (\<lambda>d n. consume n d) e ns) = consumedB e + sum_list ns" if "buf_inv e" for e :: bitbuf
    using that by (induction ns arbitrary: e) (auto simp: consume_inv)
  let ?d = "foldl (\<lambda>d n. consume n d) (open_bits s) ns"
  have "uint (fst (getBits (min n 32) ?d)) = bits_val (next_bits (min n 32) ?d)" for n
    using peekBits_val [of ?d "min n 32"] run [OF open_inv(1)] by (simp add: getBits_def)
  then show ?thesis using run [OF open_inv(1)] open_inv(2,3) by (simp add: Let_def next_bits_def)
qed

end
