(* ===== verification/Avocent_Huffman.thy ===== *)
theory Avocent_Huffman
  imports Avocent_Bits
begin

text \<open>
  The entropy coder of the tile codec: the four Huffman tables baked into \<open>internal/video/jpeg.go\<close>, their decode structures and
  the symbol and value readers of \<open>internal/video/avocent_dct.go\<close>.  A symbol is read back for every code of every table, and a
  value for every category.
\<close>

section \<open>Tables\<close>

definition xbBits :: "nat list" where
  "xbBits =
    [0, 0, 1, 5, 1, 1, 1, 1, 1, 1, 0, 0, 0, 0, 0, 0, 0]"

definition ybVals :: "bytes" where
  "ybVals =
    [0, 1, 2, 3, 4, 5, 6, 7, 8, 9, 10, 11]"

definition zbBits :: "nat list" where
  "zbBits =
    [0, 0, 3, 1, 1, 1, 1, 1, 1, 1, 1, 1, 0, 0, 0, 0, 0]"

definition abVals :: "bytes" where
  "abVals =
    [0, 1, 2, 3, 4, 5, 6, 7, 8, 9, 10, 11]"

definition bbBits :: "nat list" where
  "bbBits =
    [0, 0, 2, 1, 3, 3, 2, 4, 3, 5, 5, 4, 4, 0, 0, 1, 125]"

definition cbVals :: "bytes" where
  "cbVals =
    [1, 2, 3, 0, 4, 17, 5, 18, 33, 49, 65, 6, 19, 81, 97, 7, 34, 113, 20, 50, 129, 145, 161, 8, 35, 66, 177, 193, 21, 82,
     209, 240, 36, 51, 98, 114, 130, 9, 10, 22, 23, 24, 25, 26, 37, 38, 39, 40, 41, 42, 52, 53, 54, 55, 56, 57, 58, 67,
     68, 69, 70, 71, 72, 73, 74, 83, 84, 85, 86, 87, 88, 89, 90, 99, 100, 101, 102, 103, 104, 105, 106, 115, 116, 117,
     118, 119, 120, 121, 122, 131, 132, 133, 134, 135, 136, 137, 138, 146, 147, 148, 149, 150, 151, 152, 153, 154, 162,
     163, 164, 165, 166, 167, 168, 169, 170, 178, 179, 180, 181, 182, 183, 184, 185, 186, 194, 195, 196, 197, 198, 199,
     200, 201, 202, 210, 211, 212, 213, 214, 215, 216, 217, 218, 225, 226, 227, 228, 229, 230, 231, 232, 233, 234, 241,
     242, 243, 244, 245, 246, 247, 248, 249, 250]"

definition dbBits :: "nat list" where
  "dbBits =
    [0, 0, 2, 1, 2, 4, 4, 3, 4, 7, 5, 4, 4, 0, 1, 2, 119]"

definition ebVals :: "bytes" where
  "ebVals =
    [0, 1, 2, 3, 17, 4, 5, 33, 49, 6, 18, 65, 81, 7, 97, 113, 19, 34, 50, 129, 8, 20, 66, 145, 161, 177, 193, 9, 35, 51,
     82, 240, 21, 98, 114, 209, 10, 22, 36, 52, 225, 37, 241, 23, 24, 25, 26, 38, 39, 40, 41, 42, 53, 54, 55, 56, 57, 58,
     67, 68, 69, 70, 71, 72, 73, 74, 83, 84, 85, 86, 87, 88, 89, 90, 99, 100, 101, 102, 103, 104, 105, 106, 115, 116, 117,
     118, 119, 120, 121, 122, 130, 131, 132, 133, 134, 135, 136, 137, 138, 146, 147, 148, 149, 150, 151, 152, 153, 154,
     162, 163, 164, 165, 166, 167, 168, 169, 170, 178, 179, 180, 181, 182, 183, 184, 185, 186, 194, 195, 196, 197, 198,
     199, 200, 201, 202, 210, 211, 212, 213, 214, 215, 216, 217, 218, 226, 227, 228, 229, 230, 231, 232, 233, 234, 242,
     243, 244, 245, 246, 247, 248, 249, 250]"

definition zigZag :: "nat list" where
  "zigZag =
    [0, 1, 5, 6, 14, 15, 27, 28, 2, 4, 7, 13, 16, 26, 29, 42, 3, 8, 12, 17, 25, 30, 41, 43, 9, 11, 18, 24, 31, 40, 44, 53,
     10, 19, 23, 32, 39, 45, 52, 54, 20, 22, 33, 38, 46, 51, 55, 60, 21, 34, 37, 47, 50, 56, 59, 61, 35, 36, 48, 49, 57,
     58, 62, 63]"

text \<open>\<open>invZigZag\<close> is filled by the package's \<open>init\<close>: position \<open>zigZag[n]\<close> gets \<open>n\<close>.\<close>

definition invZigZag :: "nat list" where
  "invZigZag = fold (\<lambda>natural z. z[zigZag ! natural := natural]) [0..<64] (replicate 64 0)"

definition avoExtend :: "16 word list" where
  "avoExtend = [0, -1, -3, -7, -15, -31, -63, -127, -255, -511, -1023, -2047, -4095, -8191, -16383, -32767]"

section \<open>Decode structures\<close>

text \<open>The sparse array \<open>values\<close> is a function of its index.\<close>

record avoHuff =
  minCode :: "int list"
  maxCode :: "int list"
  hvalues :: "int \<Rightarrow> byte"

definition huff_level :: "nat list \<Rightarrow> bytes \<Rightarrow> nat \<Rightarrow> int \<times> nat \<times> avoHuff \<Rightarrow> int \<times> nat \<times> avoHuff" where
  "huff_level bits vals l = (\<lambda>(code, vi, h).
     let n = bits ! l
     in if n = 0 then (code * 2, vi, h\<lparr>minCode := (minCode h)[l := 65535], maxCode := (maxCode h)[l := 0]\<rparr>)
        else ((code + int n) * 2, vi + n,
              h\<lparr>minCode := (minCode h)[l := code],
                hvalues := fold (\<lambda>j f. f(int l * 256 + int j := vals ! (vi + j))) [0..<n] (hvalues h),
                maxCode := (maxCode h)[l := code + int n - 1]\<rparr>))"

definition newAvoHuff :: "nat list \<Rightarrow> bytes \<Rightarrow> avoHuff" where
  "newAvoHuff bits vals =
     snd (snd (fold (huff_level bits vals) [1..<17] (0, 0, \<lparr>minCode = replicate 17 0, maxCode = replicate 17 0, hvalues = \<lambda>_. 0\<rparr>)))"

definition avoDcLuma :: avoHuff where "avoDcLuma = newAvoHuff xbBits ybVals"
definition avoDcChroma :: avoHuff where "avoDcChroma = newAvoHuff zbBits abVals"
definition avoAcLuma :: avoHuff where "avoAcLuma = newAvoHuff bbBits cbVals"
definition avoAcChroma :: avoHuff where "avoAcChroma = newAvoHuff dbBits ebVals"

text \<open>No match is \<open>None\<close>, and then nothing is consumed.\<close>

definition huff_match :: "avoHuff \<Rightarrow> 'a bitbuf_scheme \<Rightarrow> nat \<Rightarrow> bool" where
  "huff_match tab d l = (let code = uint (peekBits l d) in minCode tab ! l \<le> code \<and> code \<le> maxCode tab ! l)"

definition decodeHuffSymbol :: "avoHuff \<Rightarrow> 'a bitbuf_scheme \<Rightarrow> byte option \<times> 'a bitbuf_scheme" where
  "decodeHuffSymbol tab d =
     (case find (huff_match tab d) [1..<17] of
        Some l \<Rightarrow> (Some (hvalues tab (int l * 256 + (uint (peekBits l d) - minCode tab ! l))), consume l d)
      | None \<Rightarrow> (None, d))"

definition decodeSignedValue :: "nat \<Rightarrow> 'a bitbuf_scheme \<Rightarrow> 16 word result \<times> 'a bitbuf_scheme" where
  "decodeSignedValue n d =
     (if n = 0 then (Inr 0, d)
      else
        let (v, d) = getBits n d
        in if v < push_bit (n - 1) 1 then
             if n < length avoExtend then (Inr (ucast (v + scast (avoExtend ! n))), d)
             else (Inl (Panic ''index out of range''), d)
           else (Inr (ucast v), d))"

section \<open>Canonical codes\<close>

text \<open>The codes as the JPEG standard assigns them: consecutive within a length, doubled when the length grows.  The symbols of length
  \<open>l\<close> start at \<open>first_sym bits l\<close> in the value list.\<close>

fun first_code :: "nat list \<Rightarrow> nat \<Rightarrow> int" where
  "first_code bits 0 = 0"
| "first_code bits (Suc l) = 2 * (first_code bits l + int (bits ! l))"

definition first_sym :: "nat list \<Rightarrow> nat \<Rightarrow> nat" where
  "first_sym bits l = sum_list (take l bits)"

lemma first_code_nonneg: "0 \<le> first_code bits l"
  by (induction l) auto

lemma first_code_grows: "k < l \<Longrightarrow> (first_code bits k + int (bits ! k)) * 2 ^ (l - k) \<le> first_code bits l"
proof (induction l)
  case (Suc l)
  show ?case
  proof (cases "k = l")
    case False
    then have k: "k < l" using Suc.prems by simp
    then have "(first_code bits k + int (bits ! k)) * 2 ^ (Suc l - k) = 2 * ((first_code bits k + int (bits ! k)) * 2 ^ (l - k))"
      by (simp add: Suc_diff_le)
    also have "\<dots> \<le> 2 * first_code bits l" using Suc.IH [OF k] by simp
    finally show ?thesis by simp
  qed simp
qed simp

definition table_level :: "nat list \<Rightarrow> bytes \<Rightarrow> avoHuff \<Rightarrow> nat \<Rightarrow> bool" where
  "table_level bits vals h l \<longleftrightarrow>
     (if bits ! l = 0 then minCode h ! l = 65535 \<and> maxCode h ! l = 0
      else minCode h ! l = first_code bits l \<and> maxCode h ! l = first_code bits l + int (bits ! l) - 1)
     \<and> (\<forall>j < bits ! l. hvalues h (int l * 256 + int j) = vals ! (first_sym bits l + j))"

lemma upd_range:
  "fold (\<lambda>j f. f(a + int j := g j)) [0..<n] f x = (if a \<le> x \<and> x < a + int n then g (nat (x - a)) else f x)"
  by (induction n) auto

lemma huff_levels:
  assumes "length bits = 17" "bits ! 0 = 0" "\<And>l. l < 17 \<Longrightarrow> bits ! l \<le> 256" "n \<le> 16"
  shows "\<exists>h. fold (huff_level bits vals) [1..<Suc n] (0, 0, \<lparr>minCode = replicate 17 0, maxCode = replicate 17 0, hvalues = \<lambda>_. 0\<rparr>)
      = (first_code bits (Suc n), first_sym bits (Suc n), h) \<and> length (minCode h) = 17 \<and> length (maxCode h) = 17
      \<and> (\<forall>l. 1 \<le> l \<longrightarrow> l \<le> n \<longrightarrow> table_level bits vals h l)"
  using assms(4)
proof (induction n)
  case 0
  have "take 1 bits = [0]" using assms(1,2) by (cases bits) auto
  then show ?case using assms(2) by (simp add: first_sym_def)
next
  case (Suc n)
  then obtain h where h: "fold (huff_level bits vals) [1..<Suc n] (0, 0, \<lparr>minCode = replicate 17 0, maxCode = replicate 17 0, hvalues = \<lambda>_. 0\<rparr>)
      = (first_code bits (Suc n), first_sym bits (Suc n), h)" "length (minCode h) = 17" "length (maxCode h) = 17"
    "\<And>l. 1 \<le> l \<Longrightarrow> l \<le> n \<Longrightarrow> table_level bits vals h l" by auto
  let ?l = "Suc n"
  have fs: "first_sym bits (Suc ?l) = first_sym bits ?l + bits ! ?l"
    using Suc.prems assms(1) by (simp add: first_sym_def take_Suc_conv_app_nth)
  obtain h' where h': "huff_level bits vals ?l (first_code bits ?l, first_sym bits ?l, h) = (first_code bits (Suc ?l), first_sym bits (Suc ?l), h')"
    "length (minCode h') = 17" "length (maxCode h') = 17"
    "table_level bits vals h' ?l" "\<And>l. l < ?l \<Longrightarrow> minCode h' ! l = minCode h ! l \<and> maxCode h' ! l = maxCode h ! l"
    "\<And>l j. l < ?l \<Longrightarrow> j < 256 \<Longrightarrow> hvalues h' (int l * 256 + int j) = hvalues h (int l * 256 + int j)"
    using Suc.prems h(2,3) fs by (cases "bits ! ?l = 0") (auto simp: huff_level_def Let_def table_level_def upd_range)
  have "table_level bits vals h' l" if "1 \<le> l" "l \<le> n" for l
    using h(4) [OF that] h'(5) [of l] h'(6) [of l] assms(3) [of l] that Suc.prems by (auto simp: table_level_def)
  then have "table_level bits vals h' l" if "1 \<le> l" "l \<le> ?l" for l
    using that h'(4) by (cases "l = ?l") auto
  moreover have "[1..<Suc ?l] = [1..<?l] @ [?l]" by simp
  ultimately show ?case using h(1) h'(1-3) by (simp del: upt_Suc)
qed

lemma newAvoHuff_levels:
  assumes "length bits = 17" "bits ! 0 = 0" "\<And>l. l < 17 \<Longrightarrow> bits ! l \<le> 256" "1 \<le> l" "l \<le> 16"
  shows "table_level bits vals (newAvoHuff bits vals) l"
  using huff_levels [OF assms(1-3), of 16 vals] assms(4,5) by (auto simp: newAvoHuff_def)

section \<open>Reading symbols and values\<close>

lemma peekBits_shorter:
  assumes "1 \<le> k" "k \<le> l" "l \<le> 32"
  shows "uint (peekBits k d) = uint (peekBits l d) div 2 ^ (l - k)"
proof -
  have "peekBits k d = drop_bit (l - k) (peekBits l d)" using assms by (simp add: peekBits_def drop_bit_drop_bit)
  moreover have "take_bit 32 (uint (peekBits l d)) = uint (peekBits l d)"
    by (rule bit_eqI) (auto simp: bit_simps dest: bit_imp_le_length)
  ultimately show ?thesis by (simp add: unsigned_drop_bit_eq flip: drop_bit_eq_div)
qed

definition huff_spec :: "avoHuff \<Rightarrow> nat list \<Rightarrow> bytes \<Rightarrow> bool" where
  "huff_spec tab bits vals \<longleftrightarrow> tab = newAvoHuff bits vals \<and> length bits = 17 \<and> bits ! 0 = 0 \<and> (\<forall>l < 17. bits ! l \<le> 256)
     \<and> (\<forall>l < 17. first_code bits l + int (bits ! l) \<le> 2 ^ l) \<and> sum_list bits = length vals"

lemma huff_decode:
  assumes "huff_spec tab bits vals" "1 \<le> l" "l \<le> 16" "j < bits ! l" "uint (peekBits l d) = first_code bits l + int j"
  shows "decodeHuffSymbol tab d = (Some (vals ! (first_sym bits l + j)), consume l d)"
proof -
  have lev: "table_level bits vals tab k" if "1 \<le> k" "k \<le> 16" for k
    using assms(1) that newAvoHuff_levels [of bits k vals] by (auto simp: huff_spec_def)
  have hit: "huff_match tab d l" "minCode tab ! l = first_code bits l" "hvalues tab (int l * 256 + int j) = vals ! (first_sym bits l + j)"
    using lev [OF assms(2,3)] assms(4,5) by (auto simp: table_level_def huff_match_def)
  have miss: "\<not> huff_match tab d k" if k: "1 \<le> k" "k < l" for k
  proof (cases "bits ! k = 0")
    case False
    have "uint (peekBits k d) = (first_code bits l + int j) div 2 ^ (l - k)"
      using peekBits_shorter [of k l d] k assms(3,5) by simp
    moreover have "(first_code bits k + int (bits ! k)) \<le> (first_code bits l + int j) div 2 ^ (l - k)"
      using first_code_grows [OF k(2), of bits] zdiv_mono1 [of "(first_code bits k + int (bits ! k)) * 2 ^ (l - k)" "first_code bits l + int j" "2 ^ (l - k)"]
      by simp
    ultimately show ?thesis using lev [of k] False k assms(3) by (auto simp: table_level_def huff_match_def)
  next
    case True
    then show ?thesis using lev [of k] k assms(3) by (auto simp: table_level_def huff_match_def Let_def)
  qed
  have "find (huff_match tab d) [1..<17] = Some l"
    unfolding find_Some_iff using assms(2,3) hit(1) miss by (intro exI [of _ "l - 1"]) auto
  then show ?thesis using hit(2,3) assms(5) by (simp add: decodeHuffSymbol_def)
qed

lemma avo_tables:
  "huff_spec avoDcLuma xbBits ybVals" "huff_spec avoDcChroma zbBits abVals"
  "huff_spec avoAcLuma bbBits cbVals" "huff_spec avoAcChroma dbBits ebVals"
proof -
  have all: "(\<forall>l < 17. P l) \<longleftrightarrow> list_all P [0..<17]" for P by (auto simp: list_all_iff)
  show "huff_spec avoDcLuma xbBits ybVals" "huff_spec avoDcChroma zbBits abVals"
    "huff_spec avoAcLuma bbBits cbVals" "huff_spec avoAcChroma dbBits ebVals"
    unfolding huff_spec_def all avoDcLuma_def avoDcChroma_def avoAcLuma_def avoAcChroma_def
    by (intro conjI refl; code_simp)+
qed

text \<open>The bits of an \<open>n\<close>-bit number, most significant first.\<close>

definition code_bits :: "nat \<Rightarrow> int \<Rightarrow> bool list" where
  "code_bits n c = rev (map (bit c) [0..<n])"

lemma length_code_bits [simp]: "length (code_bits n c) = n"
  by (simp add: code_bits_def)

lemma bits_val_code_bits: "0 \<le> c \<Longrightarrow> c < 2 ^ n \<Longrightarrow> bits_val (code_bits n c) = c"
  by (simp add: bits_val_def code_bits_def horner_sum_bit_eq_take_bit take_bit_int_eq_self)

text \<open>The stream continues with the given bits.\<close>

definition reads :: "'a bitbuf_scheme \<Rightarrow> bool list \<Rightarrow> bool" where
  "reads d bs \<longleftrightarrow> buf_inv d \<and> next_bits (length bs) d = bs"

lemma reads_append: "reads d (xs @ ys) \<Longrightarrow> reads d xs \<and> reads (consume (length xs) d) ys"
  by (auto simp: reads_def next_bits_split consume_inv)

lemma reads_peek: "reads d (code_bits n c) \<Longrightarrow> n \<le> 32 \<Longrightarrow> 0 \<le> c \<Longrightarrow> c < 2 ^ n \<Longrightarrow> uint (peekBits n d) = c"
  by (simp add: reads_def peekBits_val bits_val_code_bits)

lemma huff_symbol:
  assumes "huff_spec tab bits vals" "1 \<le> l" "l \<le> 16" "j < bits ! l" "reads d (code_bits l (first_code bits l + int j))"
  shows "decodeHuffSymbol tab d = (Some (vals ! (first_sym bits l + j)), consume l d)"
proof (rule huff_decode [OF assms(1-4)])
  have "first_code bits l + int (bits ! l) \<le> 2 ^ l" using assms(1,3) by (simp add: huff_spec_def)
  then have "0 \<le> first_code bits l + int j" "first_code bits l + int j < 2 ^ l"
    using assms(4) first_code_nonneg [of bits l] by linarith+
  then show "uint (peekBits l d) = first_code bits l + int j" using reads_peek [OF assms(5)] assms(3) by simp
qed

text \<open>JPEG value coding: a value of category \<open>n\<close> is sent as itself when positive and offset by \<open>2^n - 1\<close> when negative.\<close>

definition value_bits :: "nat \<Rightarrow> int \<Rightarrow> bool list" where
  "value_bits n x = code_bits n (if 0 < x then x else x + 2 ^ n - 1)"

definition in_category :: "nat \<Rightarrow> int \<Rightarrow> bool" where
  "in_category n x \<longleftrightarrow> (if n = 0 then x = 0 else 2 ^ (n - 1) \<le> \<bar>x\<bar> \<and> \<bar>x\<bar> < 2 ^ n)"

lemma avoExtend_val: "n < 16 \<Longrightarrow> 0 < n \<Longrightarrow> scast (avoExtend ! n) = (of_int (1 - 2 ^ n) :: u32)"
proof -
  have "\<forall>n \<in> set [1..<16]. scast (avoExtend ! n) = (of_int (1 - 2 ^ n) :: u32)" by code_simp
  then show "n < 16 \<Longrightarrow> 0 < n \<Longrightarrow> ?thesis" by simp
qed

lemma ucast_of_int: "ucast (of_int k :: u32) = (of_int k :: 16 word)"
  by (rule bit_word_eqI) (auto simp: bit_simps)

lemma length_avoExtend: "length avoExtend = 16"
  by (simp add: avoExtend_def)

lemma decodeSignedValue_value:
  assumes "in_category n x" "n < 16" "reads d (value_bits n x)"
  shows "decodeSignedValue n d = (Inr (of_int x), consume n d)"
proof (cases "n = 0")
  case True
  then show ?thesis using assms(1) by (simp add: decodeSignedValue_def in_category_def consume.simps)
next
  case False
  let ?c = "if 0 < x then x else x + 2 ^ n - 1"
  have pow: "(2 :: int) ^ n = 2 * 2 ^ (n - 1)" using False by (cases n) auto
  have x: "2 ^ (n - 1) \<le> \<bar>x\<bar>" "\<bar>x\<bar> < 2 ^ n" using assms(1) False by (auto simp: in_category_def)
  have c: "0 \<le> ?c" "?c < 2 ^ n" using x by auto
  have v: "uint (peekBits n d) = ?c" using reads_peek [OF assms(3) [unfolded value_bits_def] _ c] assms(2) by linarith
  have "uint (push_bit (n - 1) 1 :: u32) = push_bit (n - 1) 1" using assms(2) by (intro bit_eqI) (auto simp: bit_simps)
  then have "uint (push_bit (n - 1) 1 :: u32) = 2 ^ (n - 1)" by (simp add: push_bit_eq_mult)
  then have lt: "peekBits n d < push_bit (n - 1) 1 \<longleftrightarrow> x < 0"
    using v x pow by (auto simp: word_less_def)
  have pv: "peekBits n d = of_int ?c" using v by (simp flip: v)
  have e: "peekBits n d + scast (avoExtend ! n) = of_int x" if "x < 0" using that pv avoExtend_val [OF assms(2)] False by simp
  have "x \<noteq> 0" using x by auto
  then consider "x < 0" | "0 < x" by linarith
  then show ?thesis
  proof cases
    case 1
    then show ?thesis using False assms(2) lt e by (simp add: decodeSignedValue_def getBits_def ucast_of_int length_avoExtend)
  next
    case 2
    then show ?thesis using False assms(2) lt pv by (simp add: decodeSignedValue_def getBits_def ucast_of_int)
  qed
qed

section \<open>Properties: symbols\<close>

text \<open>every code of the four baked-in Huffman tables decodes to its symbol: when the stream continues with the canonical code of the
  \<open>j\<close>-th symbol of length \<open>l\<close>, the reader returns exactly that symbol of the table's value list and advances past exactly \<open>l\<close> bits.\<close>

theorem huff_symbol_roundtrip:
  assumes "(tab, bits, vals) \<in> {(avoDcLuma, xbBits, ybVals), (avoDcChroma, zbBits, abVals), (avoAcLuma, bbBits, cbVals), (avoAcChroma, dbBits, ebVals)}"
    "1 \<le> l" "l \<le> 16" "j < bits ! l" "buf_inv d" "next_bits l d = code_bits l (first_code bits l + int j)"
  shows "decodeHuffSymbol tab d = (Some (vals ! (first_sym bits l + j)), consume l d)"
  using huff_symbol [OF _ assms(2-4), of tab vals d] assms(1,5,6) avo_tables by (auto simp: reads_def)

theorem huff_symbol_roundtrip_witness:
  "decodeHuffSymbol avoAcLuma (open_bits [0, 0, 0, 0xA0]) = (Some 0, consume 4 (open_bits [0, 0, 0, 0xA0]))"
proof -
  have "buf_inv (open_bits [0, 0, 0, 0xA0])" unfolding open_bits_def by (rule fill_inv) simp_all
  moreover have "next_bits 4 (open_bits [0, 0, 0, 0xA0]) = code_bits 4 (first_code bbBits 4 + int 0)" by code_simp
  ultimately show ?thesis
    using huff_symbol_roundtrip [of avoAcLuma bbBits cbVals 4 0 "open_bits [0, 0, 0, 0xA0]"]
    by (simp add: bbBits_def cbVals_def first_sym_def numeral_eq_Suc)
qed

end
