(* ===== verification/Video_Dct.thy ===== *)
theory Video_Dct
  imports Go_Prelude Complex_Main
begin

text \<open>
  Dequantisation and the inverse transform of the tile codec (\<open>internal/video/jpeg.go\<close>: quantisation tables;
  \<open>internal/video/avocent_dct.go\<close>: \<open>buildAvoQuant\<close>, \<open>avoIDCTInt\<close>, \<open>aanMul\<close>).  A \<open>float32\<close> or \<open>float64\<close> value is the
  rational number it denotes and every operation rounds its exact result to 24 or 53 significant bits, ties to even; the magnitudes that
  occur are far from the exponent limits.  \<open>int32\<close> arithmetic wraps.
\<close>

section \<open>Floating-point rounding\<close>

function log2_int :: "int \<Rightarrow> int" where
  "log2_int n = (if n \<le> 1 then 0 else 1 + log2_int (n div 2))"
  by pat_completeness auto
termination by (relation "measure nat") auto

declare log2_int.simps [simp del]

text \<open>The exponent of a positive number: the largest \<open>e\<close> with \<open>2^e\<close> at most the number.\<close>

definition expo :: "rat \<Rightarrow> int" where
  "expo x = (if 1 \<le> x then log2_int \<lfloor>x\<rfloor> else - (log2_int (\<lceil>1 / x\<rceil> - 1) + 1))"

definition round_even :: "rat \<Rightarrow> int" where
  "round_even x =
     (let f = \<lfloor>x\<rfloor>; r = x - of_int f
      in if r < 1 / 2 then f else if r > 1 / 2 then f + 1 else if even f then f else f + 1)"

definition fl :: "nat \<Rightarrow> rat \<Rightarrow> rat" where
  "fl p x =
     (if x = 0 then 0
      else let e = expo \<bar>x\<bar> - (int p - 1)
           in of_int (round_even (x / 2 powi e)) * 2 powi e)"

abbreviation (input) f32 :: "rat \<Rightarrow> rat" where "f32 \<equiv> fl 24"
abbreviation (input) f64 :: "rat \<Rightarrow> rat" where "f64 \<equiv> fl 53"

text \<open>\<open>int32(x)\<close> truncates towards zero.\<close>

definition to_int32 :: "rat \<Rightarrow> 32 word" where
  "to_int32 x = of_int (if 0 \<le> x then \<lfloor>x\<rfloor> else \<lceil>x\<rceil>)"

section \<open>Quantisation tables\<close>

definition quantY :: "int list list" where
  "quantY =
    [[2, 1, 1, 2, 3, 5, 6, 7, 1, 1, 1, 2, 3, 7, 7, 6, 1, 1, 2, 3, 5, 7, 8, 7, 1, 2, 2, 3, 6, 10, 10, 7, 2, 2, 4, 7, 8,
      13, 12, 9, 3, 4, 6, 8, 10, 13, 14, 11, 6, 8, 9, 10, 12, 15, 15, 12, 9, 11, 11, 12, 14, 12, 12, 12],
     [3, 2, 1, 3, 4, 7, 9, 11, 2, 2, 2, 3, 4, 10, 11, 10, 2, 2, 3, 4, 7, 10, 12, 10, 2, 3, 4, 5, 9, 16, 15, 11, 3, 4, 6,
      10, 12, 20, 19, 14, 4, 6, 10, 12, 15, 19, 21, 17, 9, 12, 14, 16, 19, 22, 22, 18, 13, 17, 17, 18, 21, 18, 19, 18],
     [6, 4, 3, 6, 9, 15, 19, 22, 4, 4, 5, 7, 9, 21, 22, 20, 5, 4, 6, 9, 15, 21, 25, 21, 5, 6, 8, 10, 19, 32, 30, 23, 6,
      8, 13, 21, 25, 40, 38, 28, 9, 13, 20, 24, 30, 39, 42, 34, 18, 24, 29, 32, 38, 45, 45, 37, 27, 34, 35, 36, 42, 37,
      38, 37],
     [9, 6, 5, 9, 13, 22, 28, 34, 6, 6, 7, 10, 14, 32, 33, 30, 7, 7, 9, 13, 22, 32, 38, 31, 7, 9, 12, 16, 28, 48, 45, 34,
      10, 12, 20, 31, 38, 61, 57, 43, 13, 19, 30, 36, 45, 58, 63, 51, 27, 36, 43, 48, 57, 68, 67, 56, 40, 51, 53, 55, 63,
      56, 57, 55],
     [11, 7, 7, 11, 17, 28, 36, 43, 8, 8, 10, 13, 18, 41, 43, 39, 10, 9, 11, 17, 28, 40, 49, 40, 10, 12, 15, 20, 36, 62,
      57, 44, 12, 15, 26, 40, 48, 78, 74, 55, 17, 25, 39, 46, 58, 74, 81, 66, 35, 46, 56, 62, 74, 88, 86, 72, 51, 66, 68,
      70, 80, 71, 74, 71],
     [14, 9, 9, 14, 21, 36, 46, 55, 10, 10, 12, 17, 23, 52, 54, 49, 12, 11, 14, 21, 36, 51, 62, 50, 12, 15, 19, 26, 46,
      78, 72, 56, 16, 19, 33, 50, 61, 98, 93, 69, 21, 31, 49, 58, 73, 94, 102, 83, 44, 58, 70, 78, 93, 109, 108, 91, 65,
      83, 86, 88, 101, 90, 93, 89],
     [17, 12, 10, 17, 26, 43, 55, 66, 13, 13, 15, 20, 28, 63, 65, 60, 15, 14, 17, 26, 43, 62, 75, 61, 15, 18, 24, 31, 55,
      95, 87, 67, 19, 24, 40, 61, 74, 119, 112, 84, 26, 38, 60, 70, 88, 113, 123, 100, 53, 70, 85, 95, 112, 132, 131,
      110, 78, 100, 103, 107, 122, 109, 112, 108],
     [20, 13, 12, 20, 30, 50, 63, 76, 15, 15, 17, 23, 32, 72, 75, 68, 17, 16, 20, 30, 50, 71, 86, 70, 17, 21, 27, 36, 63,
      108, 100, 77, 22, 27, 46, 70, 85, 136, 128, 96, 30, 43, 68, 80, 101, 130, 141, 115, 61, 80, 97, 108, 128, 151, 150,
      126, 90, 115, 118, 122, 140, 125, 128, 123]]"

definition quantC :: "int list list" where
  "quantC =
    [[3, 3, 4, 8, 18, 18, 18, 18, 3, 3, 4, 12, 18, 18, 18, 18, 4, 4, 10, 18, 18, 18, 18, 18, 8, 12, 18, 18, 18, 18, 18,
      18, 18, 18, 18, 18, 18, 18, 18, 18, 18, 18, 18, 18, 18, 18, 18, 18, 18, 18, 18, 18, 18, 18, 18, 18, 18, 18, 18, 18,
      18, 18, 18, 18],
     [4, 5, 6, 13, 27, 27, 27, 27, 5, 5, 7, 18, 27, 27, 27, 27, 6, 7, 15, 27, 27, 27, 27, 27, 13, 18, 27, 27, 27, 27, 27,
      27, 27, 27, 27, 27, 27, 27, 27, 27, 27, 27, 27, 27, 27, 27, 27, 27, 27, 27, 27, 27, 27, 27, 27, 27, 27, 27, 27, 27,
      27, 27, 27, 27],
     [9, 10, 13, 26, 55, 55, 55, 55, 10, 11, 14, 37, 55, 55, 55, 55, 13, 14, 31, 55, 55, 55, 55, 55, 26, 37, 55, 55, 55,
      55, 55, 55, 55, 55, 55, 55, 55, 55, 55, 55, 55, 55, 55, 55, 55, 55, 55, 55, 55, 55, 55, 55, 55, 55, 55, 55, 55, 55,
      55, 55, 55, 55, 55, 55],
     [13, 14, 19, 38, 80, 80, 80, 80, 14, 17, 21, 53, 80, 80, 80, 80, 19, 21, 45, 80, 80, 80, 80, 80, 38, 53, 80, 80, 80,
      80, 80, 80, 80, 80, 80, 80, 80, 80, 80, 80, 80, 80, 80, 80, 80, 80, 80, 80, 80, 80, 80, 80, 80, 80, 80, 80, 80, 80,
      80, 80, 80, 80, 80, 80],
     [18, 19, 26, 51, 108, 108, 108, 108, 19, 22, 28, 72, 108, 108, 108, 108, 26, 28, 61, 108, 108, 108, 108, 108, 51,
      72, 108, 108, 108, 108, 108, 108, 108, 108, 108, 108, 108, 108, 108, 108, 108, 108, 108, 108, 108, 108, 108, 108,
      108, 108, 108, 108, 108, 108, 108, 108, 108, 108, 108, 108, 108, 108, 108, 108],
     [22, 24, 32, 63, 133, 133, 133, 133, 24, 28, 34, 88, 133, 133, 133, 133, 32, 34, 75, 133, 133, 133, 133, 133, 63,
      88, 133, 133, 133, 133, 133, 133, 133, 133, 133, 133, 133, 133, 133, 133, 133, 133, 133, 133, 133, 133, 133, 133,
      133, 133, 133, 133, 133, 133, 133, 133, 133, 133, 133, 133, 133, 133, 133, 133],
     [27, 29, 39, 76, 160, 160, 160, 160, 29, 34, 42, 107, 160, 160, 160, 160, 39, 42, 91, 160, 160, 160, 160, 160, 76,
      107, 160, 160, 160, 160, 160, 160, 160, 160, 160, 160, 160, 160, 160, 160, 160, 160, 160, 160, 160, 160, 160, 160,
      160, 160, 160, 160, 160, 160, 160, 160, 160, 160, 160, 160, 160, 160, 160, 160],
     [31, 33, 45, 88, 185, 185, 185, 185, 33, 39, 48, 123, 185, 185, 185, 185, 45, 48, 105, 185, 185, 185, 185, 185, 88,
      123, 185, 185, 185, 185, 185, 185, 185, 185, 185, 185, 185, 185, 185, 185, 185, 185, 185, 185, 185, 185, 185, 185,
      185, 185, 185, 185, 185, 185, 185, 185, 185, 185, 185, 185, 185, 185, 185, 185]]"

definition aanScale :: "rat list" where
  "aanScale = map f64 [1, 1387039845322148 / 1000000000000000, 1306562964876377 / 1000000000000000, 1175875602419359 / 1000000000000000,
     1, 785694958387102 / 1000000000000000, 541196100146197 / 1000000000000000, 275899379282943 / 1000000000000000]"

definition buildAvoQuant :: "int list \<Rightarrow> rat list" where
  "buildAvoQuant base =
     map (\<lambda>natural. f32 (f64 (f64 (f64 (of_int (base ! natural)) * aanScale ! (natural div 8)) * aanScale ! (natural mod 8)))) [0..<64]"

section \<open>Inverse transform\<close>

definition aanMul :: "32 word \<Rightarrow> 32 word \<Rightarrow> 32 word" where
  "aanMul n m = signed_drop_bit 8 (n * m)"

text \<open>\<open>int32(float32(c) * q)\<close>.\<close>

definition dequant :: "32 word \<Rightarrow> rat \<Rightarrow> 32 word" where
  "dequant c q = to_int32 (f32 (f32 (of_int (sint c)) * q))"

text \<open>The eight-point transform both passes spell out.\<close>

definition aan_1d :: "32 word list \<Rightarrow> 32 word list" where
  "aan_1d s =
     (let t13 = s ! 0 + s ! 4; t12 = s ! 0 - s ! 4; t11 = s ! 2 + s ! 6; t10 = aanMul (s ! 2 - s ! 6) 362 - t11;
          a17 = t13 + t11; a14 = t13 - t11; a16 = t12 + t10; a15 = t12 - t10;
          p5 = s ! 5 + s ! 3; p4 = s ! 5 - s ! 3; p3 = s ! 1 + s ! 7; p2 = s ! 1 - s ! 7;
          b6 = p3 + p5; b12 = aanMul (p3 - p5) 362; bn = aanMul (p4 + p2) 473;
          b13 = aanMul p2 277 - bn; b10 = aanMul p4 (-669) + bn;
          b7 = b10 - b6; b8 = b12 - b7; b9 = b13 + b8
      in [a17 + b6, a16 + b7, a15 + b8, a14 - b9, a14 + b9, a15 - b8, a16 - b7, a17 - b6])"

definition idct_column :: "32 word list \<Rightarrow> rat list \<Rightarrow> nat \<Rightarrow> 32 word list" where
  "idct_column coef q col =
     (if \<forall>i \<in> set [1..<8]. coef ! (col + i * 8) = 0 then replicate 8 (dequant (coef ! col) (q ! col))
      else aan_1d (map (\<lambda>i. dequant (coef ! (col + i * 8)) (q ! (col + i * 8))) [0..<8]))"

text \<open>The work array after the column pass, in raster order.\<close>

definition idct_work :: "32 word list \<Rightarrow> rat list \<Rightarrow> 32 word list" where
  "idct_work coef q = (let cols = map (idct_column coef q) [0..<8] in map (\<lambda>k. cols ! (k mod 8) ! (k div 8)) [0..<64])"

definition idct_row :: "32 word list \<Rightarrow> nat \<Rightarrow> 32 word list" where
  "idct_row work row = map (signed_drop_bit 3) (aan_1d (slice (row * 8) (row * 8 + 8) work))"

definition avoIDCTInt :: "32 word list \<Rightarrow> rat list \<Rightarrow> 32 word list" where
  "avoIDCTInt coef q = concat (map (idct_row (idct_work coef q)) [0..<8])"

section \<open>Lemmas: rounding\<close>

lemma log2_int_bounds: "1 \<le> n \<Longrightarrow> 0 \<le> log2_int n \<and> 2 ^ nat (log2_int n) \<le> n \<and> n < 2 ^ Suc (nat (log2_int n))"
proof (induction n rule: log2_int.induct)
  case (1 n)
  show ?case
  proof (cases "n \<le> 1")
    case True
    then show ?thesis using 1(2) by (simp add: log2_int.simps)
  next
    case False
    then have ih: "0 \<le> log2_int (n div 2)" "2 ^ nat (log2_int (n div 2)) \<le> n div 2" "n div 2 < 2 ^ Suc (nat (log2_int (n div 2)))"
      using 1(1) by auto
    have "nat (log2_int n) = Suc (nat (log2_int (n div 2)))" using False ih(1) by (subst log2_int.simps) simp
    moreover have "2 * p \<le> n \<and> n < 4 * p" if "p \<le> n div 2" "n div 2 < 2 * p" for p using that by linarith
    ultimately show ?thesis using ih(2,3) ih(1) False by (subst log2_int.simps) auto
  qed
qed

lemma fl_0 [simp]: "fl p 0 = 0"
  by (simp add: fl_def)

lemma round_even_int [simp]: "round_even (of_int n) = n"
  by (simp add: round_even_def)

lemma fl_int:
  assumes "\<bar>n\<bar> < 2 ^ p" "0 < p"
  shows "fl p (of_int n) = of_int n"
proof (cases "n = 0")
  case False
  let ?l = "log2_int \<bar>n\<bar>"
  have l: "0 \<le> ?l" "2 ^ nat ?l \<le> \<bar>n\<bar>" using log2_int_bounds [of "\<bar>n\<bar>"] False by auto
  have "1 \<le> \<bar>n\<bar>" using False by simp
  then have "expo \<bar>of_int n\<bar> = ?l" by (simp add: expo_def flip: of_int_abs)
  moreover have "(2 :: int) ^ nat ?l < 2 ^ p" using l(2) assms(1) by linarith
  then have "nat ?l < p" by simp
  ultimately have e: "expo \<bar>of_int n\<bar> - (int p - 1) = - int (p - 1 - nat ?l)" using l(1) assms(2) by auto
  let ?k = "p - 1 - nat ?l"
  have "(of_int n :: rat) / 2 powi (- int ?k) = of_int (n * 2 ^ ?k)" by (simp add: power_int_minus divide_inverse)
  then have "fl p (of_int n) = of_int (n * 2 ^ ?k) * 2 powi (- int ?k)"
    using False unfolding fl_def Let_def e by (simp only: round_even_int) simp
  then show ?thesis by (simp add: power_int_minus)
qed simp

lemma to_int32_int: "to_int32 (of_int n) = of_int n"
  by (simp add: to_int32_def)

lemma dequant_0 [simp]: "dequant 0 q = 0"
  by (simp add: dequant_def to_int32_def)

lemma aanMul_0 [simp]: "aanMul 0 m = 0"
  by (simp add: aanMul_def)

section \<open>Lemmas: inverse transform\<close>

lemma length_aan_1d [simp]: "length (aan_1d s) = 8"
  by (simp add: aan_1d_def Let_def)

lemma aan_1d_dc: "aan_1d [c, 0, 0, 0, 0, 0, 0, 0] = replicate 8 c"
  by (simp add: aan_1d_def Let_def numeral_eq_Suc)

lemma upt_8: "[0..<8] = [0, 1, 2, 3, 4, 5, 6, 7 :: nat]"
  by code_simp

lemma upt_1_8: "[1..<8] = [1, 2, 3, 4, 5, 6, 7 :: nat]"
  by code_simp

text \<open>The transform without the shortcut for columns that have only their first coefficient.\<close>

definition idct_ref :: "32 word list \<Rightarrow> rat list \<Rightarrow> 32 word list" where
  "idct_ref coef q =
     (let cols = map (\<lambda>col. aan_1d (map (\<lambda>i. dequant (coef ! (col + i * 8)) (q ! (col + i * 8))) [0..<8])) [0..<8];
          work = map (\<lambda>k. cols ! (k mod 8) ! (k div 8)) [0..<64]
      in concat (map (idct_row work) [0..<8]))"

lemma idct_column_ref: "idct_column coef q col = aan_1d (map (\<lambda>i. dequant (coef ! (col + i * 8)) (q ! (col + i * 8))) [0..<8])"
proof (cases "\<forall>i \<in> set [1..<8]. coef ! (col + i * 8) = 0")
  case True
  then have "map (\<lambda>i. dequant (coef ! (col + i * 8)) (q ! (col + i * 8))) [0..<8] = [dequant (coef ! col) (q ! col), 0, 0, 0, 0, 0, 0, 0]"
    unfolding upt_1_8 by (simp add: upt_8)
  then show ?thesis using True by (simp add: idct_column_def aan_1d_dc)
qed (auto simp: idct_column_def)

lemma shift_3:
  assumes "\<bar>n\<bar> < 2 ^ 31"
  shows "signed_drop_bit 3 (of_int n :: 32 word) = of_int (n div 8)"
proof -
  have "sint (of_int k :: 32 word) = k" if "\<bar>k\<bar> < 2 ^ 31" for k
    using that by (simp add: signed_of_int signed_take_bit_int_eq_self)
  then have "sint (signed_drop_bit 3 (of_int n :: 32 word)) = sint (of_int (n div 8) :: 32 word)"
    using assms by (simp add: sint_signed_drop_bit_eq drop_bit_eq_div)
  then show ?thesis by (rule signed_word_eqI)
qed

lemma buildAvoQuant_dc:
  assumes "0 \<le> base ! 0" "base ! 0 < 256"
  shows "buildAvoQuant base ! 0 = of_int (base ! 0)"
proof -
  have e: "f64 (of_int (base ! 0)) = of_int (base ! 0)" "f32 (of_int (base ! 0)) = of_int (base ! 0)" "f64 1 = 1"
    using fl_int [of "base ! 0" 53] fl_int [of "base ! 0" 24] fl_int [of 1 53] assms by simp_all
  show ?thesis by (simp add: buildAvoQuant_def aanScale_def e nth_append)
qed

lemma dequant_dc:
  assumes "\<bar>c\<bar> \<le> 2 ^ 15" "0 \<le> b" "b < 256"
  shows "dequant (of_int c) (of_int b) = of_int (c * b)" "\<bar>c * b\<bar> < 2 ^ 24"
proof -
  have "\<bar>c * b\<bar> \<le> 2 ^ 15 * 255" unfolding abs_mult using assms by (intro mult_mono) auto
  then show m: "\<bar>c * b\<bar> < 2 ^ 24" by simp
  have "sint (of_int c :: 32 word) = c" using assms(1) by (simp add: signed_of_int signed_take_bit_int_eq_self)
  moreover have "f32 (of_int c) = of_int c" using fl_int [of c 24] assms(1) by simp
  moreover have "f32 (of_int (c * b)) = of_int (c * b)" using fl_int [of "c * b" 24] m by simp
  ultimately show "dequant (of_int c) (of_int b) = of_int (c * b)" by (simp add: dequant_def to_int32_int flip: of_int_mult)
qed

lemma idct_work_dc:
  assumes "coef = v # replicate 63 0"
  shows "idct_work coef q = map (\<lambda>k. if k mod 8 = 0 then dequant v (q ! 0) else 0) [0..<64]"
proof -
  have nth: "coef ! k = 0" if "0 < k" "k < 64" for k using that assms by (simp add: nth_Cons')
  have z: "\<forall>i \<in> set [1..<8]. coef ! (col + i * 8) = 0" if "col < 8" for col using that by (auto intro!: nth)
  have c: "idct_column coef q col = replicate 8 (if col = 0 then dequant v (q ! 0) else 0)" if "col < 8" for col
    using z [OF that] that nth [of col] assms by (simp add: idct_column_def del: set_upt)
  show ?thesis by (intro nth_equalityI) (auto simp: idct_work_def c)
qed

lemma concat_replicates: "concat (replicate n (replicate m x)) = replicate (n * m) x"
  by (induction n) (simp_all add: replicate_add)

section \<open>Properties: inverse transform\<close>

text \<open>the shortcut for columns whose seven higher coefficients are zero changes nothing: the transform equals the one that runs the
  eight-point butterfly on every column, for all coefficients and all quantisation tables, wrap-around included.\<close>

theorem idct_fast_path_equiv: "avoIDCTInt coef q = idct_ref coef q"
  by (simp add: avoIDCTInt_def idct_work_def idct_ref_def idct_column_ref Let_def)

text \<open>a block that has only its DC coefficient decodes to a flat block, and the floating-point dequantisation is exact there: each
  of the 64 samples is the product of the coefficient and the table's first entry, divided by eight rounding down.\<close>

theorem dc_only_block_flat:
  assumes "coef = of_int c # replicate 63 0" "length base = 64" "\<bar>c\<bar> \<le> 2 ^ 15" "0 \<le> base ! 0" "base ! 0 < 256"
  shows "avoIDCTInt coef (buildAvoQuant base) = replicate 64 (of_int (c * base ! 0 div 8))"
proof -
  let ?n = "c * base ! 0"
  have d: "dequant (of_int c) (buildAvoQuant base ! 0) = of_int ?n" "\<bar>?n\<bar> < 2 ^ 31"
    using dequant_dc [OF assms(3-5)] buildAvoQuant_dc [OF assms(4,5)] by simp_all
  have w: "idct_work coef (buildAvoQuant base) = map (\<lambda>k. if k mod 8 = 0 then of_int ?n else 0) [0..<64]"
    using idct_work_dc [OF assms(1), of "buildAvoQuant base"] d(1) by simp
  have "idct_row (idct_work coef (buildAvoQuant base)) row = replicate 8 (of_int (?n div 8))" if "row < 8" for row
  proof -
    have "slice (row * 8) (row * 8 + 8) (map f [0..<64]) = map (\<lambda>i. f (row * 8 + i)) [0..<8]" for f :: "nat \<Rightarrow> 32 word"
      using that by (intro nth_equalityI) (auto simp: slice_def)
    moreover have "Suc (row * 8) mod 8 = 1" "Suc (Suc (row * 8)) mod 8 = 2" by presburger+
    ultimately show ?thesis using shift_3 [OF d(2)] aan_1d_dc [of "of_int ?n"] unfolding w idct_row_def by (simp add: upt_8)
  qed
  then have "map (idct_row (idct_work coef (buildAvoQuant base))) [0..<8] = replicate 8 (replicate 8 (of_int (?n div 8)))"
    by (intro nth_equalityI) auto
  then show ?thesis by (simp add: avoIDCTInt_def concat_replicates)
qed

theorem dc_only_block_flat_witness:
  "avoIDCTInt (of_int (-100) # replicate 63 0) (buildAvoQuant (quantY ! 7)) = replicate 64 (of_int (-250))"
  using dc_only_block_flat [of "of_int (-100) # replicate 63 0" "-100" "quantY ! 7"] by (simp add: quantY_def)

end
