(* ===== verification/Video_Avocent.thy ===== *)
theory Video_Avocent
  imports Video_Decoder Avocent_Huffman Video_Dct
begin

text \<open>
  The tile codec for video packets (\<open>internal/video/avocent.go\<close>, \<open>avocent_dct.go\<close>): packet header, opcode loop, palette
  cache, coefficient blocks and painting.  The decoder's record extends the bit buffer.  A block or a body that would never be finished is
  \<open>None\<close>, so that returning is a theorem; a fault is an error value.  The debug hooks are nil and the switches that only the tests change
  have their default values.
\<close>

section \<open>State\<close>

record AvocentDecoder = bitbuf +
  vb_colors :: "u32 list"
  vb_index :: "nat list"
  vb_entropy :: nat
  jb :: int
  kb :: int
  tileX :: int
  tileY :: int
  tileW :: int
  tileH :: int
  tile_q :: int
  dcY :: "16 word"
  dcCb :: "16 word"
  dcCr :: "16 word"
  tile_mode :: byte
  qY :: "rat list"
  qC :: "rat list"
  lastOpCount :: nat
  opTrail :: "nat list"
  forceY :: int
  forceC :: int

definition NewAvocentDecoder :: AvocentDecoder where
  "NewAvocentDecoder = \<lparr>nb = 0, mb = 0, ob = 0, src = [], pos = 0, consumedB = 0,
     vb_colors = replicate 4 0, vb_index = replicate 4 0, vb_entropy = 0, jb = 0, kb = 0,
     tileX = 0, tileY = 0, tileW = 0, tileH = 0, tile_q = 8, dcY = 0, dcCb = 0, dcCr = 0, tile_mode = 0,
     qY = buildAvoQuant (quantY ! 7), qC = buildAvoQuant (quantC ! 7), lastOpCount = 0, opTrail = [], forceY = -1, forceC = -1\<rparr>"

definition quant_index :: "int \<Rightarrow> byte \<Rightarrow> int" where
  "quant_index force v =
     (let i = 7 - int (unat v);
          i = (if force \<ge> 0 then force else i)
      in if i < 0 \<or> i \<ge> 8 then 7 else i)"

definition SetMode :: "byte \<Rightarrow> byte \<Rightarrow> byte \<Rightarrow> AvocentDecoder \<Rightarrow> AvocentDecoder" where
  "SetMode m lumaQ chromaQ d =
     d\<lparr>tile_mode := m, tile_q := (if m = 1 then 16 else 8),
       qY := buildAvoQuant (quantY ! nat (quant_index (forceY d) lumaQ)),
       qC := buildAvoQuant (quantC ! nat (quant_index (forceC d) chromaQ))\<rparr>"

section \<open>Colour conversion\<close>

text \<open>The tables are filled with 16-bit fixed-point constants: \<open>fx(f)\<close> is \<open>f * 65536 + 0.5\<close> truncated.\<close>

definition fx :: "rat \<Rightarrow> 32 word" where
  "fx f = to_int32 (f64 (f64 (f64 f * 65536) + 1 / 2))"

definition yLutBT601 :: "nat \<Rightarrow> 32 word" where
  "yLutBT601 i = signed_drop_bit 16 (fx (1164 / 1000) * (of_nat i - 16))"

definition crRedLut :: "nat \<Rightarrow> 32 word" where
  "crRedLut i = signed_drop_bit 16 (fx (1597656 / 1000000) * (of_nat i - 128))"

definition cbBlueLut :: "nat \<Rightarrow> 32 word" where
  "cbBlueLut i = signed_drop_bit 16 (fx (2015625 / 1000000) * (of_nat i - 128))"

definition crGreenLut :: "nat \<Rightarrow> 32 word" where
  "crGreenLut i = - fx (8125 / 10000) * (of_nat i - 128)"

definition cbGreenLut :: "nat \<Rightarrow> 32 word" where
  "cbGreenLut i = - fx (390625 / 1000000) * (of_nat i - 128) + signed_drop_bit 1 (to_int32 65536)"

definition clampByte :: "32 word \<Rightarrow> u32" where
  "clampByte v = (if v <s 0 then 0 else if 255 <s v then 255 else v)"

definition yCbCrToARGB :: "32 word \<Rightarrow> 32 word \<Rightarrow> 32 word \<Rightarrow> u32" where
  "yCbCrToARGB y cb cr =
     (let iy = yLutBT601 (unat (y AND 0xFF));
          r = iy + crRedLut (unat (cr AND 0xFF));
          b = iy + cbBlueLut (unat (cb AND 0xFF));
          g = iy + signed_drop_bit 16 (cbGreenLut (unat (cb AND 0xFF)) + crGreenLut (unat (cr AND 0xFF)))
      in 0xFF000000 OR push_bit 16 (clampByte r) OR push_bit 8 (clampByte g) OR clampByte b)"

definition paletteYCbCrToARGB :: "u32 \<Rightarrow> u32" where
  "paletteYCbCrToARGB v = yCbCrToARGB (drop_bit 16 v AND 0xFF) (drop_bit 8 v AND 0xFF) (v AND 0xFF)"

definition clampInt32 :: "32 word \<Rightarrow> 32 word \<Rightarrow> 32 word \<Rightarrow> 32 word" where
  "clampInt32 v lo hi = (if v <s lo then lo else if hi <s v then hi else v)"

section \<open>Painting\<close>

text \<open>The painting loops visit a list of positions with their colours; positions outside the framebuffer are skipped.\<close>

fun paint_clipped :: "(int \<times> int \<times> u32) list \<Rightarrow> Framebuffer \<Rightarrow> Framebuffer result" where
  "paint_clipped [] fb = Inr fb"
| "paint_clipped ((px, py, c) # ps) fb =
     (if px < 0 \<or> px \<ge> fb_W fb \<or> py < 0 \<or> py \<ge> fb_H fb then paint_clipped ps fb
      else
        (case set_pixel (py * fb_W fb + px) c fb of
           Inl e \<Rightarrow> Inl e
         | Inr fb \<Rightarrow> paint_clipped ps fb))"

definition paint_dirty :: "(int \<times> int \<times> u32) list \<Rightarrow> Framebuffer \<Rightarrow> Framebuffer result" where
  "paint_dirty ps fb = (case paint_clipped ps fb of Inl e \<Rightarrow> Inl e | Inr fb \<Rightarrow> Inr (fb\<lparr>fb_Dirty := True\<rparr>))"

fun palette_samples :: "nat \<Rightarrow> AvocentDecoder \<Rightarrow> u32 list \<times> AvocentDecoder" where
  "palette_samples 0 d = ([], d)"
| "palette_samples (Suc n) d =
     (if vb_entropy d = 0 then
        (case palette_samples n d of (cs, d') \<Rightarrow> (vb_colors d ! (vb_index d ! 0) # cs, d'))
      else
        let v = unat (drop_bit (32 - vb_entropy d) (nb d));
            v = (if v \<ge> 4 then 3 else v);
            c = vb_colors d ! (vb_index d ! v)
        in case palette_samples n (consume (vb_entropy d) d) of (cs, d') \<Rightarrow> (c # cs, d'))"

definition palette_pixels :: "AvocentDecoder \<Rightarrow> u32 list \<Rightarrow> (int \<times> int \<times> u32) list" where
  "palette_pixels d samples =
     (if tile_mode d = 1 then
        [(tileX d + jb d * 16 + int (i mod 8) * 2 + dx, tileY d + kb d * 16 + int (i div 8) * 2 + dy, paletteYCbCrToARGB (samples ! i)).
           i \<leftarrow> [0..<64], dy \<leftarrow> [0, 1], dx \<leftarrow> [0, 1]]
      else
        map (\<lambda>i. (tileX d + jb d * 8 + int (i mod 8), tileY d + kb d * 8 + int (i div 8), paletteYCbCrToARGB (samples ! i))) [0..<64])"

definition paintPaletteBlock :: "Framebuffer \<Rightarrow> AvocentDecoder \<Rightarrow> Framebuffer result \<times> AvocentDecoder" where
  "paintPaletteBlock fb d =
     (case palette_samples 64 d of (samples, d) \<Rightarrow> (paint_dirty (palette_pixels d samples) fb, d))"

definition take_pos :: "AvocentDecoder \<Rightarrow> AvocentDecoder" where
  "take_pos d = consume 20 (d\<lparr>jb := int (unat (drop_bit 20 (nb d) AND 0xFF)), kb := int (unat (drop_bit 12 (nb d) AND 0xFF))\<rparr>)"

definition refresh_slot :: "AvocentDecoder \<Rightarrow> nat \<Rightarrow> AvocentDecoder" where
  "refresh_slot d i =
     (let idx = unat (drop_bit 29 (nb d));
          d = d\<lparr>vb_index := (vb_index d)[i := idx mod 4]\<rparr>
      in if \<not> bit (nb d) 31 then consume 3 d
         else
           let color = drop_bit 5 (nb d) AND 0xFFFFFF
           in consume 27 (d\<lparr>vb_colors := (vb_colors d)[vb_index d ! i := 0xFF000000 OR color]\<rparr>))"

definition opPaletteRefresh :: "Framebuffer \<Rightarrow> nat \<Rightarrow> nat \<Rightarrow> bool \<Rightarrow> AvocentDecoder \<Rightarrow> Framebuffer result \<times> AvocentDecoder" where
  "opPaletteRefresh fb nSlots entropy updatePos d =
     (let d = (if updatePos then take_pos d else consume 4 d);
          d = d\<lparr>vb_entropy := entropy\<rparr>
      in paintPaletteBlock fb (foldl refresh_slot d [0..<nSlots]))"

section \<open>Coefficient blocks\<close>

partial_function (option) ac_loop ::
  "avoHuff \<Rightarrow> nat \<Rightarrow> 32 word list \<Rightarrow> 'a bitbuf_scheme \<Rightarrow> (32 word list result \<times> 'a bitbuf_scheme) option" where
  "ac_loop acTab k coef d =
     (if k < 64 then
        (case decodeHuffSymbol acTab d of
           (None, d) \<Rightarrow> ac_loop acTab (k + 1) coef d
         | (Some rs, d) \<Rightarrow>
             let s = unat (rs AND 0x0F);
                 r = unat (drop_bit 4 rs)
             in if s = 0 then
                  if r = 0 then Some (Inr coef, d)
                  else if r = 15 then ac_loop acTab (k + 16) coef d
                  else ac_loop acTab k coef d
                else if k + r \<ge> 64 then Some (Inr coef, d)
                else
                  (case decodeSignedValue s d of
                     (Inl e, d) \<Rightarrow> Some (Inl e, d)
                   | (Inr v, d) \<Rightarrow> ac_loop acTab (k + r + 1) (coef[invZigZag ! (k + r) := scast v]) d))
      else Some (Inr coef, d))"

declare ac_loop.simps [code]

text \<open>The new predictor and the 64 samples.\<close>

definition decodeDCTBlock ::
  "avoHuff \<Rightarrow> avoHuff \<Rightarrow> rat list \<Rightarrow> 16 word \<Rightarrow> AvocentDecoder \<Rightarrow> ((16 word \<times> 32 word list) result \<times> AvocentDecoder) option" where
  "decodeDCTBlock dcTab acTab q prevDC d =
     (let ac = (\<lambda>dc d. case ac_loop acTab 1 ((replicate 64 0)[0 := scast dc]) d of
                  None \<Rightarrow> None
                | Some (Inl e, d) \<Rightarrow> Some (Inl e, d)
                | Some (Inr coef, d) \<Rightarrow> Some (Inr (dc, avoIDCTInt coef q), d))
      in case decodeHuffSymbol dcTab d of
           (None, d) \<Rightarrow> ac prevDC d
         | (Some sDC, d) \<Rightarrow>
             (case decodeSignedValue (unat sDC) d of
                (Inl e, d) \<Rightarrow> Some (Inl e, d)
              | (Inr v, d) \<Rightarrow> ac (prevDC + v) d))"

text \<open>Sequencing of steps on the decoder that may fault or never return.\<close>

definition and_then :: "('a result \<times> 's) option \<Rightarrow> ('a \<Rightarrow> 's \<Rightarrow> ('b result \<times> 's) option) \<Rightarrow> ('b result \<times> 's) option" where
  "and_then m f = (case m of None \<Rightarrow> None | Some (Inl e, d) \<Rightarrow> Some (Inl e, d) | Some (Inr x, d) \<Rightarrow> f x d)"

definition luma_block :: "AvocentDecoder \<Rightarrow> (32 word list result \<times> AvocentDecoder) option" where
  "luma_block d = and_then (decodeDCTBlock avoDcLuma avoAcLuma (qY d) (dcY d) d) (\<lambda>(dc, out) d. Some (Inr out, d\<lparr>dcY := dc\<rparr>))"

definition cb_block :: "AvocentDecoder \<Rightarrow> (32 word list result \<times> AvocentDecoder) option" where
  "cb_block d = and_then (decodeDCTBlock avoDcChroma avoAcChroma (qC d) (dcCb d) d) (\<lambda>(dc, out) d. Some (Inr out, d\<lparr>dcCb := dc\<rparr>))"

definition cr_block :: "AvocentDecoder \<Rightarrow> (32 word list result \<times> AvocentDecoder) option" where
  "cr_block d = and_then (decodeDCTBlock avoDcChroma avoAcChroma (qC d) (dcCr d) d) (\<lambda>(dc, out) d. Some (Inr out, d\<lparr>dcCr := dc\<rparr>))"

fun luma_blocks :: "nat \<Rightarrow> AvocentDecoder \<Rightarrow> (32 word list list result \<times> AvocentDecoder) option" where
  "luma_blocks 0 d = Some (Inr [], d)"
| "luma_blocks (Suc n) d = and_then (luma_block d) (\<lambda>b d. and_then (luma_blocks n d) (\<lambda>bs d. Some (Inr (b # bs), d)))"

definition level :: "32 word \<Rightarrow> 32 word" where
  "level v = clampInt32 (v + 128) 0 255"

definition dct_pixels :: "AvocentDecoder \<Rightarrow> 32 word list list \<Rightarrow> 32 word list \<Rightarrow> 32 word list \<Rightarrow> (int \<times> int \<times> u32) list" where
  "dct_pixels d ys cb cr =
     (if tile_mode d = 0 then
        [(tileX d + jb d * 8 + int bx, tileY d + kb d * 8 + int by,
          yCbCrToARGB (level (ys ! 0 ! (by * 8 + bx))) (level (cb ! (by * 8 + bx))) (level (cr ! (by * 8 + bx)))).
           by \<leftarrow> [0..<8], bx \<leftarrow> [0..<8]]
      else
        [(tileX d + jb d * 16 + int bx, tileY d + kb d * 16 + int by,
          yCbCrToARGB (level (ys ! ((by div 8) * 2 + bx div 8) ! ((by mod 8) * 8 + bx mod 8)))
            (level (cb ! ((by div 2) * 8 + bx div 2))) (level (cr ! ((by div 2) * 8 + bx div 2)))).
           by \<leftarrow> [0..<16], bx \<leftarrow> [0..<16]])"

definition dctStubMode :: bool where
  "dctStubMode = False"

definition dispatchDCT :: "Framebuffer \<Rightarrow> AvocentDecoder \<Rightarrow> (Framebuffer result \<times> AvocentDecoder) option" where
  "dispatchDCT fb d =
     (if dctStubMode then Some (Inr fb, d)
      else
        and_then (luma_blocks (if tile_mode d = 0 then 1 else 4) d) (\<lambda>ys d.
        and_then (cb_block d) (\<lambda>cb d.
        and_then (cr_block d) (\<lambda>cr d.
          Some (paint_dirty (dct_pixels d ys cb cr) fb, d)))))"

section \<open>Opcode loop\<close>

definition advancePos :: "int \<Rightarrow> int \<Rightarrow> AvocentDecoder \<Rightarrow> AvocentDecoder" where
  "advancePos fbW fbH d =
     (let wCols = tileW d div tile_q d; hRows = tileH d div tile_q d;
          wCols = (if wCols \<le> 0 then fbW div tile_q d else wCols);
          hRows = (if hRows \<le> 0 then fbH div tile_q d else hRows);
          d = d\<lparr>jb := jb d + 1\<rparr>
      in if jb d \<ge> wCols then
           let d = d\<lparr>jb := 0, kb := kb d + 1\<rparr>
           in if kb d \<ge> hRows then d\<lparr>kb := 0\<rparr> else d
         else d)"

text \<open>One opcode; \<open>None\<close> in the value tells that the loop returns.\<close>

definition decode_opcode :: "nat \<Rightarrow> Framebuffer \<Rightarrow> AvocentDecoder \<Rightarrow> (Framebuffer option result \<times> AvocentDecoder) option" where
  "decode_opcode opc fb d =
     (let go = (\<lambda>m. and_then m (\<lambda>fb d. Some (Inr (Some fb), d)))
      in if opc = 9 then Some (Inr None, d)
         else if opc = 0 then go (dispatchDCT fb (consume 4 d))
         else if opc = 4 then go (Some (paintPaletteBlock fb (consume 4 d)))
         else if opc = 8 then go (dispatchDCT fb (take_pos d))
         else if opc = 12 then go (Some (paintPaletteBlock fb (take_pos d)))
         else if opc = 5 then go (Some (opPaletteRefresh fb 1 0 False d))
         else if opc = 6 then go (Some (opPaletteRefresh fb 2 1 False d))
         else if opc = 7 then go (Some (opPaletteRefresh fb 4 2 False d))
         else if opc = 13 then go (Some (opPaletteRefresh fb 1 0 True d))
         else if opc = 14 then go (Some (opPaletteRefresh fb 2 1 True d))
         else if opc = 15 then go (Some (opPaletteRefresh fb 4 2 True d))
         else Some (Inr None, d))"

partial_function (option) opcode_loop :: "Framebuffer \<Rightarrow> AvocentDecoder \<Rightarrow> ((int \<times> Framebuffer) result \<times> AvocentDecoder) option" where
  "opcode_loop fb d =
     (if consumedB d \<ge> length (src d) * 8 then Some (Inr (int (pos d), fb), d)
      else
        let opc = unat (drop_bit 28 (nb d));
            d = d\<lparr>lastOpCount := lastOpCount d + 1, opTrail := (if length (opTrail d) < 20 then opTrail d @ [opc] else opTrail d)\<rparr>
        in case decode_opcode opc fb d of
             None \<Rightarrow> None
           | Some (Inl e, d) \<Rightarrow> Some (Inl e, d)
           | Some (Inr None, d) \<Rightarrow> Some (Inr (int (pos d), fb), d)
           | Some (Inr (Some fb), d) \<Rightarrow> opcode_loop fb (advancePos (fb_W fb) (fb_H fb) d))"

declare opcode_loop.simps [code]

definition decodeBody :: "Framebuffer \<Rightarrow> bytes \<Rightarrow> AvocentDecoder \<Rightarrow> ((int \<times> Framebuffer) result \<times> AvocentDecoder) option" where
  "decodeBody fb payload d =
     opcode_loop fb (fill (d\<lparr>src := payload, pos := 0, nb := 0, mb := 0, ob := 0, jb := 0, kb := 0, dcY := 0, dcCb := 0, dcCr := 0,
       lastOpCount := 0, opTrail := [], consumedB := 0\<rparr>))"

definition avo_DecodePacket :: "Framebuffer \<Rightarrow> bytes \<Rightarrow> AvocentDecoder \<Rightarrow> ((int \<times> Framebuffer) result \<times> AvocentDecoder) option" where
  "avo_DecodePacket fb payload d =
     (if length payload < 12 then Some (Inr (-1, fb), d)
      else
        let subtype = payload ! 0;
            tilePack = push_bit 16 (unat (payload ! 1)) OR push_bit 8 (unat (payload ! 2)) OR unat (payload ! 3);
            tx = drop_bit 12 tilePack AND 0xFFF;
            ty = tilePack AND 0xFFF;
            height = push_bit 8 (unat (payload ! 4)) OR unat (payload ! 5);
            width = push_bit 8 (unat (payload ! 6)) OR unat (payload ! 7);
            pLo = payload ! 11 AND 0x0F;
            qHi = drop_bit 4 (payload ! 11) AND 0x0F;
            d = SetMode (subtype AND 1) qHi pLo d;
            body = drop 12 payload;
            bodyLen = length body div 4 * 4
        in if bodyLen = 0 then Some (Inr (0, fb), d)
           else decodeBody fb (take bodyLen body) (d\<lparr>tileX := int tx, tileY := int ty, tileW := int width, tileH := int height\<rparr>))"

definition avo_Decode :: "Framebuffer \<Rightarrow> int \<Rightarrow> int \<Rightarrow> bytes \<Rightarrow> AvocentDecoder \<Rightarrow> ((int \<times> Framebuffer) result \<times> AvocentDecoder) option" where
  "avo_Decode fb x0 y0 payload d = decodeBody fb payload (d\<lparr>tileX := x0, tileY := y0\<rparr>)"

section \<open>Lemmas: symbols\<close>

lemma huff_symbol_in_table:
  assumes "huff_spec tab bits vals" "decodeHuffSymbol tab d = (Some rs, d')"
  shows "rs \<in> set vals \<and> (\<exists>l. d' = consume l d)"
proof -
  obtain l where l: "find (huff_match tab d) [1..<17] = Some l" and d': "d' = consume l d"
    and rs: "rs = hvalues tab (int l * 256 + (uint (peekBits l d) - minCode tab ! l))"
    using assms(2) by (auto simp: decodeHuffSymbol_def split: option.splits)
  have m: "huff_match tab d l" "1 \<le> l" "l \<le> 16" using l by (auto simp: find_Some_iff)
  have lev: "table_level bits vals tab l" using assms(1) m newAvoHuff_levels [of bits l vals] by (auto simp: huff_spec_def)
  define j where "j = nat (uint (peekBits l d) - first_code bits l)"
  have j: "j < bits ! l" "uint (peekBits l d) - minCode tab ! l = int j"
    using lev m(1) by (auto simp: table_level_def huff_match_def j_def Let_def split: if_splits)
  have "first_sym bits l + j < sum_list (take (Suc l) bits)"
    using j(1) m(3) assms(1) by (simp add: first_sym_def take_Suc_conv_app_nth huff_spec_def)
  also have "\<dots> \<le> sum_list (take (Suc l) bits) + sum_list (drop (Suc l) bits)" by simp
  also have "\<dots> = length vals" using assms(1) by (simp add: huff_spec_def flip: sum_list_append)
  finally show ?thesis using lev j rs d' by (auto simp: table_level_def)
qed

lemma decodeHuffSymbol_moves:
  assumes "decodeHuffSymbol tab d = (r, d')"
  shows "\<exists>l. d' = consume l d"
proof (cases r)
  case None
  then show ?thesis using assms by (auto simp: decodeHuffSymbol_def consume.simps [of 0] split: option.splits intro: exI [of _ 0])
next
  case (Some rs)
  then show ?thesis using assms by (auto simp: decodeHuffSymbol_def split: option.splits)
qed

lemma dc_symbols:
  "\<forall>v \<in> set ybVals. unat v < 16" "\<forall>v \<in> set abVals. unat v < 16"
  by code_simp+

lemma ac_symbols:
  "\<forall>v \<in> set cbVals. v AND 0x0F \<noteq> 0 \<or> v = 0 \<or> v = 0xF0" "\<forall>v \<in> set ebVals. v AND 0x0F \<noteq> 0 \<or> v = 0 \<or> v = 0xF0"
  by code_simp+

lemma decodeSignedValue_small:
  assumes "n < 16"
  shows "\<exists>v. decodeSignedValue n d = (Inr v, consume n d)"
  using assms by (simp add: decodeSignedValue_def getBits_def length_avoExtend consume.simps [of 0])

section \<open>Lemmas: the decoder only moves forward\<close>

definition cache_ok :: "AvocentDecoder \<Rightarrow> bool" where
  "cache_ok d \<longleftrightarrow> length (vb_colors d) = 4 \<and> length (vb_index d) = 4 \<and> (\<forall>i \<in> set (vb_index d). i < 4) \<and> vb_entropy d \<le> 2"

definition moves :: "AvocentDecoder \<Rightarrow> AvocentDecoder \<Rightarrow> bool" where
  "moves d d' \<longleftrightarrow> src d' = src d \<and> consumedB d \<le> consumedB d' \<and> (buf_inv d \<longrightarrow> buf_inv d') \<and> (cache_ok d \<longrightarrow> cache_ok d')"

lemma moves_refl [simp]: "moves d d"
  by (simp add: moves_def)

lemma moves_trans: "moves a b \<Longrightarrow> moves b c \<Longrightarrow> moves a c"
  by (auto simp: moves_def)

lemma consume_fields [simp]:
  "vb_colors (consume n d) = vb_colors d" "vb_index (consume n d) = vb_index d" "vb_entropy (consume n d) = vb_entropy d"
  "jb (consume n d) = jb d" "kb (consume n d) = kb d" "tile_mode (consume n d) = tile_mode d" "tile_q (consume n d) = tile_q d"
  "tileX (consume n d) = tileX d" "tileY (consume n d) = tileY d" "tileW (consume n d) = tileW d" "tileH (consume n d) = tileH d"
proof -
  have "vb_colors (consume n d) = vb_colors d \<and> vb_index (consume n d) = vb_index d \<and> vb_entropy (consume n d) = vb_entropy d
    \<and> jb (consume n d) = jb d \<and> kb (consume n d) = kb d \<and> tile_mode (consume n d) = tile_mode d \<and> tile_q (consume n d) = tile_q d
    \<and> tileX (consume n d) = tileX d \<and> tileY (consume n d) = tileY d \<and> tileW (consume n d) = tileW d \<and> tileH (consume n d) = tileH d"
  proof (induction n arbitrary: d rule: less_induct)
    case (less n)
    show ?case using less.IH [of 32 d] less.IH [of "n - 32" "consume 32 d"]
      by (subst (1 2 3 4 5 6 7 8 9 10 11) consume.simps) (auto simp: consume_step_def Let_def readWord_def)
  qed
  then show "vb_colors (consume n d) = vb_colors d" "vb_index (consume n d) = vb_index d" "vb_entropy (consume n d) = vb_entropy d"
    "jb (consume n d) = jb d" "kb (consume n d) = kb d" "tile_mode (consume n d) = tile_mode d" "tile_q (consume n d) = tile_q d"
    "tileX (consume n d) = tileX d" "tileY (consume n d) = tileY d" "tileW (consume n d) = tileW d" "tileH (consume n d) = tileH d"
    by simp_all
qed

lemma consume_moves [simp]: "moves d (consume n d)"
  by (auto simp: moves_def cache_ok_def consume_inv)

lemma moves_upd:
  "src d' = src d \<Longrightarrow> consumedB d' = consumedB d \<Longrightarrow> nb d' = nb d \<Longrightarrow> mb d' = mb d \<Longrightarrow> ob d' = ob d \<Longrightarrow> pos d' = pos d
    \<Longrightarrow> (cache_ok d \<Longrightarrow> cache_ok d') \<Longrightarrow> moves d d'"
  by (simp add: moves_def buf_inv_def)

section \<open>Lemmas: coefficient blocks\<close>

definition ac_table :: "avoHuff \<Rightarrow> bool" where
  "ac_table tab \<longleftrightarrow> (\<exists>bits vals. huff_spec tab bits vals \<and> (\<forall>v \<in> set vals. v AND 0x0F \<noteq> 0 \<or> v = 0 \<or> v = 0xF0))"

definition dc_table :: "avoHuff \<Rightarrow> bool" where
  "dc_table tab \<longleftrightarrow> (\<exists>bits vals. huff_spec tab bits vals \<and> (\<forall>v \<in> set vals. unat v < 16))"

lemma avo_ac_dc: "ac_table avoAcLuma" "ac_table avoAcChroma" "dc_table avoDcLuma" "dc_table avoDcChroma"
  using avo_tables ac_symbols dc_symbols unfolding ac_table_def dc_table_def by blast+

lemma ac_symbol:
  assumes "ac_table tab" "decodeHuffSymbol tab d = (Some rs, d')"
  shows "unat (rs AND 0x0F) \<noteq> 0 \<or> rs = 0 \<or> rs = 0xF0" "moves d d'"
proof -
  obtain bits vals where "huff_spec tab bits vals" "\<forall>v \<in> set vals. v AND 0x0F \<noteq> 0 \<or> v = 0 \<or> v = 0xF0"
    using assms(1) unfolding ac_table_def by blast
  then show "unat (rs AND 0x0F) \<noteq> 0 \<or> rs = 0 \<or> rs = 0xF0" using huff_symbol_in_table [OF _ assms(2)] by (auto simp: unat_eq_0)
  show "moves d d'" using decodeHuffSymbol_moves [OF assms(2)] by auto
qed

text \<open>The coefficient loop returns: every symbol of the tables either ends the block or advances the position.\<close>

lemma ac_loop_returns:
  assumes "ac_table tab"
  shows "\<exists>r d'. ac_loop tab k coef d = Some (Inr r, d') \<and> moves d d' \<and> length r = length coef"
proof (induction "64 - k" arbitrary: k coef d rule: less_induct)
  case less
  have IH: "\<exists>r d'. ac_loop tab k' c e = Some (Inr r, d') \<and> moves d d' \<and> length r = length coef"
    if "k < k'" "k < 64" "moves d e" "length c = length coef" for k' c and e :: AvocentDecoder
  proof -
    have "64 - k' < 64 - k" using that by simp
    then obtain r d' where "ac_loop tab k' c e = Some (Inr r, d')" "moves e d'" "length r = length c" using less by blast
    then show ?thesis using that(4) moves_trans [OF that(3)] by auto
  qed
  obtain sym d1 where sym: "decodeHuffSymbol tab d = (sym, d1)" by fastforce
  show ?case
  proof (cases "k < 64")
    case True
    show ?thesis
    proof (cases sym)
      case None
      then show ?thesis using True sym IH [of "k + 1" d1 coef] decodeHuffSymbol_moves [OF sym] by (subst ac_loop.simps) auto
    next
      case (Some rs)
      note rs = ac_symbol [OF assms, of d rs d1]
      let ?s = "unat (rs AND 0x0F)" and ?r = "unat (drop_bit 4 rs)"
      have s16: "?s < 16" using unat_and_le [of rs 15] by simp
      obtain v where v: "decodeSignedValue ?s d1 = (Inr v, consume ?s d1)" using decodeSignedValue_small [OF s16] by blast
      have m: "moves d d1" "moves d (consume ?s d1)" using rs(2) sym Some moves_trans [OF _ consume_moves] by auto
      show ?thesis
      proof (cases "?s = 0")
        case True
        then have "rs = 0 \<or> rs = 0xF0" using rs(1) sym Some by auto
        then show ?thesis using True \<open>k < 64\<close> sym Some m(1) IH [of "k + 16" d1 coef] by (subst ac_loop.simps) auto
      next
        case False
        then show ?thesis using \<open>k < 64\<close> sym Some m v IH [of "k + ?r + 1" "consume ?s d1" "coef[invZigZag ! (k + ?r) := scast v]"]
          by (subst ac_loop.simps) (auto simp: Let_def)
      qed
    qed
  next
    case False
    then show ?thesis by (subst ac_loop.simps) auto
  qed
qed

lemma length_avoIDCTInt: "length (avoIDCTInt coef q) = 64"
  by (simp add: avoIDCTInt_def idct_row_def length_concat comp_def sum_list_triv)

lemma decodeDCTBlock_returns:
  assumes "dc_table dcTab" "ac_table acTab"
  shows "\<exists>dc out d'. decodeDCTBlock dcTab acTab q prev d = Some (Inr (dc, out), d') \<and> moves d d' \<and> length out = 64"
proof -
  let ?c = "\<lambda>dc. (replicate 64 0)[0 := scast dc]"
  have ac: "\<exists>coef d'. ac_loop acTab 1 (?c dc) e = Some (Inr coef, d') \<and> moves d d'" if "moves d e" for dc e
    using ac_loop_returns [OF assms(2), of 1 "?c dc" e] moves_trans [OF that] by blast
  obtain sym d1 where sym: "decodeHuffSymbol dcTab d = (sym, d1)" by fastforce
  have m1: "moves d d1" using decodeHuffSymbol_moves [OF sym] by auto
  show ?thesis
  proof (cases sym)
    case None
    obtain coef d2 where "ac_loop acTab 1 (?c prev) d1 = Some (Inr coef, d2)" "moves d d2" using ac [OF m1] by blast
    then show ?thesis using None sym by (simp add: decodeDCTBlock_def length_avoIDCTInt)
  next
    case (Some s)
    then have "unat s < 16" using assms(1) huff_symbol_in_table [of dcTab _ _ d s d1] sym unfolding dc_table_def by blast
    then obtain v where "decodeSignedValue (unat s) d1 = (Inr v, consume (unat s) d1)" using decodeSignedValue_small by blast
    moreover obtain coef d2 where "ac_loop acTab 1 (?c (prev + v)) (consume (unat s) d1) = Some (Inr coef, d2)" "moves d d2"
      using ac [OF moves_trans [OF m1 consume_moves]] by blast
    ultimately show ?thesis using sym Some by (simp add: decodeDCTBlock_def length_avoIDCTInt)
  qed
qed

lemma plane_block_returns:
  "\<exists>out d'. luma_block d = Some (Inr out, d') \<and> moves d d' \<and> length out = 64"
  "\<exists>out d'. cb_block d = Some (Inr out, d') \<and> moves d d' \<and> length out = 64"
  "\<exists>out d'. cr_block d = Some (Inr out, d') \<and> moves d d' \<and> length out = 64"
proof -
  have u: "moves d' (d'\<lparr>dcY := v\<rparr>)" "moves d' (d'\<lparr>dcCb := v\<rparr>)" "moves d' (d'\<lparr>dcCr := v\<rparr>)" for d' v
    by (auto intro!: moves_upd simp: cache_ok_def)
  show "\<exists>out d'. luma_block d = Some (Inr out, d') \<and> moves d d' \<and> length out = 64"
    using decodeDCTBlock_returns [OF avo_ac_dc(3,1), of "qY d" "dcY d" d] moves_trans [OF _ u(1)] by (force simp: luma_block_def and_then_def)
  show "\<exists>out d'. cb_block d = Some (Inr out, d') \<and> moves d d' \<and> length out = 64"
    using decodeDCTBlock_returns [OF avo_ac_dc(4,2), of "qC d" "dcCb d" d] moves_trans [OF _ u(2)] by (force simp: cb_block_def and_then_def)
  show "\<exists>out d'. cr_block d = Some (Inr out, d') \<and> moves d d' \<and> length out = 64"
    using decodeDCTBlock_returns [OF avo_ac_dc(4,2), of "qC d" "dcCr d" d] moves_trans [OF _ u(3)] by (force simp: cr_block_def and_then_def)
qed

lemma luma_blocks_return:
  "\<exists>outs d'. luma_blocks n d = Some (Inr outs, d') \<and> moves d d' \<and> length outs = n \<and> (\<forall>b \<in> set outs. length b = 64)"
proof (induction n arbitrary: d)
  case (Suc n)
  obtain b d1 where b: "luma_block d = Some (Inr b, d1)" "moves d d1" "length b = 64" using plane_block_returns(1) by blast
  obtain bs d2 where "luma_blocks n d1 = Some (Inr bs, d2)" "moves d1 d2" "length bs = n" "\<forall>b \<in> set bs. length b = 64"
    using Suc by blast
  then show ?case using b moves_trans by (auto simp: and_then_def)
qed simp

section \<open>Lemmas: painting\<close>

text \<open>Painting keeps the dimensions and the write cursor and never clears the dirty flag.\<close>

definition paints :: "Framebuffer \<Rightarrow> Framebuffer \<Rightarrow> bool" where
  "paints fb fb' \<longleftrightarrow> same_shape fb fb' \<and> fb_Cur fb' = fb_Cur fb \<and> (fb_Dirty fb \<longrightarrow> fb_Dirty fb')"

lemma paints_refl [simp]: "paints fb fb"
  by (simp add: paints_def)

lemma paints_trans: "paints a b \<Longrightarrow> paints b c \<Longrightarrow> paints a c"
  by (auto simp: paints_def intro: same_shape_trans)

lemma paints_shape: "paints a b \<Longrightarrow> same_shape a b"
  by (simp add: paints_def)

lemma fb_rect_paints: "paints fb fb' \<Longrightarrow> fb_rect fb \<Longrightarrow> fb_rect fb'"
  by (rule fb_rect_shape [OF paints_shape])

lemma set_pixel_paints: "0 \<le> i \<Longrightarrow> i < npix fb \<Longrightarrow> \<exists>fb'. set_pixel i c fb = Inr fb' \<and> paints fb fb'"
  by (simp add: set_pixel_def paints_def same_shape_def)

lemma paint_clipped_safe: "fb_rect fb \<Longrightarrow> \<exists>fb'. paint_clipped ps fb = Inr fb' \<and> paints fb fb'"
proof (induction ps arbitrary: fb)
  case (Cons p ps)
  obtain px py c where p: "p = (px, py, c)" by (cases p)
  show ?case
  proof (cases "px < 0 \<or> px \<ge> fb_W fb \<or> py < 0 \<or> py \<ge> fb_H fb")
    case False
    obtain fb1 where s: "set_pixel (py * fb_W fb + px) c fb = Inr fb1" "paints fb fb1"
      using set_pixel_paints [of "py * fb_W fb + px" fb c] pixel_in_range [OF Cons.prems, of py px] False by auto
    then show ?thesis using False p Cons.IH [OF fb_rect_paints [OF s(2) Cons.prems]] paints_trans [OF s(2)] by auto
  qed (use Cons p in simp)
qed simp

lemma paint_dirty_safe: "fb_rect fb \<Longrightarrow> \<exists>fb'. paint_dirty ps fb = Inr fb' \<and> paints fb fb' \<and> fb_Dirty fb'"
  using paint_clipped_safe [of fb ps] by (auto simp: paint_dirty_def paints_def same_shape_def)

lemma dispatchDCT_returns:
  assumes "fb_rect fb"
  shows "\<exists>fb' d'. dispatchDCT fb d = Some (Inr fb', d') \<and> moves d d' \<and> paints fb fb'"
proof -
  obtain ys d1 where y: "luma_blocks (if tile_mode d = 0 then 1 else 4) d = Some (Inr ys, d1)" "moves d d1"
    using luma_blocks_return by blast
  obtain cb d2 where c: "cb_block d1 = Some (Inr cb, d2)" "moves d1 d2" using plane_block_returns(2) by blast
  obtain cr d3 where r: "cr_block d2 = Some (Inr cr, d3)" "moves d2 d3" using plane_block_returns(3) by blast
  obtain fb' where "paint_dirty (dct_pixels d3 ys cb cr) fb = Inr fb'" "paints fb fb'" using paint_dirty_safe [OF assms] by blast
  moreover have "moves d d3" using y(2) c(2) r(2) moves_trans by blast
  ultimately show ?thesis using y(1) c(1) r(1) by (simp add: dispatchDCT_def dctStubMode_def and_then_def)
qed

section \<open>Lemmas: the opcode loop\<close>

lemma palette_samples_moves: "moves d (snd (palette_samples n d)) \<and> length (fst (palette_samples n d)) = n"
proof (induction n arbitrary: d)
  case (Suc n)
  show ?case using Suc [of d] Suc [of "consume (vb_entropy d) d"] moves_trans [OF consume_moves [of d "vb_entropy d"]]
    by (auto simp: Let_def split: prod.splits)
qed simp

lemma paintPaletteBlock_safe:
  assumes "fb_rect fb"
  shows "\<exists>fb' d'. paintPaletteBlock fb d = (Inr fb', d') \<and> moves d d' \<and> paints fb fb'"
proof -
  obtain cs d1 where c: "palette_samples 64 d = (cs, d1)" by fastforce
  then have "moves d d1" using palette_samples_moves [of d 64] by simp
  then show ?thesis using c paint_dirty_safe [OF assms, of "palette_pixels d1 cs"] by (auto simp: paintPaletteBlock_def)
qed

lemma take_pos_moves: "moves d (take_pos d)" "consumedB (take_pos d) = consumedB d + 20"
proof -
  let ?d = "d\<lparr>jb := int (unat (drop_bit 20 (nb d) AND 0xFF)), kb := int (unat (drop_bit 12 (nb d) AND 0xFF))\<rparr>"
  have "moves d ?d" by (rule moves_upd) (simp_all add: cache_ok_def)
  then show "moves d (take_pos d)" using moves_trans [OF _ consume_moves] by (simp add: take_pos_def)
  show "consumedB (take_pos d) = consumedB d + 20" by (simp add: take_pos_def)
qed

lemma refresh_slot_moves: "moves d (refresh_slot d i)"
proof -
  let ?d = "d\<lparr>vb_index := (vb_index d)[i := unat (drop_bit 29 (nb d)) mod 4]\<rparr>"
  have m: "moves d ?d" by (rule moves_upd) (auto simp: cache_ok_def dest!: set_update_subset_insert [THEN subsetD])
  have "moves ?d (?d\<lparr>vb_colors := cs\<rparr>)" if "length cs = length (vb_colors d)" for cs
    by (rule moves_upd) (use that in \<open>auto simp: cache_ok_def\<close>)
  then have "moves d (?d\<lparr>vb_colors := (vb_colors d)[j := c]\<rparr>)" for j c using moves_trans [OF m] by simp
  then show ?thesis using moves_trans [OF m consume_moves] moves_trans [OF _ consume_moves]
    by (simp add: refresh_slot_def Let_def)
qed

lemma refresh_slots_moves: "moves d (foldl refresh_slot d slots)"
proof (induction slots arbitrary: d)
  case (Cons i slots)
  show ?case using moves_trans [OF refresh_slot_moves Cons] by simp
qed simp

lemma opPaletteRefresh_safe:
  assumes "fb_rect fb" "entropy \<le> 2"
  shows "\<exists>fb' d'. opPaletteRefresh fb n entropy updatePos d = (Inr fb', d') \<and> moves d d' \<and> consumedB d < consumedB d' \<and> paints fb fb'"
proof -
  define d1 where "d1 = (if updatePos then take_pos d else consume 4 d)"
  have m1: "moves d d1" "consumedB d < consumedB d1" using take_pos_moves [of d] by (auto simp: d1_def)
  have m2: "moves d1 (d1\<lparr>vb_entropy := entropy\<rparr>)" by (rule moves_upd) (use assms(2) in \<open>auto simp: cache_ok_def\<close>)
  let ?d3 = "foldl refresh_slot (d1\<lparr>vb_entropy := entropy\<rparr>) [0..<n]"
  obtain fb' d' where p: "paintPaletteBlock fb ?d3 = (Inr fb', d')" "moves ?d3 d'" "paints fb fb'"
    using paintPaletteBlock_safe [OF assms(1)] by blast
  have "moves d1 d'" using moves_trans [OF moves_trans [OF m2 refresh_slots_moves] p(2)] .
  then have "moves d d'" "consumedB d < consumedB d'" using moves_trans [OF m1(1)] m1(2) by (auto simp: moves_def)
  then show ?thesis using p by (simp add: opPaletteRefresh_def Let_def flip: d1_def)
qed

lemma decode_opcode_cases:
  assumes "fb_rect fb"
  shows "decode_opcode opc fb d = Some (Inr None, d)
    \<or> (\<exists>fb' d'. decode_opcode opc fb d = Some (Inr (Some fb'), d') \<and> moves d d' \<and> consumedB d < consumedB d' \<and> paints fb fb')"
proof -
  have fwd: "moves d d' \<and> consumedB d < consumedB d'" if "moves e d'" "moves d e" "consumedB d < consumedB e" for e d'
    using moves_trans [OF that(2,1)] that by (auto simp: moves_def)
  have c4: "moves d (consume 4 d)" "consumedB d < consumedB (consume 4 d)" by simp_all
  have c20: "moves d (take_pos d)" "consumedB d < consumedB (take_pos d)" using take_pos_moves [of d] by simp_all
  have pal: "\<exists>fb' d'. paintPaletteBlock fb e = (Inr fb', d') \<and> (moves d d' \<and> consumedB d < consumedB d') \<and> paints fb fb'"
    if "moves d e" "consumedB d < consumedB e" for e using paintPaletteBlock_safe [OF assms, of e] fwd that by blast
  have dct: "\<exists>fb' d'. dispatchDCT fb e = Some (Inr fb', d') \<and> (moves d d' \<and> consumedB d < consumedB d') \<and> paints fb fb'"
    if "moves d e" "consumedB d < consumedB e" for e using dispatchDCT_returns [OF assms, of e] fwd that by blast
  note pr = opPaletteRefresh_safe [OF assms, where d = d]
  show ?thesis unfolding decode_opcode_def Let_def and_then_def
    using pal [OF c4] pal [OF c20] dct [OF c4] dct [OF c20]
      pr [of 0 1 False] pr [of 1 2 False] pr [of 2 4 False] pr [of 0 1 True] pr [of 1 2 True] pr [of 2 4 True]
    by auto
qed

lemma advancePos_moves: "moves d (advancePos w h d)" "consumedB (advancePos w h d) = consumedB d"
  by (auto simp: advancePos_def Let_def cache_ok_def intro!: moves_upd)

lemma opcode_loop_returns:
  "fb_rect fb \<Longrightarrow> \<exists>fb' d'. opcode_loop fb d = Some (Inr (int (pos d'), fb'), d') \<and> moves d d' \<and> paints fb fb'"
proof (induction "length (src d) * 8 - consumedB d" arbitrary: fb d rule: less_induct)
  case less
  let ?opc = "unat (drop_bit 28 (nb d))"
  let ?e = "d\<lparr>lastOpCount := lastOpCount d + 1, opTrail := (if length (opTrail d) < 20 then opTrail d @ [?opc] else opTrail d)\<rparr>"
  have m: "moves d ?e" by (rule moves_upd) (auto simp: cache_ok_def)
  show ?case
  proof (cases "consumedB d \<ge> length (src d) * 8")
    case True
    then show ?thesis by (subst opcode_loop.simps) auto
  next
    case False
    consider "decode_opcode ?opc fb ?e = Some (Inr None, ?e)"
      | fb1 d1 where "decode_opcode ?opc fb ?e = Some (Inr (Some fb1), d1)" "moves ?e d1" "consumedB ?e < consumedB d1" "paints fb fb1"
      using decode_opcode_cases [OF less.prems, of ?opc ?e] by blast
    then show ?thesis
    proof cases
      case 1
      then show ?thesis using False m by (subst opcode_loop.simps) auto
    next
      case 2
      let ?d2 = "advancePos (fb_W fb1) (fb_H fb1) d1"
      have m2: "moves d ?d2" using moves_trans [OF m moves_trans [OF 2(2) advancePos_moves(1)]] .
      have "length (src ?d2) * 8 - consumedB ?d2 < length (src d) * 8 - consumedB d"
        using m2 2(3) False by (simp add: moves_def advancePos_moves(2))
      from less.hyps [OF this fb_rect_paints [OF 2(4) less.prems]]
      obtain fb' d' where "opcode_loop fb1 ?d2 = Some (Inr (int (pos d'), fb'), d')" "moves ?d2 d'" "paints fb1 fb'" by blast
      then show ?thesis using False 2(1) moves_trans [OF m2] paints_trans [OF 2(4)] by (subst opcode_loop.simps) (simp add: Let_def)
    qed
  qed
qed

lemma decodeBody_returns:
  assumes "fb_rect fb" "cache_ok d"
  shows "\<exists>n fb' d'. decodeBody fb payload d = Some (Inr (int n, fb'), d') \<and> n \<le> length payload \<and> cache_ok d' \<and> paints fb fb'"
proof -
  let ?d = "d\<lparr>src := payload, pos := 0, nb := 0, mb := 0, ob := 0, jb := 0, kb := 0, dcY := 0, dcCb := 0, dcCr := 0,
       lastOpCount := 0, opTrail := [], consumedB := 0\<rparr>"
  have f: "buf_inv (fill ?d)" "src (fill ?d) = payload" using fill_inv [of ?d] by simp_all
  have "cache_ok (fill ?d)" using assms(2) by (auto simp: cache_ok_def fill_def readWord_def Let_def)
  moreover obtain fb' d' where r: "opcode_loop fb (fill ?d) = Some (Inr (int (pos d'), fb'), d')" "moves (fill ?d) d'" "paints fb fb'"
    using opcode_loop_returns [OF assms(1)] by blast
  ultimately have "buf_inv d'" "src d' = payload" "cache_ok d'" using f by (auto simp: moves_def)
  moreover from this have "pos d' \<le> length payload" by (auto simp: buf_inv_def min_def)
  ultimately show ?thesis using r by (simp add: decodeBody_def)
qed

lemma DecodePacket_returns:
  assumes "fb_rect fb" "cache_ok d"
  shows "\<exists>n fb' d'. avo_DecodePacket fb payload d = Some (Inr (n, fb'), d') \<and> -1 \<le> n \<and> n \<le> int (length payload)
    \<and> cache_ok d' \<and> paints fb fb'"
proof -
  have c: "cache_ok (SetMode m l c d)" "cache_ok ((SetMode m l c d)\<lparr>tileX := x, tileY := y, tileW := w, tileH := h\<rparr>)" for m l c x y w h
    using assms(2) by (auto simp: cache_ok_def SetMode_def)
  have body: "\<exists>n fb' d'. decodeBody fb (take (length (drop 12 payload) div 4 * 4) (drop 12 payload)) e = Some (Inr (n, fb'), d')
      \<and> 0 \<le> n \<and> n \<le> int (length payload) \<and> cache_ok d' \<and> paints fb fb'" if "cache_ok e" for e
    using decodeBody_returns [OF assms(1) that, of "take (length (drop 12 payload) div 4 * 4) (drop 12 payload)"] by force
  show ?thesis
  proof (cases "length payload < 12 \<or> length (drop 12 payload) div 4 * 4 = 0")
    case True
    then show ?thesis using assms(2) c(1) by (auto simp: avo_DecodePacket_def Let_def)
  next
    case False
    then obtain e where e: "cache_ok e"
      "avo_DecodePacket fb payload d = decodeBody fb (take (length (drop 12 payload) div 4 * 4) (drop 12 payload)) e"
      using c(2) unfolding avo_DecodePacket_def Let_def by (simp only: if_False de_Morgan_disj) blast
    obtain n fb' d' where "decodeBody fb (take (length (drop 12 payload) div 4 * 4) (drop 12 payload)) e = Some (Inr (n, fb'), d')"
      "0 \<le> n" "n \<le> int (length payload)" "cache_ok d'" "paints fb fb'" using body [OF e(1)] by blast
    then show ?thesis unfolding e(2) by (intro exI [of _ n] exI [of _ fb'] exI [of _ d']) simp
  qed
qed

section \<open>Coefficient streams\<close>

text \<open>The bits a symbol may be sent as, and the streams that encode a block's higher coefficients from zigzag position \<open>k\<close> on: the end
  marker, a run of sixteen zeros, or a run of zeros with a value.\<close>

definition sym_bits :: "nat list \<Rightarrow> bytes \<Rightarrow> byte \<Rightarrow> bool list \<Rightarrow> bool" where
  "sym_bits bits vals rs bs \<longleftrightarrow>
     (\<exists>l j. 1 \<le> l \<and> l \<le> 16 \<and> j < bits ! l \<and> vals ! (first_sym bits l + j) = rs \<and> bs = code_bits l (first_code bits l + int j))"

inductive ac_stream :: "nat list \<Rightarrow> bytes \<Rightarrow> nat \<Rightarrow> 32 word list \<Rightarrow> 32 word list \<Rightarrow> bool list \<Rightarrow> bool" for bits vals where
  full: "64 \<le> k \<Longrightarrow> ac_stream bits vals k c c []"
| eob: "k < 64 \<Longrightarrow> sym_bits bits vals 0 bs \<Longrightarrow> ac_stream bits vals k c c bs"
| zrl: "k < 64 \<Longrightarrow> sym_bits bits vals 0xF0 bs \<Longrightarrow> ac_stream bits vals (k + 16) c c' bs' \<Longrightarrow> ac_stream bits vals k c c' (bs @ bs')"
| coef: "k + r < 64 \<Longrightarrow> r < 16 \<Longrightarrow> 0 < n \<Longrightarrow> n < 16 \<Longrightarrow> in_category n x \<Longrightarrow> sym_bits bits vals (of_nat (16 * r + n)) bs
    \<Longrightarrow> ac_stream bits vals (k + r + 1) (c[invZigZag ! (k + r) := of_int x]) c' bs'
    \<Longrightarrow> ac_stream bits vals k c c' (bs @ value_bits n x @ bs')"

lemma decode_sym_bits:
  assumes "huff_spec tab bits vals" "sym_bits bits vals rs bs" "reads d bs"
  shows "decodeHuffSymbol tab d = (Some rs, consume (length bs) d)"
  using assms huff_symbol [OF assms(1)] unfolding sym_bits_def by auto

lemma rs_fields:
  assumes "r < 16" "n < 16"
  shows "unat ((of_nat (16 * r + n) :: byte) AND 0x0F) = n" "unat (drop_bit 4 (of_nat (16 * r + n) :: byte)) = r"
proof -
  define m where "m = 16 * r + n"
  have m: "m < 256" "m mod 16 = n" "m div 16 = r" using assms by (auto simp: m_def)
  have u: "unat (of_nat m :: byte) = m" using m(1) by (simp add: unat_of_nat)
  have "(of_nat m :: byte) AND 0x0F = take_bit 4 (of_nat m)"
    by (rule bit_word_eqI) (auto simp: bit_simps less_Suc_eq numeral_eq_Suc)
  then have "unat ((of_nat m :: byte) AND 0x0F) = take_bit 4 m" using u by (simp add: unsigned_take_bit_eq)
  then show "unat ((of_nat (16 * r + n) :: byte) AND 0x0F) = n" using m by (simp add: take_bit_eq_mod flip: m_def)
  have "unat (drop_bit 4 (of_nat m :: byte)) = drop_bit 4 m" using u by (simp only: unat_drop_bit_eq)
  then show "unat (drop_bit 4 (of_nat (16 * r + n) :: byte)) = r" using m by (simp add: drop_bit_eq_div flip: m_def)
qed

lemma scast_of_int: "\<bar>x\<bar> < 2 ^ 15 \<Longrightarrow> scast (of_int x :: 16 word) = (of_int x :: 32 word)"
  by (simp add: signed_of_int signed_take_bit_int_eq_self)

lemma in_category_small: "in_category n x \<Longrightarrow> n < 16 \<Longrightarrow> \<bar>x\<bar> < 2 ^ 15"
proof -
  assume a: "in_category n x" "n < 16"
  have "(2 :: int) ^ n \<le> 2 ^ 15" using a(2) by (intro power_increasing) auto
  then show ?thesis using a(1) by (auto simp: in_category_def split: if_splits)
qed

lemma ac_loop_stream:
  assumes "huff_spec tab bits vals"
  shows "ac_stream bits vals k c c' bs \<Longrightarrow> reads d bs \<Longrightarrow>
    \<exists>d'. ac_loop tab k c d = Some (Inr c', d') \<and> consumedB d' = consumedB d + length bs \<and> buf_inv d'"
proof (induction arbitrary: d rule: ac_stream.induct)
  case (full k c)
  then show ?case by (subst ac_loop.simps) (simp add: reads_def)
next
  case (eob k bs c)
  then show ?case using decode_sym_bits [OF assms eob(2,3)] by (subst ac_loop.simps) (simp add: reads_def consume_inv)
next
  case (zrl k bs c c' bs')
  have r: "reads d bs" "reads (consume (length bs) d) bs'" using reads_append [OF zrl.prems] by auto
  show ?case using zrl.hyps(1) decode_sym_bits [OF assms zrl.hyps(2) r(1)] zrl.IH [OF r(2)]
    by (subst ac_loop.simps) (auto simp: add.assoc)
next
  case (coef k r n x bs c c' bs')
  have r: "reads d bs" "reads (consume (length bs) d) (value_bits n x)" "reads (consume n (consume (length bs) d)) bs'"
    using reads_append [OF coef.prems] reads_append [of "consume (length bs) d" "value_bits n x" bs'] by (auto simp: value_bits_def)
  have sv: "decodeSignedValue n (consume (length bs) d) = (Inr (of_int x), consume n (consume (length bs) d))"
    using decodeSignedValue_value [OF coef.hyps(5,4) r(2)] .
  show ?case using coef.hyps(1-4) decode_sym_bits [OF assms coef.hyps(6) r(1)] sv coef.IH [OF r(3)]
      rs_fields [OF coef.hyps(2,4)] scast_of_int [OF in_category_small [OF coef.hyps(5,4)]]
    by (subst ac_loop.simps) (auto simp: Let_def value_bits_def add.assoc)
qed

section \<open>Lemmas: palette tiles\<close>

lemma palette_samples_select:
  assumes "vb_entropy d = e" "0 < e" "e \<le> 2" "\<forall>s \<in> set sels. s < 2 ^ e" "reads d (concat (map (\<lambda>s. code_bits e (int s)) sels))"
  shows "\<exists>d'. palette_samples (length sels) d = (map (\<lambda>s. vb_colors d ! (vb_index d ! s)) sels, d') \<and> consumedB d' = consumedB d + e * length sels
    \<and> tileX d' = tileX d \<and> tileY d' = tileY d \<and> jb d' = jb d \<and> kb d' = kb d \<and> tile_mode d' = tile_mode d"
  using assms
proof (induction sels arbitrary: d)
  case (Cons s sels)
  have r: "reads d (code_bits e (int s))" "reads (consume e d) (concat (map (\<lambda>s. code_bits e (int s)) sels))"
    using reads_append [of d "code_bits e (int s)"] Cons.prems(5) by auto
  have s: "s < 2 ^ e" using Cons.prems(4) by simp
  then have "int s < 2 ^ e" by (metis of_nat_less_iff of_nat_numeral of_nat_power)
  from reads_peek [OF r(1) _ _ this] have "uint (peekBits e d) = int s" using Cons.prems(3) by linarith
  then have "unat (peekBits e d) = s" by (metis nat_int nat_uint_eq)
  then have v: "unat (drop_bit (32 - e) (nb d)) = s" using Cons.prems(2) by (simp add: peekBits_def)
  have "(2 :: nat) ^ e \<le> 2 ^ 2" using Cons.prems(3) by (intro power_increasing) auto
  then have "s < 4" using s by simp
  moreover obtain d' where "palette_samples (length sels) (consume e d) = (map (\<lambda>s. vb_colors d ! (vb_index d ! s)) sels, d')"
    "consumedB d' = consumedB d + e + e * length sels"
    "tileX d' = tileX d" "tileY d' = tileY d" "jb d' = jb d" "kb d' = kb d" "tile_mode d' = tile_mode d"
    using Cons.IH [of "consume e d"] Cons.prems(1-4) r(2) by auto
  ultimately show ?case using Cons.prems(1,2) v by (simp add: Let_def)
qed simp

lemma paint_clipped_exact:
  "fb_rect fb \<Longrightarrow> distinct (map (\<lambda>(x, y, c). (x, y)) ps) \<Longrightarrow> \<exists>fb'. paint_clipped ps fb = Inr fb' \<and> same_shape fb fb'
    \<and> (\<forall>u v. 0 \<le> u \<longrightarrow> u < fb_W fb \<longrightarrow> 0 \<le> v \<longrightarrow> v < fb_H fb \<longrightarrow> pix fb' (v * fb_W fb + u) =
         (case map_of (map (\<lambda>(x, y, c). ((x, y), c)) ps) (u, v) of Some c \<Rightarrow> c | None \<Rightarrow> pix fb (v * fb_W fb + u)))"
proof (induction ps arbitrary: fb)
  case (Cons p ps)
  obtain px py c where p: "p = (px, py, c)" by (cases p)
  have k1: "(px, py) \<notin> dom (map_of (map (\<lambda>(x, y, c). ((x, y), c)) ps))"
    using Cons.prems(2) p by (auto simp: dom_map_of_conv_image_fst image_image case_prod_beta)
  have "distinct (map (\<lambda>(x, y, c). (x, y)) ps)" using Cons.prems(2) by simp
  note keys = k1 this
  show ?case
  proof (cases "px < 0 \<or> px \<ge> fb_W fb \<or> py < 0 \<or> py \<ge> fb_H fb")
    case True
    then show ?thesis using Cons.IH [OF Cons.prems(1) keys(2)] p by force
  next
    case False
    have i: "0 \<le> py * fb_W fb + px" "py * fb_W fb + px < npix fb" using pixel_in_range [OF Cons.prems(1), of py px] False by auto
    obtain fb1 where s: "set_pixel (py * fb_W fb + px) c fb = Inr fb1" "same_shape fb fb1"
      "\<And>k. 0 \<le> k \<Longrightarrow> k < npix fb \<Longrightarrow> pix fb1 k = (if k = py * fb_W fb + px then c else pix fb k)"
      using set_pixel_exact [OF i, of c] by blast
    have w: "fb_W fb1 = fb_W fb" "fb_H fb1 = fb_H fb" using s(2) by (simp_all add: same_shape_def)
    obtain fb' where r: "paint_clipped ps fb1 = Inr fb'" "same_shape fb1 fb'"
      "\<And>u v. 0 \<le> u \<Longrightarrow> u < fb_W fb \<Longrightarrow> 0 \<le> v \<Longrightarrow> v < fb_H fb \<Longrightarrow> pix fb' (v * fb_W fb + u) =
         (case map_of (map (\<lambda>(x, y, c). ((x, y), c)) ps) (u, v) of Some c \<Rightarrow> c | None \<Rightarrow> pix fb1 (v * fb_W fb + u))"
      using Cons.IH [OF fb_rect_shape [OF s(2) Cons.prems(1)] keys(2), unfolded w] by blast
    have "pix fb' (v * fb_W fb + u) = (case map_of (map (\<lambda>(x, y, c). ((x, y), c)) (p # ps)) (u, v) of Some c \<Rightarrow> c | None \<Rightarrow> pix fb (v * fb_W fb + u))"
      if uv: "0 \<le> u" "u < fb_W fb" "0 \<le> v" "v < fb_H fb" for u v
    proof -
      have k: "0 \<le> v * fb_W fb + u" "v * fb_W fb + u < npix fb" using pixel_in_range [OF Cons.prems(1)] uv by auto
      have "v * fb_W fb + u = py * fb_W fb + px \<longleftrightarrow> (u, v) = (px, py)"
        using row_major_inj [of u "fb_W fb" px v py] uv False by auto
      then show ?thesis using r(3) [OF uv] s(3) [OF k] keys(1) p by (auto simp: domIff split: option.splits)
    qed
    then show ?thesis using False p s(1) r(1) same_shape_trans [OF s(2) r(2)] by simp
  qed
qed simp

lemma tile8_lookup:
  fixes f :: "nat \<Rightarrow> u32" and x0 y0 :: int
  defines "ps \<equiv> map (\<lambda>i. (x0 + int (i mod 8), y0 + int (i div 8), f i)) [0..<64]"
  shows "distinct (map (\<lambda>(x, y, c). (x, y)) ps)"
    "map_of (map (\<lambda>(x, y, c). ((x, y), c)) ps) (u, v) =
       (if 0 \<le> u - x0 \<and> u - x0 < 8 \<and> 0 \<le> v - y0 \<and> v - y0 < 8 then Some (f (nat (8 * (v - y0) + (u - x0)))) else None)"
proof -
  have inj: "i = j" if "i mod 8 = j mod 8" "i div 8 = j div 8" for i j :: nat using that by (metis div_mult_mod_eq)
  have m: "map (\<lambda>(x, y, c). (x, y)) ps = map (\<lambda>i. (x0 + int (i mod 8), y0 + int (i div 8))) [0..<64]" by (simp add: ps_def)
  have "inj_on (\<lambda>i. (x0 + int (i mod 8), y0 + int (i div 8))) (set [0..<64])" by (rule inj_onI, rule inj) simp_all
  then show d: "distinct (map (\<lambda>(x, y, c). (x, y)) ps)" unfolding m distinct_map by simp
  have "map fst (map (\<lambda>(x, y, c). ((x, y), c)) ps) = map (\<lambda>(x, y, c). (x, y)) ps" by (simp add: ps_def)
  with d have d2: "distinct (map fst (map (\<lambda>(x, y, c). ((x, y), c)) ps))" by metis
  show "map_of (map (\<lambda>(x, y, c). ((x, y), c)) ps) (u, v) =
       (if 0 \<le> u - x0 \<and> u - x0 < 8 \<and> 0 \<le> v - y0 \<and> v - y0 < 8 then Some (f (nat (8 * (v - y0) + (u - x0)))) else None)"
  proof (cases "0 \<le> u - x0 \<and> u - x0 < 8 \<and> 0 \<le> v - y0 \<and> v - y0 < 8")
    case True
    define i where "i = nat (8 * (v - y0) + (u - x0))"
    obtain a b where ab: "u - x0 = int a" "v - y0 = int b" "a < 8" "b < 8" using True by (metis nonneg_int_cases of_nat_less_iff of_nat_numeral)
    then have "i = 8 * b + a" by (simp add: i_def)
    then have "i < 64" "i mod 8 = a" "i div 8 = b" using ab(3,4) by auto
    then have i: "i < 64" "x0 + int (i mod 8) = u" "y0 + int (i div 8) = v" using ab(1,2) by auto
    then have "((u, v), f i) \<in> set (map (\<lambda>(x, y, c). ((x, y), c)) ps)" by (force simp: ps_def)
    then show ?thesis using True map_of_is_SomeI [OF d2] by (simp add: i_def)
  next
    case False
    then have "(u, v) \<notin> fst ` set (map (\<lambda>(x, y, c). ((x, y), c)) ps)" by (auto simp: ps_def)
    then have "map_of (map (\<lambda>(x, y, c). ((x, y), c)) ps) (u, v) = None" by (simp add: map_of_eq_None_iff)
    with False show ?thesis by (simp only: if_False)
  qed
qed

section \<open>Properties: tile codec\<close>



text \<open>C10: entropy decoding inverts entropy coding.  When the stream continues with a block coded by the luma or the chroma tables, with the
  predictor difference \<open>x\<close> and any sequence of zero runs and values for the higher coefficients, decoding returns the new predictor and
  the transform of exactly the coded coefficients in their zigzag places, and consumes exactly the block's bits.\<close>

theorem dct_block_roundtrip:
  assumes "(dcTab, dcb, dcv, acTab, acb, acv) \<in>
      {(avoDcLuma, xbBits, ybVals, avoAcLuma, bbBits, cbVals), (avoDcChroma, zbBits, abVals, avoAcChroma, dbBits, ebVals)}"
    "in_category n x" "n < 16" "sym_bits dcb dcv (of_nat n) bs"
    "ac_stream acb acv 1 ((replicate 64 0)[0 := scast (prev + of_int x)]) coef bs'"
    "buf_inv d" "next_bits (length (bs @ value_bits n x @ bs')) d = bs @ value_bits n x @ bs'"
  shows "\<exists>d'. decodeDCTBlock dcTab acTab q prev d = Some (Inr (prev + of_int x, avoIDCTInt coef q), d')
    \<and> consumedB d' = consumedB d + length (bs @ value_bits n x @ bs') \<and> buf_inv d'"
proof -
  have t: "huff_spec dcTab dcb dcv" "huff_spec acTab acb acv" using assms(1) avo_tables by auto
  have "reads d (bs @ value_bits n x @ bs')" using assms(6,7) by (simp add: reads_def)
  then have r: "reads d bs" "reads (consume (length bs) d) (value_bits n x)" "reads (consume n (consume (length bs) d)) bs'"
    using reads_append [of d bs "value_bits n x @ bs'"] reads_append [of "consume (length bs) d" "value_bits n x" bs'] by (auto simp: value_bits_def)
  have u: "unat (of_nat n :: byte) = n" using assms(3) by (simp add: unat_of_nat)
  obtain d' where "ac_loop acTab 1 ((replicate 64 0)[0 := scast (prev + of_int x)]) (consume n (consume (length bs) d)) = Some (Inr coef, d')"
    "consumedB d' = consumedB d + length bs + n + length bs'" "buf_inv d'" using ac_loop_stream [OF t(2) assms(5) r(3)] by auto
  then show ?thesis using decode_sym_bits [OF t(1) assms(4) r(1)] decodeSignedValue_value [OF assms(2,3) r(2)] u
    unfolding decodeDCTBlock_def Let_def by (simp add: value_bits_def)
qed

definition dct_sample :: AvocentDecoder where
  "dct_sample = fill (NewAvocentDecoder\<lparr>src := [0, 0, 0, 0x65]\<rparr>)"

theorem dct_block_roundtrip_witness:
  "\<exists>d'. decodeDCTBlock avoDcLuma avoAcLuma (qY dct_sample) 5 dct_sample
      = Some (Inr (5 + of_int (-3), avoIDCTInt ((replicate 64 0)[0 := scast (5 + of_int (-3) :: 16 word)]) (qY dct_sample)), d')
    \<and> consumedB d' = consumedB dct_sample + 9 \<and> buf_inv d'"
proof -
  let ?c = "(replicate 64 0)[0 := scast (5 + of_int (-3) :: 16 word)] :: 32 word list"
  have f: "buf_inv dct_sample" "src dct_sample = [0, 0, 0, 0x65]" "consumedB dct_sample = 0"
    using fill_inv [of "NewAvocentDecoder\<lparr>src := [0, 0, 0, 0x65]\<rparr>"] by (simp_all add: dct_sample_def NewAvocentDecoder_def)
  have x: "first_code xbBits 3 = 2" "first_sym xbBits 3 = 1" "ybVals ! 2 = 2" "xbBits ! 3 = 5"
    and b: "first_code bbBits 4 = 10" "first_sym bbBits 4 = 3" "cbVals ! 3 = 0" "bbBits ! 4 = 3" by code_simp+
  have s1: "sym_bits xbBits ybVals (of_nat 2) (code_bits 3 3)"
    unfolding sym_bits_def by (rule exI [of _ 3], rule exI [of _ 1]) (simp add: x x(3) [unfolded numeral_2_eq_2])
  have s2: "sym_bits bbBits cbVals 0 (code_bits 4 10)"
    unfolding sym_bits_def by (rule exI [of _ 4], rule exI [of _ 0]) (simp add: b)
  have a: "ac_stream bbBits cbVals 1 ?c ?c (code_bits 4 10)" by (rule ac_stream.eob) (simp_all add: s2)
  have "map (stream_bit [0, 0, 0, 0x65]) [0..<9] = code_bits 3 3 @ value_bits 2 (-3) @ code_bits 4 10" by code_simp
  then have "next_bits 9 dct_sample = code_bits 3 3 @ value_bits 2 (-3) @ code_bits 4 10" by (simp add: next_bits_def f)
  then show ?thesis
    using dct_block_roundtrip [OF _ _ _ s1 a f(1), where dcTab = avoDcLuma and acTab = avoAcLuma and q = "qY dct_sample"] by (simp add: in_category_def value_bits_def)
qed

text \<open>a palette tile of 8 by 8 pixels paints exactly the colours its selector bits choose: when the stream continues with the 64
  selectors, each pixel of the tile that lies on the framebuffer gets the cached colour its selector names, converted to RGB, and every other
  pixel is unchanged.\<close>

theorem palette_tile_exact:
  assumes "fb_rect fb" "tile_mode d \<noteq> 1" "0 < vb_entropy d" "vb_entropy d \<le> 2" "length sels = 64" "\<forall>s \<in> set sels. s < 2 ^ vb_entropy d"
    "reads d (concat (map (\<lambda>s. code_bits (vb_entropy d) (int s)) sels))"
  shows "\<exists>fb' d'. paintPaletteBlock fb d = (Inr fb', d') \<and> same_shape fb fb' \<and> fb_Dirty fb' \<and> consumedB d' = consumedB d + 64 * vb_entropy d
    \<and> (\<forall>u v. 0 \<le> u \<longrightarrow> u < fb_W fb \<longrightarrow> 0 \<le> v \<longrightarrow> v < fb_H fb \<longrightarrow> pix fb' (v * fb_W fb + u) =
        (let x = u - (tileX d + jb d * 8); y = v - (tileY d + kb d * 8)
         in if 0 \<le> x \<and> x < 8 \<and> 0 \<le> y \<and> y < 8
            then paletteYCbCrToARGB (vb_colors d ! (vb_index d ! (sels ! nat (8 * y + x)))) else pix fb (v * fb_W fb + u)))"
proof -
  let ?x0 = "tileX d + jb d * 8" and ?y0 = "tileY d + kb d * 8"
  let ?cs = "map (\<lambda>s. vb_colors d ! (vb_index d ! s)) sels"
  let ?f = "\<lambda>i. paletteYCbCrToARGB (?cs ! i)"
  obtain d' where d': "palette_samples 64 d = (?cs, d')" "consumedB d' = consumedB d + vb_entropy d * 64"
    "palette_pixels d' ?cs = map (\<lambda>i. (?x0 + int (i mod 8), ?y0 + int (i div 8), ?f i)) [0..<64]"
    using palette_samples_select [OF refl assms(3,4,6,7)] assms(2,5) by (auto simp: palette_pixels_def)
  obtain fb1 where p: "paint_clipped (palette_pixels d' ?cs) fb = Inr fb1" "same_shape fb fb1"
    "\<And>u v. 0 \<le> u \<Longrightarrow> u < fb_W fb \<Longrightarrow> 0 \<le> v \<Longrightarrow> v < fb_H fb \<Longrightarrow> pix fb1 (v * fb_W fb + u) =
       (case (if 0 \<le> u - ?x0 \<and> u - ?x0 < 8 \<and> 0 \<le> v - ?y0 \<and> v - ?y0 < 8 then Some (?f (nat (8 * (v - ?y0) + (u - ?x0)))) else None)
        of Some c \<Rightarrow> c | None \<Rightarrow> pix fb (v * fb_W fb + u))"
    using paint_clipped_exact [OF assms(1) tile8_lookup(1), of ?x0 ?y0 ?f, unfolded tile8_lookup(2)] d'(3) by auto
  have "pix fb1 (v * fb_W fb + u) = (let x = u - ?x0; y = v - ?y0
         in if 0 \<le> x \<and> x < 8 \<and> 0 \<le> y \<and> y < 8
            then paletteYCbCrToARGB (vb_colors d ! (vb_index d ! (sels ! nat (8 * y + x)))) else pix fb (v * fb_W fb + u))"
    if "0 \<le> u" "u < fb_W fb" "0 \<le> v" "v < fb_H fb" for u v
    using p(3) [OF that] assms(5) by (auto simp: Let_def nat_less_iff)
  then show ?thesis using p(1,2) d' by (simp add: paintPaletteBlock_def paint_dirty_def same_shape_def mult.commute)
qed

definition palette_sample :: AvocentDecoder where
  "palette_sample = fill (NewAvocentDecoder\<lparr>src := [0, 0, 0, 0x80, 0, 0, 0, 0], vb_entropy := 1, vb_index := [0, 1, 0, 0],
     vb_colors := [0x108080, 0xEB8080, 0, 0]\<rparr>)"

theorem palette_tile_exact_witness:
  "\<exists>fb' d'. paintPaletteBlock (NewFramebuffer 10 10) palette_sample = (Inr fb', d') \<and> consumedB d' = 64
    \<and> pix fb' 0 = paletteYCbCrToARGB 0xEB8080 \<and> pix fb' 1 = paletteYCbCrToARGB 0x108080 \<and> pix fb' 8 = 0"
proof -
  let ?d = "NewAvocentDecoder\<lparr>src := [0, 0, 0, 0x80, 0, 0, 0, 0], vb_entropy := 1, vb_index := [0, 1, 0, 0], vb_colors := [0x108080, 0xEB8080, 0, 0]\<rparr>"
  let ?sels = "1 # replicate 63 (0 :: nat)"
  have f: "buf_inv palette_sample" "src palette_sample = [0, 0, 0, 0x80, 0, 0, 0, 0]" "consumedB palette_sample = 0"
    using fill_inv [of ?d] by (simp_all add: palette_sample_def NewAvocentDecoder_def)
  have g: "vb_entropy palette_sample = 1" "vb_index palette_sample = [0, 1, 0, 0]" "vb_colors palette_sample = [0x108080, 0xEB8080, 0, 0]"
    "tile_mode palette_sample = 0" "tileX palette_sample = 0" "tileY palette_sample = 0" "jb palette_sample = 0" "kb palette_sample = 0"
    by (simp_all add: palette_sample_def fill_def readWord_def Let_def NewAvocentDecoder_def)
  have "map (stream_bit [0, 0, 0, 0x80, 0, 0, 0, 0]) [0..<64] = concat (map (\<lambda>s. code_bits 1 (int s)) ?sels)" by code_simp
  moreover have "length (concat (map (\<lambda>s. code_bits 1 (int s)) ?sels)) = 64" by (simp add: length_concat comp_def sum_list_replicate)
  ultimately have r: "reads palette_sample (concat (map (\<lambda>s. code_bits 1 (int s)) ?sels))" by (simp only: reads_def next_bits_def f add_0 simp_thms)
  have "fb_rect (NewFramebuffer 10 10)" by (simp add: NewFramebuffer_def fb_rect_def)
  from palette_tile_exact [OF this, of palette_sample ?sels, unfolded g] r
  obtain fb' d' where d: "paintPaletteBlock (NewFramebuffer 10 10) palette_sample = (Inr fb', d')" "consumedB d' = 64"
    and p: "\<And>u v. 0 \<le> u \<Longrightarrow> u < 10 \<Longrightarrow> 0 \<le> v \<Longrightarrow> v < 10 \<Longrightarrow> pix fb' (v * 10 + u) =
        (if u < 8 \<and> v < 8 then paletteYCbCrToARGB ([0x108080, 0xEB8080, 0, 0] ! ([0, 1, 0, 0] ! (?sels ! nat (8 * v + u)))) else pix (NewFramebuffer 10 10) (v * 10 + u))"
    by (auto simp: f NewFramebuffer_def Let_def)
  show ?thesis using d p [of 0 0] p [of 1 0] p [of 8 0] by (auto simp: NewFramebuffer_def)
qed

text \<open>the block raster stays inside the tile and visits it in row-major order, starting over at the end: numbering the blocks row by
  row, each step goes to the next number modulo the number of blocks.\<close>

theorem block_raster_cycles:
  assumes "0 < tile_q d" "tile_q d \<le> tileW d" "tile_q d \<le> tileH d"
    "0 \<le> jb d" "jb d < tileW d div tile_q d" "0 \<le> kb d" "kb d < tileH d div tile_q d"
  shows "let d' = advancePos w h d; cols = tileW d div tile_q d; rows = tileH d div tile_q d in
     0 \<le> jb d' \<and> jb d' < cols \<and> 0 \<le> kb d' \<and> kb d' < rows
     \<and> kb d' * cols + jb d' = (kb d * cols + jb d + 1) mod (rows * cols)"
proof -
  let ?c = "tileW d div tile_q d" and ?r = "tileH d div tile_q d"
  have pos: "0 < ?c" "0 < ?r" using assms by (auto simp: pos_imp_zdiv_pos_iff)
  have bound: "kb d * ?c + jb d + 1 \<le> ?r * ?c"
  proof -
    have "kb d * ?c + jb d + 1 \<le> (kb d + 1) * ?c" using assms(5) by (simp add: algebra_simps)
    also have "\<dots> \<le> ?r * ?c" using assms(7) pos by (intro mult_right_mono) auto
    finally show ?thesis .
  qed
  consider "jb d + 1 < ?c" | "jb d + 1 = ?c" "kb d + 1 < ?r" | "jb d + 1 = ?c" "kb d + 1 = ?r" using assms(5,7) by linarith
  then show ?thesis
  proof cases
    case 1
    have "kb d * ?c + jb d + 1 < (kb d + 1) * ?c" using 1 by (simp add: algebra_simps)
    also have "\<dots> \<le> ?r * ?c" using assms(7) pos by (intro mult_right_mono) auto
    finally have "(kb d * ?c + jb d + 1) mod (?r * ?c) = kb d * ?c + jb d + 1" using assms(4,6) pos by (intro mod_pos_pos_trivial) auto
    then show ?thesis using 1 pos assms(4,6,7) by (simp add: advancePos_def Let_def)
  next
    case 2
    have e: "kb d * ?c + jb d + 1 = (kb d + 1) * ?c" using 2(1) by (simp add: algebra_simps)
    have "(kb d + 1) * ?c < ?r * ?c" using 2(2) pos by (intro mult_strict_right_mono) auto
    then have "(kb d * ?c + jb d + 1) mod (?r * ?c) = (kb d + 1) * ?c" unfolding e using assms(6) pos by (intro mod_pos_pos_trivial) auto
    then show ?thesis using 2 pos assms(6) by (simp add: advancePos_def Let_def)
  next
    case 3
    have "kb d * ?c + jb d + 1 = ?r * ?c" using 3 by (simp add: algebra_simps flip: 3)
    then show ?thesis using 3 pos by (simp add: advancePos_def Let_def)
  qed
qed

theorem block_raster_cycles_witness:
  "let d = NewAvocentDecoder\<lparr>tileW := 16, tileH := 16, jb := 1, kb := 1\<rparr>; d' = advancePos 640 480 d in jb d' = 0 \<and> kb d' = 0"
  using block_raster_cycles [of "NewAvocentDecoder\<lparr>tileW := 16, tileH := 16, jb := 1, kb := 1\<rparr>" 640 480]
  by (simp add: NewAvocentDecoder_def Let_def)

text \<open>The zigzag tables are inverse to each other, so the coefficient at zigzag position \<open>k\<close> belongs at \<open>invZigZag[k]\<close>; \<open>zigZag[k]\<close> is a different
  place already at \<open>k = 2\<close>, where the unused decoder of \<open>jpeg.go\<close> puts it.\<close>

lemma zigzag_inverse: "map (\<lambda>k. zigZag ! (invZigZag ! k)) [0..<64] = [0..<64] \<and> invZigZag ! 2 = 8 \<and> zigZag ! 2 = 5"
  by code_simp

end
