(* ===== verification/Video_Jpeg.thy ===== *)
theory Video_Jpeg
  imports Video_Avocent "HOL-Library.Signed_Division"
begin

text \<open>
  The DCT tile decoder for video packet 134 (\<open>internal/video/jpeg.go\<close>): the Huffman table builder, the bit stream, the symbol, value and
  block readers, the separable inverse transform and the rendering of a tile.  A read outside an array is the panic it is in Go.  The
  cosine of the standard library is the parameter \<open>cos64\<close>; products and sums are rounded one by one (no fused multiply-add).
  The quantisation tables, the symbol tables and \<open>zigZag\<close> are those of \<open>Video_Dct\<close> and \<open>Avocent_Huffman\<close>.
\<close>

section \<open>Tables\<close>

definition extendTable :: "16 word list" where
  "extendTable =
    [0, -1, -3, -7, -15, -31, -63, -127,
     -255, -511, -1023, -2047, -4095, -8191, -16383, -32767]"

text \<open>\<open>clampLUT\<close> as the package's \<open>init\<close> fills it.\<close>

definition clampLUT :: bytes where
  "clampLUT =
     (let lut = fold (\<lambda>i t. t[i := of_nat (i - 256)]) [256..<512] (replicate 1408 0);
          lut = fold (\<lambda>i t. t[i := 255]) [512..<896] lut
      in fold (\<lambda>i t. t[i := of_nat (i - 896 - 384)]) [896 + 384..<min (896 + 384 + 128) (length lut)] lut)"

definition buildScaledQuant :: "int list \<Rightarrow> rat list" where
  "buildScaledQuant base =
     fold (\<lambda>zz out.
        let natural = zigZag ! zz;
            s = f64 (aanScale ! (natural div 8) * aanScale ! (natural mod 8))
        in out[natural := f32 (f64 (of_int (base ! zz) * s))]) [0..<64] (replicate 64 0)"

text \<open>\<open>cosTab[n][k]\<close>.\<close>

definition cosTab :: "(rat \<Rightarrow> rat) \<Rightarrow> nat \<Rightarrow> nat \<Rightarrow> rat" where
  "cosTab cos64 n k =
     f32 (cos64 (f64 (f64 (f64 (of_nat (2 * n + 1) * of_nat k) * f64 (3141592653589793 / 1000000000000000)) / 16)))"

section \<open>Huffman tables\<close>

abbreviation (input) range_panic :: gerror where "range_panic \<equiv> Panic ''index out of range''"

record huffmanTable =
  hMinCode :: "int list"
  hMaxCode :: "int list"
  hValues :: bytes
  hValPtr :: "nat list"

text \<open>The inner loop of \<open>buildHuffman\<close> copies the symbols of one code length.\<close>

fun copy_symbols :: "bytes \<Rightarrow> nat \<Rightarrow> nat \<Rightarrow> bytes \<Rightarrow> bytes result" where
  "copy_symbols huffvals 0 vi values = Inr values"
| "copy_symbols huffvals (Suc n) vi values =
     (if vi < length huffvals \<and> vi < length values then copy_symbols huffvals n (vi + 1) (values[vi := huffvals ! vi])
      else Inl range_panic)"

fun build_levels :: "nat list \<Rightarrow> bytes \<Rightarrow> nat list \<Rightarrow> int \<Rightarrow> nat \<Rightarrow> huffmanTable \<Rightarrow> huffmanTable result" where
  "build_levels bits huffvals [] code vi h = Inr h"
| "build_levels bits huffvals (l # ls) code vi h =
     (if bits ! l = 0 then
        build_levels bits huffvals ls (push_bit 1 code) vi
          (h\<lparr>hMinCode := (hMinCode h)[l := 0x10000], hMaxCode := (hMaxCode h)[l := - 1], hValPtr := (hValPtr h)[l := vi]\<rparr>)
      else
        (case copy_symbols huffvals (bits ! l) vi (hValues h) of
           Inl e \<Rightarrow> Inl e
         | Inr values \<Rightarrow>
             let code' = code + int (bits ! l)
             in build_levels bits huffvals ls (push_bit 1 code') (vi + bits ! l)
                  (h\<lparr>hMinCode := (hMinCode h)[l := code], hValPtr := (hValPtr h)[l := vi], hValues := values,
                    hMaxCode := (hMaxCode h)[l := code' - 1]\<rparr>)))"

definition buildHuffman :: "nat list \<Rightarrow> bytes \<Rightarrow> huffmanTable result" where
  "buildHuffman bits huffvals =
     build_levels bits huffvals [1..<17] 0 0
       \<lparr>hMinCode = replicate 17 0, hMaxCode = replicate 17 0, hValues = replicate 4096 0, hValPtr = replicate 17 0\<rparr>"

text \<open>The package's \<open>init\<close>; a panic there would stop the program before \<open>main\<close>.\<close>

definition jpeg_tables :: "(huffmanTable \<times> huffmanTable \<times> huffmanTable \<times> huffmanTable) result" where
  "jpeg_tables =
     (case buildHuffman xbBits ybVals of Inl e \<Rightarrow> Inl e | Inr dcL \<Rightarrow>
      case buildHuffman zbBits abVals of Inl e \<Rightarrow> Inl e | Inr dcC \<Rightarrow>
      case buildHuffman bbBits cbVals of Inl e \<Rightarrow> Inl e | Inr acL \<Rightarrow>
      case buildHuffman dbBits ebVals of Inl e \<Rightarrow> Inl e | Inr acC \<Rightarrow> Inr (dcL, dcC, acL, acC))"

section \<open>Bit stream\<close>

record bitStream =
  bs_data :: bytes
  bs_pos :: nat
  bs_acc :: u64
  bs_n :: nat

function bs_fill :: "bitStream \<Rightarrow> bitStream" where
  "bs_fill b =
     (if bs_n b \<le> 56 \<and> bs_pos b < length (bs_data b) then
        bs_fill (b\<lparr>bs_acc := bs_acc b OR push_bit (56 - bs_n b) (ucast (bs_data b ! bs_pos b)),
                  bs_n := bs_n b + 8, bs_pos := bs_pos b + 1\<rparr>)
      else b)"
  by pat_completeness auto
termination by (relation "measure (\<lambda>b. length (bs_data b) - bs_pos b)") auto

declare bs_fill.simps [simp del]

definition bs_get :: "nat \<Rightarrow> bitStream \<Rightarrow> u32 \<times> bitStream" where
  "bs_get k b =
     (let b = bs_fill b
      in if bs_n b < k then (0, b)
         else (ucast (drop_bit (64 - k) (bs_acc b)), b\<lparr>bs_acc := push_bit k (bs_acc b), bs_n := bs_n b - k\<rparr>))"

fun symbol_loop :: "huffmanTable \<Rightarrow> nat list \<Rightarrow> int \<Rightarrow> bitStream \<Rightarrow> byte result \<times> bitStream" where
  "symbol_loop h [] code b = (Inr 0, b)"
| "symbol_loop h (l # ls) code b =
     (case bs_get 1 b of
        (v, b) \<Rightarrow>
          let code = push_bit 1 code OR uint v
          in if code \<le> hMaxCode h ! l then
               let i = int (hValPtr h ! l) + (code - hMinCode h ! l)
               in (if 0 \<le> i \<and> i < int (length (hValues h)) then Inr (hValues h ! nat i) else Inl range_panic, b)
             else symbol_loop h ls code b)"

definition bs_decodeSymbol :: "huffmanTable \<Rightarrow> bitStream \<Rightarrow> byte result \<times> bitStream" where
  "bs_decodeSymbol h b = symbol_loop h [1..<17] 0 b"

definition bs_decodeValue :: "nat \<Rightarrow> bitStream \<Rightarrow> 16 word result \<times> bitStream" where
  "bs_decodeValue n b =
     (if n = 0 then (Inr 0, b)
      else
        (case bs_get n b of
           (v, b) \<Rightarrow>
             if v < push_bit (n - 1) 1 then
               if n < length extendTable then (Inr (of_int (uint v + sint (extendTable ! n))), b) else (Inl range_panic, b)
             else (Inr (of_int (uint v)), b)))"

section \<open>Blocks\<close>

text \<open>Sequencing of readers that may fault.\<close>

definition bs_then :: "'a result \<times> 's \<Rightarrow> ('a \<Rightarrow> 's \<Rightarrow> 'b result \<times> 's) \<Rightarrow> 'b result \<times> 's" where
  "bs_then m f = (case m of (Inl e, b) \<Rightarrow> (Inl e, b) | (Inr x, b) \<Rightarrow> f x b)"

lemma bs_then_cong [fundef_cong]:
  "m = m' \<Longrightarrow> (\<And>x b. m' = (Inr x, b) \<Longrightarrow> f x b = f' x b) \<Longrightarrow> bs_then m f = bs_then m' f'"
  by (auto simp: bs_then_def split: prod.splits sum.splits)

function jpeg_ac :: "huffmanTable \<Rightarrow> nat \<Rightarrow> 32 word list \<Rightarrow> bitStream \<Rightarrow> 32 word list result \<times> bitStream" where
  "jpeg_ac acH k coef b =
     (if k < 64 then
        bs_then (bs_decodeSymbol acH b) (\<lambda>rs b.
          let s = unat (rs AND 0x0F);
              r = unat (drop_bit 4 rs)
          in if s = 0 then
               if r = 15 then jpeg_ac acH (k + 16) coef b else (Inr coef, b)
             else if k + r \<ge> 64 then (Inr coef, b)
             else bs_then (bs_decodeValue s b) (\<lambda>v b. jpeg_ac acH (k + r + 1) (coef[zigZag ! (k + r) := scast v]) b))
      else (Inr coef, b))"
  by pat_completeness auto
termination by (relation "measure (\<lambda>(acH, k, coef, b). 64 - k)") auto

declare jpeg_ac.simps [simp del]

text \<open>The eight-point transform: each sample is the sum over the coefficients, left to right.\<close>

definition idct1D :: "(rat \<Rightarrow> rat) \<Rightarrow> rat list \<Rightarrow> rat list" where
  "idct1D cos64 xs =
     map (\<lambda>n. let sum = fold (\<lambda>k sum.
                 let c = (if k = 0 then f32 (7071067811865476 / 10000000000000000) else 1)
                 in f32 (sum + f32 (f32 (c * xs ! k) * cosTab cos64 n k))) [0..<8] 0
              in f32 (sum * (1 / 2))) [0..<8]"

definition idct_rows :: "(rat \<Rightarrow> rat) \<Rightarrow> rat list \<Rightarrow> rat list" where
  "idct_rows cos64 xs = concat (map (\<lambda>row. idct1D cos64 (slice (row * 8) (row * 8 + 8) xs)) [0..<8])"

definition idct2D :: "(rat \<Rightarrow> rat) \<Rightarrow> rat list \<Rightarrow> 32 word list" where
  "idct2D cos64 xs =
     (let t = idct_rows cos64 xs;
          cols = map (\<lambda>col. idct1D cos64 (map (\<lambda>i. t ! (i * 8 + col)) [0..<8])) [0..<8]
      in map (\<lambda>i. to_int32 (cols ! (i mod 8) ! (i div 8))) [0..<64])"

text \<open>The new predictor and the block's samples.\<close>

definition decodeBlockJPEG ::
  "(rat \<Rightarrow> rat) \<Rightarrow> huffmanTable \<Rightarrow> huffmanTable \<Rightarrow> rat list \<Rightarrow> 16 word \<Rightarrow> bitStream \<Rightarrow> (16 word \<times> 32 word list) result \<times> bitStream" where
  "decodeBlockJPEG cos64 dcH acH scaledQuant prevDC b =
     bs_then (bs_decodeSymbol dcH b) (\<lambda>sDC b.
     bs_then (bs_decodeValue (unat sDC) b) (\<lambda>diff b.
       let dc = prevDC + diff
       in bs_then (jpeg_ac acH 1 ((replicate 64 0)[0 := scast dc]) b) (\<lambda>coef b.
            let scaled = map (\<lambda>i. f32 (f32 (of_int (sint (coef ! i))) * scaledQuant ! i)) [0..<64]
            in (Inr (dc, idct2D cos64 scaled), b))))"

section \<open>Rendering\<close>

definition jpeg_argb :: "32 word \<Rightarrow> 32 word \<Rightarrow> 32 word \<Rightarrow> u32" where
  "jpeg_argb y cbV crV =
     (let mul = (\<lambda>v q. to_int32 (f32 (f32 (of_int (sint v)) * f32 q)));
          yv = y + 128;
          r = yv + mul crV (1402 / 1000);
          g = yv - mul cbV (344136 / 1000000) - mul crV (714136 / 1000000);
          b = yv + mul cbV (1772 / 1000)
      in 0xFF000000 OR push_bit 16 (clampByte r) OR push_bit 8 (clampByte g) OR clampByte b)"

definition mcu_pixels :: "int \<Rightarrow> int \<Rightarrow> byte \<Rightarrow> 32 word list list \<Rightarrow> 32 word list \<Rightarrow> 32 word list \<Rightarrow> (int \<times> int \<times> u32) list" where
  "mcu_pixels x0 y0 mode ys cb cr =
     (let blocks = (if mode = 1 then 2 else 1)
      in [(x0 + int bx, y0 + int by,
           jpeg_argb (ys ! (bx div 8) ! (by * 8 + bx mod 8)) (cb ! (by * 8 + bx div blocks)) (cr ! (by * 8 + bx div blocks))).
            by \<leftarrow> [0..<8], bx \<leftarrow> [0..<8 * blocks]])"

definition renderMCU :: "Framebuffer \<Rightarrow> int \<Rightarrow> int \<Rightarrow> byte \<Rightarrow> 32 word list list \<Rightarrow> 32 word list \<Rightarrow> 32 word list \<Rightarrow> Framebuffer result" where
  "renderMCU fb x0 y0 mode ys cb cr = paint_dirty (mcu_pixels x0 y0 mode ys cb cr) fb"

text \<open>The predictors of the channels; \<open>NewJPEGDecoder\<close> and \<open>Reset\<close> zero them.\<close>

record JPEGDecoder =
  jdc :: "16 word list"

definition NewJPEGDecoder :: JPEGDecoder where
  "NewJPEGDecoder = \<lparr>jdc = replicate 4 0\<rparr>"

definition JPEG_Reset :: "JPEGDecoder \<Rightarrow> JPEGDecoder" where
  "JPEG_Reset d = d\<lparr>jdc := replicate 4 0\<rparr>"

text \<open>The state of the tile loop: the decoder, its stream and the framebuffer.\<close>

record tile_state =
  ts_dec :: JPEGDecoder
  ts_bs :: bitStream
  ts_fb :: Framebuffer

text \<open>One block of channel \<open>ch\<close>; the predictor is updated in place.\<close>

definition channel_block ::
  "(rat \<Rightarrow> rat) \<Rightarrow> huffmanTable \<Rightarrow> huffmanTable \<Rightarrow> rat list \<Rightarrow> nat \<Rightarrow> tile_state \<Rightarrow> 32 word list result \<times> tile_state" where
  "channel_block cos64 dcH acH q ch st =
     (case decodeBlockJPEG cos64 dcH acH q (jdc (ts_dec st) ! ch) (ts_bs st) of
        (Inl e, b) \<Rightarrow> (Inl e, st\<lparr>ts_bs := b\<rparr>)
      | (Inr (dc, out), b) \<Rightarrow> (Inr out, st\<lparr>ts_bs := b, ts_dec := (ts_dec st)\<lparr>jdc := (jdc (ts_dec st))[ch := dc]\<rparr>\<rparr>))"

fun y_blocks :: "(rat \<Rightarrow> rat) \<Rightarrow> huffmanTable \<Rightarrow> huffmanTable \<Rightarrow> rat list \<Rightarrow> nat \<Rightarrow> tile_state \<Rightarrow> 32 word list list result \<times> tile_state" where
  "y_blocks cos64 dcH acH q 0 st = (Inr [], st)"
| "y_blocks cos64 dcH acH q (Suc n) st =
     bs_then (channel_block cos64 dcH acH q 0 st) (\<lambda>blk st.
     bs_then (y_blocks cos64 dcH acH q n st) (\<lambda>blks st. (Inr (blk # blks), st)))"

type_synonym tables4 = "huffmanTable \<times> huffmanTable \<times> huffmanTable \<times> huffmanTable"

definition decode_mcu :: "(rat \<Rightarrow> rat) \<Rightarrow> tables4 \<Rightarrow> rat list \<Rightarrow> rat list \<Rightarrow> byte \<Rightarrow> int \<Rightarrow> int \<Rightarrow> tile_state \<Rightarrow> unit result \<times> tile_state" where
  "decode_mcu cos64 tabs yScaled cScaled mode px py st =
     (case tabs of (dcL, dcC, acL, acC) \<Rightarrow>
        bs_then (y_blocks cos64 dcL acL yScaled (if mode = 1 then 2 else 1) st) (\<lambda>ys st.
        bs_then (channel_block cos64 dcC acC cScaled 1 st) (\<lambda>cb st.
        bs_then (channel_block cos64 dcC acC cScaled 2 st) (\<lambda>cr st.
          (case renderMCU (ts_fb st) px py mode ys cb cr of
             Inl e \<Rightarrow> (Inl e, st)
           | Inr fb \<Rightarrow> (Inr (), st\<lparr>ts_fb := fb\<rparr>))))))"

text \<open>The positions of the units are visited row by row.\<close>

fun mcu_loop :: "(rat \<Rightarrow> rat) \<Rightarrow> tables4 \<Rightarrow> rat list \<Rightarrow> rat list \<Rightarrow> byte \<Rightarrow> (int \<times> int) list \<Rightarrow> tile_state \<Rightarrow> unit result \<times> tile_state" where
  "mcu_loop cos64 tabs yS cS mode [] st = (Inr (), st)"
| "mcu_loop cos64 tabs yS cS mode ((px, py) # ps) st =
     bs_then (decode_mcu cos64 tabs yS cS mode px py st) (\<lambda>_ st. mcu_loop cos64 tabs yS cS mode ps st)"

definition mcu_origins :: "int \<Rightarrow> int \<Rightarrow> int \<Rightarrow> int \<Rightarrow> byte \<Rightarrow> (int \<times> int) list" where
  "mcu_origins x0 y0 tw th mode =
     (let mcuW = (if mode = 1 then 16 else 8);
          mcuH = 8;
          mcuX = (tw + mcuW - 1) sdiv mcuW;
          mcuY = (th + mcuH - 1) sdiv mcuH
      in [(x0 + int mx * mcuW, y0 + int my * mcuH). my \<leftarrow> [0..<nat mcuY], mx \<leftarrow> [0..<nat mcuX]])"

definition DecodeTile ::
  "(rat \<Rightarrow> rat) \<Rightarrow> tables4 \<Rightarrow> JPEGDecoder \<Rightarrow> Framebuffer \<Rightarrow> int \<Rightarrow> int \<Rightarrow> int \<Rightarrow> int \<Rightarrow> byte \<Rightarrow> byte \<Rightarrow> byte \<Rightarrow> bytes
     \<Rightarrow> (nat \<times> Framebuffer \<times> JPEGDecoder) result" where
  "DecodeTile cos64 tabs d fb x0 y0 tw th mode yq cq payload =
     (if unat yq \<ge> length quantY \<or> unat cq \<ge> length quantC then Inr (0, fb, d)
      else
        let yScaled = buildScaledQuant (quantY ! unat yq);
            cScaled = buildScaledQuant (quantC ! unat cq);
            b = \<lparr>bs_data = payload, bs_pos = 0, bs_acc = 0, bs_n = 0\<rparr>
        in case mcu_loop cos64 tabs yScaled cScaled mode (mcu_origins x0 y0 tw th mode) \<lparr>ts_dec = JPEG_Reset d, ts_bs = b, ts_fb = fb\<rparr> of
             (Inl e, st) \<Rightarrow> Inl e
           | (Inr _, st) \<Rightarrow> Inr (bs_pos (ts_bs st), ts_fb st, ts_dec st))"


section \<open>Lemmas: bit stream\<close>

text \<open>What the stream still holds: the valid bits of the accumulator, then the bytes not yet loaded, most significant bit first.\<close>

definition byte_bits :: "byte \<Rightarrow> bool list" where
  "byte_bits x = map (\<lambda>i. bit x (7 - i)) [0..<8]"

definition acc_bits :: "u64 \<Rightarrow> nat \<Rightarrow> bool list" where
  "acc_bits w n = map (\<lambda>i. bit w (63 - i)) [0..<n]"

definition bs_rest :: "bitStream \<Rightarrow> bool list" where
  "bs_rest b = acc_bits (bs_acc b) (bs_n b) @ concat (map byte_bits (drop (bs_pos b) (bs_data b)))"

definition bs_inv :: "bitStream \<Rightarrow> bool" where
  "bs_inv b \<longleftrightarrow> bs_n b \<le> 64 \<and> bs_pos b \<le> length (bs_data b) \<and> (\<forall>i < 64. bit (bs_acc b) i \<longrightarrow> 64 - bs_n b \<le> i)"

lemma length_acc_bits [simp]: "length (acc_bits w n) = n"
  by (simp add: acc_bits_def)

lemma load_byte:
  assumes "n \<le> 56" "\<forall>i < 64. bit w i \<longrightarrow> 64 - n \<le> i"
  shows "acc_bits (w OR push_bit (56 - n) (ucast (x :: byte))) (n + 8) = acc_bits w n @ byte_bits x"
    "\<forall>i < 64. bit (w OR push_bit (56 - n) (ucast x)) i \<longrightarrow> 64 - (n + 8) \<le> i"
proof -
  have b: "bit (w OR push_bit (56 - n) (ucast x)) i \<longleftrightarrow> bit w i \<or> (56 - n \<le> i \<and> i < 64 \<and> bit x (i - (56 - n)))" for i
    by (auto simp: bit_simps dest: bit_imp_le_length)
  show "acc_bits (w OR push_bit (56 - n) (ucast x)) (n + 8) = acc_bits w n @ byte_bits x"
  proof (rule nth_equalityI)
    fix i assume "i < length (acc_bits (w OR push_bit (56 - n) (ucast x)) (n + 8))"
    then have i: "i < n + 8" by simp
    show "acc_bits (w OR push_bit (56 - n) (ucast x)) (n + 8) ! i = (acc_bits w n @ byte_bits x) ! i"
    proof (cases "i < n")
      case True
      then have "8 \<le> (63 - i) - (56 - n)" using assms(1) by linarith
      then have "\<not> bit x ((63 - i) - (56 - n))" by (auto dest: bit_imp_le_length)
      then show ?thesis using True i by (simp add: acc_bits_def nth_append b)
    next
      case False
      then have "\<not> bit w (63 - i)" using assms i by (auto dest!: spec [of _ "63 - i"])
      moreover obtain j where j: "i = n + j" "j < 8" using False i by (metis le_Suc_ex nat_add_left_cancel_less not_less)
      then have "(63 - i) - (56 - n) = 7 - j" "56 - n \<le> 63 - i" "63 - i < 64" using assms(1) by linarith+
      ultimately show ?thesis using j by (simp add: acc_bits_def byte_bits_def nth_append b del: diff_diff_left)
    qed
  qed (simp add: byte_bits_def)
  show "\<forall>i < 64. bit (w OR push_bit (56 - n) (ucast x)) i \<longrightarrow> 64 - (n + 8) \<le> i"
    using assms(2) by (auto simp: b)
qed

lemma bs_fill_spec:
  "bs_inv b \<Longrightarrow> bs_inv (bs_fill b) \<and> bs_rest (bs_fill b) = bs_rest b \<and> bs_data (bs_fill b) = bs_data b
     \<and> (56 < bs_n (bs_fill b) \<or> bs_pos (bs_fill b) = length (bs_data b))"
proof (induction b rule: bs_fill.induct)
  case (1 b)
  show ?case
  proof (cases "bs_n b \<le> 56 \<and> bs_pos b < length (bs_data b)")
    case True
    let ?b = "b\<lparr>bs_acc := bs_acc b OR push_bit (56 - bs_n b) (ucast (bs_data b ! bs_pos b)), bs_n := bs_n b + 8, bs_pos := bs_pos b + 1\<rparr>"
    have l: "bs_n b \<le> 56" "\<forall>i < 64. bit (bs_acc b) i \<longrightarrow> 64 - bs_n b \<le> i" using True 1(2) by (simp_all add: bs_inv_def)
    have "bs_inv ?b" using load_byte(2) [OF l] True by (simp add: bs_inv_def)
    moreover have "bs_rest ?b = bs_rest b" using True load_byte(1) [OF l] by (simp add: bs_rest_def flip: Cons_nth_drop_Suc)
    ultimately show ?thesis using 1(1) [OF True] True by (subst (1 2 3 4 5) bs_fill.simps) simp
  next
    case False
    then show ?thesis using 1(2) by (subst (1 2 3 4 5) bs_fill.simps) (auto simp: bs_inv_def)
  qed
qed

lemma bits_val_acc:
  assumes "k \<le> 32"
  shows "uint (ucast (drop_bit (64 - k) w) :: u32) = bits_val (acc_bits w k)"
proof -
  have hi: "\<not> bit w i" if "64 \<le> i" for i using that by (auto dest: bit_imp_le_length)
  have "bit (ucast (drop_bit (64 - k) w) :: u32) i \<longleftrightarrow> i < k \<and> bit w (64 - k + i)" for i
  proof -
    have "i < k" if "bit w (64 - k + i)" using hi [of "64 - k + i"] that assms by linarith
    then show ?thesis using assms by (auto simp: bit_simps)
  qed
  note b = this
  have "uint (ucast (drop_bit (64 - k) w) :: u32) = take_bit k (uint (ucast (drop_bit (64 - k) w) :: u32))"
    by (rule bit_eqI) (auto simp: bit_take_bit_iff bit_uint_iff b)
  also have "\<dots> = horner_sum of_bool 2 (map (bit (uint (ucast (drop_bit (64 - k) w) :: u32))) [0..<k])"
    by (simp add: horner_sum_bit_eq_take_bit)
  also have "map (bit (uint (ucast (drop_bit (64 - k) w) :: u32))) [0..<k] = rev (acc_bits w k)"
  proof (rule nth_equalityI)
    fix i assume "i < length (map (bit (uint (ucast (drop_bit (64 - k) w) :: u32))) [0..<k])"
    then have i: "i < k" by simp
    then have "63 - (k - Suc i) = 64 - k + i" using assms by linarith
    then show "map (bit (uint (ucast (drop_bit (64 - k) w) :: u32))) [0..<k] ! i = rev (acc_bits w k) ! i"
      using i b [of i] assms by (simp add: acc_bits_def rev_nth bit_simps)
  qed simp
  finally show ?thesis by (simp add: bits_val_def)
qed

text \<open>A read that the stream can serve returns the next bits; any other returns zero and leaves the stream as it is.\<close>

lemma bs_get_spec:
  assumes "bs_inv b" "k \<le> 32"
  shows "\<exists>v b'. bs_get k b = (v, b') \<and> bs_inv b' \<and> bs_data b' = bs_data b
    \<and> (if k \<le> length (bs_rest b) then uint v = bits_val (take k (bs_rest b)) \<and> bs_rest b' = drop k (bs_rest b)
       else v = 0 \<and> bs_rest b' = bs_rest b)"
proof -
  define c where "c = bs_fill b"
  have c: "bs_inv c" "bs_rest c = bs_rest b" "bs_data c = bs_data b" "56 < bs_n c \<or> bs_pos c = length (bs_data c)"
    using bs_fill_spec [OF assms(1)] by (simp_all add: c_def)
  have g: "bs_get k b = (if bs_n c < k then (0, c)
      else (ucast (drop_bit (64 - k) (bs_acc c)), c\<lparr>bs_acc := push_bit k (bs_acc c), bs_n := bs_n c - k\<rparr>))"
    by (simp add: bs_get_def c_def Let_def)
  show ?thesis
  proof (cases "bs_n c < k")
    case True
    then have "bs_rest c = acc_bits (bs_acc c) (bs_n c)" using c(4) assms(2) by (simp add: bs_rest_def)
    then have "length (bs_rest b) = bs_n c" using c(2) by (metis length_acc_bits)
    then show ?thesis using True g c by (intro exI [of _ 0] exI [of _ c]) simp
  next
    case False
    let ?c = "c\<lparr>bs_acc := push_bit k (bs_acc c), bs_n := bs_n c - k\<rparr>"
    have n: "bs_n c \<le> 64" "k \<le> bs_n c" using False c(1) by (simp_all add: bs_inv_def)
    have t: "take k (bs_rest c) = acc_bits (bs_acc c) k" using n(2)
      by (simp add: bs_rest_def) (simp add: acc_bits_def take_map)
    have "drop k (acc_bits (bs_acc c) (bs_n c)) = acc_bits (push_bit k (bs_acc c)) (bs_n c - k)"
      using n by (intro nth_equalityI) (auto simp: acc_bits_def bit_simps add.commute)
    then have d: "bs_rest ?c = drop k (bs_rest c)" using n(2) by (simp add: bs_rest_def)
    have "64 - (bs_n c - k) \<le> i" if "i < 64" "bit (push_bit k (bs_acc c)) i" for i
    proof -
      have "k \<le> i" "64 - bs_n c \<le> i - k" using that c(1) by (auto simp: bs_inv_def bit_simps)
      then show ?thesis using n by linarith
    qed
    then have "bs_inv ?c" using c(1) n by (simp add: bs_inv_def)
    moreover have "k \<le> length (bs_rest c)" using n(2) by (simp add: bs_rest_def)
    ultimately show ?thesis using False g c(2,3) t d bits_val_acc [OF assms(2), of "bs_acc c"] by simp
  qed
qed

lemma bs_get_keeps: "bs_inv b \<Longrightarrow> k \<le> 32 \<Longrightarrow> bs_get k b = (v, b') \<Longrightarrow> bs_inv b' \<and> bs_data b' = bs_data b"
  using bs_get_spec [of b k] by auto

lemma bs_get_next:
  assumes "bs_inv b" "length xs \<le> 32" "bs_rest b = xs @ ys"
  shows "\<exists>v b'. bs_get (length xs) b = (v, b') \<and> bs_inv b' \<and> bs_data b' = bs_data b \<and> uint v = bits_val xs \<and> bs_rest b' = ys"
  using bs_get_spec [OF assms(1,2)] assms(3) by simp

lemma bs_get1_bit: "bs_inv b \<Longrightarrow> bs_get 1 b = (v, b') \<Longrightarrow> uint v \<in> {0, 1}"
  using bs_get_spec [of b 1] by (cases "bs_rest b") (auto simp: bits_val_def split: if_splits)

lemma bs_get1_next:
  assumes "bs_inv b" "bs_rest b = x # ys"
  shows "\<exists>v b'. bs_get 1 b = (v, b') \<and> bs_inv b' \<and> bs_data b' = bs_data b \<and> uint v = of_bool x \<and> bs_rest b' = ys"
  using bs_get_next [OF assms(1), of "[x]" ys] assms(2) by (auto simp: bits_val_def)

lemma shift_in: "(v :: int) \<in> {0, 1} \<Longrightarrow> push_bit 1 code OR v = 2 * code + v"
  by (auto simp: push_bit_eq_mult or_one_eq)

section \<open>Lemmas: Huffman tables\<close>

definition level_built :: "nat list \<Rightarrow> huffmanTable \<Rightarrow> nat \<Rightarrow> bool" where
  "level_built bits h l \<longleftrightarrow>
     hMaxCode h ! l = (if bits ! l = 0 then - 1 else first_code bits l + int (bits ! l) - 1)
     \<and> (bits ! l \<noteq> 0 \<longrightarrow> hMinCode h ! l = first_code bits l \<and> hValPtr h ! l = first_sym bits l)"

definition built_upto :: "nat list \<Rightarrow> bytes \<Rightarrow> nat \<Rightarrow> huffmanTable \<Rightarrow> bool" where
  "built_upto bits vals m h \<longleftrightarrow>
     length (hMinCode h) = 17 \<and> length (hMaxCode h) = 17 \<and> length (hValPtr h) = 17 \<and> length (hValues h) = 4096
     \<and> take (first_sym bits m) (hValues h) = take (first_sym bits m) vals \<and> (\<forall>l. 1 \<le> l \<longrightarrow> l < m \<longrightarrow> level_built bits h l)"

definition bits_ok :: "nat list \<Rightarrow> bytes \<Rightarrow> bool" where
  "bits_ok bits vals \<longleftrightarrow> length bits = 17 \<and> bits ! 0 = 0 \<and> sum_list bits = length vals \<and> length vals \<le> 4096
     \<and> (\<forall>l < 17. first_code bits l + int (bits ! l) \<le> 2 ^ l)"

lemma first_sym_Suc: "l < length bits \<Longrightarrow> first_sym bits (Suc l) = first_sym bits l + bits ! l"
  by (simp add: first_sym_def take_Suc_conv_app_nth)

lemma first_sym_le: "first_sym bits l \<le> sum_list bits"
  using sum_list_append [of "take l bits" "drop l bits"] by (simp add: first_sym_def)

lemma copy_symbols_ok:
  "vi + n \<le> length hv \<Longrightarrow> vi + n \<le> length vs \<Longrightarrow>
     copy_symbols hv n vi vs = Inr (take vi vs @ take n (drop vi hv) @ drop (vi + n) vs)"
proof (induction n arbitrary: vi vs)
  case (Suc n)
  then have "copy_symbols hv (Suc n) vi vs
      = Inr (take (vi + 1) (vs[vi := hv ! vi]) @ take n (drop (vi + 1) hv) @ drop (vi + 1 + n) (vs[vi := hv ! vi]))" by simp
  also have "\<dots> = Inr (take vi vs @ take (Suc n) (drop vi hv) @ drop (vi + Suc n) vs)"
    using Suc.prems by (simp add: take_Suc_conv_app_nth drop_update_cancel flip: Cons_nth_drop_Suc)
  finally show ?case .
qed simp

lemma build_levels_ok:
  assumes "bits_ok bits vals"
  shows "1 \<le> m \<Longrightarrow> m \<le> 17 \<Longrightarrow> built_upto bits vals m h \<Longrightarrow>
    \<exists>h'. build_levels bits vals [m..<17] (first_code bits m) (first_sym bits m) h = Inr h' \<and> built_upto bits vals 17 h'"
proof (induction "17 - m" arbitrary: m h)
  case 0
  then have "m = 17" by simp
  then show ?case using 0 by simp
next
  case (Suc n)
  then have m: "m < 17" "[m..<17] = m # [Suc m..<17]" "n = 17 - Suc m" by (auto simp: upt_conv_Cons)
  have fs: "first_sym bits (Suc m) = first_sym bits m + bits ! m" "first_sym bits (Suc m) \<le> length vals"
    using assms m(1) first_sym_le [of bits "Suc m"] by (simp_all add: bits_ok_def first_sym_Suc)
  have b: "length (hMinCode h) = 17" "length (hMaxCode h) = 17" "length (hValPtr h) = 17" "length (hValues h) = 4096"
    "take (first_sym bits m) (hValues h) = take (first_sym bits m) vals" "\<And>l. 1 \<le> l \<Longrightarrow> l < m \<Longrightarrow> level_built bits h l"
    using Suc.prems(3) by (auto simp: built_upto_def)
  note next_level = Suc.hyps(1) [OF m(3)]
  show ?case
  proof (cases "bits ! m = 0")
    case True
    let ?h = "h\<lparr>hMinCode := (hMinCode h)[m := 0x10000], hMaxCode := (hMaxCode h)[m := - 1], hValPtr := (hValPtr h)[m := first_sym bits m]\<rparr>"
    have "level_built bits ?h l" if "1 \<le> l" "l < Suc m" for l
      using that b True m(1) by (cases "l = m") (auto simp: level_built_def)
    then have "built_upto bits vals (Suc m) ?h" using b fs True by (auto simp: built_upto_def)
    from next_level [OF _ _ this] show ?thesis using True m fs by (simp add: push_bit_eq_mult mult.commute)
  next
    case False
    let ?v = "take (first_sym bits m) (hValues h) @ take (bits ! m) (drop (first_sym bits m) vals) @ drop (first_sym bits m + bits ! m) (hValues h)"
    let ?h = "h\<lparr>hMinCode := (hMinCode h)[m := first_code bits m], hValPtr := (hValPtr h)[m := first_sym bits m], hValues := ?v,
      hMaxCode := (hMaxCode h)[m := first_code bits m + int (bits ! m) - 1]\<rparr>"
    have len: "length vals \<le> 4096" using assms by (simp add: bits_ok_def)
    have c: "copy_symbols vals (bits ! m) (first_sym bits m) (hValues h) = Inr ?v"
      using fs len b(4) by (intro copy_symbols_ok) auto
    have "level_built bits ?h l" if "1 \<le> l" "l < Suc m" for l
      using that b False m(1) by (cases "l = m") (auto simp: level_built_def)
    moreover have "take (first_sym bits (Suc m)) ?v = take (first_sym bits (Suc m)) vals"
      using fs len b(4,5) by (simp add: take_add)
    moreover have "length ?v = 4096" using fs len b(4) by simp
    ultimately have "built_upto bits vals (Suc m) ?h" using b by (simp add: built_upto_def)
    from next_level [OF _ _ this] show ?thesis
      using False m c fs by (simp add: push_bit_eq_mult mult.commute Let_def)
  qed
qed

definition jpeg_huff :: "huffmanTable \<Rightarrow> nat list \<Rightarrow> bytes \<Rightarrow> bool" where
  "jpeg_huff h bits vals \<longleftrightarrow> bits_ok bits vals \<and> built_upto bits vals 17 h"

lemma buildHuffman_ok:
  assumes "bits_ok bits vals"
  shows "\<exists>h. buildHuffman bits vals = Inr h \<and> jpeg_huff h bits vals"
proof -
  have "first_code bits 1 = 0" "first_sym bits 1 = 0" using assms by (cases bits; simp add: bits_ok_def first_sym_def)+
  then show ?thesis
    using build_levels_ok [OF assms, of 1 "\<lparr>hMinCode = replicate 17 0, hMaxCode = replicate 17 0, hValues = replicate 4096 0, hValPtr = replicate 17 0\<rparr>"] assms
    by (simp add: buildHuffman_def jpeg_huff_def built_upto_def)
qed

lemma jpeg_bits_ok: "bits_ok xbBits ybVals" "bits_ok zbBits abVals" "bits_ok bbBits cbVals" "bits_ok dbBits ebVals"
proof -
  have len: "length ybVals = 12" "length abVals = 12" "length cbVals = 162" "length ebVals = 162" by code_simp+
  show "bits_ok xbBits ybVals" "bits_ok zbBits abVals" "bits_ok bbBits cbVals" "bits_ok dbBits ebVals"
    using avo_tables len by (simp_all add: huff_spec_def bits_ok_def)
qed

definition tables_ok :: "tables4 \<Rightarrow> bool" where
  "tables_ok tabs = (case tabs of (dcL, dcC, acL, acC) \<Rightarrow>
     jpeg_huff dcL xbBits ybVals \<and> jpeg_huff dcC zbBits abVals \<and> jpeg_huff acL bbBits cbVals \<and> jpeg_huff acC dbBits ebVals)"

lemma jpeg_tables_ok: "\<exists>tabs. jpeg_tables = Inr tabs \<and> tables_ok tabs"
  using jpeg_bits_ok [THEN buildHuffman_ok] by (auto simp: jpeg_tables_def tables_ok_def)

section \<open>Lemmas: reading symbols\<close>

lemma built_level: "jpeg_huff h bits vals \<Longrightarrow> 1 \<le> l \<Longrightarrow> l < 17 \<Longrightarrow> level_built bits h l"
  by (simp add: jpeg_huff_def built_upto_def)

lemma built_value:
  assumes "jpeg_huff h bits vals" "l < 17" "j < bits ! l"
  shows "first_sym bits l + j < 4096" "first_sym bits l + j < length vals" "hValues h ! (first_sym bits l + j) = vals ! (first_sym bits l + j)"
proof -
  have h: "length bits = 17" "sum_list bits = length vals" "length vals \<le> 4096" "take (first_sym bits 17) (hValues h) = take (first_sym bits 17) vals"
    using assms(1) by (simp_all add: jpeg_huff_def bits_ok_def built_upto_def)
  then have all: "first_sym bits 17 = length vals" by (simp add: first_sym_def)
  show i: "first_sym bits l + j < length vals"
    using first_sym_Suc [of l bits] first_sym_le [of bits "Suc l"] assms(2,3) h(1,2) by simp
  then show "first_sym bits l + j < 4096" using h(3) by simp
  show "hValues h ! (first_sym bits l + j) = vals ! (first_sym bits l + j)"
    using h(4) nth_take [OF i, of "hValues h"] nth_take [OF i, of vals] unfolding all by simp
qed

text \<open>The entry a code of the right range selects.\<close>

lemma symbol_entry:
  assumes "jpeg_huff h bits vals" "1 \<le> l" "l < 17" "first_code bits l \<le> code" "code \<le> hMaxCode h ! l"
  shows "0 \<le> int (hValPtr h ! l) + (code - hMinCode h ! l)" "int (hValPtr h ! l) + (code - hMinCode h ! l) < int (length (hValues h))"
    "nat (int (hValPtr h ! l) + (code - hMinCode h ! l)) = first_sym bits l + nat (code - first_code bits l)"
    "nat (code - first_code bits l) < bits ! l"
proof -
  have "0 \<le> code" using first_code_nonneg [of bits l] assms(4) by linarith
  then have nz: "bits ! l \<noteq> 0" using built_level [OF assms(1-3)] assms(5) by (cases "bits ! l = 0") (auto simp: level_built_def)
  then have e: "hMinCode h ! l = first_code bits l" "hValPtr h ! l = first_sym bits l" "code < first_code bits l + int (bits ! l)"
    using built_level [OF assms(1-3)] assms(5) nz by (simp_all add: level_built_def)
  then show j: "nat (code - first_code bits l) < bits ! l" using assms(4) by linarith
  show "nat (int (hValPtr h ! l) + (code - hMinCode h ! l)) = first_sym bits l + nat (code - first_code bits l)"
    "0 \<le> int (hValPtr h ! l) + (code - hMinCode h ! l)" using e assms(4) by auto
  have "length (hValues h) = 4096" using assms(1) by (simp add: jpeg_huff_def built_upto_def)
  then show "int (hValPtr h ! l) + (code - hMinCode h ! l) < int (length (hValues h))"
    using built_value(1) [OF assms(1,3) j] e assms(4) by linarith
qed

lemma symbol_loop_safe:
  assumes "jpeg_huff h bits vals"
  shows "1 \<le> l \<Longrightarrow> l \<le> 17 \<Longrightarrow> first_code bits l \<le> 2 * code \<Longrightarrow> bs_inv b \<Longrightarrow>
    \<exists>x b'. symbol_loop h [l..<17] code b = (Inr x, b') \<and> bs_inv b' \<and> bs_data b' = bs_data b \<and> (x = 0 \<or> x \<in> set vals)"
proof (induction "17 - l" arbitrary: l code b)
  case 0
  then show ?case by simp
next
  case (Suc n)
  then have l: "l < 17" "[l..<17] = l # [Suc l..<17]" "n = 17 - Suc l" by (auto simp: upt_conv_Cons)
  obtain v b1 where g: "bs_get 1 b = (v, b1)" by (cases "bs_get 1 b")
  have v: "uint v \<in> {0, 1}" "bs_inv b1" "bs_data b1 = bs_data b" using bs_get1_bit [OF Suc.prems(4) g] bs_get_keeps [OF Suc.prems(4) _ g] by simp_all
  let ?c = "2 * code + uint v"
  have c: "push_bit 1 code OR uint v = ?c" "first_code bits l \<le> ?c" using shift_in [OF v(1)] v(1) Suc.prems(3) by auto
  show ?case
  proof (cases "?c \<le> hMaxCode h ! l")
    case True
    note e = symbol_entry [OF assms Suc.prems(1) l(1) c(2) True]
    have "hValues h ! (first_sym bits l + nat (?c - first_code bits l)) \<in> set vals"
      using built_value [OF assms l(1) e(4)] by simp
    then show ?thesis using True e(1-3) g c(1) v l(2) by (simp add: Let_def)
  next
    case False
    then have "first_code bits (Suc l) \<le> 2 * ?c"
      using built_level [OF assms Suc.prems(1) l(1)] c(2) by (auto simp: level_built_def split: if_splits)
    from Suc.hyps(1) [OF l(3) _ _ this v(2)] show ?thesis using False g c(1) v(3) l by (simp add: Let_def)
  qed
qed

lemma decodeSymbol_safe:
  assumes "jpeg_huff h bits vals" "bs_inv b"
  shows "\<exists>x b'. bs_decodeSymbol h b = (Inr x, b') \<and> bs_inv b' \<and> bs_data b' = bs_data b \<and> (x = 0 \<or> x \<in> set vals)"
proof -
  have "first_code bits 1 = 0" using assms(1) by (simp add: jpeg_huff_def bits_ok_def)
  then show ?thesis using symbol_loop_safe [OF assms(1), of 1 0 b] assms(2) by (simp add: bs_decodeSymbol_def)
qed

lemma code_bits_Suc: "code_bits (Suc n) c = bit c n # code_bits n c"
  by (simp add: code_bits_def)

lemma div_pow_step: "2 * (c div 2 ^ Suc m) + of_bool (bit c m) = (c div 2 ^ m :: int)"
proof -
  have "c div 2 ^ Suc m = c div 2 ^ m div 2" unfolding power_Suc2 by (rule zdiv_zmult2_eq) simp
  then show ?thesis by (simp add: bit_iff_odd)
qed

lemma symbol_loop_code:
  assumes "jpeg_huff h bits vals" "1 \<le> L" "L < 17" "j < bits ! L"
  defines "c \<equiv> first_code bits L + int j"
  shows "m < L \<Longrightarrow> bs_inv b \<Longrightarrow> bs_rest b = code_bits (Suc m) c @ ys \<Longrightarrow>
    \<exists>b'. symbol_loop h [L - m..<17] (c div 2 ^ Suc m) b = (Inr (vals ! (first_sym bits L + j)), b')
      \<and> bs_inv b' \<and> bs_data b' = bs_data b \<and> bs_rest b' = ys"
proof (induction m arbitrary: b)
  case 0
  have "bs_rest b = bit c 0 # ys" using 0 by (simp add: code_bits_Suc) (simp add: code_bits_def)
  then obtain v b1 where g: "bs_get 1 b = (v, b1)" "bs_inv b1" "bs_data b1 = bs_data b" "uint v = of_bool (bit c 0)" "bs_rest b1 = ys"
    using bs_get1_next [OF 0(2)] by blast
  have nz: "bits ! L \<noteq> 0" using assms(4) by simp
  have code: "push_bit 1 (c div 2) OR uint v = c" using shift_in [of "uint v"] div_pow_step [of c 0] g(4) by simp
  have mx: "first_code bits L \<le> c" "c \<le> hMaxCode h ! L"
    using built_level [OF assms(1-3)] nz assms(4) by (auto simp: level_built_def c_def)
  note e = symbol_entry [OF assms(1-3) mx]
  have "nat (c - first_code bits L) = j" by (simp add: c_def)
  then show ?case using g e(1-3) code mx(2) assms(3) built_value(3) [OF assms(1,3,4)] by (simp add: upt_conv_Cons Let_def)
next
  case (Suc m)
  let ?l = "L - Suc m"
  have l: "1 \<le> ?l" "?l < L" "?l < 17" "[?l..<17] = ?l # [L - m..<17]" "L - ?l = Suc m"
    using Suc.prems(1) assms(3) by (auto simp: upt_conv_Cons Suc_diff_Suc)
  obtain v b1 where g: "bs_get 1 b = (v, b1)" "bs_inv b1" "bs_data b1 = bs_data b" "uint v = of_bool (bit c (Suc m))"
    "bs_rest b1 = code_bits (Suc m) c @ ys"
    using bs_get1_next [OF Suc.prems(2), of "bit c (Suc m)" "code_bits (Suc m) c @ ys"] Suc.prems(3) by (auto simp: code_bits_Suc)
  have code: "push_bit 1 (c div 2 ^ Suc (Suc m)) OR uint v = c div 2 ^ Suc m"
    using shift_in [of "uint v"] div_pow_step [of c "Suc m"] g(4) by simp
  have "(first_code bits ?l + int (bits ! ?l)) * 2 ^ Suc m \<le> c"
    using first_code_grows [OF l(2), of bits] unfolding l(5) c_def by simp
  then have "first_code bits ?l + int (bits ! ?l) \<le> c div 2 ^ Suc m"
    by (metis zdiv_mono1 nonzero_mult_div_cancel_right zero_less_numeral zero_less_power zero_neq_numeral power_not_zero)
  moreover have "0 \<le> c div 2 ^ Suc m" using first_code_nonneg [of bits L] by (simp add: c_def pos_imp_zdiv_nonneg_iff)
  ultimately have "\<not> c div 2 ^ Suc m \<le> hMaxCode h ! ?l"
    using built_level [OF assms(1) l(1,3)] by (cases "bits ! ?l = 0") (auto simp: level_built_def)
  then show ?case using Suc.IH [OF _ g(2,5)] Suc.prems(1) g(1,3) code l(4) by (simp add: Let_def del: power_Suc)
qed

lemma decodeSymbol_bits:
  assumes "jpeg_huff h bits vals" "sym_bits bits vals rs bs" "bs_inv b" "bs_rest b = bs @ ys"
  shows "\<exists>b'. bs_decodeSymbol h b = (Inr rs, b') \<and> bs_inv b' \<and> bs_data b' = bs_data b \<and> bs_rest b' = ys"
proof -
  obtain l j where s: "1 \<le> l" "l \<le> 16" "j < bits ! l" "vals ! (first_sym bits l + j) = rs" "bs = code_bits l (first_code bits l + int j)"
    using assms(2) by (auto simp: sym_bits_def)
  have "first_code bits l + int (bits ! l) \<le> 2 ^ l" using assms(1) s(2) by (simp add: jpeg_huff_def bits_ok_def)
  then have "first_code bits l + int j < 2 ^ l" "0 \<le> first_code bits l + int j" using s(3) first_code_nonneg [of bits l] by auto
  then have "(first_code bits l + int j) div 2 ^ Suc (l - 1) = 0" using s(1) by (simp add: div_pos_pos_trivial)
  then show ?thesis
    using symbol_loop_code [OF assms(1) s(1) _ s(3), of "l - 1" b ys] assms(3,4) s by (simp add: bs_decodeSymbol_def)
qed

lemma extendTable_val: "0 < n \<Longrightarrow> n < 16 \<Longrightarrow> sint (extendTable ! n) = 1 - 2 ^ n"
proof -
  have "list_all (\<lambda>n. sint (extendTable ! n) = 1 - 2 ^ n) [1..<16]" by code_simp
  then show "0 < n \<Longrightarrow> n < 16 \<Longrightarrow> ?thesis" by (simp add: list_all_iff)
qed

lemma length_extendTable [simp]: "length extendTable = 16"
  by (simp add: extendTable_def)

lemma decodeValue_safe:
  assumes "n < 16" "bs_inv b"
  shows "\<exists>v b'. bs_decodeValue n b = (Inr v, b') \<and> bs_inv b' \<and> bs_data b' = bs_data b"
  using bs_get_spec [of b n] assms by (auto simp: bs_decodeValue_def)

lemma uint_pow2: "k < 32 \<Longrightarrow> uint (push_bit k 1 :: u32) = 2 ^ k"
proof -
  assume "k < 32"
  then have "uint (push_bit k 1 :: u32) = push_bit k 1" by (intro bit_eqI) (auto simp: bit_simps)
  then show ?thesis by (simp add: push_bit_eq_mult)
qed

lemma decodeValue_bits:
  assumes "in_category n x" "n < 16" "bs_inv b" "bs_rest b = value_bits n x @ ys"
  shows "\<exists>b'. bs_decodeValue n b = (Inr (of_int x), b') \<and> bs_inv b' \<and> bs_data b' = bs_data b \<and> bs_rest b' = ys"
proof (cases "n = 0")
  case True
  then show ?thesis using assms by (simp add: bs_decodeValue_def in_category_def value_bits_def code_bits_def)
next
  case False
  let ?c = "if 0 < x then x else x + 2 ^ n - 1"
  have pow: "(2 :: int) ^ n = 2 * 2 ^ (n - 1)" using False by (cases n) auto
  have x: "2 ^ (n - 1) \<le> \<bar>x\<bar>" "\<bar>x\<bar> < 2 ^ n" using assms(1) False by (auto simp: in_category_def)
  then have c: "0 \<le> ?c" "?c < 2 ^ n" by auto
  obtain v b' where g: "bs_get n b = (v, b')" "bs_inv b'" "bs_data b' = bs_data b" "uint v = ?c" "bs_rest b' = ys"
    using bs_get_next [OF assms(3) _ assms(4)] assms(2) bits_val_code_bits [OF c] by (auto simp: value_bits_def)
  have lt: "v < push_bit (n - 1) 1 \<longleftrightarrow> x < 0"
    using g(4) x pow uint_pow2 [of "n - 1"] assms(2) by (auto simp: word_less_def)
  have "x \<noteq> 0" using x by auto
  then show ?thesis using False g lt assms(2) extendTable_val [of n] by (simp add: bs_decodeValue_def)
qed

section \<open>Lemmas: coefficients\<close>

lemma low_nibble: "unat (rs AND 0x0F :: byte) < 16"
proof -
  have "rs AND 0x0F \<le> (0x0F :: byte)" by (rule word_and_le1)
  then show ?thesis by (simp add: word_le_nat_alt)
qed

lemma jpeg_ac_safe:
  "jpeg_huff acH bits vals \<Longrightarrow> bs_inv b \<Longrightarrow> \<exists>c b'. jpeg_ac acH k coef b = (Inr c, b') \<and> bs_inv b' \<and> bs_data b' = bs_data b"
proof (induction acH k coef b rule: jpeg_ac.induct)
  case (1 acH k coef b)
  obtain rs b1 where s: "bs_decodeSymbol acH b = (Inr rs, b1)" "bs_inv b1" "bs_data b1 = bs_data b"
    using decodeSymbol_safe [OF 1(3,4)] by blast
  obtain v b2 where v: "bs_decodeValue (unat (rs AND 0x0F)) b1 = (Inr v, b2)" "bs_inv b2" "bs_data b2 = bs_data b"
    using decodeValue_safe [OF low_nibble s(2)] s(3) by metis
  show ?case
    using 1(1) [OF _ s(1) refl refl _ _ 1(3) s(2)] 1(2) [OF _ s(1) refl refl _ _ v(1) 1(3) v(2)] 1(4) s v
    by (subst jpeg_ac.simps) (auto simp: bs_then_def Let_def)
qed

text \<open>Where the block reader puts the coefficients: the one for zigzag position \<open>k\<close> goes to \<open>zigZag[k]\<close>.\<close>

definition jpeg_placed :: "32 word list \<Rightarrow> 32 word list" where
  "jpeg_placed coef = map (\<lambda>i. coef ! (invZigZag ! (invZigZag ! i))) [0..<64]"

lemma fold_inverse:
  "distinct p \<Longrightarrow> m \<le> length p \<Longrightarrow> (\<forall>n < m. p ! n < length z) \<Longrightarrow>
     length (fold (\<lambda>n z. z[p ! n := n]) [0..<m] z) = length z \<and> (\<forall>n < m. fold (\<lambda>n z. z[p ! n := n]) [0..<m] z ! (p ! n) = n)"
  by (induction m) (auto simp: nth_list_update less_Suc_eq nth_eq_iff_index_eq)

lemma zigzag_facts:
  shows "length zigZag = 64" "length invZigZag = 64"
    "k < 64 \<Longrightarrow> zigZag ! k < 64" "k < 64 \<Longrightarrow> invZigZag ! k < 64"
    "k < 64 \<Longrightarrow> invZigZag ! (zigZag ! k) = k" "k < 64 \<Longrightarrow> zigZag ! (invZigZag ! k) = k"
proof -
  have z: "distinct zigZag" "length zigZag = 64" "list_all (\<lambda>x. x < 64) zigZag" by code_simp+
  show "length zigZag = 64" by fact
  have lt: "zigZag ! k < 64" if "k < 64" for k using z(2,3) that by (simp add: list_all_length)
  have f: "length invZigZag = 64 \<and> (\<forall>n < 64. invZigZag ! (zigZag ! n) = n)"
    using fold_inverse [OF z(1), of 64 "replicate 64 0"] z(2) lt by (simp only: invZigZag_def length_replicate) simp
  have "set zigZag = {..<64}" using z lt distinct_card [OF z(1)]
    by (intro card_subset_eq) (auto simp: list_all_iff)
  then have sur: "\<exists>n < 64. zigZag ! n = k" if "k < 64" for k using that z(2) by (metis in_set_conv_nth lessThan_iff)
  show "length invZigZag = 64" "k < 64 \<Longrightarrow> zigZag ! k < 64" "k < 64 \<Longrightarrow> invZigZag ! (zigZag ! k) = k" using f lt by auto
  show "k < 64 \<Longrightarrow> invZigZag ! k < 64" "k < 64 \<Longrightarrow> zigZag ! (invZigZag ! k) = k" using f sur by metis+
qed

lemma jpeg_placed_update:
  assumes "k < 64" "length c = 64"
  shows "jpeg_placed (c[invZigZag ! k := v]) = (jpeg_placed c)[zigZag ! k := v]"
proof (rule nth_equalityI)
  fix i assume "i < length (jpeg_placed (c[invZigZag ! k := v]))"
  then have i: "i < 64" by (simp add: jpeg_placed_def)
  then have j: "invZigZag ! i < 64" "zigZag ! (invZigZag ! i) = i" by (simp_all add: zigzag_facts)
  have "invZigZag ! k = invZigZag ! (invZigZag ! i) \<longleftrightarrow> k = invZigZag ! i" using assms(1) j(1) by (metis zigzag_facts(6))
  also have "\<dots> \<longleftrightarrow> zigZag ! k = i" using assms(1) i j(2) by (metis zigzag_facts(5))
  finally have e: "invZigZag ! k = invZigZag ! (invZigZag ! i) \<longleftrightarrow> zigZag ! k = i" .
  have "invZigZag ! (invZigZag ! i) < 64" using j(1) by (simp add: zigzag_facts)
  then show "jpeg_placed (c[invZigZag ! k := v]) ! i = (jpeg_placed c)[zigZag ! k := v] ! i"
    using i e assms(2) zigzag_facts(3,4) [OF assms(1)] by (simp add: jpeg_placed_def nth_list_update)
qed (simp add: jpeg_placed_def)

lemma jpeg_ac_stream:
  assumes "jpeg_huff h bits vals"
  shows "ac_stream bits vals k c c' bs \<Longrightarrow> length c = 64 \<Longrightarrow> bs_inv b \<Longrightarrow> bs_rest b = bs @ ys \<Longrightarrow>
    \<exists>b'. jpeg_ac h k (jpeg_placed c) b = (Inr (jpeg_placed c'), b') \<and> bs_inv b' \<and> bs_data b' = bs_data b \<and> bs_rest b' = ys"
proof (induction arbitrary: b rule: ac_stream.induct)
  case (full k c)
  then show ?case by (subst jpeg_ac.simps) simp
next
  case (eob k bs c)
  then show ?case using decodeSymbol_bits [OF assms eob(2,4,5)] by (subst jpeg_ac.simps) (auto simp: bs_then_def)
next
  case (zrl k bs c c' bs')
  obtain b1 where s: "bs_decodeSymbol h b = (Inr 0xF0, b1)" "bs_inv b1" "bs_data b1 = bs_data b" "bs_rest b1 = bs' @ ys"
    using decodeSymbol_bits [OF assms zrl.hyps(2) zrl.prems(2), of "bs' @ ys"] zrl.prems(3) by auto
  show ?case using zrl.IH [OF zrl.prems(1) s(2,4)] s zrl.hyps(1) by (subst jpeg_ac.simps) (simp add: bs_then_def)
next
  case (coef k r n x bs c c' bs')
  obtain b1 where s: "bs_decodeSymbol h b = (Inr (of_nat (16 * r + n)), b1)" "bs_inv b1" "bs_data b1 = bs_data b"
    "bs_rest b1 = value_bits n x @ bs' @ ys"
    using decodeSymbol_bits [OF assms coef.hyps(6) coef.prems(2), of "value_bits n x @ bs' @ ys"] coef.prems(3) by auto
  obtain b2 where v: "bs_decodeValue n b1 = (Inr (of_int x), b2)" "bs_inv b2" "bs_data b2 = bs_data b" "bs_rest b2 = bs' @ ys"
    using decodeValue_bits [OF coef.hyps(5,4) s(2,4)] s(3) by auto
  have sc: "scast (of_int x :: 16 word) = (of_int x :: 32 word)"
    by (rule scast_of_int [OF in_category_small [OF coef.hyps(5,4)]])
  show ?case
    using coef.IH [OF _ v(2,4)] s v coef.hyps(1,3) rs_fields [OF coef.hyps(2,4)] coef.prems(1) jpeg_placed_update [OF coef.hyps(1) coef.prems(1)] sc
    by (subst jpeg_ac.simps) (simp add: bs_then_def Let_def)
qed

section \<open>Lemmas: blocks and tiles\<close>

lemma dc_categories: "x \<in> set ybVals \<union> set abVals \<Longrightarrow> unat x < 16"
proof -
  have "list_all (\<lambda>x. unat x < 16) (ybVals @ abVals)" by code_simp
  then show "x \<in> set ybVals \<union> set abVals \<Longrightarrow> unat x < 16" by (auto simp: list_all_iff)
qed

lemma decodeBlock_safe:
  assumes "jpeg_huff dcH dcb dcv" "jpeg_huff acH acb acv" "\<And>x. x \<in> set dcv \<Longrightarrow> unat x < 16" "bs_inv b"
  shows "\<exists>dc out b'. decodeBlockJPEG cos64 dcH acH q prev b = (Inr (dc, out), b') \<and> bs_inv b' \<and> bs_data b' = bs_data b"
proof -
  obtain s b1 where s: "bs_decodeSymbol dcH b = (Inr s, b1)" "bs_inv b1" "bs_data b1 = bs_data b" "s = 0 \<or> s \<in> set dcv"
    using decodeSymbol_safe [OF assms(1,4)] by blast
  then have "unat s < 16" using assms(3) by auto
  then obtain v b2 where v: "bs_decodeValue (unat s) b1 = (Inr v, b2)" "bs_inv b2" "bs_data b2 = bs_data b"
    using decodeValue_safe [OF _ s(2)] s(3) by metis
  show ?thesis using jpeg_ac_safe [OF assms(2) v(2), of 1 "(replicate 64 0)[0 := scast (prev + v)]"] s v
    by (auto simp: decodeBlockJPEG_def bs_then_def Let_def)
qed

text \<open>The tile state during a decode: a sound stream over the payload and an unchanged framebuffer.\<close>

definition tile_ok :: "bytes \<Rightarrow> Framebuffer \<Rightarrow> tile_state \<Rightarrow> bool" where
  "tile_ok payload fb st \<longleftrightarrow> bs_inv (ts_bs st) \<and> bs_data (ts_bs st) = payload \<and> ts_fb st = fb"

lemma channel_block_safe:
  assumes "jpeg_huff dcH dcb dcv" "jpeg_huff acH acb acv" "\<And>x. x \<in> set dcv \<Longrightarrow> unat x < 16" "tile_ok payload fb st"
  shows "\<exists>out st'. channel_block cos64 dcH acH q ch st = (Inr out, st') \<and> tile_ok payload fb st'"
  using decodeBlock_safe [OF assms(1-3), of "ts_bs st" cos64 q "jdc (ts_dec st) ! ch"] assms(4)
  by (auto simp: channel_block_def tile_ok_def)

lemma y_blocks_safe:
  assumes "jpeg_huff dcH dcb dcv" "jpeg_huff acH acb acv" "\<And>x. x \<in> set dcv \<Longrightarrow> unat x < 16"
  shows "tile_ok payload fb st \<Longrightarrow> \<exists>out st'. y_blocks cos64 dcH acH q n st = (Inr out, st') \<and> tile_ok payload fb st'"
proof (induction n arbitrary: st)
  case (Suc n)
  obtain out st1 where c: "channel_block cos64 dcH acH q 0 st = (Inr out, st1)" "tile_ok payload fb st1"
    using channel_block_safe [OF assms Suc.prems] by blast
  show ?case using Suc.IH [OF c(2)] c(1) by (auto simp: bs_then_def)
qed simp

text \<open>What painting a list of pixels does to every pixel of the framebuffer.\<close>

definition shows_over :: "Framebuffer \<Rightarrow> (int \<Rightarrow> int \<Rightarrow> bool) \<Rightarrow> Framebuffer \<Rightarrow> bool" where
  "shows_over fb R fb' \<longleftrightarrow> paints fb fb' \<and>
     (\<forall>u v. 0 \<le> u \<longrightarrow> u < fb_W fb \<longrightarrow> 0 \<le> v \<longrightarrow> v < fb_H fb \<longrightarrow>
        (if R u v then drop_bit 24 (pix fb' (v * fb_W fb + u)) = 0xFF else pix fb' (v * fb_W fb + u) = pix fb (v * fb_W fb + u)))"

lemma shows_overD:
  assumes "shows_over fb R fb'" "0 \<le> u" "u < fb_W fb" "0 \<le> v" "v < fb_H fb"
  shows "R u v \<Longrightarrow> drop_bit 24 (pix fb' (v * fb_W fb + u)) = 0xFF"
    "\<not> R u v \<Longrightarrow> pix fb' (v * fb_W fb + u) = pix fb (v * fb_W fb + u)"
  using assms unfolding shows_over_def by metis+

lemma shows_over_cong:
  assumes "shows_over fb R fb'" "\<And>u v. 0 \<le> u \<Longrightarrow> u < fb_W fb \<Longrightarrow> 0 \<le> v \<Longrightarrow> v < fb_H fb \<Longrightarrow> R u v = S u v"
  shows "shows_over fb S fb'"
  using assms unfolding shows_over_def by simp

lemma paint_clipped_over:
  "fb_rect fb \<Longrightarrow> (\<forall>(x, y, c) \<in> set ps. drop_bit 24 c = 0xFF) \<Longrightarrow>
     \<exists>fb'. paint_clipped ps fb = Inr fb' \<and> shows_over fb (\<lambda>u v. \<exists>c. (u, v, c) \<in> set ps) fb'"
proof (induction ps arbitrary: fb)
  case (Cons p ps)
  obtain px py c where p: "p = (px, py, c)" by (cases p)
  have opaque: "drop_bit 24 c = 0xFF" "\<forall>(x, y, c) \<in> set ps. drop_bit 24 c = 0xFF" using Cons.prems(2) p by auto
  show ?case
  proof (cases "px < 0 \<or> px \<ge> fb_W fb \<or> py < 0 \<or> py \<ge> fb_H fb")
    case True
    obtain fb' where r: "paint_clipped ps fb = Inr fb'" "shows_over fb (\<lambda>u v. \<exists>c. (u, v, c) \<in> set ps) fb'"
      using Cons.IH [OF Cons.prems(1) opaque(2)] by blast
    have "shows_over fb (\<lambda>u v. \<exists>c. (u, v, c) \<in> set (p # ps)) fb'" by (rule shows_over_cong [OF r(2)]) (use True p in auto)
    then show ?thesis using True p r(1) by simp
  next
    case False
    have i: "0 \<le> py * fb_W fb + px" "py * fb_W fb + px < npix fb" using pixel_in_range [OF Cons.prems(1), of py px] False by auto
    obtain fb1 where s: "set_pixel (py * fb_W fb + px) c fb = Inr fb1" "paints fb fb1"
      "\<And>k. 0 \<le> k \<Longrightarrow> k < npix fb \<Longrightarrow> pix fb1 k = (if k = py * fb_W fb + px then c else pix fb k)"
      using set_pixel_exact [OF i, of c] set_pixel_paints [OF i, of c] by auto
    have w: "fb_W fb1 = fb_W fb" "fb_H fb1 = fb_H fb" using s(2) by (simp_all add: paints_def same_shape_def)
    obtain fb' where r: "paint_clipped ps fb1 = Inr fb'" "shows_over fb1 (\<lambda>u v. \<exists>c. (u, v, c) \<in> set ps) fb'"
      using Cons.IH [OF fb_rect_paints [OF s(2) Cons.prems(1)] opaque(2)] by blast
    have "if \<exists>c. (u, v, c) \<in> set (p # ps) then drop_bit 24 (pix fb' (v * fb_W fb + u)) = 0xFF
        else pix fb' (v * fb_W fb + u) = pix fb (v * fb_W fb + u)"
      if uv: "0 \<le> u" "u < fb_W fb" "0 \<le> v" "v < fb_H fb" for u v
    proof -
      have k: "0 \<le> v * fb_W fb + u" "v * fb_W fb + u < npix fb" using pixel_in_range [OF Cons.prems(1)] uv by auto
      have "v * fb_W fb + u = py * fb_W fb + px \<longleftrightarrow> u = px \<and> v = py"
        using row_major_inj [of u "fb_W fb" px v py] uv False by auto
      then have "pix fb1 (v * fb_W fb + u) = (if u = px \<and> v = py then c else pix fb (v * fb_W fb + u))" using s(3) [OF k] by simp
      moreover have "if \<exists>c. (u, v, c) \<in> set ps then drop_bit 24 (pix fb' (v * fb_W fb + u)) = 0xFF
        else pix fb' (v * fb_W fb + u) = pix fb1 (v * fb_W fb + u)"
        using r(2) uv unfolding shows_over_def w by blast
      ultimately show ?thesis using p opaque(1) by (auto split: if_splits)
    qed
    moreover have "paints fb fb'" using s(2) r(2) paints_trans by (auto simp: shows_over_def)
    ultimately have "shows_over fb (\<lambda>u v. \<exists>c. (u, v, c) \<in> set (p # ps)) fb'" unfolding shows_over_def by blast
    moreover have "paint_clipped (p # ps) fb = Inr fb'" using False p s(1) r(1) by simp
    ultimately show ?thesis by blast
  qed
qed (simp add: shows_over_def)

lemma shows_over_trans:
  assumes "shows_over a R b" "shows_over b S c"
  shows "shows_over a (\<lambda>u v. R u v \<or> S u v) c"
proof -
  have p: "paints a b" "paints b c" using assms by (simp_all add: shows_over_def)
  then have w: "fb_W b = fb_W a" "fb_H b = fb_H a" by (simp_all add: paints_def same_shape_def)
  have "if R u v \<or> S u v then drop_bit 24 (pix c (v * fb_W a + u)) = 0xFF else pix c (v * fb_W a + u) = pix a (v * fb_W a + u)"
    if uv: "0 \<le> u" "u < fb_W a" "0 \<le> v" "v < fb_H a" for u v
    using shows_overD [OF assms(1) uv] shows_overD [OF assms(2), unfolded w, OF uv] by (cases "S u v") auto
  then show ?thesis using paints_trans [OF p] by (simp add: shows_over_def)
qed

lemma clampByte_le: "clampByte v \<le> 255"
proof (cases "v <s 0 \<or> 255 <s v")
  case False
  then have "0 \<le> sint v" "sint v \<le> 255" by (auto simp: word_sless_alt)
  then show ?thesis using False by (simp add: clampByte_def word_le_def uint_sint take_bit_int_eq_self)
qed (auto simp: clampByte_def)

lemma jpeg_argb_opaque: "drop_bit 24 (jpeg_argb y cb cr) = 0xFF"
proof -
  have hi: "\<not> bit (clampByte v) i" if "8 \<le> i" for v i
  proof -
    have "take_bit 8 (clampByte v) = clampByte v"
      using clampByte_le [of v] by (subst less_mask_eq [symmetric, of _ 8]) (simp_all add: take_bit_eq_mask mask_numeral word_le_nat_alt word_less_nat_alt)
    then show ?thesis using that by (metis bit_take_bit_iff not_le)
  qed
  have c: "bit (0xFF000000 :: u32) (24 + i) \<longleftrightarrow> bit (0xFF :: u32) i" for i
    using bit_drop_bit_eq [of 24 "0xFF000000 :: u32"] by (simp add: fun_eq_iff)
  show ?thesis
    by (rule bit_word_eqI) (auto simp: jpeg_argb_def Let_def bit_simps hi c)
qed

lemma mcu_pixel_positions:
  "(\<exists>c. (u, v, c) \<in> set (mcu_pixels x0 y0 mode ys cb cr)) \<longleftrightarrow>
     0 \<le> u - x0 \<and> u - x0 < (if mode = 1 then 16 else 8) \<and> 0 \<le> v - y0 \<and> v - y0 < 8"
proof
  assume "\<exists>c. (u, v, c) \<in> set (mcu_pixels x0 y0 mode ys cb cr)"
  then show "0 \<le> u - x0 \<and> u - x0 < (if mode = 1 then 16 else 8) \<and> 0 \<le> v - y0 \<and> v - y0 < 8"
    by (auto simp: mcu_pixels_def Let_def split: if_splits)
next
  assume a: "0 \<le> u - x0 \<and> u - x0 < (if mode = 1 then 16 else 8) \<and> 0 \<le> v - y0 \<and> v - y0 < 8"
  then have "u = x0 + int (nat (u - x0))" "v = y0 + int (nat (v - y0))" "nat (v - y0) < 8" "nat (u - x0) < 8 * (if mode = 1 then 2 else 1)"
    by (auto split: if_splits)
  then show "\<exists>c. (u, v, c) \<in> set (mcu_pixels x0 y0 mode ys cb cr)" by (force simp: mcu_pixels_def Let_def)
qed

lemma renderMCU_over:
  assumes "fb_rect fb"
  shows "\<exists>fb'. renderMCU fb x0 y0 mode ys cb cr = Inr fb'
    \<and> shows_over fb (\<lambda>u v. 0 \<le> u - x0 \<and> u - x0 < (if mode = 1 then 16 else 8) \<and> 0 \<le> v - y0 \<and> v - y0 < 8) fb'"
proof -
  have "\<forall>(x, y, c) \<in> set (mcu_pixels x0 y0 mode ys cb cr). drop_bit 24 c = 0xFF"
    by (auto simp: mcu_pixels_def Let_def jpeg_argb_opaque)
  from paint_clipped_over [OF assms this] show ?thesis
    unfolding mcu_pixel_positions by (auto simp: renderMCU_def paint_dirty_def shows_over_def paints_def same_shape_def)
qed

lemma decode_mcu_over:
  assumes "tables_ok tabs" "fb_rect fb" "tile_ok payload fb st"
  shows "\<exists>st' fb'. decode_mcu cos64 tabs yS cS mode px py st = (Inr (), st') \<and> tile_ok payload fb' st'
    \<and> shows_over fb (\<lambda>u v. 0 \<le> u - px \<and> u - px < (if mode = 1 then 16 else 8) \<and> 0 \<le> v - py \<and> v - py < 8) fb'"
proof -
  obtain dcL dcC acL acC where t: "tabs = (dcL, dcC, acL, acC)" by (cases tabs)
  have h: "jpeg_huff dcL xbBits ybVals" "jpeg_huff dcC zbBits abVals" "jpeg_huff acL bbBits cbVals" "jpeg_huff acC dbBits ebVals"
    using assms(1) t by (simp_all add: tables_ok_def)
  have dc: "unat x < 16" if "x \<in> set ybVals" for x using dc_categories that by simp
  have cc: "unat x < 16" if "x \<in> set abVals" for x using dc_categories that by simp
  obtain ys st1 where y: "y_blocks cos64 dcL acL yS (if mode = 1 then 2 else 1) st = (Inr ys, st1)" "tile_ok payload fb st1"
    using y_blocks_safe [OF h(1,3) dc assms(3)] by blast
  obtain cb st2 where b: "channel_block cos64 dcC acC cS 1 st1 = (Inr cb, st2)" "tile_ok payload fb st2"
    using channel_block_safe [OF h(2,4) cc y(2)] by blast
  obtain cr st3 where r: "channel_block cos64 dcC acC cS 2 st2 = (Inr cr, st3)" "tile_ok payload fb st3"
    using channel_block_safe [OF h(2,4) cc b(2)] by blast
  have f: "ts_fb st3 = fb" using r(2) by (simp add: tile_ok_def)
  obtain fb' where p: "renderMCU fb px py mode ys cb cr = Inr fb'"
    "shows_over fb (\<lambda>u v. 0 \<le> u - px \<and> u - px < (if mode = 1 then 16 else 8) \<and> 0 \<le> v - py \<and> v - py < 8) fb'"
    using renderMCU_over [OF assms(2)] by blast
  have "decode_mcu cos64 tabs yS cS mode px py st = (Inr (), st3\<lparr>ts_fb := fb'\<rparr>)"
    using y(1) b(1) r(1) f p(1) by (simp add: decode_mcu_def t bs_then_def)
  moreover have "tile_ok payload fb' (st3\<lparr>ts_fb := fb'\<rparr>)" using r(2) by (simp add: tile_ok_def)
  ultimately show ?thesis using p(2) by blast
qed

lemma mcu_loop_over:
  assumes "tables_ok tabs"
  shows "fb_rect fb \<Longrightarrow> tile_ok payload fb st \<Longrightarrow>
    \<exists>st' fb'. mcu_loop cos64 tabs yS cS mode ps st = (Inr (), st') \<and> tile_ok payload fb' st'
      \<and> shows_over fb (\<lambda>u v. \<exists>(px, py) \<in> set ps. 0 \<le> u - px \<and> u - px < (if mode = 1 then 16 else 8) \<and> 0 \<le> v - py \<and> v - py < 8) fb'"
proof (induction ps arbitrary: fb st)
  case Nil
  then show ?case by (auto simp: shows_over_def)
next
  case (Cons p ps)
  obtain px py where p: "p = (px, py)" by (cases p)
  obtain st1 fb1 where m: "decode_mcu cos64 tabs yS cS mode px py st = (Inr (), st1)" "tile_ok payload fb1 st1"
    "shows_over fb (\<lambda>u v. 0 \<le> u - px \<and> u - px < (if mode = 1 then 16 else 8) \<and> 0 \<le> v - py \<and> v - py < 8) fb1"
    using decode_mcu_over [OF assms Cons.prems] by blast
  have "fb_rect fb1" using m(3) fb_rect_paints [OF _ Cons.prems(1)] by (simp add: shows_over_def)
  from Cons.IH [OF this m(2)] obtain st' fb' where r: "mcu_loop cos64 tabs yS cS mode ps st1 = (Inr (), st')" "tile_ok payload fb' st'"
    "shows_over fb1 (\<lambda>u v. \<exists>(px, py) \<in> set ps. 0 \<le> u - px \<and> u - px < (if mode = 1 then 16 else 8) \<and> 0 \<le> v - py \<and> v - py < 8) fb'"
    by blast
  have "shows_over fb (\<lambda>u v. \<exists>(px, py) \<in> set (p # ps). 0 \<le> u - px \<and> u - px < (if mode = 1 then 16 else 8) \<and> 0 \<le> v - py \<and> v - py < 8) fb'"
    by (rule shows_over_cong [OF shows_over_trans [OF m(3) r(3)]]) (simp add: p)
  moreover have "mcu_loop cos64 tabs yS cS mode (p # ps) st = (Inr (), st')" using m(1) r(1) p by (simp add: bs_then_def)
  ultimately show ?case using r(2) by blast
qed

lemma div_less_iff: "0 < m \<Longrightarrow> w div m < n \<longleftrightarrow> w < n * (m :: int)"
proof -
  assume m: "0 < m"
  have e: "w = w div m * m + w mod m" "0 \<le> w mod m" "w mod m < m" using m by simp_all
  have "w < n * m" if "w div m < n"
  proof -
    have "(w div m + 1) * m \<le> n * m" using that m by (intro mult_right_mono) simp_all
    then have "w div m * m + m \<le> n * m" by (simp add: distrib_right)
    with e show ?thesis by linarith
  qed
  moreover have "n * m \<le> w" if "n \<le> w div m"
    using mult_right_mono [OF that, of m] m e by linarith
  ultimately show ?thesis by (metis not_le)
qed

lemma cells_cover:
  assumes "0 < m"
  shows "(\<exists>i < nat ((t + m - 1) sdiv m). 0 \<le> w - int i * m \<and> w - int i * m < m) \<longleftrightarrow> 0 \<le> w \<and> w < (t + m - 1) div m * m"
proof -
  have n: "nat ((t + m - 1) sdiv m) = nat ((t + m - 1) div m)"
  proof (cases "0 \<le> t + m - 1")
    case True
    then show ?thesis using assms by (simp add: signed_divide_int_def sgn_if)
  next
    case False
    then show ?thesis using assms div_neg_pos_less0 [of "t + m - 1" m]
      by (auto simp: signed_divide_int_def sgn_if pos_imp_zdiv_nonneg_iff)
  qed
  have c: "0 \<le> w - int i * m \<and> w - int i * m < m \<longleftrightarrow> w div m = int i" for i
  proof
    show "0 \<le> w - int i * m \<and> w - int i * m < m \<Longrightarrow> w div m = int i"
      by (rule int_div_pos_eq [of w m "int i" "w - int i * m"]) (simp_all add: mult.commute)
    show "w div m = int i \<Longrightarrow> 0 \<le> w - int i * m \<and> w - int i * m < m"
      using assms minus_div_mult_eq_mod [of w m] by (metis pos_mod_bound pos_mod_sign)
  qed
  have "(\<exists>i < nat ((t + m - 1) div m). w div m = int i) \<longleftrightarrow> 0 \<le> w div m \<and> w div m < (t + m - 1) div m"
    by (auto simp: zless_nat_eq_int_zless intro!: exI [of _ "nat (w div m)"])
  also have "0 \<le> w div m \<longleftrightarrow> 0 \<le> w" using assms by (simp add: pos_imp_zdiv_nonneg_iff)
  also have "w div m < (t + m - 1) div m \<longleftrightarrow> w < (t + m - 1) div m * m" by (rule div_less_iff [OF assms])
  finally show ?thesis unfolding n c .
qed

lemma grid_ex:
  "(\<exists>(a, b) \<in> set [(f i, g j). j \<leftarrow> [0..<m], i \<leftarrow> [0..<n]]. 0 \<le> u - a \<and> u - a < w \<and> 0 \<le> v - b \<and> v - b < z) \<longleftrightarrow>
     (\<exists>i < n. 0 \<le> u - f i \<and> u - f i < w) \<and> (\<exists>j < m. 0 \<le> v - g j \<and> v - g j < (z :: int))" for f g :: "nat \<Rightarrow> int"
  by auto force

lemma mcu_origins_cover:
  defines "w \<equiv> \<lambda>mode :: byte. if mode = 1 then 16 else (8 :: int)"
  shows "(\<exists>(px, py) \<in> set (mcu_origins x0 y0 tw th mode). 0 \<le> u - px \<and> u - px < w mode \<and> 0 \<le> v - py \<and> v - py < 8) \<longleftrightarrow>
     0 \<le> u - x0 \<and> u - x0 < (tw + w mode - 1) div w mode * w mode \<and> 0 \<le> v - y0 \<and> v - y0 < (th + 7) div 8 * 8"
proof -
  have e: "mcu_origins x0 y0 tw th mode =
      [(x0 + int mx * w mode, y0 + int my * 8). my \<leftarrow> [0..<nat ((th + 8 - 1) sdiv 8)], mx \<leftarrow> [0..<nat ((tw + w mode - 1) sdiv w mode)]]"
    by (simp add: mcu_origins_def w_def Let_def)
  have "(\<exists>(px, py) \<in> set (mcu_origins x0 y0 tw th mode). 0 \<le> u - px \<and> u - px < w mode \<and> 0 \<le> v - py \<and> v - py < 8) \<longleftrightarrow>
      (\<exists>i < nat ((tw + w mode - 1) sdiv w mode). 0 \<le> (u - x0) - int i * w mode \<and> (u - x0) - int i * w mode < w mode)
      \<and> (\<exists>i < nat ((th + 8 - 1) sdiv 8). 0 \<le> (v - y0) - int i * 8 \<and> (v - y0) - int i * 8 < 8)"
    unfolding e diff_diff_eq by (simp only: grid_ex)
  also have "\<dots> \<longleftrightarrow> 0 \<le> u - x0 \<and> u - x0 < (tw + w mode - 1) div w mode * w mode \<and> 0 \<le> v - y0 \<and> v - y0 < (th + 7) div 8 * 8"
  proof -
    have w: "0 < w mode" "0 < (8 :: int)" "th + 8 - 1 = th + 7" by (simp_all add: w_def)
    show ?thesis unfolding cells_cover [OF w(1)] cells_cover [OF w(2), of th, unfolded w(3)] w(3) by blast
  qed
  finally show ?thesis .
qed

lemma idct1D_dc: "idct1D cos64 (x # replicate 7 0) = replicate 8 (idct1D cos64 (x # replicate 7 0) ! 0)"
proof -
  have c: "cosTab cos64 n 0 = cosTab cos64 0 0" for n by (simp add: cosTab_def)
  show ?thesis unfolding idct1D_def
    by (simp add: upt_rec numeral_eq_Suc c [of "Suc _"] Let_def)
qed

section \<open>Properties: JPEG tiles\<close>



text \<open>C30: the block reader inverts the entropy coding of a block, except for the places.  When the stream continues with a block coded by the
  luma or the chroma tables, the reader returns the new predictor, leaves the stream right after the block, and transforms the
  coded coefficients, but the one coded for zigzag position \<open>k\<close> is put at \<open>zigZag[k]\<close> and not at its place \<open>invZigZag[k]\<close>.\<close>

theorem jpeg_block_roundtrip:
  assumes "jpeg_tables = Inr (dcL, dcC, acL, acC)"
    "(dcH, dcb, dcv, acH, acb, acv) \<in> {(dcL, xbBits, ybVals, acL, bbBits, cbVals), (dcC, zbBits, abVals, acC, dbBits, ebVals)}"
    "in_category n x" "n < 16" "sym_bits dcb dcv (of_nat n) bs"
    "ac_stream acb acv 1 ((replicate 64 0)[0 := scast (prev + of_int x)]) coef bs'"
    "bs_inv b" "bs_rest b = bs @ value_bits n x @ bs' @ ys"
  shows "\<exists>b' placed. decodeBlockJPEG cos64 dcH acH q prev b
      = (Inr (prev + of_int x, idct2D cos64 (map (\<lambda>i. f32 (f32 (of_int (sint (placed ! i))) * q ! i)) [0..<64])), b')
    \<and> (\<forall>k < 64. placed ! (zigZag ! k) = coef ! (invZigZag ! k)) \<and> bs_inv b' \<and> bs_rest b' = ys"
proof -
  have "tables_ok (dcL, dcC, acL, acC)" using jpeg_tables_ok assms(1) by (metis sum.inject(2))
  then have h: "jpeg_huff dcH dcb dcv" "jpeg_huff acH acb acv" using assms(2) by (auto simp: tables_ok_def)
  obtain b1 where s: "bs_decodeSymbol dcH b = (Inr (of_nat n), b1)" "bs_inv b1" "bs_rest b1 = value_bits n x @ bs' @ ys"
    using decodeSymbol_bits [OF h(1) assms(5,7,8)] by blast
  obtain b2 where v: "bs_decodeValue n b1 = (Inr (of_int x), b2)" "bs_inv b2" "bs_rest b2 = bs' @ ys"
    using decodeValue_bits [OF assms(3,4) s(2,3)] by blast
  let ?c = "(replicate 64 0)[0 := scast (prev + of_int x)] :: 32 word list"
  have "jpeg_placed ((replicate 64 0)[invZigZag ! 0 := c]) = (jpeg_placed (replicate 64 0))[zigZag ! 0 := c]" for c
    by (rule jpeg_placed_update) simp_all
  moreover have "zigZag ! 0 = 0" "invZigZag ! 0 = 0" using zigzag_facts(5) [of 0] by (simp_all add: zigZag_def)
  moreover have "jpeg_placed (replicate 64 0) = replicate 64 0"
    by (rule nth_equalityI) (simp_all add: jpeg_placed_def zigzag_facts)
  ultimately have c0: "jpeg_placed ?c = ?c" by simp
  obtain b3 where a: "jpeg_ac acH 1 ?c b2 = (Inr (jpeg_placed coef), b3)" "bs_inv b3" "bs_rest b3 = ys"
    using jpeg_ac_stream [OF h(2) assms(6) _ v(2,3)] unfolding c0 by auto
  have u: "unat (of_nat n :: byte) = n" using assms(4) by (simp add: unat_of_nat)
  have "jpeg_placed coef ! (zigZag ! k) = coef ! (invZigZag ! k)" if "k < 64" for k
    using that zigzag_facts(3,5) [OF that] by (simp add: jpeg_placed_def)
  then show ?thesis using s(1) v(1) a u
    by (intro exI [of _ b3] exI [of _ "jpeg_placed coef"]) (simp add: decodeBlockJPEG_def bs_then_def Let_def)
qed

theorem jpeg_block_roundtrip_witness:
  "\<exists>dcL dcC acL acC b' (placed :: 32 word list). jpeg_tables = Inr (dcL, dcC, acL, acC)
    \<and> decodeBlockJPEG (\<lambda>x. 1 - x) dcL acL (buildScaledQuant (quantY ! 0)) 5 \<lparr>bs_data = [0x65, 0x00], bs_pos = 0, bs_acc = 0, bs_n = 0\<rparr>
      = (Inr (2, idct2D (\<lambda>x. 1 - x) (map (\<lambda>i. f32 (f32 (of_int (sint (placed ! i))) * buildScaledQuant (quantY ! 0) ! i)) [0..<64])), b')
    \<and> placed ! 0 = 2 \<and> length (bs_rest b') = 7"
proof -
  let ?b = "\<lparr>bs_data = [0x65, 0x00], bs_pos = 0, bs_acc = 0, bs_n = 0\<rparr>"
  let ?q = "buildScaledQuant (quantY ! 0)"
  let ?c = "(replicate 64 0)[0 := scast (5 + of_int (-3) :: 16 word)] :: 32 word list"
  obtain dcL dcC acL acC where t: "jpeg_tables = Inr (dcL, dcC, acL, acC)" using jpeg_tables_ok by force
  have x: "first_code xbBits 3 = 2" "first_sym xbBits 3 = 1" "ybVals ! 2 = 2" "xbBits ! 3 = 5"
    and b: "first_code bbBits 4 = 10" "first_sym bbBits 4 = 3" "cbVals ! 3 = 0" "bbBits ! 4 = 3" by code_simp+
  have s1: "sym_bits xbBits ybVals (of_nat 2) (code_bits 3 3)"
    unfolding sym_bits_def by (rule exI [of _ 3], rule exI [of _ 1]) (simp add: x x(3) [unfolded numeral_2_eq_2])
  have s2: "sym_bits bbBits cbVals 0 (code_bits 4 10)"
    unfolding sym_bits_def by (rule exI [of _ 4], rule exI [of _ 0]) (simp add: b)
  have a: "ac_stream bbBits cbVals 1 ?c ?c (code_bits 4 10)" by (rule ac_stream.eob) (simp_all add: s2)
  have i: "bs_inv ?b" by (simp add: bs_inv_def)
  have r: "bs_rest ?b = code_bits 3 3 @ value_bits 2 (-3) @ code_bits 4 10 @ replicate 7 False" by code_simp
  have z: "zigZag ! 0 = 0" "invZigZag ! 0 = 0" using zigzag_facts(5) [of 0] by (simp_all add: zigZag_def)
  have n: "in_category 2 (-3)" "(2 :: nat) < 16" by (simp_all add: in_category_def)
  obtain b' placed where d: "decodeBlockJPEG (\<lambda>x. 1 - x) dcL acL ?q 5 ?b
      = (Inr (2, idct2D (\<lambda>x. 1 - x) (map (\<lambda>i. f32 (f32 (of_int (sint (placed ! i))) * ?q ! i)) [0..<64])), b')"
    "\<forall>k < 64. placed ! (zigZag ! k) = ?c ! (invZigZag ! k)" "bs_rest b' = replicate 7 False"
    using jpeg_block_roundtrip [OF t _ n s1 a i r, where dcH = dcL and acH = acL and q = ?q and ?cos64.0 = "\<lambda>x. 1 - x"] by auto
  have "placed ! 0 = 2" using d(2) [rule_format, of 0] z by simp
  moreover have "length (bs_rest b') = 7" using d(3) by simp
  ultimately show ?thesis using t d(1) by blast
qed

text \<open>A block whose higher coefficients are all zero is flat: all its samples are equal.\<close>

lemma idct2D_flat: "\<exists>s. idct2D cos64 (x # replicate 63 0) = replicate 64 s"
proof -
  define g where "g x = idct1D cos64 (x # replicate 7 0) ! 0" for x
  have l: "idct1D cos64 (x # replicate 7 0) = replicate 8 (g x)" for x using idct1D_dc by (simp add: g_def)
  have z: "idct1D cos64 (replicate 8 0) = replicate 8 0" by (simp add: idct1D_def upt_rec numeral_eq_Suc)
  have rows: "slice (row * 8) (row * 8 + 8) (x # replicate 63 0) = (if row = 0 then x # replicate 7 0 else replicate 8 0)" if "row < 8" for row :: nat
    using that by (cases row) (auto simp: slice_def take_Cons' drop_Cons' intro!: nth_equalityI)
  have "idct_rows cos64 (x # replicate 63 0) = concat (map (\<lambda>row. if row = 0 then replicate 8 (g x) else replicate 8 0) [0..<8])"
    unfolding idct_rows_def by (rule arg_cong [of _ _ concat], rule map_cong [OF refl]) (simp add: rows l z)
  then have t: "idct_rows cos64 (x # replicate 63 0) = replicate 8 (g x) @ replicate 56 0" by (simp add: upt_rec flip: replicate_add)
  have col: "map (\<lambda>i. (replicate 8 (g x) @ replicate 56 0) ! (i * 8 + c)) [0..<8] = g x # replicate 7 0" if "c < 8" for c
    using that by (intro nth_equalityI) (auto simp: nth_append nth_Cons split: nat.splits)
  have "map (\<lambda>c. idct1D cos64 (map (\<lambda>i. (replicate 8 (g x) @ replicate 56 0) ! (i * 8 + c)) [0..<8])) [0..<8] = map (\<lambda>c. replicate 8 (g (g x))) [0..<8]"
    by (rule map_cong [OF refl]) (simp only: col set_upt atLeastLessThan_iff l)
  then have "idct2D cos64 (x # replicate 63 0) = map (\<lambda>i. to_int32 (map (\<lambda>c. replicate 8 (g (g x))) [0..<8] ! (i mod 8) ! (i div 8))) [0..<64]"
    unfolding idct2D_def t Let_def by (simp only:)
  also have "\<dots> = replicate 64 (to_int32 (g (g x)))" by (rule nth_equalityI) auto
  finally show ?thesis by blast
qed

section \<open>Twins in the tile codec\<close>

text \<open>\<open>avocent_dct.go\<close> keeps a second copy of the separable transform over its own cosine table, and of the clamping table's use as a
  function.\<close>

definition avoCos :: "(rat \<Rightarrow> rat) \<Rightarrow> nat \<Rightarrow> nat \<Rightarrow> rat" where
  "avoCos cos64 n k =
     (let pi = 31415926535897932384626433832795028841971693993751 / 10000000000000000000000000000000000000000000000000
      in f32 (cos64 (f64 (f64 (f64 (of_nat (2 * n + 1) * of_nat k) * f64 pi) / 16))))"

definition avoIDCT1D :: "(rat \<Rightarrow> rat) \<Rightarrow> rat list \<Rightarrow> rat list" where
  "avoIDCT1D cos64 xs =
     map (\<lambda>n. f32 (fold (\<lambda>k sum. f32 (sum + f32 (f32 ((if k = 0 then f32 (7071067811865476 / 10000000000000000) else 1) * xs ! k) * avoCos cos64 n k)))
        [0..<8] 0 * (1 / 2))) [0..<8]"

definition avoIDCT2D :: "(rat \<Rightarrow> rat) \<Rightarrow> rat list \<Rightarrow> 32 word list" where
  "avoIDCT2D cos64 xs =
     (let t = concat (map (\<lambda>row. avoIDCT1D cos64 (slice (row * 8) (row * 8 + 8) xs)) [0..<8]);
          u = map (\<lambda>col. avoIDCT1D cos64 (map (\<lambda>i. t ! (i * 8 + col)) [0..<8])) [0..<8]
      in map (\<lambda>i. to_int32 (u ! (i mod 8) ! (i div 8))) [0..<64])"

definition dctPostShift :: "32 word \<Rightarrow> u32" where
  "dctPostShift v = (let shifted = signed_drop_bit 3 v + 128 in if shifted <s 0 then 0 else if 255 <s shifted then 255 else shifted)"

text \<open>The two transforms are the same function: both approximations of pi round to the same double.\<close>

lemma avoIDCT2D_idct2D: "avoIDCT2D = idct2D"
proof -
  have pi: "f64 (31415926535897932384626433832795028841971693993751 / 10000000000000000000000000000000000000000000000000)
      = f64 (3141592653589793 / 1000000000000000)" by code_simp
  have c: "avoCos = cosTab" by (intro ext) (simp only: avoCos_def cosTab_def Let_def pi)
  have t: "avoIDCT1D = idct1D" by (intro ext) (simp only: avoIDCT1D_def idct1D_def c Let_def)
  show ?thesis by (intro ext) (simp only: avoIDCT2D_def idct2D_def idct_rows_def t Let_def)
qed

text \<open>Over the range the decoder uses, looking up the clamping table is shifting and clamping.\<close>

lemma fold_set_nth:
  "b \<le> length t \<Longrightarrow> length (fold (\<lambda>i t. t[i := f i]) [a..<b] t) = length t
     \<and> (\<forall>j < length t. fold (\<lambda>i t. t[i := f i]) [a..<b] t ! j = (if a \<le> j \<and> j < b then f j else t ! j))"
proof (induction b)
  case (Suc b)
  then show ?case by (cases "a \<le> b") (auto simp: nth_list_update less_Suc_eq)
qed simp

lemma clampLUT_nth: "j < 1408 \<Longrightarrow> clampLUT ! j = (if j < 256 then 0 else if j < 512 then of_nat (j - 256) else if j < 896 then 255
    else if j < 1280 then 0 else of_nat (j - 1280))"
proof -
  define a :: bytes where "a = fold (\<lambda>i t. t[i := of_nat (i - 256)]) [256..<512] (replicate 1408 0)"
  define b where "b = fold (\<lambda>i t. t[i := 255]) [512..<896] a"
  have "length a = length (replicate 1408 (0 :: byte)) \<and> (\<forall>j < length (replicate 1408 (0 :: byte)).
      a ! j = (if 256 \<le> j \<and> j < 512 then of_nat (j - 256) else replicate 1408 (0 :: byte) ! j))"
    unfolding a_def by (rule fold_set_nth) simp
  then have la: "length a = 1408" "\<And>j. j < 1408 \<Longrightarrow> a ! j = (if 256 \<le> j \<and> j < 512 then of_nat (j - 256) else 0)" by simp_all
  have "length b = length a \<and> (\<forall>j < length a. b ! j = (if 512 \<le> j \<and> j < 896 then 255 else a ! j))"
    unfolding b_def by (rule fold_set_nth) (simp add: la)
  then have lb: "length b = 1408" "\<And>j. j < 1408 \<Longrightarrow> b ! j = (if 512 \<le> j \<and> j < 896 then 255 else a ! j)" using la by simp_all
  define c where "c = fold (\<lambda>i t. t[i := of_nat (i - 896 - 384)]) [1280..<1408] b"
  have "length c = length b \<and> (\<forall>j < length b. c ! j = (if 1280 \<le> j \<and> j < 1408 then of_nat (j - 896 - 384) else b ! j))"
    unfolding c_def by (rule fold_set_nth) (simp add: lb)
  then have lc: "\<And>j. j < 1408 \<Longrightarrow> c ! j = (if 1280 \<le> j then of_nat (j - 896 - 384) else b ! j)" using lb by simp
  have e: "896 + 384 = (1280 :: nat)" "min (1280 + 128) (length b) = 1408" using lb(1) by simp_all
  have "clampLUT = c" unfolding clampLUT_def Let_def a_def [symmetric] b_def [symmetric] e c_def ..
  note lc = lc [folded this]
  show "j < 1408 \<Longrightarrow> ?thesis" using la lb lc by auto
qed

lemma sint_small: "- 1024 \<le> y \<Longrightarrow> y < 1024 \<Longrightarrow> sint (of_int y :: 32 word) = y"
  by (simp add: signed_of_int signed_take_bit_int_eq_self)

lemma clampLUT_clamps:
  assumes "- 384 \<le> sint v div 8" "sint v div 8 < 512"
  shows "dctPostShift v = ucast (clampLUT ! nat (384 + sint v div 8))"
proof -
  define x where "x = sint v div 8"
  have x: "- 384 \<le> x" "x < 512" using assms by (simp_all add: x_def)
  have "sint (signed_drop_bit 3 v) = x" by (simp add: sint_signed_drop_bit_eq drop_bit_eq_div x_def)
  moreover have "signed_drop_bit 3 v = of_int (sint (signed_drop_bit 3 v))" by simp
  ultimately have d: "signed_drop_bit 3 v = of_int x" by metis
  have s: "signed_drop_bit 3 v + 128 = of_int (x + 128)" by (simp add: d)
  have si: "sint (of_int (x + 128) :: 32 word) = x + 128" using x by (intro sint_small) simp_all
  have l: "dctPostShift v = (if x + 128 < 0 then 0 else if 255 < x + 128 then 255 else of_int (x + 128))"
    unfolding dctPostShift_def Let_def s by (simp add: word_sless_alt si del: of_int_add)
  have "nat (384 + x) < 1408" using x by auto
  note t = clampLUT_nth [OF this]
  consider "x < -128" | "-128 \<le> x" "x < 128" | "128 \<le> x" by linarith
  then show ?thesis
  proof cases
    case 2
    define n where "n = nat (x + 128)"
    have n: "x + 128 = int n" "n < 256" using 2 by (auto simp: n_def)
    then have "nat (384 + x) = n + 256" by linarith
    then show ?thesis using n l t 2 by (simp add: x_def [symmetric] unsigned_of_nat take_bit_nat_eq_self flip: of_nat_add)
  qed (use x l t in \<open>auto simp: x_def [symmetric]\<close>)
qed

end
