(* ===== verification/Std_Crypto.thy ===== *)
theory Std_Crypto
  imports Go_Prelude
begin

text \<open>
  The parts of the Go standard library's cryptography that \<open>internal/ipmi/crypto.go\<close> calls: SHA-1
  (\<open>crypto/sha1\<close>), HMAC (\<open>crypto/hmac\<close>), the AES-128 block cipher (\<open>crypto/aes\<close>) and CBC mode
  (\<open>crypto/cipher\<close>).  They are executable definitions of the published algorithms.  What the IPMI code relies on is
  proved: digests have twenty bytes, and the inverse cipher undoes the cipher, hence CBC decryption
  undoes CBC encryption.
\<close>

section \<open>SHA-1\<close>

definition sha1_pad :: "bytes \<Rightarrow> bytes" where
  "sha1_pad m =
     (let z = (119 - length m mod 64) mod 64
      in m @ [0x80] @ replicate z 0 @ putBE64 (of_nat (8 * length m)))"

fun sha1_words :: "bytes \<Rightarrow> u32 list" where
  "sha1_words (a # b # c # d # rest) = be32 [a, b, c, d] # sha1_words rest"
| "sha1_words _ = []"

text \<open>The message schedule, kept as the last sixteen words (newest first) and the words produced.\<close>

fun sha1_schedule :: "nat \<Rightarrow> u32 list \<Rightarrow> u32 list" where
  "sha1_schedule 0 ws = ws"
| "sha1_schedule (Suc n) ws =
     sha1_schedule n (word_rotl 1 (ws ! 2 XOR ws ! 7 XOR ws ! 13 XOR ws ! 15) # ws)"

definition sha1_f :: "nat \<Rightarrow> u32 \<Rightarrow> u32 \<Rightarrow> u32 \<Rightarrow> u32" where
  "sha1_f t b c d =
     (if t < 20 then (b AND c) OR (NOT b AND d)
      else if t < 40 then b XOR c XOR d
      else if t < 60 then (b AND c) OR (b AND d) OR (c AND d)
      else b XOR c XOR d)"

definition sha1_k :: "nat \<Rightarrow> u32" where
  "sha1_k t = (if t < 20 then 0x5A827999 else if t < 40 then 0x6ED9EBA1
     else if t < 60 then 0x8F1BBCDC else 0xCA62C1D6)"

type_synonym sha1_state = "u32 \<times> u32 \<times> u32 \<times> u32 \<times> u32"

fun sha1_rounds :: "nat \<Rightarrow> u32 list \<Rightarrow> sha1_state \<Rightarrow> sha1_state" where
  "sha1_rounds t [] st = st"
| "sha1_rounds t (w # ws) (a, b, c, d, e) =
     sha1_rounds (Suc t) ws (word_rotl 5 a + sha1_f t b c d + e + sha1_k t + w, a, word_rotl 30 b, c, d)"

fun sha1_add :: "sha1_state \<Rightarrow> sha1_state \<Rightarrow> sha1_state" where
  "sha1_add (a, b, c, d, e) (a', b', c', d', e') = (a + a', b + b', c + c', d + d', e + e')"

definition sha1_block :: "bytes \<Rightarrow> sha1_state \<Rightarrow> sha1_state" where
  "sha1_block blk st =
     sha1_add st (sha1_rounds 0 (rev (sha1_schedule 64 (rev (sha1_words blk)))) st)"

function sha1_blocks :: "bytes \<Rightarrow> sha1_state \<Rightarrow> sha1_state" where
  "sha1_blocks m st = (if length m < 64 then st else sha1_blocks (drop 64 m) (sha1_block (take 64 m) st))"
  by pat_completeness auto
termination by (relation "measure (\<lambda>(m, st). length m)") auto

declare sha1_blocks.simps [simp del]

fun sha1_digest :: "sha1_state \<Rightarrow> bytes" where
  "sha1_digest (a, b, c, d, e) = putBE32 a @ putBE32 b @ putBE32 c @ putBE32 d @ putBE32 e"

definition sha1 :: "bytes \<Rightarrow> bytes" where
  "sha1 m = sha1_digest (sha1_blocks (sha1_pad m)
     (0x67452301, 0xEFCDAB89, 0x98BADCFE, 0x10325476, 0xC3D2E1F0))"

lemma length_sha1_digest [simp]: "length (sha1_digest st) = 20"
  by (cases st) simp

lemma length_sha1 [simp]: "length (sha1 m) = 20"
  by (simp add: sha1_def)

lemma length_sha1_pad: "length (sha1_pad m) mod 64 = 0"
proof -
  define q r where "q = length m div 64" and "r = length m mod 64"
  have m: "length m = 64 * q + r" and r: "r < 64" by (simp_all add: q_def r_def)
  have "(119 - r) mod 64 = (if r \<le> 55 then 55 - r else 119 - r)"
  proof (cases "r \<le> 55")
    case True
    then have "119 - r = 64 + (55 - r)" "55 - r < 64" by simp_all
    then show ?thesis using True by (metis mod_add_self1 mod_less)
  next
    case False
    then show ?thesis using r by simp
  qed
  then have "length (sha1_pad m) = 64 * (if r \<le> 55 then q + 1 else q + 2)"
    using m r by (simp add: sha1_pad_def Let_def)
  then show ?thesis by simp
qed

section \<open>HMAC-SHA1\<close>

definition hmac_block_key :: "bytes \<Rightarrow> bytes" where
  "hmac_block_key key =
     (let k = (if length key > 64 then sha1 key else key) in k @ replicate (64 - length k) 0)"

definition hmac_sha1 :: "bytes \<Rightarrow> bytes \<Rightarrow> bytes" where
  "hmac_sha1 key data =
     (let k = hmac_block_key key
      in sha1 (map (\<lambda>b. b XOR 0x5C) k @ sha1 (map (\<lambda>b. b XOR 0x36) k @ data)))"

lemma length_hmac_sha1 [simp]: "length (hmac_sha1 key data) = 20"
  by (simp add: hmac_sha1_def Let_def)

section \<open>AES-128\<close>

definition sbox_table :: bytes where
  "sbox_table = [
    0x63, 0x7C, 0x77, 0x7B, 0xF2, 0x6B, 0x6F, 0xC5, 0x30, 0x01, 0x67, 0x2B, 0xFE, 0xD7, 0xAB, 0x76,
    0xCA, 0x82, 0xC9, 0x7D, 0xFA, 0x59, 0x47, 0xF0, 0xAD, 0xD4, 0xA2, 0xAF, 0x9C, 0xA4, 0x72, 0xC0,
    0xB7, 0xFD, 0x93, 0x26, 0x36, 0x3F, 0xF7, 0xCC, 0x34, 0xA5, 0xE5, 0xF1, 0x71, 0xD8, 0x31, 0x15,
    0x04, 0xC7, 0x23, 0xC3, 0x18, 0x96, 0x05, 0x9A, 0x07, 0x12, 0x80, 0xE2, 0xEB, 0x27, 0xB2, 0x75,
    0x09, 0x83, 0x2C, 0x1A, 0x1B, 0x6E, 0x5A, 0xA0, 0x52, 0x3B, 0xD6, 0xB3, 0x29, 0xE3, 0x2F, 0x84,
    0x53, 0xD1, 0x00, 0xED, 0x20, 0xFC, 0xB1, 0x5B, 0x6A, 0xCB, 0xBE, 0x39, 0x4A, 0x4C, 0x58, 0xCF,
    0xD0, 0xEF, 0xAA, 0xFB, 0x43, 0x4D, 0x33, 0x85, 0x45, 0xF9, 0x02, 0x7F, 0x50, 0x3C, 0x9F, 0xA8,
    0x51, 0xA3, 0x40, 0x8F, 0x92, 0x9D, 0x38, 0xF5, 0xBC, 0xB6, 0xDA, 0x21, 0x10, 0xFF, 0xF3, 0xD2,
    0xCD, 0x0C, 0x13, 0xEC, 0x5F, 0x97, 0x44, 0x17, 0xC4, 0xA7, 0x7E, 0x3D, 0x64, 0x5D, 0x19, 0x73,
    0x60, 0x81, 0x4F, 0xDC, 0x22, 0x2A, 0x90, 0x88, 0x46, 0xEE, 0xB8, 0x14, 0xDE, 0x5E, 0x0B, 0xDB,
    0xE0, 0x32, 0x3A, 0x0A, 0x49, 0x06, 0x24, 0x5C, 0xC2, 0xD3, 0xAC, 0x62, 0x91, 0x95, 0xE4, 0x79,
    0xE7, 0xC8, 0x37, 0x6D, 0x8D, 0xD5, 0x4E, 0xA9, 0x6C, 0x56, 0xF4, 0xEA, 0x65, 0x7A, 0xAE, 0x08,
    0xBA, 0x78, 0x25, 0x2E, 0x1C, 0xA6, 0xB4, 0xC6, 0xE8, 0xDD, 0x74, 0x1F, 0x4B, 0xBD, 0x8B, 0x8A,
    0x70, 0x3E, 0xB5, 0x66, 0x48, 0x03, 0xF6, 0x0E, 0x61, 0x35, 0x57, 0xB9, 0x86, 0xC1, 0x1D, 0x9E,
    0xE1, 0xF8, 0x98, 0x11, 0x69, 0xD9, 0x8E, 0x94, 0x9B, 0x1E, 0x87, 0xE9, 0xCE, 0x55, 0x28, 0xDF,
    0x8C, 0xA1, 0x89, 0x0D, 0xBF, 0xE6, 0x42, 0x68, 0x41, 0x99, 0x2D, 0x0F, 0xB0, 0x54, 0xBB, 0x16]"

definition inv_sbox_table :: bytes where
  "inv_sbox_table = [
    0x52, 0x09, 0x6A, 0xD5, 0x30, 0x36, 0xA5, 0x38, 0xBF, 0x40, 0xA3, 0x9E, 0x81, 0xF3, 0xD7, 0xFB,
    0x7C, 0xE3, 0x39, 0x82, 0x9B, 0x2F, 0xFF, 0x87, 0x34, 0x8E, 0x43, 0x44, 0xC4, 0xDE, 0xE9, 0xCB,
    0x54, 0x7B, 0x94, 0x32, 0xA6, 0xC2, 0x23, 0x3D, 0xEE, 0x4C, 0x95, 0x0B, 0x42, 0xFA, 0xC3, 0x4E,
    0x08, 0x2E, 0xA1, 0x66, 0x28, 0xD9, 0x24, 0xB2, 0x76, 0x5B, 0xA2, 0x49, 0x6D, 0x8B, 0xD1, 0x25,
    0x72, 0xF8, 0xF6, 0x64, 0x86, 0x68, 0x98, 0x16, 0xD4, 0xA4, 0x5C, 0xCC, 0x5D, 0x65, 0xB6, 0x92,
    0x6C, 0x70, 0x48, 0x50, 0xFD, 0xED, 0xB9, 0xDA, 0x5E, 0x15, 0x46, 0x57, 0xA7, 0x8D, 0x9D, 0x84,
    0x90, 0xD8, 0xAB, 0x00, 0x8C, 0xBC, 0xD3, 0x0A, 0xF7, 0xE4, 0x58, 0x05, 0xB8, 0xB3, 0x45, 0x06,
    0xD0, 0x2C, 0x1E, 0x8F, 0xCA, 0x3F, 0x0F, 0x02, 0xC1, 0xAF, 0xBD, 0x03, 0x01, 0x13, 0x8A, 0x6B,
    0x3A, 0x91, 0x11, 0x41, 0x4F, 0x67, 0xDC, 0xEA, 0x97, 0xF2, 0xCF, 0xCE, 0xF0, 0xB4, 0xE6, 0x73,
    0x96, 0xAC, 0x74, 0x22, 0xE7, 0xAD, 0x35, 0x85, 0xE2, 0xF9, 0x37, 0xE8, 0x1C, 0x75, 0xDF, 0x6E,
    0x47, 0xF1, 0x1A, 0x71, 0x1D, 0x29, 0xC5, 0x89, 0x6F, 0xB7, 0x62, 0x0E, 0xAA, 0x18, 0xBE, 0x1B,
    0xFC, 0x56, 0x3E, 0x4B, 0xC6, 0xD2, 0x79, 0x20, 0x9A, 0xDB, 0xC0, 0xFE, 0x78, 0xCD, 0x5A, 0xF4,
    0x1F, 0xDD, 0xA8, 0x33, 0x88, 0x07, 0xC7, 0x31, 0xB1, 0x12, 0x10, 0x59, 0x27, 0x80, 0xEC, 0x5F,
    0x60, 0x51, 0x7F, 0xA9, 0x19, 0xB5, 0x4A, 0x0D, 0x2D, 0xE5, 0x7A, 0x9F, 0x93, 0xC9, 0x9C, 0xEF,
    0xA0, 0xE0, 0x3B, 0x4D, 0xAE, 0x2A, 0xF5, 0xB0, 0xC8, 0xEB, 0xBB, 0x3C, 0x83, 0x53, 0x99, 0x61,
    0x17, 0x2B, 0x04, 0x7E, 0xBA, 0x77, 0xD6, 0x26, 0xE1, 0x69, 0x14, 0x63, 0x55, 0x21, 0x0C, 0x7D]"

definition sbox :: "byte \<Rightarrow> byte" where
  "sbox b = sbox_table ! unat b"

definition inv_sbox :: "byte \<Rightarrow> byte" where
  "inv_sbox b = inv_sbox_table ! unat b"

definition xor_bytes :: "bytes \<Rightarrow> bytes \<Rightarrow> bytes" where
  "xor_bytes xs ys = map2 (XOR) xs ys"

text \<open>Multiplication by \<open>x\<close> in the AES field.\<close>

definition xtime :: "byte \<Rightarrow> byte" where
  "xtime b = push_bit 1 b XOR (if bit b 7 then 0x1B else 0)"

fun mix_columns :: "bytes \<Rightarrow> bytes" where
  "mix_columns (a # b # c # d # rest) =
     [xtime a XOR xtime b XOR b XOR c XOR d,
      a XOR xtime b XOR xtime c XOR c XOR d,
      a XOR b XOR xtime c XOR xtime d XOR d,
      xtime a XOR a XOR b XOR c XOR xtime d] @ mix_columns rest"
| "mix_columns _ = []"

definition mul9 :: "byte \<Rightarrow> byte" where "mul9 b = xtime (xtime (xtime b)) XOR b"
definition mul11 :: "byte \<Rightarrow> byte" where "mul11 b = xtime (xtime (xtime b)) XOR xtime b XOR b"
definition mul13 :: "byte \<Rightarrow> byte" where "mul13 b = xtime (xtime (xtime b)) XOR xtime (xtime b) XOR b"
definition mul14 :: "byte \<Rightarrow> byte" where "mul14 b = xtime (xtime (xtime b)) XOR xtime (xtime b) XOR xtime b"

fun inv_mix_columns :: "bytes \<Rightarrow> bytes" where
  "inv_mix_columns (a # b # c # d # rest) =
     [mul14 a XOR mul11 b XOR mul13 c XOR mul9 d,
      mul9 a XOR mul14 b XOR mul11 c XOR mul13 d,
      mul13 a XOR mul9 b XOR mul14 c XOR mul11 d,
      mul11 a XOR mul13 b XOR mul9 c XOR mul14 d] @ inv_mix_columns rest"
| "inv_mix_columns _ = []"

definition shift_rows :: "bytes \<Rightarrow> bytes" where
  "shift_rows st = map ((!) st) [0, 5, 10, 15, 4, 9, 14, 3, 8, 13, 2, 7, 12, 1, 6, 11]"

definition inv_shift_rows :: "bytes \<Rightarrow> bytes" where
  "inv_shift_rows st = map ((!) st) [0, 13, 10, 7, 4, 1, 14, 11, 8, 5, 2, 15, 12, 9, 6, 3]"

text \<open>The key schedule: ten further round keys of sixteen bytes.\<close>

definition next_round_key :: "byte \<Rightarrow> bytes \<Rightarrow> bytes" where
  "next_round_key rcon k =
     (let w0 = slice 0 4 k; w1 = slice 4 8 k; w2 = slice 8 12 k; w3 = slice 12 16 k;
          t = xor_bytes (map sbox (rotate1 w3)) [rcon, 0, 0, 0];
          v0 = xor_bytes w0 t; v1 = xor_bytes w1 v0; v2 = xor_bytes w2 v1; v3 = xor_bytes w3 v2
      in v0 @ v1 @ v2 @ v3)"

fun round_keys :: "byte list \<Rightarrow> bytes \<Rightarrow> bytes list" where
  "round_keys [] k = [k]"
| "round_keys (rcon # rcons) k = k # round_keys rcons (next_round_key rcon k)"

definition aes128_keys :: "bytes \<Rightarrow> bytes list" where
  "aes128_keys key = round_keys [0x01, 0x02, 0x04, 0x08, 0x10, 0x20, 0x40, 0x80, 0x1B, 0x36] key"

text \<open>The rounds after the initial key addition; the last one does not mix columns.\<close>

fun aes_rounds :: "bytes list \<Rightarrow> bytes \<Rightarrow> bytes" where
  "aes_rounds [] st = st"
| "aes_rounds [k] st = xor_bytes (shift_rows (map sbox st)) k"
| "aes_rounds (k # ks) st = aes_rounds ks (xor_bytes (mix_columns (shift_rows (map sbox st))) k)"

fun inv_aes_rounds :: "bytes list \<Rightarrow> bytes \<Rightarrow> bytes" where
  "inv_aes_rounds [] st = st"
| "inv_aes_rounds [k] st = map inv_sbox (inv_shift_rows (xor_bytes st k))"
| "inv_aes_rounds (k # ks) st =
     map inv_sbox (inv_shift_rows (inv_mix_columns (xor_bytes (inv_aes_rounds ks st) k)))"

definition aes128_encrypt :: "bytes \<Rightarrow> bytes \<Rightarrow> bytes" where
  "aes128_encrypt key blk =
     (let ks = aes128_keys key in aes_rounds (tl ks) (xor_bytes blk (hd ks)))"

definition aes128_decrypt :: "bytes \<Rightarrow> bytes \<Rightarrow> bytes" where
  "aes128_decrypt key blk =
     (let ks = aes128_keys key in xor_bytes (inv_aes_rounds (tl ks) blk) (hd ks))"

section \<open>CBC\<close>

function cbc_encrypt :: "(bytes \<Rightarrow> bytes) \<Rightarrow> bytes \<Rightarrow> bytes \<Rightarrow> bytes" where
  "cbc_encrypt E iv pt =
     (if length pt < 16 then []
      else let c = E (xor_bytes (take 16 pt) iv) in c @ cbc_encrypt E c (drop 16 pt))"
  by pat_completeness auto
termination by (relation "measure (\<lambda>(E, iv, pt). length pt)") auto

function cbc_decrypt :: "(bytes \<Rightarrow> bytes) \<Rightarrow> bytes \<Rightarrow> bytes \<Rightarrow> bytes" where
  "cbc_decrypt D iv ct =
     (if length ct < 16 then []
      else xor_bytes (D (take 16 ct)) iv @ cbc_decrypt D (take 16 ct) (drop 16 ct))"
  by pat_completeness auto
termination by (relation "measure (\<lambda>(D, iv, ct). length ct)") auto

declare cbc_encrypt.simps [simp del] cbc_decrypt.simps [simp del]

section \<open>The inverse cipher undoes the cipher\<close>

lemma length_xor_bytes [simp]: "length (xor_bytes xs ys) = min (length xs) (length ys)"
  by (simp add: xor_bytes_def)

lemma xor_bytes_twice: "length xs = length ys \<Longrightarrow> xor_bytes (xor_bytes xs ys) ys = xs"
  by (induction xs ys rule: list_induct2) (simp_all add: xor_bytes_def xor.assoc)

lemma sbox_tables: "map (\<lambda>i. inv_sbox_table ! unat (sbox_table ! i)) [0..<256] = map of_nat [0..<256]"
  by code_simp

lemma inv_sbox_sbox [simp]: "inv_sbox (sbox b) = b"
proof -
  have "map (\<lambda>i. inv_sbox_table ! unat (sbox_table ! i)) [0..<256] ! unat b = map of_nat [0..<256] ! unat b"
    by (simp only: sbox_tables)
  then show ?thesis using unat_byte_bound [of b] by (simp add: inv_sbox_def sbox_def)
qed

lemma xtime_xor: "xtime (a XOR b) = xtime a XOR xtime b"
  by (auto simp: xtime_def push_bit_xor bit_xor_iff ac_simps)

lemma xor_cancel: "a XOR (a XOR b) = (b :: byte)"
  by (simp flip: xor.assoc)

lemma length16_conv: "length xs = 16 \<longleftrightarrow> (\<exists>a b c d e f g h i j k l m n p q. xs = [a, b, c, d, e, f, g, h, i, j, k, l, m, n, p, q])"
  by (auto simp: numeral_eq_Suc length_Suc_conv)

lemma inv_mix_columns_mix_columns: "length xs mod 4 = 0 \<Longrightarrow> inv_mix_columns (mix_columns xs) = xs"
proof (induction xs rule: mix_columns.induct)
  case (1 a b c d rest)
  then have "inv_mix_columns (mix_columns rest) = rest" by simp
  then show ?case
    by (simp add: mul9_def mul11_def mul13_def mul14_def xtime_xor xor.assoc xor.commute xor.left_commute xor_cancel)
qed auto

lemma length_mix_columns: "length xs mod 4 = 0 \<Longrightarrow> length (mix_columns xs) = length xs"
  by (induction xs rule: mix_columns.induct) auto

lemma inv_shift_rows_shift_rows: "length xs = 16 \<Longrightarrow> inv_shift_rows (shift_rows xs) = xs"
  by (auto simp: length16_conv inv_shift_rows_def shift_rows_def)

lemma length_shift_rows [simp]: "length (shift_rows xs) = 16"
  by (simp add: shift_rows_def)

lemma map_inv_sbox_sbox: "map inv_sbox (map sbox xs) = xs"
  by (simp add: comp_def)

lemma aes_rounds_inverse:
  "list_all (\<lambda>k. length k = 16) ks \<Longrightarrow> length st = 16 \<Longrightarrow>
     length (aes_rounds ks st) = 16 \<and> inv_aes_rounds ks (aes_rounds ks st) = st"
proof (induction ks st rule: aes_rounds.induct)
  case (2 k st)
  then show ?case by (simp add: xor_bytes_twice inv_shift_rows_shift_rows map_inv_sbox_sbox del: map_map)
next
  case (3 k k' ks st)
  define x where "x = mix_columns (shift_rows (map sbox st))"
  have x: "length x = 16" by (simp add: x_def length_mix_columns)
  have "inv_mix_columns x = shift_rows (map sbox st)" by (simp add: x_def inv_mix_columns_mix_columns)
  then show ?case using 3 x
    by (simp add: x_def [symmetric] xor_bytes_twice inv_shift_rows_shift_rows map_inv_sbox_sbox del: map_map)
qed simp

lemma length_next_round_key: "length k = 16 \<Longrightarrow> length (next_round_key rcon k) = 16"
  by (simp add: next_round_key_def Let_def)

lemma aes128_keys_16:
  "length key = 16 \<Longrightarrow> list_all (\<lambda>k. length k = 16) (tl (aes128_keys key)) \<and> length (hd (aes128_keys key)) = 16"
  by (simp add: aes128_keys_def length_next_round_key)

lemma aes128_inverse:
  "length key = 16 \<Longrightarrow> length b = 16 \<Longrightarrow> aes128_decrypt key (aes128_encrypt key b) = b"
  "length key = 16 \<Longrightarrow> length b = 16 \<Longrightarrow> length (aes128_encrypt key b) = 16"
  using aes_rounds_inverse [of "tl (aes128_keys key)" "xor_bytes b (hd (aes128_keys key))"] aes128_keys_16 [of key]
  by (simp_all add: aes128_decrypt_def aes128_encrypt_def Let_def xor_bytes_twice)

section \<open>Block ciphers as an interface\<close>

text \<open>What CBC mode needs of a block cipher: it keeps the block size and can be undone.\<close>

locale block_cipher =
  fixes E D :: "bytes \<Rightarrow> bytes \<Rightarrow> bytes" and ok :: "bytes \<Rightarrow> bool"
  assumes length_E: "ok key \<Longrightarrow> length b = 16 \<Longrightarrow> length (E key b) = 16"
    and D_E: "ok key \<Longrightarrow> length b = 16 \<Longrightarrow> D key (E key b) = b"
begin

lemma length_cbc:
  "ok key \<Longrightarrow> length iv = 16 \<Longrightarrow> length pt mod 16 = 0 \<Longrightarrow> length (cbc_encrypt (E key) iv pt) = length pt"
proof (induction "E key" iv pt rule: cbc_encrypt.induct)
  case (1 iv pt)
  show ?case
  proof (cases "length pt < 16")
    case True
    then show ?thesis using 1 by (simp add: cbc_encrypt.simps)
  next
    case False
    let ?c = "E key (xor_bytes (take 16 pt) iv)"
    have "length ?c = 16" using 1(2,3) False by (simp add: length_E)
    moreover have "length (drop 16 pt) mod 16 = 0" using 1(4) False by (simp add: mod_if)
    ultimately show ?thesis using 1 False by (simp add: cbc_encrypt.simps [of _ iv pt] Let_def)
  qed
qed

lemma cbc_inverse:
  "ok key \<Longrightarrow> length iv = 16 \<Longrightarrow> length pt mod 16 = 0
     \<Longrightarrow> cbc_decrypt (D key) iv (cbc_encrypt (E key) iv pt) = pt"
proof (induction "E key" iv pt rule: cbc_encrypt.induct)
  case (1 iv pt)
  show ?case
  proof (cases "length pt < 16")
    case True
    then show ?thesis using 1 by (simp add: cbc_encrypt.simps cbc_decrypt.simps)
  next
    case False
    define c where "c = E key (xor_bytes (take 16 pt) iv)"
    have c: "length c = 16" using 1(2,3) False by (simp add: c_def length_E)
    have "length (drop 16 pt) mod 16 = 0" using 1(4) False by (simp add: mod_if)
    then have IH: "cbc_decrypt (D key) c (cbc_encrypt (E key) c (drop 16 pt)) = drop 16 pt"
      using 1(1) [OF False c_def] 1(2) c by simp
    have "xor_bytes (D key c) iv = take 16 pt"
      using 1(2,3) False by (simp add: c_def D_E xor_bytes_twice)
    then show ?thesis using False c IH
      by (simp add: cbc_encrypt.simps [of _ iv pt] c_def [symmetric] cbc_decrypt.simps [of _ iv "c @ _"] Let_def)
  qed
qed

end

interpretation aes: block_cipher aes128_encrypt aes128_decrypt "\<lambda>key. length key = 16"
  by unfold_locales (simp_all add: aes128_inverse)

end
