(* ===== verification/Ipmi_Rmcp.thy ===== *)
theory Ipmi_Rmcp
  imports Std_Crypto
begin

text \<open>
  The RMCP+ wire layer (\<open>internal/ipmi/crypto.go\<close>, \<open>internal/ipmi/rmcp.go\<close>): payload encryption and its
  padding, the session envelope with its integrity trailer, and the LAN message with its two
  checksums.  A Go slice that may be nil is an option.  Go panics (a short key, a wrong IV length) are
  \<open>Panic\<close> errors.  Only AES-128 is modelled: both callers pass \<open>k2[:16]\<close>, so the longer AES key
  sizes that \<open>aes.NewCipher\<close> also accepts do not arise.
\<close>

section \<open>crypto.go\<close>

definition hmacSHA1 :: "bytes \<Rightarrow> bytes \<Rightarrow> bytes" where
  "hmacSHA1 key data = hmac_sha1 key data"

definition key_size_error :: "bytes \<Rightarrow> string" where
  "key_size_error key = ''crypto/aes: invalid key size '' @ dec (length key)"

definition payload_pad :: "bytes \<Rightarrow> bytes" where
  "payload_pad plain =
     (let padLen = 16 - (length plain + 1) mod 16;
          padLen = (if padLen = 16 then 0 else padLen)
      in plain @ map of_nat [1..<Suc padLen] @ [of_nat padLen])"

definition aesEncryptPayload :: "bytes \<Rightarrow> bytes \<Rightarrow> bytes \<Rightarrow> bytes result" where
  "aesEncryptPayload key iv plain =
     (if length key \<noteq> 16 then Inl (Panic (key_size_error key))
      else if length iv \<noteq> 16 then Inl (Panic ''cipher.NewCBCEncrypter: IV length must equal block size'')
      else Inr (cbc_encrypt (aes128_encrypt key) iv (payload_pad plain)))"

text \<open>The loop that compares the pad bytes, from the last one backwards.\<close>

definition pad_bytes_ok :: "nat \<Rightarrow> bytes \<Rightarrow> bool" where
  "pad_bytes_ok padLen pt \<longleftrightarrow> list_all (\<lambda>i. pt ! (length pt - 2 - i) = of_nat (padLen - i)) [0..<padLen]"

definition aesDecryptPayload :: "bytes \<Rightarrow> bytes \<Rightarrow> bytes \<Rightarrow> bytes result" where
  "aesDecryptPayload key iv ct =
     (if length ct mod 16 \<noteq> 0 \<or> length ct = 0 then Inl (Errorf ''ipmi: ciphertext length not aligned'')
      else if length key \<noteq> 16 then Inl (Errorf (key_size_error key))
      else if length iv \<noteq> 16 then Inl (Panic ''cipher.NewCBCDecrypter: IV length must equal block size'')
      else
        let pt = cbc_decrypt (aes128_decrypt key) iv ct;
            padLen = unat (pt ! (length pt - 1))
        in if padLen > 15 \<or> padLen + 1 > length pt then
             Inl (Errorf (''ipmi: bad AES pad length '' @ dec padLen))
           else if \<not> pad_bytes_ok padLen pt then Inl (Errorf ''ipmi: bad AES pad content'')
           else Inr (take (length pt - padLen - 1) pt))"

section \<open>rmcp.go\<close>

definition rmcpHeader :: bytes where
  "rmcpHeader = [0x06, 0x00, 0xFF, 0x07]"

abbreviation (input) payloadIPMI :: byte where "payloadIPMI \<equiv> 0x00"
abbreviation (input) payloadSOL :: byte where "payloadSOL \<equiv> 0x01"
abbreviation (input) payloadOpenSessionReq :: byte where "payloadOpenSessionReq \<equiv> 0x10"
abbreviation (input) payloadRAKP1 :: byte where "payloadRAKP1 \<equiv> 0x12"
abbreviation (input) payloadRAKP3 :: byte where "payloadRAKP3 \<equiv> 0x14"
abbreviation (input) payloadBitAuth :: byte where "payloadBitAuth \<equiv> 0x40"
abbreviation (input) payloadBitEnc :: byte where "payloadBitEnc \<equiv> 0x80"
abbreviation (input) privAdministrator :: byte where "privAdministrator \<equiv> 0x04"
abbreviation (input) netFnChassisReq :: byte where "netFnChassisReq \<equiv> 0x00"
abbreviation (input) netFnAppReq :: byte where "netFnAppReq \<equiv> 0x06"

text \<open>\<open>k[:16]\<close>.\<close>

definition key16 :: "bytes \<Rightarrow> bytes result" where
  "key16 k = (if length k < 16 then Inl (Panic ''slice bounds out of range'') else Inr (take 16 k))"

definition rmcp_body :: "bytes \<Rightarrow> bytes option \<Rightarrow> bytes option \<Rightarrow> bytes result" where
  "rmcp_body payload k2 iv =
     (case (k2, iv) of
        (Some k2, Some iv) \<Rightarrow>
          (case key16 k2 of
             Inl e \<Rightarrow> Inl e
           | Inr k \<Rightarrow>
               (case aesEncryptPayload k iv payload of
                  Inl e \<Rightarrow> Inl e
                | Inr body \<Rightarrow> Inr (iv @ body)))
      | _ \<Rightarrow> Inr payload)"

definition rmcp_session_header :: "byte \<Rightarrow> u32 \<Rightarrow> u32 \<Rightarrow> nat \<Rightarrow> bytes" where
  "rmcp_session_header pt sessionID seq n =
     (let hdr = mk_buf 12;
          hdr = hdr[0 := 0x06];
          hdr = hdr[1 := pt];
          hdr = copy_to 2 6 (putLE32 sessionID) hdr;
          hdr = copy_to 6 10 (putLE32 seq) hdr
      in copy_to 10 12 (putLE16 (of_nat n)) hdr)"

text \<open>The integrity trailer: pad, pad length, next header, and the truncated MAC over all but the RMCP header.\<close>

definition rmcp_trailer :: "bytes \<Rightarrow> bytes \<Rightarrow> bytes" where
  "rmcp_trailer k1 buf =
     (let intStart = length rmcpHeader;
          intEnd = length buf;
          padLen = (4 - ((intEnd - intStart) + 2) mod 4) mod 4;
          buf = buf @ replicate padLen 0xFF;
          buf = buf @ [of_nat padLen];
          buf = buf @ [0x07];
          mac = hmacSHA1 k1 (drop intStart buf)
      in buf @ take 12 mac)"

definition buildRMCPPlus ::
  "byte \<Rightarrow> u32 \<Rightarrow> u32 \<Rightarrow> bytes \<Rightarrow> bytes option \<Rightarrow> bytes option \<Rightarrow> bytes option \<Rightarrow> bytes result" where
  "buildRMCPPlus payloadType sessionID seq payload k1 k2 iv =
     (let auth = (k1 \<noteq> None);
          enc = (k2 \<noteq> None \<and> iv \<noteq> None);
          pt = payloadType;
          pt = (if auth then pt OR payloadBitAuth else pt);
          pt = (if enc then pt OR payloadBitEnc else pt)
      in case rmcp_body payload k2 iv of
           Inl e \<Rightarrow> Inl e
         | Inr body \<Rightarrow>
             let buf = rmcpHeader @ rmcp_session_header pt sessionID seq (length body) @ body
             in (case k1 of None \<Rightarrow> Inr buf | Some k1 \<Rightarrow> Inr (rmcp_trailer k1 buf)))"

definition equalBytes :: "bytes \<Rightarrow> bytes \<Rightarrow> bool" where
  "equalBytes a b \<longleftrightarrow>
     length a = length b \<and> fold (\<lambda>(x, y) v. v OR (x XOR y)) (zip a b) 0 = 0"

text \<open>The checks on an authenticated packet; the result is the error, if any.\<close>

definition check_trailer :: "bytes \<Rightarrow> nat \<Rightarrow> bytes option \<Rightarrow> gerror option" where
  "check_trailer pkt bodyEnd k1 =
     (case k1 of
        None \<Rightarrow> Some (Errorf ''ipmi: authenticated packet but no k1'')
      | Some k1 \<Rightarrow>
          if length pkt < bodyEnd + 2 + 12 then Some (Errorf ''ipmi: packet too short for integrity trailer'')
          else
            let macAt = length pkt - 12;
                nextHdrAt = macAt - 1;
                padLenAt = nextHdrAt - 1;
                padLen = unat (pkt ! padLenAt)
            in if bodyEnd + padLen + 2 \<noteq> macAt then
                 Some (Errorf (''ipmi: integrity trailer size mismatch (pad='' @ dec padLen @ '')''))
               else
                 let mac = hmacSHA1 k1 (slice 4 macAt pkt)
                 in if \<not> equalBytes (take 12 mac) (slice macAt (macAt + 12) pkt) then
                      Some (Errorf ''ipmi: integrity check failed'')
                    else None)"

definition rmcp_open :: "bool \<Rightarrow> bytes \<Rightarrow> bytes option \<Rightarrow> bytes result" where
  "rmcp_open enc body k2 =
     (if enc then
        (case k2 of
           None \<Rightarrow> Inl (Errorf ''ipmi: encrypted packet missing IV or k2'')
         | Some k2 \<Rightarrow>
             if length body < 16 then Inl (Errorf ''ipmi: encrypted packet missing IV or k2'')
             else (case key16 k2 of
                     Inl e \<Rightarrow> Inl e
                   | Inr k \<Rightarrow> aesDecryptPayload k (take 16 body) (drop 16 body)))
      else Inr body)"

definition parseRMCPPlus ::
  "bytes \<Rightarrow> bytes option \<Rightarrow> bytes option \<Rightarrow> (byte \<times> u32 \<times> u32 \<times> bytes) result" where
  "parseRMCPPlus pkt k1 k2 =
     (if length pkt < length rmcpHeader + 12 then Inl (Errorf ''ipmi: packet shorter than RMCP+ header'')
      else if pkt ! 0 \<noteq> 0x06 \<or> pkt ! 3 \<noteq> 0x07 then
        Inl (Errorf (''ipmi: not an RMCP/IPMI packet ('' @ hex2 (pkt ! 0) @ '' '' @ hex2 (pkt ! 3) @ '')''))
      else if pkt ! 4 \<noteq> 0x06 then
        Inl (Errorf (''ipmi: unexpected auth type 0x'' @ hex2 (pkt ! 4)))
      else
        let ptRaw = pkt ! 5;
            auth = (ptRaw AND payloadBitAuth \<noteq> 0);
            enc = (ptRaw AND payloadBitEnc \<noteq> 0);
            payloadType = ptRaw AND NOT (payloadBitAuth OR payloadBitEnc);
            sessionID = le32 (slice 6 10 pkt);
            seq = le32 (slice 10 14 pkt);
            payLen = unat (le16 (slice 14 16 pkt));
            bodyStart = 16;
            bodyEnd = bodyStart + payLen
        in if bodyEnd > length pkt then
             Inl (Errorf (''ipmi: payload length '' @ dec payLen @ '' exceeds packet ('' @ dec (length pkt) @ '')''))
           else
             (case (if auth then check_trailer pkt bodyEnd k1 else None) of
                Some e \<Rightarrow> Inl e
              | None \<Rightarrow>
                  (case rmcp_open enc (slice bodyStart bodyEnd pkt) k2 of
                     Inl e \<Rightarrow> Inl e
                   | Inr payload \<Rightarrow> Inr (payloadType, sessionID, seq, payload))))"

definition ipmiChecksum :: "bytes \<Rightarrow> byte" where
  "ipmiChecksum b = - fold (\<lambda>x s. s + x) b 0"

definition buildLANMessage :: "byte \<Rightarrow> byte \<Rightarrow> byte \<Rightarrow> bytes \<Rightarrow> bytes" where
  "buildLANMessage netFn rqSeq cmd data =
     (let buf = [0x20];
          buf = buf @ [push_bit 2 netFn];
          buf = buf @ [ipmiChecksum buf];
          buf = buf @ [0x81];
          buf = buf @ [push_bit 2 rqSeq];
          buf = buf @ [cmd];
          buf = buf @ data
      in buf @ [ipmiChecksum (drop 3 buf)])"

definition parseLANResponse :: "bytes \<Rightarrow> (byte \<times> byte \<times> byte \<times> bytes) result" where
  "parseLANResponse msg =
     (if length msg < 8 then Inl (Errorf (''ipmi: response too short ('' @ dec (length msg) @ '' bytes)''))
      else if ipmiChecksum (take 2 msg) \<noteq> msg ! 2 then Inl (Errorf ''ipmi: bad header checksum'')
      else if ipmiChecksum (slice 3 (length msg - 1) msg) \<noteq> msg ! (length msg - 1) then
        Inl (Errorf ''ipmi: bad body checksum'')
      else Inr (drop_bit 2 (msg ! 1), msg ! 5, msg ! 6, slice 7 (length msg - 1) msg))"

section \<open>Lemmas: padding and encryption\<close>

definition with_pad :: "nat \<Rightarrow> bytes \<Rightarrow> bytes" where
  "with_pad n plain = plain @ map of_nat [1..<Suc n] @ [of_nat n]"

lemma length_with_pad [simp]: "length (with_pad n plain) = length plain + n + 1"
  by (simp add: with_pad_def)

lemma payload_pad_with_pad:
  obtains n where "payload_pad plain = with_pad n plain" "n \<le> 15" "(length plain + n + 1) mod 16 = 0"
proof
  let ?r = "(length plain + 1) mod 16"
  let ?n = "if 16 - ?r = 16 then 0 else 16 - ?r"
  show "payload_pad plain = with_pad ?n plain" by (simp add: payload_pad_def with_pad_def Let_def)
  have r: "?r < 16" by simp
  show "?n \<le> 15" by auto
  show "(length plain + ?n + 1) mod 16 = 0"
  proof (cases "?r = 0")
    case False
    have "(length plain + 1 + (16 - ?r)) mod 16 = (?r + (16 - ?r)) mod 16" by (metis mod_add_left_eq)
    then show ?thesis using r False by (simp add: add.commute add.left_commute)
  qed simp
qed

lemma nth_with_pad: "i < n \<Longrightarrow> with_pad n plain ! (length plain + i) = of_nat (Suc i)"
  by (simp add: with_pad_def nth_append del: upt_Suc)

lemma pad_bytes_ok_with_pad: "n \<le> 15 \<Longrightarrow> pad_bytes_ok n (with_pad n plain)"
proof -
  have "with_pad n plain ! (length plain + n - Suc i) = of_nat (n - i)" if "i < n" for i
    using that nth_with_pad [of "n - Suc i" n plain] by (simp add: Suc_diff_Suc)
  then show ?thesis by (auto simp: pad_bytes_ok_def list_all_iff)
qed

lemma pad_bytes_okD:
  assumes "pad_bytes_ok n pt" and "n + 1 \<le> length pt" and "pt ! (length pt - 1) = of_nat n"
  shows "pt = with_pad n (take (length pt - n - 1) pt)"
proof (rule nth_equalityI)
  let ?p = "take (length pt - n - 1) pt"
  show "length pt = length (with_pad n ?p)" using assms(2) by simp
  fix i assume i: "i < length pt"
  consider "i < length pt - n - 1" | "length pt - n - 1 \<le> i" "i < length pt - 1" | "i = length pt - 1"
    using i by linarith
  then show "pt ! i = with_pad n ?p ! i"
  proof cases
    case 2
    define j where "j = length pt - 2 - i"
    have j: "j < n" "i = length pt - 2 - j" "n - j = Suc (i - (length pt - n - 1))" using 2 assms(2) by (auto simp: j_def)
    have "pt ! i = of_nat (n - j)"
      using assms(1) j(1) unfolding pad_bytes_ok_def list_all_iff j(2) set_upt by (meson atLeastLessThan_iff le0)
    moreover have "with_pad n ?p ! (length ?p + (i - (length pt - n - 1))) = of_nat (Suc (i - (length pt - n - 1)))"
      using 2 assms(2) by (intro nth_with_pad) auto
    moreover have "length ?p + (i - (length pt - n - 1)) = i" using 2 assms(2) by simp
    ultimately show ?thesis unfolding j(3) by simp
  qed (use assms in \<open>auto simp: with_pad_def nth_append simp del: upt_Suc\<close>)
qed

lemma aesDecryptPayload_accepts_iff:
  assumes "length key = 16" and "length iv = 16" and "length ct mod 16 = 0" and "ct \<noteq> []"
  shows "aesDecryptPayload key iv ct = Inr plain
     \<longleftrightarrow> (\<exists>n \<le> 15. cbc_decrypt (aes128_decrypt key) iv ct = with_pad n plain)"
proof
  let ?pt = "cbc_decrypt (aes128_decrypt key) iv ct"
  let ?n = "unat (?pt ! (length ?pt - 1))"
  assume acc: "aesDecryptPayload key iv ct = Inr plain"
  then have h: "?n \<le> 15" "?n + 1 \<le> length ?pt" "pad_bytes_ok ?n ?pt" "plain = take (length ?pt - ?n - 1) ?pt"
    using assms by (auto simp: aesDecryptPayload_def Let_def split: if_splits)
  have "?pt = with_pad ?n plain" using pad_bytes_okD [OF h(3,2)] h(4) by simp
  then show "\<exists>n \<le> 15. ?pt = with_pad n plain" using h(1) by blast
next
  assume "\<exists>n \<le> 15. cbc_decrypt (aes128_decrypt key) iv ct = with_pad n plain"
  then obtain n where n: "n \<le> 15" "cbc_decrypt (aes128_decrypt key) iv ct = with_pad n plain" by blast
  have "with_pad n plain ! (length plain + n) = of_nat n" by (simp add: with_pad_def nth_append del: upt_Suc)
  then show "aesDecryptPayload key iv ct = Inr plain"
    using assms n pad_bytes_ok_with_pad [OF n(1), of plain]
    by (simp add: aesDecryptPayload_def) (simp add: with_pad_def)
qed

lemma aes_payload_roundtrip_lemma:
  assumes "length key = 16" and "length iv = 16"
  obtains ct where "aesEncryptPayload key iv plain = Inr ct" "aesDecryptPayload key iv ct = Inr plain"
    "length plain < length ct" "length ct \<le> length plain + 16" "length ct mod 16 = 0"
proof
  obtain n where n: "payload_pad plain = with_pad n plain" "n \<le> 15" "(length plain + n + 1) mod 16 = 0"
    by (rule payload_pad_with_pad)
  let ?ct = "cbc_encrypt (aes128_encrypt key) iv (payload_pad plain)"
  have al: "length (payload_pad plain) mod 16 = 0" using n by simp
  have len: "length ?ct = length plain + n + 1"
    using aes.length_cbc [OF assms al] n(1) by simp
  show "aesEncryptPayload key iv plain = Inr ?ct" using assms by (simp add: aesEncryptPayload_def)
  have "?ct \<noteq> []" using len by auto
  then show "aesDecryptPayload key iv ?ct = Inr plain"
    using aesDecryptPayload_accepts_iff [OF assms, of ?ct plain] len n aes.cbc_inverse [OF assms al] by auto
  show "length plain < length ?ct" "length ?ct \<le> length plain + 16" "length ?ct mod 16 = 0"
    using len n by simp_all
qed

section \<open>Lemmas: comparison and checksums\<close>

lemma or_fold_zero:
  "fold (\<lambda>(x, y) v. v OR (x XOR y)) ps v = (0 :: byte) \<longleftrightarrow> v = 0 \<and> (\<forall>(x, y) \<in> set ps. x = y)"
proof (induction ps arbitrary: v)
  case (Cons p ps)
  have "v OR (x XOR y) = 0 \<longleftrightarrow> v = 0 \<and> x = y" for v x y :: byte
    by (metis or_eq_0_iff xor_self_eq xor.assoc xor.left_neutral xor.right_neutral)
  then show ?case using Cons by (auto split: prod.splits)
qed simp

lemma equalBytes_iff [simp]: "equalBytes a b \<longleftrightarrow> a = b"
proof -
  have "length a = length b \<Longrightarrow> (\<forall>(x, y) \<in> set (zip a b). x = y) \<longleftrightarrow> a = b"
    by (induction a b rule: list_induct2) auto
  then show ?thesis by (auto simp: equalBytes_def or_fold_zero)
qed

lemma fold_sum: "fold (\<lambda>x s. s + x) b s = s + sum_list (b :: bytes)"
  by (induction b arbitrary: s) (simp_all add: add.assoc)

lemma ipmiChecksum_sum: "ipmiChecksum b = - sum_list b"
  by (simp add: ipmiChecksum_def fold_sum)

lemma checksum_eq_iff: "ipmiChecksum b = c \<longleftrightarrow> sum_list b + c = 0"
  unfolding ipmiChecksum_sum by (rule neg_eq_iff_add_eq_0)

lemma parseLANResponse_accepts_iff:
  "(\<exists>r. parseLANResponse msg = Inr r)
     \<longleftrightarrow> 8 \<le> length msg \<and> sum_list (take 3 msg) = 0 \<and> sum_list (drop 3 msg) = 0"
proof (cases "8 \<le> length msg")
  case True
  have h: "take 3 msg = take 2 msg @ [msg ! 2]"
    using True take_Suc_conv_app_nth [of 2 msg] by (simp add: numeral_3_eq_3 numeral_2_eq_2)
  have "drop 3 msg = slice 3 (length msg - 1) msg @ drop (length msg - 1) msg"
  proof -
    have i: "length msg - 4 + 3 = length msg - 1" "length msg - 1 - 3 = length msg - 4" using True by simp_all
    have "drop (length msg - 4) (drop 3 msg) = drop (length msg - 1) msg" unfolding drop_drop i ..
    then show ?thesis unfolding slice_def i by (metis append_take_drop_id)
  qed
  moreover have "drop (length msg - 1) msg = [msg ! (length msg - 1)]"
    using True by (cases msg rule: rev_cases) auto
  ultimately have b: "drop 3 msg = slice 3 (length msg - 1) msg @ [msg ! (length msg - 1)]" by simp
  show ?thesis using True by (simp add: parseLANResponse_def checksum_eq_iff h b)
qed (simp add: parseLANResponse_def)

section \<open>Lemmas: the envelope\<close>

lemma length_rmcpHeader [simp]: "length rmcpHeader = 4"
  by (simp add: rmcpHeader_def)

lemma rmcp_session_header_layout:
  "rmcp_session_header pt sid seq n = [0x06, pt] @ putLE32 sid @ putLE32 seq @ putLE16 (of_nat n)"
  unfolding rmcp_session_header_def Let_def by (simp add: layout_simps)

lemma length_rmcp_session_header [simp]: "length (rmcp_session_header pt sid seq n) = 12"
  by (simp add: rmcp_session_header_layout)

definition rmcp_packet :: "byte \<Rightarrow> u32 \<Rightarrow> u32 \<Rightarrow> bytes \<Rightarrow> bytes" where
  "rmcp_packet pt sid seq body = rmcpHeader @ rmcp_session_header pt sid seq (length body) @ body"

lemma rmcp_packet_fields:
  assumes "length body < 65536"
  shows "length (rmcp_packet pt sid seq body) = 16 + length body"
    "(rmcp_packet pt sid seq body @ rest) ! 0 = 6" "(rmcp_packet pt sid seq body @ rest) ! 3 = 7"
    "(rmcp_packet pt sid seq body @ rest) ! 4 = 6" "(rmcp_packet pt sid seq body @ rest) ! 5 = pt"
    "slice 6 10 (rmcp_packet pt sid seq body @ rest) = putLE32 sid"
    "slice 10 14 (rmcp_packet pt sid seq body @ rest) = putLE32 seq"
    "slice 14 16 (rmcp_packet pt sid seq body @ rest) = putLE16 (of_nat (length body))"
    "slice 16 (16 + length body) (rmcp_packet pt sid seq body @ rest) = body"
  by (simp_all add: rmcp_packet_def rmcpHeader_def rmcp_session_header_layout slice_def nth_append)

lemma parse_packet:
  assumes "length body < 65536"
  shows "parseRMCPPlus (rmcp_packet pt sid seq body @ rest) k1 k2
    = (case (if pt AND payloadBitAuth \<noteq> 0
             then check_trailer (rmcp_packet pt sid seq body @ rest) (16 + length body) k1 else None) of
         Some e \<Rightarrow> Inl e
       | None \<Rightarrow> (case rmcp_open (pt AND payloadBitEnc \<noteq> 0) body k2 of
           Inl e \<Rightarrow> Inl e
         | Inr payload \<Rightarrow> Inr (pt AND NOT (payloadBitAuth OR payloadBitEnc), sid, seq, payload)))"
  using assms by (simp add: parseRMCPPlus_def rmcp_packet_fields Let_def split: option.split sum.split)

lemma trailer_checks:
  assumes "length body < 65536" and "buf = rmcp_packet pt sid seq body"
  shows "\<exists>rest. rmcp_trailer k1 buf = buf @ rest \<and> check_trailer (buf @ rest) (16 + length body) (Some k1) = None"
proof -
  define n where "n = (4 - ((length buf - 4) + 2) mod 4) mod 4"
  have n: "n < 4" by (simp add: n_def)
  define fin where "fin = buf @ replicate n 0xFF @ [of_nat n, 0x07]"
  define mac where "mac = take 12 (hmacSHA1 k1 (drop 4 fin))"
  have mac: "length mac = 12" by (simp add: mac_def hmacSHA1_def)
  have tr: "rmcp_trailer k1 buf = fin @ mac"
    unfolding rmcp_trailer_def Let_def length_rmcpHeader n_def [symmetric] mac_def fin_def by simp
  have lb: "length buf = 16 + length body" using assms by (simp add: rmcp_packet_fields)
  have lf: "length fin = 16 + length body + n + 2" using lb by (simp add: fin_def)
  have pad: "(fin @ mac) ! (length fin - 2) = of_nat n"
    by (simp add: fin_def nth_append)
  have u: "unat (of_nat n :: byte) = n" using n by simp
  have "check_trailer (fin @ mac) (16 + length body) (Some k1) = None"
    using mac lf pad u
    by (simp add: check_trailer_def Let_def slice_def mac_def numeral_2_eq_2)
  then show ?thesis using tr by (intro exI [of _ "drop (length buf) (fin @ mac)"]) (simp add: fin_def)
qed

lemma build_packet:
  "rmcp_body payload k2 iv = Inr body \<Longrightarrow>
     buildRMCPPlus ty sid seq payload k1 k2 iv
       = (let pt = ty OR (if k1 = None then 0 else payloadBitAuth)
                OR (if k2 = None \<or> iv = None then 0 else payloadBitEnc)
          in Inr (case k1 of None \<Rightarrow> rmcp_packet pt sid seq body
                | Some k \<Rightarrow> rmcp_trailer k (rmcp_packet pt sid seq body)))"
  by (auto simp: buildRMCPPlus_def rmcp_packet_def Let_def or.assoc split: option.split)

text \<open>The flag bits are disjoint from the payload type.\<close>

lemma payload_type_bits:
  assumes "ty AND (payloadBitAuth OR payloadBitEnc) = 0"
  shows "(ty OR a OR e) AND payloadBitAuth = (a OR e) AND payloadBitAuth"
    "(ty OR a OR e) AND payloadBitEnc = (a OR e) AND payloadBitEnc"
    "(ty OR a OR e) AND NOT (payloadBitAuth OR payloadBitEnc) = ty OR ((a OR e) AND NOT (payloadBitAuth OR payloadBitEnc))"
proof -
  have d: "\<not> (bit ty n \<and> bit (payloadBitAuth OR payloadBitEnc) n)" for n
    using assms by (metis bit_and_iff bit_0_eq bot_apply bot_bool_def)
  show "(ty OR a OR e) AND payloadBitAuth = (a OR e) AND payloadBitAuth"
    "(ty OR a OR e) AND payloadBitEnc = (a OR e) AND payloadBitEnc"
    "(ty OR a OR e) AND NOT (payloadBitAuth OR payloadBitEnc) = ty OR ((a OR e) AND NOT (payloadBitAuth OR payloadBitEnc))"
    using d by (auto simp only: bit_eq_iff bit_and_iff bit_or_iff bit_not_iff)
qed

lemma sum_list_upd: "i < length xs \<Longrightarrow> sum_list (xs[i := x]) = sum_list xs - xs ! i + (x :: byte)"
proof (induction xs arbitrary: i)
  case (Cons y ys)
  then show ?case by (cases i) (simp_all add: algebra_simps)
qed simp

lemma rmcp_body_ok:
  assumes "\<And>k. k2 = Some k \<Longrightarrow> 16 \<le> length k" and "\<And>v. iv = Some v \<Longrightarrow> length v = 16"
  obtains body where "rmcp_body payload k2 iv = Inr body" "length body \<le> length payload + 32"
    "rmcp_open (k2 \<noteq> None \<and> iv \<noteq> None) body k2 = Inr payload"
proof (cases "k2 \<noteq> None \<and> iv \<noteq> None")
  case True
  then obtain k v where kv: "k2 = Some k" "iv = Some v" by auto
  have l: "length (take 16 k) = 16" "length v = 16" using assms kv by auto
  obtain ct where ct: "aesEncryptPayload (take 16 k) v payload = Inr ct"
    "aesDecryptPayload (take 16 k) v ct = Inr payload" "length ct \<le> length payload + 16"
    using aes_payload_roundtrip_lemma [OF l, of payload] by metis
  have "key16 k = Inr (take 16 k)" using assms(1) [OF kv(1)] by (simp add: key16_def)
  then show ?thesis using ct kv l(2)
    by (intro that [of "v @ ct"]) (simp_all add: rmcp_body_def rmcp_open_def)
next
  case False
  then show ?thesis
    by (intro that [of payload]) (auto simp: rmcp_body_def rmcp_open_def split: option.split)
qed

lemma rmcp_build_parse:
  assumes "ty AND (payloadBitAuth OR payloadBitEnc) = 0" and "length payload \<le> 65503"
    and "\<And>k. k2 = Some k \<Longrightarrow> 16 \<le> length k" and "\<And>v. iv = Some v \<Longrightarrow> length v = 16"
  shows "\<exists>pkt. buildRMCPPlus ty sid seq payload k1 k2 iv = Inr pkt
     \<and> parseRMCPPlus pkt k1 k2 = Inr (ty, sid, seq, payload)"
proof -
  obtain body where body: "rmcp_body payload k2 iv = Inr body" "length body \<le> length payload + 32"
    "rmcp_open (k2 \<noteq> None \<and> iv \<noteq> None) body k2 = Inr payload"
    using rmcp_body_ok [of k2 iv payload] assms(3,4) by metis
  have len: "length body < 65536" using body(2) assms(2) by simp
  let ?a = "if k1 = None then 0 else payloadBitAuth"
  let ?e = "if k2 = None \<or> iv = None then 0 else payloadBitEnc"
  define pt where "pt = ty OR ?a OR ?e"
  have bits: "pt AND payloadBitAuth \<noteq> 0 \<longleftrightarrow> k1 \<noteq> None" "pt AND payloadBitEnc \<noteq> 0 \<longleftrightarrow> k2 \<noteq> None \<and> iv \<noteq> None"
    "pt AND NOT (payloadBitAuth OR payloadBitEnc) = ty"
    unfolding pt_def payload_type_bits [OF assms(1)] by auto
  obtain rest where rest: "buildRMCPPlus ty sid seq payload k1 k2 iv = Inr (rmcp_packet pt sid seq body @ rest)"
    "k1 \<noteq> None \<longrightarrow> check_trailer (rmcp_packet pt sid seq body @ rest) (16 + length body) k1 = None"
  proof (cases k1)
    case None
    then show ?thesis using build_packet [OF body(1), of ty sid seq k1]
      by (intro that [of "[]"]) (simp_all add: pt_def Let_def)
  next
    case (Some k)
    then show ?thesis
      using build_packet [OF body(1), of ty sid seq k1] trailer_checks [OF len refl, of k pt sid seq]
      by (auto simp: pt_def Let_def intro: that)
  qed
  show ?thesis
    using rest parse_packet [OF len, of pt sid seq rest k1 k2, unfolded bits] body(3)
    by (intro exI [of _ "rmcp_packet pt sid seq body @ rest"]) auto
qed

lemma length_rmcp_trailer_le: "length (rmcp_trailer k buf) \<le> length buf + 18"
proof -
  have "(4 - (n + 2) mod 4) mod 4 < 4" for n :: nat by simp
  from this [of "length buf - 4"] show ?thesis
    unfolding rmcp_trailer_def Let_def by (simp add: hmacSHA1_def min_def)
qed

lemma rmcp_build_length:
  assumes "buildRMCPPlus ty sid seq payload k1 (Some k) (Some v) = Inr pkt"
  shows "length pkt \<le> length payload + 66"
proof -
  obtain body where b: "rmcp_body payload (Some k) (Some v) = Inr body"
    using assms by (cases "rmcp_body payload (Some k) (Some v)") (auto simp: buildRMCPPlus_def Let_def)
  have kv: "16 \<le> length k" "length v = 16"
    using b by (auto simp: rmcp_body_def key16_def aesEncryptPayload_def split: sum.splits if_splits)
  have "length body \<le> length payload + 32"
    using rmcp_body_ok [of "Some k" "Some v" payload] kv b by auto
  moreover obtain pt where "pkt = rmcp_packet pt sid seq body \<or> (\<exists>k'. pkt = rmcp_trailer k' (rmcp_packet pt sid seq body))"
    using assms build_packet [OF b, of ty sid seq k1] by (auto simp: Let_def split: option.splits)
  moreover have "length (rmcp_packet pt sid seq body) = length body + 16" by (simp add: rmcp_packet_def)
  ultimately show ?thesis
    using length_rmcp_trailer_le [of _ "rmcp_packet pt sid seq body"] by (fastforce intro: le_trans)
qed

lemma rmcp_built_parses:
  "ty AND (payloadBitAuth OR payloadBitEnc) = 0 \<Longrightarrow> length payload \<le> 65503 \<Longrightarrow> 16 \<le> length k \<Longrightarrow> length v = 16
     \<Longrightarrow> buildRMCPPlus ty sid seq payload k1 (Some k) (Some v) = Inr pkt
     \<Longrightarrow> parseRMCPPlus pkt k1 (Some k) = Inr (ty, sid, seq, payload)"
  using rmcp_build_parse [of ty payload "Some k" "Some v" sid seq k1] by auto

lemma lan_response_parses:
  "parseLANResponse (buildLANMessage netFn rqSeq cmd (cc # data)) = Inr (netFn AND 0x3F, cmd, cc, data)"
proof -
  let ?m = "buildLANMessage netFn rqSeq cmd (cc # data)"
  define body where "body = [0x81, push_bit 2 rqSeq, cmd, cc] @ data"
  have m: "?m = [0x20, push_bit 2 netFn, ipmiChecksum [0x20, push_bit 2 netFn]] @ body @ [ipmiChecksum body]"
    by (simp add: buildLANMessage_def Let_def body_def)
  have len: "length ?m = 8 + length data" by (simp add: m body_def)
  have "\<exists>r. parseLANResponse ?m = Inr r"
    unfolding parseLANResponse_accepts_iff using len by (simp add: m ipmiChecksum_sum)
  then have "parseLANResponse ?m
      = Inr (drop_bit 2 (?m ! 1), ?m ! 5, ?m ! 6, slice 7 (length ?m - 1) ?m)"
    by (auto simp: parseLANResponse_def split: if_splits)
  moreover have "?m ! 1 = push_bit 2 netFn" "?m ! 5 = cmd" "?m ! 6 = cc" by (simp_all add: m body_def)
  moreover have "slice 7 (length ?m - 1) ?m = data" unfolding len by (simp add: m body_def slice_def)
  moreover have "drop_bit 2 (push_bit 2 netFn) = netFn AND 0x3F"
  proof -
    have "(0x3F :: byte) = mask 6" by (simp add: mask_eq_exp_minus_1)
    show ?thesis unfolding \<open>0x3F = mask 6\<close> by (auto simp: bit_simps intro!: bit_word_eqI)
  qed
  ultimately show ?thesis by simp
qed

section \<open>Properties\<close>

text \<open>C17: Whatever \<open>buildRMCPPlus\<close> produces, \<open>parseRMCPPlus\<close> with the same keys recovers: for every
  payload type without flag bits, session, sequence number and payload up to 65503 bytes, signed or
  not, encrypted or not, with any key material of at least sixteen bytes and any sixteen-byte IV.\<close>

theorem rmcp_roundtrip:
  assumes "ty AND (payloadBitAuth OR payloadBitEnc) = 0" and "length payload \<le> 65503"
    and "\<And>k. k2 = Some k \<Longrightarrow> 16 \<le> length k" and "\<And>v. iv = Some v \<Longrightarrow> length v = 16"
  shows "\<exists>pkt. buildRMCPPlus ty sid seq payload k1 k2 iv = Inr pkt
     \<and> parseRMCPPlus pkt k1 k2 = Inr (ty, sid, seq, payload)"
  using rmcp_build_parse [OF assms] .

theorem rmcp_roundtrip_witness:
  "\<exists>pkt. buildRMCPPlus 0 7 9 [1, 2, 3] (Some (replicate 20 5)) (Some (replicate 20 6)) (Some (replicate 16 4)) = Inr pkt
     \<and> parseRMCPPlus pkt (Some (replicate 20 5)) (Some (replicate 20 6)) = Inr (0, 7, 9, [1, 2, 3])"
  by (rule rmcp_roundtrip) auto

text \<open>C5: A packet that carries the authentication bit is accepted only with a valid tag: the receiver holds
  \<open>k1\<close>, the last twelve bytes are the truncated HMAC-SHA1 under it of everything after the RMCP header, and
  the padding accounts for every byte between payload and tag.\<close>

theorem rmcp_tag_required:
  assumes "parseRMCPPlus pkt k1 k2 = Inr r" and "pkt ! 5 AND payloadBitAuth \<noteq> 0"
  shows "\<exists>k n. k1 = Some k \<and> length pkt = n + 12 \<and> drop n pkt = take 12 (hmacSHA1 k (slice 4 n pkt))
     \<and> n = 16 + unat (le16 (slice 14 16 pkt)) + unat (pkt ! (n - 2)) + 2"
proof -
  let ?b = "16 + unat (le16 (slice 14 16 pkt))"
  have "check_trailer pkt ?b k1 = None"
    using assms by (auto simp: parseRMCPPlus_def Let_def split: if_splits option.splits)
  then show ?thesis
    by (auto simp: check_trailer_def Let_def slice_def split: option.splits if_splits
        intro!: exI [of _ "length pkt - 12"])
qed

definition demo_signed :: bytes where
  "demo_signed = rmcp_trailer [1] (rmcp_packet 0x40 7 9 [1, 2, 3])"

theorem rmcp_tag_required_witness:
  "\<exists>k n. Some [1] = Some k \<and> length demo_signed = n + 12
     \<and> drop n demo_signed = take 12 (hmacSHA1 k (slice 4 n demo_signed))
     \<and> n = 16 + unat (le16 (slice 14 16 demo_signed)) + unat (demo_signed ! (n - 2)) + 2"
proof (rule rmcp_tag_required)
  obtain rest where r: "demo_signed = rmcp_packet 0x40 7 9 [1, 2, 3] @ rest"
    "check_trailer (rmcp_packet 0x40 7 9 [1, 2, 3] @ rest) (16 + length [1, 2, 3 :: byte]) (Some [1]) = None"
    using trailer_checks [where body = "[1, 2, 3]" and pt = "0x40" and sid = 7 and seq = 9 and ?k1.0 = "[1]"]
    unfolding demo_signed_def by auto
  then show "parseRMCPPlus demo_signed (Some [1]) None = Inr (0, 7, 9, [1, 2, 3])"
    using parse_packet [of "[1, 2, 3]" "0x40" 7 9 rest "Some [1]" None] by (simp add: rmcp_open_def)
  show "demo_signed ! 5 AND 0x40 \<noteq> 0" unfolding r(1) by (simp add: rmcp_packet_fields)
qed

text \<open>A packet without the authentication bit is accepted unverified even when keys are
  established: any sender's payload, session id and sequence number come back as they are, whatever
  \<open>k1\<close> and \<open>k2\<close> the session holds.\<close>

theorem rmcp_unsigned_accepted:
  assumes "ty AND (payloadBitAuth OR payloadBitEnc) = 0" and "length payload < 65536"
  shows "parseRMCPPlus (rmcpHeader @ rmcp_session_header ty sid seq (length payload) @ payload) k1 k2
     = Inr (ty, sid, seq, payload)"
proof -
  have "ty AND payloadBitAuth = 0" "ty AND payloadBitEnc = 0" "ty AND NOT (payloadBitAuth OR payloadBitEnc) = ty"
    using payload_type_bits [OF assms(1), of 0 0] by simp_all
  then show ?thesis
    using parse_packet [OF assms(2), of ty sid seq "[]" k1 k2] by (simp add: rmcp_packet_def rmcp_open_def)
qed

theorem rmcp_unsigned_accepted_witness:
  "parseRMCPPlus (rmcpHeader @ rmcp_session_header 0 1 2 (length [3, 4 :: byte]) @ [3, 4]) (Some (replicate 20 7)) (Some (replicate 20 8))
     = Inr (0, 1, 2, [3, 4])"
  by (rule rmcp_unsigned_accepted) simp_all

text \<open>A LAN message built by the client satisfies both checksum rules and parses back to its network
  function, command, completion byte and data.\<close>

theorem lan_message_roundtrip:
  "parseLANResponse (buildLANMessage netFn rqSeq cmd (cc # data)) = Inr (netFn AND 0x3F, cmd, cc, data)"
  by (rule lan_response_parses)

text \<open>Every corruption of a single byte of an accepted LAN message is detected.\<close>

theorem lan_single_byte_corruption:
  assumes "parseLANResponse msg = Inr r" and "i < length msg" and "x \<noteq> msg ! i"
  shows "\<exists>e. parseLANResponse (msg[i := x]) = Inl e"
proof -
  have ok: "sum_list (take 3 msg) = 0" "sum_list (drop 3 msg) = 0"
    using assms(1) parseLANResponse_accepts_iff by blast+
  have "\<not> (\<exists>r. parseLANResponse (msg[i := x]) = Inr r)"
  proof (cases "i < 3")
    case True
    then have "sum_list (take 3 (msg[i := x])) = - (msg ! i) + x"
      using ok(1) assms(2) sum_list_upd [of i "take 3 msg" x] by (simp add: take_update_swap)
    then show ?thesis using assms(3) unfolding parseLANResponse_accepts_iff by (auto simp: algebra_simps)
  next
    case False
    then have "sum_list (drop 3 (msg[i := x])) = - (msg ! i) + x"
      using ok(2) assms(2) sum_list_upd [of "i - 3" "drop 3 msg" x] by (simp add: drop_update_swap)
    then show ?thesis using assms(3) unfolding parseLANResponse_accepts_iff by (auto simp: algebra_simps)
  qed
  then show ?thesis by (cases "parseLANResponse (msg[i := x])") auto
qed

theorem lan_single_byte_corruption_witness:
  "\<exists>e. parseLANResponse ((buildLANMessage 7 1 2 [0, 5])[4 := 9]) = Inl e"
proof (rule lan_single_byte_corruption)
  show "parseLANResponse (buildLANMessage 7 1 2 [0, 5]) = Inr (7, 2, 0, [5])" by code_simp
  show "4 < length (buildLANMessage 7 1 2 [0, 5])" by code_simp
  show "9 \<noteq> buildLANMessage 7 1 2 [0, 5] ! 4" by code_simp
qed

end
