(* ===== verification/Ipmi_Session.thy ===== *)
theory Ipmi_Session
  imports Ipmi_Rmcp
begin

text \<open>
  The RMCP+ session (\<open>internal/ipmi/session.go\<close>): the retrying exchange, the RAKP handshake, encrypted
  calls, dialling and closing.  The peer, the network and the random source are the environment: what
  each attempt meets may depend on its number and on the packet written.  The session record
  carries the fields of the Go struct, the attempts and random reads used so far, the packets written and
  whether the socket is closed.  Sleeping and deadlines only show as failed attempts.
\<close>

datatype attempt = WriteErr gerror | ReadErr gerror | Reply bytes

record ipmi_env =
  e_resolve :: "gerror option"
  e_dial :: "gerror option"
  e_peer :: "nat \<Rightarrow> bytes \<Rightarrow> attempt"
  e_rand :: "nat \<Rightarrow> bytes result"
  e_close :: "gerror option"

record IpmiSession =
  ss_sessionID :: u32
  ss_consoleID :: u32
  ss_sik :: "bytes option"
  ss_k1 :: "bytes option"
  ss_k2 :: "bytes option"
  ss_outSeq :: u32
  ss_rqSeq :: byte
  ss_privWarn :: string
  ss_attempts :: nat
  ss_rands :: nat
  ss_sent :: "bytes list"
  ss_closed :: bool

definition new_session :: IpmiSession where
  "new_session = \<lparr>ss_sessionID = 0, ss_consoleID = 0, ss_sik = None, ss_k1 = None, ss_k2 = None,
     ss_outSeq = 0, ss_rqSeq = 0, ss_privWarn = [], ss_attempts = 0, ss_rands = 0, ss_sent = [], ss_closed = False\<rparr>"

text \<open>\<open>rand.Read(buf)\<close> fills all of a buffer of \<open>n\<close> bytes or fails.\<close>

definition fill :: "nat \<Rightarrow> bytes \<Rightarrow> bytes" where
  "fill n bs = take n (bs @ replicate n 0)"

lemma length_fill [simp]: "length (fill n bs) = n"
  by (simp add: fill_def)

definition rand_Read :: "ipmi_env \<Rightarrow> nat \<Rightarrow> IpmiSession \<Rightarrow> bytes result \<times> IpmiSession" where
  "rand_Read env n s =
     (let s' = s\<lparr>ss_rands := Suc (ss_rands s)\<rparr>
      in case e_rand env (ss_rands s) of
           Inl e \<Rightarrow> (Inl e, s')
         | Inr bs \<Rightarrow> (Inr (fill n bs), s'))"

definition newIV :: "ipmi_env \<Rightarrow> IpmiSession \<Rightarrow> bytes result \<times> IpmiSession" where
  "newIV env s = (case rand_Read env 16 s of (Inl e, s) \<Rightarrow> (Inl (Panic (err_text e)), s) | r \<Rightarrow> r)"

definition padKey :: "bytes \<Rightarrow> bytes" where
  "padKey pass = copy_from 0 pass (mk_buf 20)"

section \<open>The retrying exchange\<close>

fun is_panic :: "gerror \<Rightarrow> bool" where
  "is_panic (Panic _) = True"
| "is_panic _ = False"

text \<open>One attempt: write, wait, read at most 2048 bytes, parse.\<close>

definition attempt_once ::
  "ipmi_env \<Rightarrow> bytes \<Rightarrow> bytes option \<Rightarrow> bytes option \<Rightarrow> IpmiSession \<Rightarrow> bytes result \<times> IpmiSession" where
  "attempt_once env pkt k1 k2 s =
     (let out = e_peer env (ss_attempts s) pkt;
          s = s\<lparr>ss_attempts := Suc (ss_attempts s)\<rparr>
      in case out of
           WriteErr e \<Rightarrow> (Inl e, s)
         | ReadErr e \<Rightarrow> (Inl e, s\<lparr>ss_sent := ss_sent s @ [pkt]\<rparr>)
         | Reply dgram \<Rightarrow>
             ((case parseRMCPPlus (take 2048 dgram) k1 k2 of
                 Inl perr \<Rightarrow> Inl perr
               | Inr (_, _, _, payloadOut) \<Rightarrow> Inr payloadOut), s\<lparr>ss_sent := ss_sent s @ [pkt]\<rparr>))"

fun retry_loop ::
  "ipmi_env \<Rightarrow> bytes \<Rightarrow> bytes option \<Rightarrow> bytes option \<Rightarrow> nat \<Rightarrow> string \<Rightarrow> IpmiSession \<Rightarrow> bytes result \<times> IpmiSession" where
  "retry_loop env pkt k1 k2 0 lastErr s = (Inl (Errorf (''ipmi: no response after retries: '' @ lastErr)), s)"
| "retry_loop env pkt k1 k2 (Suc left) lastErr s =
     (case attempt_once env pkt k1 k2 s of
        (Inr payloadOut, s) \<Rightarrow> (Inr payloadOut, s)
      | (Inl e, s) \<Rightarrow>
          if is_panic e then (Inl e, s) else retry_loop env pkt k1 k2 left (err_text e) s)"

definition roundtrip ::
  "ipmi_env \<Rightarrow> byte \<Rightarrow> u32 \<Rightarrow> u32 \<Rightarrow> bytes \<Rightarrow> bytes option \<Rightarrow> bytes option \<Rightarrow> bytes option \<Rightarrow> IpmiSession
     \<Rightarrow> bytes result \<times> IpmiSession" where
  "roundtrip env payloadType sessionID seq payload k1 k2 iv s =
     (case buildRMCPPlus payloadType sessionID seq payload k1 k2 iv of
        Inl e \<Rightarrow> (Inl e, s)
      | Inr pkt \<Rightarrow> retry_loop env pkt k1 k2 3 ''<nil>'' s)"

definition rawCall :: "ipmi_env \<Rightarrow> byte \<Rightarrow> byte \<Rightarrow> bytes \<Rightarrow> IpmiSession \<Rightarrow> (byte \<times> bytes) result \<times> IpmiSession" where
  "rawCall env netFn cmd data s =
     (let s = s\<lparr>ss_rqSeq := (ss_rqSeq s + 1) AND 0x3F\<rparr>;
          lanReq = buildLANMessage netFn (ss_rqSeq s) cmd data;
          seq = ss_outSeq s;
          s = s\<lparr>ss_outSeq := ss_outSeq s + 1\<rparr>
      in case newIV env s of
           (Inl e, s) \<Rightarrow> (Inl e, s)
         | (Inr iv, s) \<Rightarrow>
             (case roundtrip env payloadIPMI (ss_sessionID s) seq lanReq (ss_k1 s) (ss_k2 s) (Some iv) s of
                (Inl e, s) \<Rightarrow> (Inl e, s)
              | (Inr resp, s) \<Rightarrow>
                  (case parseLANResponse resp of
                     Inl e \<Rightarrow> (Inl e, s)
                   | Inr (_, _, cc, out) \<Rightarrow> (Inr (cc, out), s))))"

section \<open>RAKP\<close>

definition rakpStatusName :: "byte \<Rightarrow> string" where
  "rakpStatusName st =
     (if st = 0x00 then ''no errors''
      else if st = 0x01 then ''insufficient resources for session''
      else if st = 0x02 then ''invalid session ID''
      else if st = 0x03 then ''invalid payload type''
      else if st = 0x04 then ''invalid authentication algorithm''
      else if st = 0x05 then ''invalid integrity algorithm''
      else if st = 0x06 then ''no matching authentication payload''
      else if st = 0x07 then ''no matching integrity payload''
      else if st = 0x08 then ''inactive session ID''
      else if st = 0x09 then ''invalid role''
      else if st = 0x0A then ''unauthorized role or privilege level requested''
      else if st = 0x0B then ''insufficient resources to create a session at the requested role''
      else if st = 0x0C then ''invalid name length''
      else if st = 0x0D then ''unauthorized name''
      else if st = 0x0E then ''unauthorized GUID''
      else if st = 0x0F then ''invalid integrity check value''
      else if st = 0x10 then ''invalid confidentiality algorithm''
      else if st = 0x11 then ''no cipher suite match with proposed security algorithms''
      else if st = 0x12 then ''illegal or unrecognized parameter''
      else ''unknown status 0x'' @ hex2 st)"

definition open_request :: "bytes \<Rightarrow> bytes" where
  "open_request cid = [0x00, privAdministrator, 0x00, 0x00] @ cid
     @ [0x00, 0x00, 0x00, 0x08, 0x01, 0x00, 0x00, 0x00]
     @ [0x01, 0x00, 0x00, 0x08, 0x01, 0x00, 0x00, 0x00]
     @ [0x02, 0x00, 0x00, 0x08, 0x01, 0x00, 0x00, 0x00]"

definition role_byte :: byte where
  "role_byte = privAdministrator OR 0x10"

definition rakp1_message :: "u32 \<Rightarrow> bytes \<Rightarrow> bytes \<Rightarrow> bytes" where
  "rakp1_message sid consoleRand uname = [0x00, 0x00, 0x00, 0x00]
     @ [ucast sid, ucast (drop_bit 8 sid), ucast (drop_bit 16 sid), ucast (drop_bit 24 sid)]
     @ consoleRand @ [role_byte] @ [0x00, 0x00] @ [of_nat (length uname)] @ uname"

definition rakp2_data :: "u32 \<Rightarrow> u32 \<Rightarrow> bytes \<Rightarrow> bytes \<Rightarrow> bytes \<Rightarrow> bytes \<Rightarrow> bytes" where
  "rakp2_data consoleID sid consoleRand bmcRand bmcGUID uname =
     putLE32 consoleID @ putLE32 sid @ consoleRand @ bmcRand @ bmcGUID
     @ [role_byte] @ [of_nat (length uname)] @ uname"

definition rakp3_auth :: "u32 \<Rightarrow> bytes \<Rightarrow> bytes \<Rightarrow> bytes" where
  "rakp3_auth consoleID bmcRand uname =
     bmcRand @ putLE32 consoleID @ [role_byte] @ [of_nat (length uname)] @ uname"

definition rakp3_message :: "u32 \<Rightarrow> bytes \<Rightarrow> bytes" where
  "rakp3_message sid authCode = [0x00, 0x00, 0x00, 0x00] @ putLE32 sid @ authCode"

definition sik_input :: "bytes \<Rightarrow> bytes \<Rightarrow> bytes \<Rightarrow> bytes" where
  "sik_input consoleRand bmcRand uname =
     consoleRand @ bmcRand @ [role_byte] @ [of_nat (length uname)] @ uname"

definition icv_input :: "bytes \<Rightarrow> u32 \<Rightarrow> bytes \<Rightarrow> bytes" where
  "icv_input consoleRand sid bmcGUID = consoleRand @ putLE32 sid @ bmcGUID"

definition const20 :: "byte \<Rightarrow> bytes" where
  "const20 v = replicate 20 v"

text \<open>The checks on the four replies, each as the error they raise.\<close>

definition check_open_response :: "bytes \<Rightarrow> gerror option" where
  "check_open_response openResp =
     (if length openResp < 36 then
        Some (Errorf (''ipmi: open-session response too short ('' @ dec (length openResp) @ '')''))
      else if openResp ! 1 \<noteq> 0 then
        Some (Errorf (''ipmi: open-session status 0x'' @ hex2 (openResp ! 1) @ '' ('' @ rakpStatusName (openResp ! 1) @ '')''))
      else None)"

definition check_rakp2 :: "bytes \<Rightarrow> gerror option" where
  "check_rakp2 rakp2 =
     (if length rakp2 \<ge> 2 \<and> rakp2 ! 1 \<noteq> 0 then
        Some (Errorf (''ipmi: RAKP2 status 0x'' @ hex2 (rakp2 ! 1) @ '' ('' @ rakpStatusName (rakp2 ! 1) @ ''), body=''
          @ dec (length rakp2) @ '' bytes''))
      else if length rakp2 < 40 then
        Some (Errorf (''ipmi: RAKP2 response too short ('' @ dec (length rakp2) @ '')''))
      else None)"

definition check_rakp2_auth :: "bytes \<Rightarrow> bytes \<Rightarrow> gerror option" where
  "check_rakp2_auth expected rakp2 =
     (if length rakp2 \<ge> 40 + 20 \<and> \<not> equalBytes expected (slice 40 60 rakp2) then
        Some (Errorf ''ipmi: RAKP2 auth code mismatch (bad password?)'')
      else None)"

definition check_rakp4 :: "bytes \<Rightarrow> gerror option" where
  "check_rakp4 rakp4 =
     (if length rakp4 < 8 then Some (Errorf (''ipmi: RAKP4 too short ('' @ dec (length rakp4) @ '')''))
      else if rakp4 ! 1 \<noteq> 0 then
        Some (Errorf (''ipmi: RAKP4 status 0x'' @ hex2 (rakp4 ! 1) @ '' ('' @ rakpStatusName (rakp4 ! 1) @ '')''))
      else None)"

definition check_rakp4_icv :: "bytes \<Rightarrow> bytes \<Rightarrow> gerror option" where
  "check_rakp4_icv icvExpected rakp4 =
     (if length rakp4 \<ge> 8 + 12 \<and> \<not> equalBytes (take 12 icvExpected) (slice 8 20 rakp4) then
        Some (Errorf ''ipmi: RAKP4 ICV mismatch'')
      else None)"

text \<open>The last leg: RAKP 3 and 4, then the session keys.\<close>

definition rakp_finish ::
  "ipmi_env \<Rightarrow> bytes \<Rightarrow> bytes \<Rightarrow> bytes \<Rightarrow> bytes \<Rightarrow> bytes \<Rightarrow> IpmiSession \<Rightarrow> gerror option \<times> IpmiSession" where
  "rakp_finish env kuid uname consoleRand bmcRand bmcGUID s =
     (let rakp3AuthCode = hmacSHA1 kuid (rakp3_auth (ss_consoleID s) bmcRand uname);
          rakp3 = rakp3_message (ss_sessionID s) rakp3AuthCode
      in case roundtrip env payloadRAKP3 0 0 rakp3 None None None s of
           (Inl e, s) \<Rightarrow> (Some (Wrapf ''ipmi: RAKP3: '' e), s)
         | (Inr rakp4, s) \<Rightarrow>
             (case check_rakp4 rakp4 of
                Some e \<Rightarrow> (Some e, s)
              | None \<Rightarrow>
                  let sik = hmacSHA1 kuid (sik_input consoleRand bmcRand uname);
                      s = s\<lparr>ss_sik := Some sik\<rparr>;
                      icvExpected = hmacSHA1 sik (icv_input consoleRand (ss_sessionID s) bmcGUID)
                  in case check_rakp4_icv icvExpected rakp4 of
                       Some e \<Rightarrow> (Some e, s)
                     | None \<Rightarrow> (None, s\<lparr>ss_k1 := Some (hmacSHA1 sik (const20 0x01)),
                                       ss_k2 := Some (hmacSHA1 sik (const20 0x02)), ss_outSeq := 1\<rparr>)))"

definition rakp_exchange :: "ipmi_env \<Rightarrow> bytes \<Rightarrow> bytes \<Rightarrow> IpmiSession \<Rightarrow> gerror option \<times> IpmiSession" where
  "rakp_exchange env user pass s =
     (case rand_Read env 16 s of
        (Inl e, s) \<Rightarrow> (Some e, s)
      | (Inr consoleRand, s) \<Rightarrow>
          (case roundtrip env payloadRAKP1 0 0 (rakp1_message (ss_sessionID s) consoleRand user) None None None s of
             (Inl e, s) \<Rightarrow> (Some (Wrapf ''ipmi: RAKP1: '' e), s)
           | (Inr rakp2, s) \<Rightarrow>
               (case check_rakp2 rakp2 of
                  Some e \<Rightarrow> (Some e, s)
                | None \<Rightarrow>
                    let bmcRand = slice 8 24 rakp2;
                        bmcGUID = slice 24 40 rakp2;
                        kuid = padKey pass;
                        expected = hmacSHA1 kuid
                          (rakp2_data (ss_consoleID s) (ss_sessionID s) consoleRand bmcRand bmcGUID user)
                    in case check_rakp2_auth expected rakp2 of
                         Some e \<Rightarrow> (Some e, s)
                       | None \<Rightarrow> rakp_finish env kuid user consoleRand bmcRand bmcGUID s)))"

definition rakp :: "ipmi_env \<Rightarrow> bytes \<Rightarrow> bytes \<Rightarrow> IpmiSession \<Rightarrow> gerror option \<times> IpmiSession" where
  "rakp env user pass s =
     (case rand_Read env 4 s of
        (Inl e, s) \<Rightarrow> (Some (Wrapf ''ipmi: rand: '' e), s)
      | (Inr cid, s) \<Rightarrow>
          let s = s\<lparr>ss_consoleID := le32 cid\<rparr>
          in case roundtrip env payloadOpenSessionReq 0 0 (open_request cid) None None None s of
               (Inl e, s) \<Rightarrow> (Some (Wrapf ''ipmi: open session: '' e), s)
             | (Inr openResp, s) \<Rightarrow>
                 (case check_open_response openResp of
                    Some e \<Rightarrow> (Some e, s)
                  | None \<Rightarrow>
                      let s = s\<lparr>ss_sessionID := le32 (slice 8 12 openResp)\<rparr>
                      in if ss_sessionID s = 0 then
                           (Some (Errorf ''ipmi: open-session returned zero session ID''), s)
                         else rakp_exchange env user pass s))"

section \<open>Dial and Close\<close>

definition sess_Close :: "ipmi_env \<Rightarrow> IpmiSession \<Rightarrow> gerror option \<times> IpmiSession" where
  "sess_Close env s =
     (if ss_sessionID s \<noteq> 0 then
        (case rawCall env netFnAppReq 0x3C (putLE32 (ss_sessionID s)) s of
           (Inl e, s) \<Rightarrow> if is_panic e then (Some e, s) else (e_close env, s\<lparr>ss_closed := True\<rparr>)
         | (Inr _, s) \<Rightarrow> (e_close env, s\<lparr>ss_closed := True\<rparr>))
      else (e_close env, s\<lparr>ss_closed := True\<rparr>))"

text \<open>
  \<open>Dial\<close> returns the session or an error; the socket of a failed attempt is in the second component.
\<close>

definition Dial :: "ipmi_env \<Rightarrow> bytes \<Rightarrow> bytes \<Rightarrow> IpmiSession result \<times> IpmiSession option" where
  "Dial env user pass =
     (case e_resolve env of
        Some e \<Rightarrow> (Inl (Wrapf ''ipmi: resolve: '' e), None)
      | None \<Rightarrow>
          (case e_dial env of
             Some e \<Rightarrow> (Inl (Wrapf ''ipmi: dial: '' e), None)
           | None \<Rightarrow>
               (case rakp env user pass new_session of
                  (Some e, s) \<Rightarrow> (Inl e, Some (s\<lparr>ss_closed := True\<rparr>))
                | (None, s) \<Rightarrow>
                    (case rawCall env netFnAppReq 0x3B [privAdministrator] s of
                       (Inl e, s) \<Rightarrow>
                         if is_panic e then (Inl e, Some s)
                         else (Inl (Wrapf ''ipmi: set session privilege: '' e), Some (s\<lparr>ss_closed := True\<rparr>))
                     | (Inr (cc, _), s) \<Rightarrow>
                         let s = (if cc \<noteq> 0 then s\<lparr>ss_privWarn := ''set-session-privilege cc=0x'' @ hex2 cc\<rparr> else s)
                         in (Inr s, Some s)))))"

section \<open>Lemmas: what an exchange changes\<close>

lemma length_hmacSHA1 [simp]: "length (hmacSHA1 k d) = 20"
  by (simp add: hmacSHA1_def)

lemma length_buildLANMessage [simp]: "length (buildLANMessage netFn rq cmd data) = length data + 7"
  by (simp add: buildLANMessage_def Let_def)

lemma attempt_once_effect:
  "attempt_once env pkt k1 k2 s = (r, s') \<Longrightarrow>
     \<exists>j \<le> 1. s' = s\<lparr>ss_attempts := Suc (ss_attempts s), ss_sent := ss_sent s @ replicate j pkt\<rparr>"
proof -
  assume a: "attempt_once env pkt k1 k2 s = (r, s')"
  show ?thesis
  proof (cases "e_peer env (ss_attempts s) pkt")
    case (WriteErr e)
    then show ?thesis using a by (intro exI [of _ 0]) (auto simp: attempt_once_def)
  qed (use a in \<open>auto intro!: exI [of _ 1] simp: attempt_once_def\<close>)
qed

lemma retry_loop_effect:
  "retry_loop env pkt k1 k2 n le s = (r, s') \<Longrightarrow>
     \<exists>j a. j \<le> n \<and> s' = s\<lparr>ss_attempts := a, ss_sent := ss_sent s @ replicate j pkt\<rparr>"
proof (induction n arbitrary: le s)
  case 0
  then show ?case by (intro exI [of _ 0] exI [of _ "ss_attempts s"]) auto
next
  case (Suc n)
  obtain x s1 where a: "attempt_once env pkt k1 k2 s = (x, s1)" by fastforce
  from attempt_once_effect [OF this] obtain j where
    s1: "j \<le> 1" "s1 = s\<lparr>ss_attempts := Suc (ss_attempts s), ss_sent := ss_sent s @ replicate j pkt\<rparr>" by blast
  show ?case
  proof (cases "s' = s1")
    case True
    then show ?thesis using s1 by (intro exI [of _ j] exI [of _ "Suc (ss_attempts s)"]) auto
  next
    case False
    then obtain e where "retry_loop env pkt k1 k2 n (err_text e) s1 = (r, s')"
      using Suc.prems by (auto simp: a split: sum.splits if_splits)
    from Suc.IH [OF this] obtain j' a' where "j' \<le> n"
      "s' = s1\<lparr>ss_attempts := a', ss_sent := ss_sent s1 @ replicate j' pkt\<rparr>" by blast
    then show ?thesis using s1
      by (intro exI [of _ "j + j'"] exI [of _ a']) (simp add: replicate_add)
  qed
qed

lemma roundtrip_effect:
  assumes "roundtrip env ty sid seq payload k1 k2 iv s = (r, s')"
  shows "\<exists>l a. s' = s\<lparr>ss_attempts := a, ss_sent := ss_sent s @ l\<rparr>
     \<and> (l = [] \<or> (\<exists>pkt j. j \<le> 3 \<and> buildRMCPPlus ty sid seq payload k1 k2 iv = Inr pkt \<and> l = replicate j pkt))"
proof (cases "buildRMCPPlus ty sid seq payload k1 k2 iv")
  case (Inl e)
  then show ?thesis using assms
    by (intro exI [of _ "[]"] exI [of _ "ss_attempts s"]) (auto simp: roundtrip_def)
next
  case (Inr pkt)
  then show ?thesis using assms retry_loop_effect [of env pkt k1 k2 3 "''<nil>''" s r s']
    by (auto simp: roundtrip_def)
qed

lemma rand_Read_effect: "rand_Read env n s = (r, s') \<Longrightarrow> s' = s\<lparr>ss_rands := Suc (ss_rands s)\<rparr>"
  by (auto simp: rand_Read_def Let_def split: sum.splits)

lemma rand_Read_length: "rand_Read env n s = (Inr bs, s') \<Longrightarrow> length bs = n"
  by (auto simp: rand_Read_def Let_def split: sum.splits)

lemma newIV_effect: "newIV env s = (r, s') \<Longrightarrow> s' = s\<lparr>ss_rands := Suc (ss_rands s)\<rparr>"
  by (auto simp: newIV_def split: prod.splits sum.splits dest: rand_Read_effect)

lemma newIV_length: "newIV env s = (Inr iv, s') \<Longrightarrow> length iv = 16"
  by (auto simp: newIV_def split: prod.splits sum.splits dest: rand_Read_length)

text \<open>The packet of a call, for a given IV.\<close>

definition call_packet :: "IpmiSession \<Rightarrow> byte \<times> byte \<times> bytes \<Rightarrow> bytes \<Rightarrow> bytes result" where
  "call_packet s req iv = (case req of (netFn, cmd, data) \<Rightarrow>
     buildRMCPPlus payloadIPMI (ss_sessionID s) (ss_outSeq s)
       (buildLANMessage netFn ((ss_rqSeq s + 1) AND 0x3F) cmd data) (ss_k1 s) (ss_k2 s) (Some iv))"

definition call_copies :: "IpmiSession \<Rightarrow> byte \<times> byte \<times> bytes \<Rightarrow> bytes list \<Rightarrow> bool" where
  "call_copies s req l \<longleftrightarrow> (l = [] \<or> (\<exists>iv pkt j. length iv = 16 \<and> j \<le> 3 \<and> call_packet s req iv = Inr pkt \<and> l = replicate j pkt))"

lemma rawCall_effect:
  assumes "rawCall env netFn cmd data s = (r, s')"
  shows "\<exists>l a. s' = s\<lparr>ss_rqSeq := (ss_rqSeq s + 1) AND 0x3F, ss_outSeq := ss_outSeq s + 1,
        ss_rands := Suc (ss_rands s), ss_attempts := a, ss_sent := ss_sent s @ l\<rparr>
     \<and> call_copies s (netFn, cmd, data) l"
proof -
  let ?s1 = "s\<lparr>ss_rqSeq := (ss_rqSeq s + 1) AND 0x3F, ss_outSeq := ss_outSeq s + 1\<rparr>"
  obtain x s2 where iv: "newIV env ?s1 = (x, s2)" by fastforce
  have s2: "s2 = ?s1\<lparr>ss_rands := Suc (ss_rands s)\<rparr>" using newIV_effect [OF iv] by simp
  show ?thesis
  proof (cases x)
    case (Inl e)
    then show ?thesis using assms iv s2
      by (intro exI [of _ "[]"] exI [of _ "ss_attempts s"]) (auto simp: rawCall_def call_copies_def Let_def)
  next
    case (Inr v)
    obtain y s3 where rt: "roundtrip env payloadIPMI (ss_sessionID s) (ss_outSeq s)
        (buildLANMessage netFn ((ss_rqSeq s + 1) AND 0x3F) cmd data) (ss_k1 s) (ss_k2 s) (Some v) s2 = (y, s3)"
      by fastforce
    have "s' = s3" using assms iv rt by (auto simp: rawCall_def Inr s2 Let_def split: sum.splits)
    moreover have "length v = 16" using newIV_length [of env ?s1 v s2] iv Inr by simp
    moreover obtain l a where l: "s3 = s2\<lparr>ss_attempts := a, ss_sent := ss_sent s2 @ l\<rparr>"
      "l = [] \<or> (\<exists>pkt j. j \<le> 3 \<and> call_packet s (netFn, cmd, data) v = Inr pkt \<and> l = replicate j pkt)"
      using roundtrip_effect [OF rt] by (auto simp: call_packet_def)
    ultimately show ?thesis using s2
      by (intro exI [of _ l] exI [of _ a]) (auto simp: call_copies_def)
  qed
qed

text \<open>A sequence of calls.\<close>

fun call_all ::
  "ipmi_env \<Rightarrow> (byte \<times> byte \<times> bytes) list \<Rightarrow> IpmiSession \<Rightarrow> (byte \<times> bytes) result list \<times> IpmiSession" where
  "call_all env [] s = ([], s)"
| "call_all env ((netFn, cmd, data) # reqs) s =
     (let (r, s) = rawCall env netFn cmd data s; (rs, s) = call_all env reqs s in (r # rs, s))"

text \<open>The state in which the \<open>i\<close>-th call of a sequence started at \<open>s\<close> builds its packet.\<close>

definition nth_call_state :: "nat \<Rightarrow> IpmiSession \<Rightarrow> IpmiSession" where
  "nth_call_state i s = s\<lparr>ss_outSeq := ss_outSeq s + of_nat i, ss_rqSeq := of_nat ((unat (ss_rqSeq s) + i) mod 64)\<rparr>"

lemma and_63: "(of_nat m :: byte) AND 0x3F = of_nat (m mod 64)"
proof -
  have "(0x3F :: byte) = mask 6" by (simp add: mask_eq_exp_minus_1)
  then have "(of_nat m :: byte) AND 0x3F = take_bit 6 (of_nat m)" by (simp only: take_bit_eq_mask)
  also have "\<dots> = of_nat (take_bit 6 m)" by (rule take_bit_of_nat)
  finally show ?thesis by (simp add: take_bit_eq_mod)
qed

lemma rq_step: "(of_nat (n mod 64) + 1) AND 0x3F = (of_nat (Suc n mod 64) :: byte)"
  using and_63 [of "Suc (n mod 64)"] by (simp add: mod_Suc_eq add.commute)

lemma nth_call_state_0: "unat (ss_rqSeq s) < 64 \<Longrightarrow> nth_call_state 0 s = s"
  by (simp add: nth_call_state_def)

lemma rq_next: "unat (b :: byte) < 64 \<Longrightarrow> unat ((b + 1) AND 0x3F) = (unat b + 1) mod 64"
  using rq_step [of "unat b"] by (simp add: unat_of_nat)

lemma nth_call_state_Suc:
  assumes "unat (ss_rqSeq s) < 64"
    and "s1 = s\<lparr>ss_rqSeq := (ss_rqSeq s + 1) AND 0x3F, ss_outSeq := ss_outSeq s + 1, ss_rands := r, ss_attempts := a, ss_sent := l\<rparr>"
  shows "nth_call_state i s1 = (nth_call_state (Suc i) s)\<lparr>ss_rands := r, ss_attempts := a, ss_sent := l\<rparr>"
  using assms(1) by (simp add: nth_call_state_def assms(2) rq_next mod_add_left_eq add.assoc)

lemma call_copies_cong:
  "call_copies (s\<lparr>ss_rands := r, ss_attempts := a, ss_sent := l\<rparr>) req x = call_copies s req x"
  by (simp add: call_copies_def call_packet_def split: prod.split)

lemma call_all_effect:
  "call_all env reqs s = (rs, s') \<Longrightarrow> unat (ss_rqSeq s) < 64 \<Longrightarrow>
     \<exists>groups. length groups = length reqs \<and> ss_sent s' = ss_sent s @ concat groups
       \<and> (\<forall>i < length reqs. call_copies (nth_call_state i s) (reqs ! i) (groups ! i))
       \<and> ss_outSeq s' = ss_outSeq s + of_nat (length reqs)
       \<and> unat (ss_rqSeq s') = (unat (ss_rqSeq s) + length reqs) mod 64
       \<and> ss_sessionID s' = ss_sessionID s \<and> ss_k1 s' = ss_k1 s \<and> ss_k2 s' = ss_k2 s"
proof (induction reqs arbitrary: s rs)
  case (Cons q reqs)
  obtain netFn cmd data where q: "q = (netFn, cmd, data)" by (cases q)
  obtain r s1 where c: "rawCall env netFn cmd data s = (r, s1)" by fastforce
  then obtain rs' where rest: "call_all env reqs s1 = (rs', s')"
    using Cons.prems(1) by (auto simp: q split: prod.splits)
  obtain l a where s1: "s1 = s\<lparr>ss_rqSeq := (ss_rqSeq s + 1) AND 0x3F, ss_outSeq := ss_outSeq s + 1,
        ss_rands := Suc (ss_rands s), ss_attempts := a, ss_sent := ss_sent s @ l\<rparr>"
    and l: "call_copies s q l"
    using rawCall_effect [OF c] q by blast
  have rq: "unat (ss_rqSeq s1) = (unat (ss_rqSeq s) + 1) mod 64" using rq_next [OF Cons.prems(2)] by (simp add: s1)
  then have "unat (ss_rqSeq s1) < 64" by simp
  from Cons.IH [OF rest this] obtain groups where g: "length groups = length reqs"
    "ss_sent s' = ss_sent s1 @ concat groups"
    "\<forall>i < length reqs. call_copies (nth_call_state i s1) (reqs ! i) (groups ! i)"
    "ss_outSeq s' = ss_outSeq s1 + of_nat (length reqs)"
    "unat (ss_rqSeq s') = (unat (ss_rqSeq s1) + length reqs) mod 64"
    "ss_sessionID s' = ss_sessionID s1" "ss_k1 s' = ss_k1 s1" "ss_k2 s' = ss_k2 s1" by blast
  have "call_copies (nth_call_state i s) ((q # reqs) ! i) ((l # groups) ! i)" if "i < Suc (length reqs)" for i
  proof (cases i)
    case 0
    then show ?thesis using l nth_call_state_0 [OF Cons.prems(2)] by simp
  next
    case (Suc k)
    then have "call_copies (nth_call_state k s1) (reqs ! k) (groups ! k)" using g(3) that by simp
    then show ?thesis
      unfolding nth_call_state_Suc [OF Cons.prems(2) s1] call_copies_cong by (simp add: Suc)
  qed
  then show ?case using g rq
    by (intro exI [of _ "l # groups"]) (simp add: s1 mod_add_left_eq add.assoc)
qed (auto simp: nth_call_state_def)

section \<open>Lemmas: replies\<close>

lemma attempt_once_reply:
  "e_peer env (ss_attempts s) pkt = Reply dgram \<Longrightarrow> length dgram \<le> 2048
     \<Longrightarrow> parseRMCPPlus dgram k1 k2 = Inr (ty, sid, seq, payload)
     \<Longrightarrow> attempt_once env pkt k1 k2 s
         = (Inr payload, s\<lparr>ss_attempts := Suc (ss_attempts s), ss_sent := ss_sent s @ [pkt]\<rparr>)"
  by (simp add: attempt_once_def)

text \<open>Attempts that meet a network error, as the operating system reports them.\<close>

definition net_fails :: "attempt \<Rightarrow> bool" where
  "net_fails a \<longleftrightarrow> (case a of WriteErr (NetErr _) \<Rightarrow> True | ReadErr (NetErr _) \<Rightarrow> True | _ \<Rightarrow> False)"

lemma attempt_once_fails:
  "net_fails (e_peer env (ss_attempts s) pkt) \<Longrightarrow>
     \<exists>e l. attempt_once env pkt k1 k2 s
         = (Inl (NetErr e), s\<lparr>ss_attempts := Suc (ss_attempts s), ss_sent := ss_sent s @ l\<rparr>)"
proof -
  assume f: "net_fails (e_peer env (ss_attempts s) pkt)"
  obtain r s1 where a: "attempt_once env pkt k1 k2 s = (r, s1)" by fastforce
  have "\<exists>e. r = Inl (NetErr e)"
    using f a by (auto simp: attempt_once_def net_fails_def split: attempt.splits gerror.splits)
  then show ?thesis using attempt_once_effect [OF a] a by auto
qed

lemma retry_loop_delivers:
  "j < n \<Longrightarrow> (\<And>i. i < j \<Longrightarrow> net_fails (e_peer env (ss_attempts s + i) pkt))
     \<Longrightarrow> e_peer env (ss_attempts s + j) pkt = Reply dgram \<Longrightarrow> length dgram \<le> 2048
     \<Longrightarrow> parseRMCPPlus dgram k1 k2 = Inr (ty, sid, seq, payload)
     \<Longrightarrow> \<exists>l. retry_loop env pkt k1 k2 n le s
         = (Inr payload, s\<lparr>ss_attempts := ss_attempts s + Suc j, ss_sent := ss_sent s @ l\<rparr>)"
proof (induction j arbitrary: n le s)
  case 0
  then obtain n' where n: "n = Suc n'" by (cases n) auto
  have "e_peer env (ss_attempts s) pkt = Reply dgram" using 0 by simp
  from attempt_once_reply [OF this 0(4,5)] show ?case by (intro exI [of _ "[pkt]"]) (simp add: n)
next
  case (Suc j)
  then obtain n' where n: "n = Suc n'" by (cases n) auto
  have "net_fails (e_peer env (ss_attempts s) pkt)" using Suc.prems(2) [of 0] by simp
  from attempt_once_fails [OF this, of k1 k2] obtain e l where
    a: "attempt_once env pkt k1 k2 s = (Inl (NetErr e), s\<lparr>ss_attempts := Suc (ss_attempts s), ss_sent := ss_sent s @ l\<rparr>)"
    by blast
  let ?s1 = "s\<lparr>ss_attempts := Suc (ss_attempts s), ss_sent := ss_sent s @ l\<rparr>"
  have "net_fails (e_peer env (ss_attempts ?s1 + i) pkt)" if "i < j" for i
    using Suc.prems(2) [of "Suc i"] that by simp
  then obtain l' where "retry_loop env pkt k1 k2 n' (err_text (NetErr e)) ?s1
      = (Inr payload, ?s1\<lparr>ss_attempts := ss_attempts ?s1 + Suc j, ss_sent := ss_sent ?s1 @ l'\<rparr>)"
    using Suc.IH [of n' ?s1 "err_text (NetErr e)"] Suc.prems n by auto
  then show ?case by (intro exI [of _ "l @ l'"]) (simp add: n a)
qed

text \<open>An unsigned, unencrypted reply goes through, whatever keys the session holds.\<close>

lemma unsigned_reply:
  assumes "buildRMCPPlus ty sid seq req k1 k2 iv = Inr pkt" and "length payload \<le> 2000"
    and "e_peer env (ss_attempts s) pkt = Reply (rmcp_packet 0 0 0 payload)"
  shows "roundtrip env ty sid seq req k1 k2 iv s
     = (Inr payload, s\<lparr>ss_attempts := Suc (ss_attempts s), ss_sent := ss_sent s @ [pkt]\<rparr>)"
proof -
  have p: "parseRMCPPlus (rmcp_packet 0 0 0 payload) k1 k2 = Inr (0, 0, 0, payload)"
    using parse_packet [of payload 0 0 0 "[]" k1 k2] assms(2) by (simp add: rmcp_open_def)
  have "length (rmcp_packet 0 0 0 payload) \<le> 2048" using assms(2) by (simp add: rmcp_packet_fields)
  from attempt_once_reply [OF assms(3) this p] show ?thesis
    by (simp add: roundtrip_def assms(1) numeral_3_eq_3)
qed

section \<open>Lemmas: a successful handshake\<close>

lemma build_plain: "\<exists>pkt. buildRMCPPlus ty sid seq req None None None = Inr pkt"
  by (simp add: buildRMCPPlus_def rmcp_body_def Let_def)

lemma build_sealed:
  "16 \<le> length k2 \<Longrightarrow> length v = 16 \<Longrightarrow> length req \<le> 65503
     \<Longrightarrow> \<exists>pkt. buildRMCPPlus payloadIPMI sid seq req k1 (Some k2) (Some v) = Inr pkt"
  using rmcp_build_parse [of payloadIPMI req "Some k2" "Some v" sid seq k1] by auto

lemma roundtrip_core:
  assumes "roundtrip env ty sid seq payload k1 k2 iv s = (r, s')"
  shows "ss_sessionID s' = ss_sessionID s" "ss_consoleID s' = ss_consoleID s" "ss_rqSeq s' = ss_rqSeq s"
    "ss_closed s' = ss_closed s"
  using roundtrip_effect [OF assms] by auto

definition session_keys :: "bytes \<Rightarrow> IpmiSession \<Rightarrow> bool" where
  "session_keys sik s \<longleftrightarrow> ss_sik s = Some sik \<and> ss_k1 s = Some (hmacSHA1 sik (const20 0x01))
     \<and> ss_k2 s = Some (hmacSHA1 sik (const20 0x02)) \<and> ss_outSeq s = 1"

lemma rakp_finish_success:
  assumes "rakp_finish env kuid uname cr br guid s0 = (None, s)"
  shows "\<exists>rakp4 s1 sik. roundtrip env payloadRAKP3 0 0
        (rakp3_message (ss_sessionID s0) (hmacSHA1 kuid (rakp3_auth (ss_consoleID s0) br uname))) None None None s0 = (Inr rakp4, s1)
     \<and> sik = hmacSHA1 kuid (sik_input cr br uname) \<and> session_keys sik s
     \<and> 8 \<le> length rakp4 \<and> rakp4 ! 1 = 0
     \<and> (20 \<le> length rakp4 \<longrightarrow> slice 8 20 rakp4 = take 12 (hmacSHA1 sik (icv_input cr (ss_sessionID s0) guid)))
     \<and> ss_sessionID s = ss_sessionID s0 \<and> ss_consoleID s = ss_consoleID s0 \<and> ss_rqSeq s = ss_rqSeq s0
     \<and> ss_closed s = ss_closed s0"
proof -
  let ?m = "rakp3_message (ss_sessionID s0) (hmacSHA1 kuid (rakp3_auth (ss_consoleID s0) br uname))"
  obtain x s1 where rt: "roundtrip env payloadRAKP3 0 0 ?m None None None s0 = (x, s1)" by fastforce
  obtain rakp4 where x: "x = Inr rakp4" using assms rt by (cases x) (auto simp: rakp_finish_def)
  show ?thesis
    using assms rt roundtrip_core [OF rt]
    by (auto simp: rakp_finish_def x Let_def check_rakp4_def check_rakp4_icv_def session_keys_def
        split: option.splits if_splits)
qed

lemma rakp_exchange_success:
  assumes "rakp_exchange env user pass s0 = (None, s)"
  shows "\<exists>cr rakp2 s1 s2. length cr = 16
     \<and> roundtrip env payloadRAKP1 0 0 (rakp1_message (ss_sessionID s0) cr user) None None None s1 = (Inr rakp2, s2)
     \<and> 40 \<le> length rakp2 \<and> rakp2 ! 1 = 0
     \<and> (60 \<le> length rakp2 \<longrightarrow> slice 40 60 rakp2 = hmacSHA1 (padKey pass)
          (rakp2_data (ss_consoleID s0) (ss_sessionID s0) cr (slice 8 24 rakp2) (slice 24 40 rakp2) user))
     \<and> rakp_finish env (padKey pass) user cr (slice 8 24 rakp2) (slice 24 40 rakp2) s2 = (None, s)
     \<and> ss_sessionID s2 = ss_sessionID s0 \<and> ss_consoleID s2 = ss_consoleID s0 \<and> ss_rqSeq s2 = ss_rqSeq s0
     \<and> ss_closed s2 = ss_closed s0"
proof -
  obtain x s1 where rd: "rand_Read env 16 s0 = (x, s1)" by fastforce
  obtain cr where x: "x = Inr cr" using assms rd by (cases x) (auto simp: rakp_exchange_def)
  have s1: "s1 = s0\<lparr>ss_rands := Suc (ss_rands s0)\<rparr>" using rand_Read_effect [OF rd] .
  obtain y s2 where rt: "roundtrip env payloadRAKP1 0 0 (rakp1_message (ss_sessionID s0) cr user) None None None s1 = (y, s2)"
    by fastforce
  obtain rakp2 where y: "y = Inr rakp2" using assms rd rt by (cases y) (auto simp: rakp_exchange_def x s1)
  have "length cr = 16" using rand_Read_length [of env 16 s0 cr s1] rd x by simp
  then show ?thesis
    using assms rd rt roundtrip_core [OF rt]
    by - (rule exI [of _ cr], rule exI [of _ rakp2], rule exI [of _ s1], rule exI [of _ s2],
      auto simp: rakp_exchange_def x y s1 Let_def check_rakp2_def check_rakp2_auth_def
        split: option.splits if_splits)
qed

lemma rakp_reaches_exchange:
  assumes "rakp env user pass s0 = (None, s)"
  shows "\<exists>s1. rakp_exchange env user pass s1 = (None, s) \<and> ss_sessionID s1 \<noteq> 0 \<and> ss_rqSeq s1 = ss_rqSeq s0
     \<and> ss_closed s1 = ss_closed s0"
proof -
  obtain x s1 where rd: "rand_Read env 4 s0 = (x, s1)" by fastforce
  obtain cid where x: "x = Inr cid" using assms rd by (cases x) (auto simp: rakp_def)
  have s1: "s1 = s0\<lparr>ss_rands := Suc (ss_rands s0)\<rparr>" using rand_Read_effect [OF rd] .
  obtain y s2 where rt: "roundtrip env payloadOpenSessionReq 0 0 (open_request cid) None None None (s1\<lparr>ss_consoleID := le32 cid\<rparr>) = (y, s2)"
    by fastforce
  obtain resp where y: "y = Inr resp" using assms rd rt by (cases y) (auto simp: rakp_def x Let_def)
  show ?thesis
    using assms rd rt roundtrip_core [OF rt]
    by (auto simp: rakp_def x y s1 Let_def split: option.splits if_splits)
qed

section \<open>Properties\<close>

text \<open>C20: Sequence numbers.  Over any run of calls, whatever the peer does, the \<open>i\<close>-th call writes at most
  three packets, all identical, carrying session sequence number \<open>outSeq + i\<close>, request sequence
  \<open>(rqSeq + i + 1) mod 64\<close> and the session's keys; the session id and keys never change, so no two calls share a session
  sequence number until it wraps.\<close>

theorem call_sequence_numbers:
  assumes "call_all env reqs s = (rs, s')" and "unat (ss_rqSeq s) < 64"
  shows "\<exists>groups. length groups = length reqs \<and> ss_sent s' = ss_sent s @ concat groups
     \<and> (\<forall>i < length reqs. call_copies (nth_call_state i s) (reqs ! i) (groups ! i))
     \<and> ss_outSeq s' = ss_outSeq s + of_nat (length reqs)
     \<and> unat (ss_rqSeq s') = (unat (ss_rqSeq s) + length reqs) mod 64
     \<and> ss_sessionID s' = ss_sessionID s \<and> ss_k1 s' = ss_k1 s \<and> ss_k2 s' = ss_k2 s"
  using call_all_effect [OF assms] .

definition demo_ipmi_env :: ipmi_env where
  "demo_ipmi_env = \<lparr>e_resolve = None, e_dial = None, e_peer = (\<lambda>n p. ReadErr (NetErr ''timeout'')),
     e_rand = (\<lambda>n. Inr []), e_close = None\<rparr>"

theorem call_sequence_numbers_witness:
  "\<exists>rs s' groups. call_all demo_ipmi_env [(6, 1, []), (0, 1, [])] new_session = (rs, s')
     \<and> ss_sent s' = concat groups \<and> ss_outSeq s' = 2 \<and> unat (ss_rqSeq s') = 2"
proof -
  obtain rs s' where c: "call_all demo_ipmi_env [(6, 1, []), (0, 1, [])] new_session = (rs, s')" by fastforce
  have "unat (ss_rqSeq new_session) < 64" by (simp add: new_session_def)
  from call_sequence_numbers [OF c this] c show ?thesis by (auto simp: new_session_def)
qed

text \<open>C21: A call survives up to two failed attempts and hands up the reply: if the first \<open>j < 3\<close>
  attempts meet network errors and the next one is answered with a packet signed and encrypted under the
  session's keys, the call returns that reply's completion code and data.  The reply's session id, sequence
  numbers, network function and command are not compared with the request.\<close>

theorem rawCall_delivers_reply:
  assumes "j < 3" and "e_rand env (ss_rands s) = Inr rnd"
    and "ss_k1 s = Some k1" and "ss_k2 s = Some k2" and "16 \<le> length k2" and "length data < 60000"
    and "\<And>i pkt. i < j \<Longrightarrow> net_fails (e_peer env (ss_attempts s + i) pkt)"
    and "\<And>pkt. e_peer env (ss_attempts s + j) pkt = Reply dgram"
    and "buildRMCPPlus payloadIPMI sid seq (buildLANMessage netFn' rq cmd' (cc # out)) (Some k1) (Some k2) (Some iv) = Inr dgram"
    and "length iv = 16" and "length dgram \<le> 2048" and "length out < 60000"
  shows "fst (rawCall env netFn cmd data s) = Inr (cc, out)"
proof -
  let ?s1 = "s\<lparr>ss_rqSeq := (ss_rqSeq s + 1) AND 0x3F, ss_outSeq := ss_outSeq s + 1\<rparr>"
  let ?s2 = "?s1\<lparr>ss_rands := Suc (ss_rands s)\<rparr>"
  obtain v where v: "newIV env ?s1 = (Inr v, ?s2)" "length v = 16"
    using assms(2) by (simp add: newIV_def rand_Read_def Let_def)
  let ?req = "buildLANMessage netFn ((ss_rqSeq s + 1) AND 0x3F) cmd data"
  obtain pkt where pkt: "buildRMCPPlus payloadIPMI (ss_sessionID s) (ss_outSeq s) ?req (Some k1) (Some k2) (Some v) = Inr pkt"
    using build_sealed [of k2 v ?req "ss_sessionID s" "ss_outSeq s" "Some k1"] assms(5,6) v(2) by auto
  have p: "parseRMCPPlus dgram (Some k1) (Some k2)
      = Inr (payloadIPMI, sid, seq, buildLANMessage netFn' rq cmd' (cc # out))"
    using rmcp_built_parses [OF _ _ _ _ assms(9)] assms(5,10,12) by simp
  obtain l where "retry_loop env pkt (Some k1) (Some k2) 3 ''<nil>'' ?s2
      = (Inr (buildLANMessage netFn' rq cmd' (cc # out)), ?s2\<lparr>ss_attempts := ss_attempts ?s2 + Suc j, ss_sent := ss_sent ?s2 @ l\<rparr>)"
    using retry_loop_delivers [OF assms(1), of env ?s2 pkt dgram, OF _ _ assms(11) p, where le = "''<nil>''"]
      assms(7,8) by auto
  then show ?thesis
    by (simp add: rawCall_def v(1) roundtrip_def assms(3,4) pkt lan_response_parses Let_def)
qed

definition demo_session2 :: IpmiSession where
  "demo_session2 = new_session\<lparr>ss_sessionID := 5, ss_k1 := Some (replicate 20 1), ss_k2 := Some (replicate 20 2), ss_outSeq := 1\<rparr>"

theorem rawCall_delivers_reply_witness:
  "\<exists>dgram. buildRMCPPlus payloadIPMI 5 1 (buildLANMessage 7 1 1 (0 # [3])) (Some (replicate 20 1)) (Some (replicate 20 2))
       (Some (replicate 16 4)) = Inr dgram
     \<and> fst (rawCall (demo_ipmi_env\<lparr>e_peer := (\<lambda>n p. if n = 0 then ReadErr (NetErr ''timeout'') else Reply dgram)\<rparr>) 6 1 [] demo_session2)
       = Inr (0, [3])"
proof -
  let ?lan = "buildLANMessage 7 1 1 (0 # [3])"
  let ?v = "replicate 16 4 :: bytes"
  obtain dgram where d: "buildRMCPPlus payloadIPMI 5 1 ?lan (Some (replicate 20 1)) (Some (replicate 20 2)) (Some ?v) = Inr dgram"
    using rmcp_build_parse [of payloadIPMI ?lan "Some (replicate 20 2)" "Some ?v" 5 1 "Some (replicate 20 1)"] by auto
  have "length dgram \<le> 2048" using rmcp_build_length [OF d] by simp
  then have "fst (rawCall (demo_ipmi_env\<lparr>e_peer := (\<lambda>n p. if n = 0 then ReadErr (NetErr ''timeout'') else Reply dgram)\<rparr>) 6 1 [] demo_session2)
       = Inr (0, [3])"
    by (intro rawCall_delivers_reply [where j = 1 and ?k1.0 = "replicate 20 1" and ?k2.0 = "replicate 20 2"
          and dgram = dgram and iv = "?v" and sid = 5 and seq = 1 and netFn' = 7 and rq = 1 and cmd' = 1 and rnd = "[]"])
      (use d in \<open>simp_all add: demo_session2_def new_session_def demo_ipmi_env_def net_fails_def\<close>)
  then show ?thesis using d by blast
qed


text \<open>A peer that knows no secret: it sends short handshake replies and unsigned completions.\<close>

definition rogue_payload :: "nat \<Rightarrow> bytes" where
  "rogue_payload n =
     (if n = 0 then [0, 0, 0, 0, 0, 0, 0, 0, 1, 0, 0, 0] @ replicate 24 0
      else if n = 1 then replicate 40 0
      else if n = 2 then replicate 8 0
      else buildLANMessage 7 0 0x3B [0])"

definition rogue_env :: "(nat \<Rightarrow> bytes) \<Rightarrow> ipmi_env" where
  "rogue_env rnd = \<lparr>e_resolve = None, e_dial = None, e_peer = (\<lambda>n pkt. Reply (rmcp_packet 0 0 0 (rogue_payload n))),
     e_rand = (\<lambda>n. Inr (rnd n)), e_close = None\<rparr>"

lemma rogue_plain:
  assumes "ss_attempts s = n" and "buildRMCPPlus ty sid seq req k1 k2 iv = Inr pkt"
  shows "roundtrip (rogue_env rnd) ty sid seq req k1 k2 iv s
     = (Inr (rogue_payload n), s\<lparr>ss_attempts := Suc n, ss_sent := ss_sent s @ [pkt]\<rparr>)"
  using unsigned_reply [OF assms(2), of "rogue_payload n" "rogue_env rnd" s] assms(1)
  by (simp add: rogue_env_def rogue_payload_def)

lemma rogue_rand:
  "rand_Read (rogue_env rnd) n s = (Inr (fill n (rnd (ss_rands s))), s\<lparr>ss_rands := Suc (ss_rands s)\<rparr>)"
  by (simp add: rand_Read_def rogue_env_def)

lemma rogue_finish:
  assumes "ss_attempts s = 2"
  shows "\<exists>l sik. rakp_finish (rogue_env rnd) kuid uname cr br guid s
     = (None, s\<lparr>ss_attempts := 3, ss_sent := l, ss_sik := Some sik, ss_k1 := Some (hmacSHA1 sik (const20 0x01)),
          ss_k2 := Some (hmacSHA1 sik (const20 0x02)), ss_outSeq := 1\<rparr>)"
proof -
  obtain pkt where "buildRMCPPlus payloadRAKP3 0 0
      (rakp3_message (ss_sessionID s) (hmacSHA1 kuid (rakp3_auth (ss_consoleID s) br uname))) None None None = Inr pkt"
    using build_plain by blast
  from rogue_plain [OF assms this] show ?thesis
    by (auto simp: rakp_finish_def Let_def check_rakp4_def check_rakp4_icv_def rogue_payload_def numeral_3_eq_3)
qed

lemma rogue_exchange:
  assumes "ss_attempts s = 1"
  shows "\<exists>l sik. rakp_exchange (rogue_env rnd) user pass s
     = (None, s\<lparr>ss_rands := Suc (ss_rands s), ss_attempts := 3, ss_sent := l, ss_sik := Some sik,
          ss_k1 := Some (hmacSHA1 sik (const20 0x01)), ss_k2 := Some (hmacSHA1 sik (const20 0x02)), ss_outSeq := 1\<rparr>)"
proof -
  let ?cr = "fill 16 (rnd (ss_rands s))"
  let ?s1 = "s\<lparr>ss_rands := Suc (ss_rands s)\<rparr>"
  obtain pkt where pkt: "buildRMCPPlus payloadRAKP1 0 0 (rakp1_message (ss_sessionID s) ?cr user) None None None = Inr pkt"
    using build_plain by blast
  let ?s2 = "?s1\<lparr>ss_attempts := 2, ss_sent := ss_sent s @ [pkt]\<rparr>"
  have "roundtrip (rogue_env rnd) payloadRAKP1 0 0 (rakp1_message (ss_sessionID s) ?cr user) None None None ?s1
      = (Inr (replicate 40 0), ?s2)"
    using rogue_plain [of ?s1 1, OF _ pkt] assms by (simp add: rogue_payload_def numeral_2_eq_2)
  then have "rakp_exchange (rogue_env rnd) user pass s
      = rakp_finish (rogue_env rnd) (padKey pass) user ?cr (slice 8 24 (replicate 40 0)) (slice 24 40 (replicate 40 0)) ?s2"
    by (simp add: rakp_exchange_def rogue_rand check_rakp2_def check_rakp2_auth_def Let_def)
  then show ?thesis using rogue_finish [of ?s2 rnd "padKey pass" user ?cr] by auto
qed

lemma rogue_rakp:
  "\<exists>l sik cid. rakp (rogue_env rnd) user pass new_session
     = (None, new_session\<lparr>ss_sessionID := 1, ss_consoleID := cid, ss_rands := 2, ss_attempts := 3, ss_sent := l,
          ss_sik := Some sik, ss_k1 := Some (hmacSHA1 sik (const20 0x01)),
          ss_k2 := Some (hmacSHA1 sik (const20 0x02)), ss_outSeq := 1\<rparr>)"
proof -
  let ?cid = "fill 4 (rnd 0)"
  let ?s1 = "new_session\<lparr>ss_rands := 1, ss_consoleID := le32 ?cid\<rparr>"
  obtain pkt where pkt: "buildRMCPPlus payloadOpenSessionReq 0 0 (open_request ?cid) None None None = Inr pkt"
    using build_plain by blast
  have "roundtrip (rogue_env rnd) payloadOpenSessionReq 0 0 (open_request ?cid) None None None ?s1
      = (Inr (rogue_payload 0), ?s1\<lparr>ss_attempts := 1, ss_sent := [pkt]\<rparr>)"
    using rogue_plain [of ?s1 0, OF _ pkt] by (simp add: new_session_def)
  moreover have "check_open_response (rogue_payload 0) = None" "le32 (slice 8 12 (rogue_payload 0)) = 1"
    by (simp_all add: check_open_response_def rogue_payload_def slice_def le32_def)
  ultimately have "rakp (rogue_env rnd) user pass new_session
      = rakp_exchange (rogue_env rnd) user pass (?s1\<lparr>ss_attempts := 1, ss_sent := [pkt], ss_sessionID := 1\<rparr>)"
    by (simp add: rakp_def rogue_rand Let_def) (simp add: new_session_def)
  then show ?thesis
    using rogue_exchange [of "?s1\<lparr>ss_attempts := 1, ss_sent := [pkt], ss_sessionID := 1\<rparr>" rnd user pass]
    by (auto simp: new_session_def numeral_2_eq_2)
qed

text \<open>C19: Dialling succeeds against a peer that knows neither the user's password nor any key: for every user, password
  and random bytes, four fixed unsigned datagrams (handshake replies cut before their authentication
  codes, and a plain completion) are accepted and yield an open session.\<close>

theorem dial_accepts_unauthenticated_peer:
  "\<exists>s. Dial (rogue_env rnd) user pass = (Inr s, Some s) \<and> ss_sessionID s = 1 \<and> \<not> ss_closed s"
proof -
  obtain l sik cid where r: "rakp (rogue_env rnd) user pass new_session
     = (None, new_session\<lparr>ss_sessionID := 1, ss_consoleID := cid, ss_rands := 2, ss_attempts := 3, ss_sent := l,
          ss_sik := Some sik, ss_k1 := Some (hmacSHA1 sik (const20 0x01)),
          ss_k2 := Some (hmacSHA1 sik (const20 0x02)), ss_outSeq := 1\<rparr>)" (is "_ = (None, ?s)")
    using rogue_rakp by blast
  let ?k1 = "hmacSHA1 sik (const20 0x01)" and ?k2 = "hmacSHA1 sik (const20 0x02)"
  let ?iv = "fill 16 (rnd 2)"
  let ?req = "buildLANMessage netFnAppReq 1 0x3B [privAdministrator]"
  let ?s1 = "?s\<lparr>ss_rqSeq := 1, ss_outSeq := 2, ss_rands := 3\<rparr>"
  obtain pkt where pkt: "buildRMCPPlus payloadIPMI 1 1 ?req (Some ?k1) (Some ?k2) (Some ?iv) = Inr pkt"
    using build_sealed [of ?k2 ?iv ?req 1 1 "Some ?k1"] by auto
  have iv: "newIV (rogue_env rnd) (?s\<lparr>ss_rqSeq := 1, ss_outSeq := 2\<rparr>) = (Inr ?iv, ?s1)"
    by (simp add: newIV_def rogue_rand)
  have rt: "roundtrip (rogue_env rnd) payloadIPMI 1 1 ?req (Some ?k1) (Some ?k2) (Some ?iv) ?s1
      = (Inr (buildLANMessage 7 0 0x3B [0]), ?s1\<lparr>ss_attempts := 4, ss_sent := l @ [pkt]\<rparr>)"
    using rogue_plain [of ?s1 3, OF _ pkt] by (simp add: rogue_payload_def)
  have "rawCall (rogue_env rnd) netFnAppReq 0x3B [privAdministrator] ?s
      = (Inr (0, []), ?s1\<lparr>ss_attempts := 4, ss_sent := l @ [pkt]\<rparr>)"
    using iv rt lan_response_parses [of 7 0 "0x3B" 0 "[]"] by (simp add: rawCall_def new_session_def)
  moreover have "e_resolve (rogue_env rnd) = None" "e_dial (rogue_env rnd) = None" by (simp_all add: rogue_env_def)
  moreover have "\<not> ss_closed new_session" by (simp add: new_session_def)
  ultimately show ?thesis by (simp add: Dial_def r)
qed

lemma dial_cases:
  "(\<exists>e. Dial env user pass = (Inl e, None))
   \<or> (\<exists>e s. Dial env user pass = (Inl e, Some s) \<and> (ss_closed s \<or> is_panic e))
   \<or> (\<exists>s k1 k2. Dial env user pass = (Inr s, Some s) \<and> \<not> ss_closed s \<and> ss_sessionID s \<noteq> 0
        \<and> ss_k1 s = Some k1 \<and> length k1 = 20 \<and> ss_k2 s = Some k2 \<and> length k2 = 20
        \<and> ss_outSeq s = 2 \<and> ss_rqSeq s = 1)"
proof (cases "e_resolve env \<noteq> None \<or> e_dial env \<noteq> None")
  case True
  then show ?thesis by (auto simp: Dial_def split: option.split)
next
  case False
  then have r: "e_resolve env = None" "e_dial env = None" by auto
  obtain x s where k: "rakp env user pass new_session = (x, s)" by fastforce
  show ?thesis
  proof (cases x)
    case (Some e)
    then show ?thesis by (auto simp: Dial_def r k)
  next
    case None
    then obtain s1 where s1: "rakp_exchange env user pass s1 = (None, s)" "ss_sessionID s1 \<noteq> 0" "ss_rqSeq s1 = 0" "\<not> ss_closed s1"
      using rakp_reaches_exchange [of env user pass new_session s] k by (auto simp: new_session_def)
    obtain cr br guid s2 where s2: "rakp_finish env (padKey pass) user cr br guid s2 = (None, s)"
      "ss_sessionID s2 = ss_sessionID s1" "ss_rqSeq s2 = ss_rqSeq s1" "ss_closed s2 = ss_closed s1"
      using rakp_exchange_success [OF s1(1)] by blast
    obtain sik where s: "session_keys sik s" "ss_sessionID s \<noteq> 0" "ss_rqSeq s = 0" "\<not> ss_closed s"
      using rakp_finish_success [OF s2(1)] s1 s2 by metis
    obtain y s3 where c: "rawCall env netFnAppReq 0x3B [privAdministrator] s = (y, s3)" by fastforce
    from rawCall_effect [OF c] s have s3: "\<not> ss_closed s3" "ss_sessionID s3 \<noteq> 0"
      "ss_k1 s3 = Some (hmacSHA1 sik (const20 0x01))" "ss_k2 s3 = Some (hmacSHA1 sik (const20 0x02))"
      "ss_outSeq s3 = 2" "ss_rqSeq s3 = 1"
      by (auto simp: session_keys_def)
    then show ?thesis
      by (cases y) (auto simp: Dial_def r k None c Let_def split: prod.splits)
  qed
qed

text \<open>\<open>Dial\<close> either fails, with no socket or with its socket closed, or returns an open session with a
  non-zero id, keys of twenty bytes and both sequence counters advanced past the privilege call; its only
  other outcome is the panic of an exhausted random source.\<close>

theorem dial_outcome:
  "(\<exists>e. Dial env user pass = (Inl e, None))
   \<or> (\<exists>e s. Dial env user pass = (Inl e, Some s) \<and> (ss_closed s \<or> is_panic e))
   \<or> (\<exists>s k1 k2. Dial env user pass = (Inr s, Some s) \<and> \<not> ss_closed s \<and> ss_sessionID s \<noteq> 0
        \<and> ss_k1 s = Some k1 \<and> length k1 = 20 \<and> ss_k2 s = Some k2 \<and> length k2 = 20
        \<and> ss_outSeq s = 2 \<and> ss_rqSeq s = 1)"
  by (rule dial_cases)


end
