(* ===== verification/Ipmi_Client.thy ===== *)
theory Ipmi_Client
  imports Ipmi_Session "HOL-Library.Sublist"
begin

text \<open>
  The IPMI client (\<open>internal/ipmi/client.go\<close>) and the management commands built on it: chassis control
  (\<open>chassis.go\<close>), users (\<open>user.go\<close>), LAN parameters (\<open>lan.go\<close>) and inventory (\<open>inventory.go\<close>).
  The commands that only use \<open>Client.Send\<close> take it as an argument over some client state; the interface
  \<open>ipmi_sender\<close> states what they rely on and is interpreted by the real \<open>Client.Send\<close>.  Indexing an empty
  response is a \<open>Panic\<close>, and a panic is never swallowed where the code ignores an error.
\<close>

section \<open>Chassis commands (\<open>chassis.go\<close>)\<close>

record ChassisStatus =
  cs_PowerOn :: bool
  cs_OverloadFault :: bool
  cs_Interlock :: bool
  cs_PowerFault :: bool
  cs_PowerControlFault :: bool
  cs_LastEvent :: string
  cs_Raw :: bytes

definition ChassisDown :: byte where "ChassisDown = 0x00"
definition ChassisUp :: byte where "ChassisUp = 0x01"
definition ChassisCycle :: byte where "ChassisCycle = 0x02"
definition ChassisReset :: byte where "ChassisReset = 0x03"
definition ChassisSoft :: byte where "ChassisSoft = 0x05"

datatype BootDevice = BootNoOverride | BootPXE | BootHDD | BootCD | BootBIOS

fun boot_byte :: "BootDevice \<Rightarrow> byte" where
  "boot_byte BootNoOverride = 0x00"
| "boot_byte BootPXE = 0x04"
| "boot_byte BootHDD = 0x08"
| "boot_byte BootCD = 0x14"
| "boot_byte BootBIOS = 0x18"

fun joinComma :: "string list \<Rightarrow> string" where
  "joinComma [] = []"
| "joinComma [s] = s"
| "joinComma (s # ss) = s @ '','' @ joinComma ss"

definition chassis_reasons :: "byte \<Rightarrow> string list" where
  "chassis_reasons b =
     (if b AND 0x01 \<noteq> 0 then [''ac-failed''] else []) @
     (if b AND 0x02 \<noteq> 0 then [''overload''] else []) @
     (if b AND 0x04 \<noteq> 0 then [''interlock''] else []) @
     (if b AND 0x08 \<noteq> 0 then [''fault''] else []) @
     (if b AND 0x10 \<noteq> 0 then [''ipmi-command''] else [])"

definition getChassisStatus :: "ipmi_env \<Rightarrow> IpmiSession \<Rightarrow> ChassisStatus result \<times> IpmiSession" where
  "getChassisStatus env s =
     (case rawCall env netFnChassisReq 0x01 [] s of
        (Inl e, s) \<Rightarrow> (Inl e, s)
      | (Inr (cc, data), s) \<Rightarrow>
          if cc \<noteq> 0 then (Inl (Errorf (''ipmi: Get Chassis Status cc=0x'' @ hex2 cc)), s)
          else if length data < 3 then
            (Inl (Errorf (''ipmi: chassis status too short ('' @ dec (length data) @ '')'')), s)
          else
            let reasons = chassis_reasons (data ! 1)
            in (Inr \<lparr>cs_PowerOn = (data ! 0 AND 0x01 \<noteq> 0), cs_OverloadFault = (data ! 0 AND 0x02 \<noteq> 0),
                 cs_Interlock = (data ! 0 AND 0x04 \<noteq> 0), cs_PowerFault = (data ! 0 AND 0x08 \<noteq> 0),
                 cs_PowerControlFault = (data ! 0 AND 0x10 \<noteq> 0),
                 cs_LastEvent = (if reasons = [] then ''none'' else joinComma reasons), cs_Raw = data\<rparr>, s))"

definition chassisControl :: "ipmi_env \<Rightarrow> byte \<Rightarrow> IpmiSession \<Rightarrow> gerror option \<times> IpmiSession" where
  "chassisControl env action s =
     (case rawCall env netFnChassisReq 0x02 [action] s of
        (Inl e, s) \<Rightarrow> (Some e, s)
      | (Inr (cc, _), s) \<Rightarrow>
          if cc \<noteq> 0 then (Some (Errorf (''ipmi: Chassis Control('' @ hex2 action @ '') cc=0x'' @ hex2 cc)), s)
          else (None, s))"

definition setBootDevice :: "ipmi_env \<Rightarrow> BootDevice \<Rightarrow> IpmiSession \<Rightarrow> gerror option \<times> IpmiSession" where
  "setBootDevice env dev s =
     (let body = [0x05, 0x80, boot_byte dev, 0x00, 0x00, 0x00]
      in case rawCall env netFnChassisReq 0x08 body s of
           (Inl e, s) \<Rightarrow> (Some e, s)
         | (Inr (cc, _), s) \<Rightarrow>
             if cc \<noteq> 0 then (Some (Errorf (''ipmi: Set Boot Options cc=0x'' @ hex2 cc)), s) else (None, s))"

section \<open>The client (\<open>client.go\<close>)\<close>

record IpmiClient =
  c_sess :: "IpmiSession option"

definition client_Open :: "ipmi_env \<Rightarrow> bytes \<Rightarrow> bytes \<Rightarrow> IpmiClient result" where
  "client_Open env user pass =
     (case Dial env user pass of (Inl e, _) \<Rightarrow> Inl e | (Inr s, _) \<Rightarrow> Inr \<lparr>c_sess = Some s\<rparr>)"

definition client_Close :: "ipmi_env \<Rightarrow> IpmiClient \<Rightarrow> gerror option \<times> IpmiClient" where
  "client_Close env c =
     (case c_sess c of
        None \<Rightarrow> (None, c)
      | Some s \<Rightarrow>
          (case sess_Close env s of
             (Some e, s') \<Rightarrow> if is_panic e then (Some e, \<lparr>c_sess = Some s'\<rparr>) else (Some e, \<lparr>c_sess = None\<rparr>)
           | (None, _) \<Rightarrow> (None, \<lparr>c_sess = None\<rparr>)))"

text \<open>Running a session operation under the client's lock; a nil session is dereferenced.\<close>

definition with_sess ::
  "(IpmiSession \<Rightarrow> 'r \<times> IpmiSession) \<Rightarrow> (gerror \<Rightarrow> 'r) \<Rightarrow> IpmiClient \<Rightarrow> 'r \<times> IpmiClient" where
  "with_sess op err c =
     (case c_sess c of
        None \<Rightarrow> (err (Panic ''nil pointer dereference''), c)
      | Some s \<Rightarrow> (case op s of (r, s') \<Rightarrow> (r, \<lparr>c_sess = Some s'\<rparr>)))"

definition PowerStatus :: "ipmi_env \<Rightarrow> IpmiClient \<Rightarrow> ChassisStatus result \<times> IpmiClient" where
  "PowerStatus env c = with_sess (getChassisStatus env) Inl c"

definition PowerOn :: "ipmi_env \<Rightarrow> IpmiClient \<Rightarrow> gerror option \<times> IpmiClient" where
  "PowerOn env c = with_sess (chassisControl env ChassisUp) Some c"

definition PowerOff :: "ipmi_env \<Rightarrow> IpmiClient \<Rightarrow> gerror option \<times> IpmiClient" where
  "PowerOff env c = with_sess (chassisControl env ChassisDown) Some c"

definition PowerReset :: "ipmi_env \<Rightarrow> IpmiClient \<Rightarrow> gerror option \<times> IpmiClient" where
  "PowerReset env c = with_sess (chassisControl env ChassisReset) Some c"

definition PowerSoftShutdown :: "ipmi_env \<Rightarrow> IpmiClient \<Rightarrow> gerror option \<times> IpmiClient" where
  "PowerSoftShutdown env c = with_sess (chassisControl env ChassisSoft) Some c"

definition PowerCycle :: "ipmi_env \<Rightarrow> IpmiClient \<Rightarrow> gerror option \<times> IpmiClient" where
  "PowerCycle env c = with_sess (chassisControl env ChassisCycle) Some c"

text \<open>
  \<open>strings.ToLower\<close> on the bytes of a string, as far as the comparison with ASCII words can tell:
  ASCII letters, and the two letters outside ASCII whose lower case is an ASCII letter (U+0130, U+212A).
\<close>

fun to_lower :: "bytes \<Rightarrow> bytes" where
  "to_lower [] = []"
| "to_lower (b # bs) =
     (if b = 0xC4 \<and> take 1 bs = [0xB0] then 0x69 # to_lower (drop 1 bs)
      else if b = 0xE2 \<and> take 2 bs = [0x84, 0xAA] then 0x6B # to_lower (drop 2 bs)
      else (if 0x41 \<le> b \<and> b \<le> 0x5A then b + 0x20 else b) # to_lower bs)"

definition boot_device_of :: "bytes \<Rightarrow> BootDevice option" where
  "boot_device_of dev =
     (let d = to_lower dev
      in if d = str_bytes ''none'' then Some BootNoOverride
         else if d = str_bytes ''pxe'' then Some BootPXE
         else if d \<in> {str_bytes ''hdd'', str_bytes ''disk''} then Some BootHDD
         else if d \<in> {str_bytes ''cd'', str_bytes ''cdrom'', str_bytes ''dvd''} then Some BootCD
         else if d \<in> {str_bytes ''bios'', str_bytes ''setup''} then Some BootBIOS
         else None)"

text \<open>The error text quotes the device name; \<open>quote\<close> is the caller's rendering of \<open>%q\<close>.\<close>

definition SetOneTimeBoot ::
  "(bytes \<Rightarrow> string) \<Rightarrow> ipmi_env \<Rightarrow> bytes \<Rightarrow> IpmiClient \<Rightarrow> gerror option \<times> IpmiClient" where
  "SetOneTimeBoot quote env dev c =
     (case boot_device_of dev of
        None \<Rightarrow> (Some (Errorf (''ipmi: unknown boot device '' @ quote dev)), c)
      | Some b \<Rightarrow> with_sess (setBootDevice env b) Some c)"

definition Client_Send :: "ipmi_env \<Rightarrow> byte \<Rightarrow> byte \<Rightarrow> bytes \<Rightarrow> IpmiClient \<Rightarrow> bytes result \<times> IpmiClient" where
  "Client_Send env netFn cmd data c =
     (case c_sess c of
        None \<Rightarrow> (Inl (Errorf ''ipmi: session closed''), c)
      | Some s \<Rightarrow>
          (case rawCall env netFn cmd data s of
             (Inl e, s) \<Rightarrow> (Inl e, \<lparr>c_sess = Some s\<rparr>)
           | (Inr (cc, out), s) \<Rightarrow>
               let resp = mk_buf (1 + length out);
                   resp = resp[0 := cc]
               in (Inr (copy_from 1 out resp), \<lparr>c_sess = Some s\<rparr>)))"

section \<open>Commands over \<open>Client.Send\<close>\<close>

type_synonym 's sender = "byte \<Rightarrow> byte \<Rightarrow> bytes \<Rightarrow> 's \<Rightarrow> bytes result \<times> 's"

abbreviation (input) index_panic :: gerror where
  "index_panic \<equiv> Panic ''index out of range''"

text \<open>
  The prologue most commands share: send, return the error, return an error text for a completion code
  other than zero, go on with \<open>resp[1:]\<close>.
\<close>

definition send_body ::
  "'s sender \<Rightarrow> byte \<Rightarrow> byte \<Rightarrow> bytes \<Rightarrow> (byte \<Rightarrow> string) \<Rightarrow> 's \<Rightarrow> bytes result \<times> 's" where
  "send_body send netFn cmd req ccErr s =
     (case send netFn cmd req s of
        (Inl e, s) \<Rightarrow> (Inl e, s)
      | (Inr [], s) \<Rightarrow> (Inl index_panic, s)
      | (Inr (cc # b), s) \<Rightarrow> if cc \<noteq> 0 then (Inl (Errorf (ccErr cc)), s) else (Inr b, s))"

definition sendCheck :: "'s sender \<Rightarrow> string \<Rightarrow> byte \<Rightarrow> byte \<Rightarrow> bytes \<Rightarrow> 's \<Rightarrow> gerror option \<times> 's" where
  "sendCheck send what netFn cmd data s =
     (case send netFn cmd data s of
        (Inl e, s) \<Rightarrow> (Some e, s)
      | (Inr [], s) \<Rightarrow> (Some (Errorf (''ipmi: '' @ what @ '': empty response'')), s)
      | (Inr (cc # _), s) \<Rightarrow>
          if cc \<noteq> 0 then (Some (Errorf (''ipmi: '' @ what @ '' cc=0x'' @ hex2 cc)), s) else (None, s))"

subsection \<open>Users (\<open>user.go\<close>)\<close>

record User =
  u_ID :: byte
  u_Name :: bytes
  u_Enabled :: bool
  u_Privilege :: byte
  u_PrivName :: string
  u_MsgEnable :: bool
  u_LinkAuth :: bool

definition privName :: "byte \<Rightarrow> string" where
  "privName p =
     (let n = p AND 0x0F
      in if n = 1 then ''Callback''
         else if n = 2 then ''User''
         else if n = 3 then ''Operator''
         else if n = 4 then ''Administrator''
         else if n = 5 then ''OEM''
         else if n = 0x0F then ''No Access''
         else ''0x'' @ hex1 n)"

record userAccess =
  ua_maxIDs :: byte
  ua_enabled :: bool
  ua_priv :: byte
  ua_msgEnable :: bool
  ua_linkAuth :: bool

definition getUserAccess :: "'s sender \<Rightarrow> byte \<Rightarrow> 's \<Rightarrow> userAccess result \<times> 's" where
  "getUserAccess send uid s =
     (case send_body send 0x06 0x44 [0x01 AND 0x0F, uid AND 0x3F] (\<lambda>cc. ''ipmi: Get User Access cc=0x'' @ hex2 cc) s of
        (Inl e, s) \<Rightarrow> (Inl e, s)
      | (Inr b, s) \<Rightarrow>
          if length b < 4 then (Inl (Errorf ''ipmi: short Get User Access response''), s)
          else (Inr \<lparr>ua_maxIDs = b ! 0 AND 0x3F, ua_enabled = (drop_bit 6 (b ! 1) AND 0x03 = 0x01),
                 ua_priv = b ! 3 AND 0x0F, ua_msgEnable = (b ! 3 AND 0x10 \<noteq> 0), ua_linkAuth = (b ! 3 AND 0x20 \<noteq> 0)\<rparr>, s))"

text \<open>\<open>bytes.TrimRight(name, " ")\<close>.\<close>

definition trim_spaces :: "bytes \<Rightarrow> bytes" where
  "trim_spaces name = rev (dropWhile (\<lambda>c. c = 0x20) (rev name))"

definition GetUserName :: "'s sender \<Rightarrow> byte \<Rightarrow> 's \<Rightarrow> bytes result \<times> 's" where
  "GetUserName send uid s =
     (case send_body send 0x06 0x46 [uid AND 0x3F] (\<lambda>cc. ''ipmi: Get User Name cc=0x'' @ hex2 cc) s of
        (Inl e, s) \<Rightarrow> (Inl e, s)
      | (Inr name, s) \<Rightarrow> (Inr (trim_spaces (takeWhile (\<lambda>c. c \<noteq> 0) name)), s))"

text \<open>One slot of the listing: \<open>Inr None\<close> when the slot is skipped.\<close>

definition list_user :: "'s sender \<Rightarrow> userAccess \<Rightarrow> byte \<Rightarrow> 's \<Rightarrow> User option result \<times> 's" where
  "list_user send first uid s =
     (case (if uid = 1 then (Inr first, s) else getUserAccess send uid s) of
        (Inl e, s) \<Rightarrow> if is_panic e then (Inl e, s) else (Inr None, s)
      | (Inr ua, s) \<Rightarrow>
          (case GetUserName send uid s of
             (Inl e, s) \<Rightarrow>
               if is_panic e then (Inl e, s)
               else (Inr (Some \<lparr>u_ID = uid, u_Name = [], u_Enabled = ua_enabled ua, u_Privilege = ua_priv ua,
                       u_PrivName = privName (ua_priv ua), u_MsgEnable = ua_msgEnable ua, u_LinkAuth = ua_linkAuth ua\<rparr>), s)
           | (Inr name, s) \<Rightarrow>
               (Inr (Some \<lparr>u_ID = uid, u_Name = name, u_Enabled = ua_enabled ua, u_Privilege = ua_priv ua,
                       u_PrivName = privName (ua_priv ua), u_MsgEnable = ua_msgEnable ua, u_LinkAuth = ua_linkAuth ua\<rparr>), s)))"

fun list_users_loop :: "'s sender \<Rightarrow> userAccess \<Rightarrow> nat list \<Rightarrow> 's \<Rightarrow> User list result \<times> 's" where
  "list_users_loop send first [] s = (Inr [], s)"
| "list_users_loop send first (i # ids) s =
     (case list_user send first (of_nat i) s of
        (Inl e, s) \<Rightarrow> (Inl e, s)
      | (Inr u, s) \<Rightarrow>
          (case list_users_loop send first ids s of
             (Inl e, s) \<Rightarrow> (Inl e, s)
           | (Inr us, s) \<Rightarrow> (Inr (case u of None \<Rightarrow> us | Some u \<Rightarrow> u # us), s)))"

definition max_user_ids :: "byte \<Rightarrow> nat" where
  "max_user_ids m = (if m = 0 \<or> m > 63 then 15 else unat m)"

definition ListUsers :: "'s sender \<Rightarrow> 's \<Rightarrow> User list result \<times> 's" where
  "ListUsers send s =
     (case getUserAccess send 1 s of
        (Inl e, s) \<Rightarrow> (Inl e, s)
      | (Inr first, s) \<Rightarrow> list_users_loop send first [1..<Suc (max_user_ids (ua_maxIDs first))] s)"

definition set_user_name_data :: "byte \<Rightarrow> bytes \<Rightarrow> bytes" where
  "set_user_name_data uid name =
     (let data = mk_buf 17; data = data[0 := uid AND 0x3F] in copy_from 1 name data)"

definition SetUserName :: "'s sender \<Rightarrow> byte \<Rightarrow> bytes \<Rightarrow> 's \<Rightarrow> gerror option \<times> 's" where
  "SetUserName send uid name s = sendCheck send ''Set User Name'' 0x06 0x45 (set_user_name_data uid name) s"

definition set_user_password_data :: "byte \<Rightarrow> bytes \<Rightarrow> bytes" where
  "set_user_password_data uid pass =
     (let data = mk_buf 18; data = data[0 := uid AND 0x3F]; data = data[1 := 0x02] in copy_from 2 pass data)"

definition SetUserPassword :: "'s sender \<Rightarrow> byte \<Rightarrow> bytes \<Rightarrow> 's \<Rightarrow> gerror option \<times> 's" where
  "SetUserPassword send uid pass s =
     (if length pass > 16 then (Some (Errorf ''ipmi: password too long (max 16 for 16-byte mode)''), s)
      else sendCheck send ''Set User Password'' 0x06 0x47 (set_user_password_data uid pass) s)"

definition EnableUser :: "'s sender \<Rightarrow> byte \<Rightarrow> 's \<Rightarrow> gerror option \<times> 's" where
  "EnableUser send uid s = sendCheck send ''Enable User'' 0x06 0x47 [uid AND 0x3F, 0x01] s"

definition DisableUser :: "'s sender \<Rightarrow> byte \<Rightarrow> 's \<Rightarrow> gerror option \<times> 's" where
  "DisableUser send uid s = sendCheck send ''Disable User'' 0x06 0x47 [uid AND 0x3F, 0x00] s"

definition SetUserPrivilege :: "'s sender \<Rightarrow> byte \<Rightarrow> byte \<Rightarrow> 's \<Rightarrow> gerror option \<times> 's" where
  "SetUserPrivilege send uid priv s =
     (let b1 = 0x90 OR (0x01 AND 0x0F);
          data = [b1, uid AND 0x3F, priv AND 0x0F, 0x00]
      in sendCheck send ''Set User Access'' 0x06 0x43 data s)"

subsection \<open>LAN parameters (\<open>lan.go\<close>)\<close>

record LANConfig =
  l_Channel :: byte
  l_IPSource :: string
  l_IP :: string
  l_SubnetMask :: string
  l_Gateway :: string
  l_MAC :: string
  l_GatewayMAC :: string
  l_VLANID :: int

definition getLANParam :: "'s sender \<Rightarrow> byte \<Rightarrow> byte \<Rightarrow> 's \<Rightarrow> bytes result \<times> 's" where
  "getLANParam send param setsel s =
     (case send_body send 0x0C 0x02 [0x01, param, setsel, 0x00]
             (\<lambda>cc. ''ipmi: Get LAN Param '' @ dec (unat param) @ '' cc=0x'' @ hex2 cc) s of
        (Inl e, s) \<Rightarrow> (Inl e, s)
      | (Inr b, s) \<Rightarrow>
          if length b < 1 then (Inl (Errorf (''ipmi: short LAN param '' @ dec (unat param))), s)
          else (Inr (drop 1 b), s))"

definition ipv4 :: "bytes \<Rightarrow> string" where
  "ipv4 b = (if length b < 4 then []
     else dec (unat (b ! 0)) @ ''.'' @ dec (unat (b ! 1)) @ ''.'' @ dec (unat (b ! 2)) @ ''.'' @ dec (unat (b ! 3)))"

definition macStr :: "bytes \<Rightarrow> string" where
  "macStr b = (if length b < 6 then []
     else hex2 (b ! 0) @ '':'' @ hex2 (b ! 1) @ '':'' @ hex2 (b ! 2) @ '':'' @ hex2 (b ! 3) @ '':''
        @ hex2 (b ! 4) @ '':'' @ hex2 (b ! 5))"

definition ip_source :: "byte \<Rightarrow> string" where
  "ip_source b =
     (let n = b AND 0x0F
      in if n = 1 then ''static'' else if n = 2 then ''dhcp'' else if n = 3 then ''bios''
         else if n = 4 then ''other'' else ''0x'' @ hex1 n)"

text \<open>
  Reading one parameter and folding it into the configuration: an error leaves the configuration as it is.
\<close>

definition lan_field ::
  "'s sender \<Rightarrow> byte \<Rightarrow> (bytes \<Rightarrow> LANConfig \<Rightarrow> LANConfig) \<Rightarrow> LANConfig result \<times> 's \<Rightarrow> LANConfig result \<times> 's" where
  "lan_field send param upd acc =
     (case acc of
        (Inl e, s) \<Rightarrow> (Inl e, s)
      | (Inr cfg, s) \<Rightarrow>
          (case getLANParam send param 0 s of
             (Inl e, s) \<Rightarrow> if is_panic e then (Inl e, s) else (Inr cfg, s)
           | (Inr d, s) \<Rightarrow> (Inr (upd d cfg), s)))"

definition upd_ip_source :: "bytes \<Rightarrow> LANConfig \<Rightarrow> LANConfig" where
  "upd_ip_source d cfg = (if length d \<ge> 1 then cfg\<lparr>l_IPSource := ip_source (d ! 0)\<rparr> else cfg)"

definition upd_vlan :: "bytes \<Rightarrow> LANConfig \<Rightarrow> LANConfig" where
  "upd_vlan d cfg =
     (if length d \<ge> 2 \<and> d ! 1 AND 0x80 \<noteq> 0
      then cfg\<lparr>l_VLANID := uint (d ! 0) OR push_bit 8 (uint (d ! 1 AND 0x0F))\<rparr> else cfg)"

definition GetLANConfig :: "'s sender \<Rightarrow> 's \<Rightarrow> LANConfig result \<times> 's" where
  "GetLANConfig send s =
     (let cfg = \<lparr>l_Channel = 0x01, l_IPSource = [], l_IP = [], l_SubnetMask = [], l_Gateway = [], l_MAC = [],
                 l_GatewayMAC = [], l_VLANID = -1\<rparr>;
          acc = (Inr cfg, s);
          acc = lan_field send 4 upd_ip_source acc;
          acc = lan_field send 3 (\<lambda>d cfg. cfg\<lparr>l_IP := ipv4 d\<rparr>) acc;
          acc = lan_field send 6 (\<lambda>d cfg. cfg\<lparr>l_SubnetMask := ipv4 d\<rparr>) acc;
          acc = lan_field send 12 (\<lambda>d cfg. cfg\<lparr>l_Gateway := ipv4 d\<rparr>) acc;
          acc = lan_field send 5 (\<lambda>d cfg. cfg\<lparr>l_MAC := macStr d\<rparr>) acc;
          acc = lan_field send 13 (\<lambda>d cfg. cfg\<lparr>l_GatewayMAC := macStr d\<rparr>) acc
      in lan_field send 20 upd_vlan acc)"

definition SetLANParam :: "'s sender \<Rightarrow> byte \<Rightarrow> bytes \<Rightarrow> 's \<Rightarrow> gerror option \<times> 's" where
  "SetLANParam send param data s =
     sendCheck send (''Set LAN Param '' @ dec (unat param)) 0x0C 0x01 ([0x01, param] @ data) s"

definition SetIPSource :: "'s sender \<Rightarrow> byte \<Rightarrow> 's \<Rightarrow> gerror option \<times> 's" where
  "SetIPSource send src s = SetLANParam send 4 [src AND 0x0F] s"

subsection \<open>Inventory (\<open>inventory.go\<close>)\<close>

record DeviceID =
  d_DeviceID :: byte
  d_DeviceRevision :: byte
  d_FirmwareMajor :: byte
  d_FirmwareMinor :: byte
  d_FirmwareRev :: string
  d_IPMIVersion :: string
  d_ManufacturerID :: u32
  d_ProductID :: u16

definition GetDeviceID :: "'s sender \<Rightarrow> 's \<Rightarrow> DeviceID result \<times> 's" where
  "GetDeviceID send s =
     (case send_body send 0x06 0x01 [] (\<lambda>cc. ''ipmi: Get Device ID cc=0x'' @ hex2 cc) s of
        (Inl e, s) \<Rightarrow> (Inl e, s)
      | (Inr b, s) \<Rightarrow>
          if length b < 11 then
            (Inl (Errorf (''ipmi: short Get Device ID response ('' @ dec (length b) @ '' bytes)'')), s)
          else
            let major = b ! 2 AND 0x7F; minor = b ! 3
            in (Inr \<lparr>d_DeviceID = b ! 0, d_DeviceRevision = b ! 1 AND 0x0F, d_FirmwareMajor = major,
                 d_FirmwareMinor = minor, d_FirmwareRev = dec (unat major) @ ''.'' @ hex2 minor,
                 d_IPMIVersion = dec (unat (b ! 4 AND 0x0F)) @ ''.'' @ dec (unat (drop_bit 4 (b ! 4))),
                 d_ManufacturerID = ucast (b ! 6) OR push_bit 8 (ucast (b ! 7)) OR push_bit 16 (ucast (b ! 8)),
                 d_ProductID = ucast (b ! 9) OR push_bit 8 (ucast (b ! 10))\<rparr>, s))"

record FRU =
  fru_BoardMfg :: bytes
  fru_BoardProduct :: bytes
  fru_BoardSerial :: bytes
  fru_BoardPart :: bytes
  fru_ProductMfg :: bytes
  fru_ProductName :: bytes
  fru_ProductPart :: bytes
  fru_ProductVersion :: bytes
  fru_ProductSerial :: bytes
  fru_ProductAsset :: bytes

definition fruString :: "bytes \<Rightarrow> nat \<Rightarrow> bytes \<times> nat" where
  "fruString d p =
     (if p \<ge> length d then ([], p)
      else
        let tl = d ! p
        in if tl = 0xC1 then ([], length d)
           else
             let len = unat (tl AND 0x3F); start = p + 1; fin = start + len
             in if fin > length d then ([], length d) else (slice start fin d, fin))"

fun fru_strings :: "nat \<Rightarrow> bytes \<Rightarrow> nat \<Rightarrow> bytes list" where
  "fru_strings 0 d p = []"
| "fru_strings (Suc n) d p = (case fruString d p of (s, p) \<Rightarrow> s # fru_strings n d p)"

definition empty_fru :: FRU where
  "empty_fru = \<lparr>fru_BoardMfg = [], fru_BoardProduct = [], fru_BoardSerial = [], fru_BoardPart = [],
     fru_ProductMfg = [], fru_ProductName = [], fru_ProductPart = [], fru_ProductVersion = [],
     fru_ProductSerial = [], fru_ProductAsset = []\<rparr>"

definition parseFRU :: "bytes \<Rightarrow> FRU result" where
  "parseFRU d =
     (if length d < 8 \<or> d ! 0 \<noteq> 0x01 then
        Inl (Errorf (''ipmi: not a v1 FRU image ('' @ dec (length d) @ '' bytes)''))
      else
        let boardOff = unat (d ! 3) * 8;
            productOff = unat (d ! 4) * 8;
            f = empty_fru;
            f = (if boardOff > 0 \<and> boardOff + 6 < length d
                 then (case fru_strings 4 d (boardOff + 6) of
                         [a, b, c, e] \<Rightarrow> f\<lparr>fru_BoardMfg := a, fru_BoardProduct := b, fru_BoardSerial := c, fru_BoardPart := e\<rparr>
                       | _ \<Rightarrow> f)
                 else f);
            f = (if productOff > 0 \<and> productOff + 3 < length d
                 then (case fru_strings 6 d (productOff + 3) of
                         [a, b, c, e, g, h] \<Rightarrow> f\<lparr>fru_ProductMfg := a, fru_ProductName := b, fru_ProductPart := c,
                           fru_ProductVersion := e, fru_ProductSerial := g, fru_ProductAsset := h\<rparr>
                       | _ \<Rightarrow> f)
                 else f)
        in Inr f)"

text \<open>
  The chunked read.  A chunk may bring up to 255 bytes; the loop ends because every round that goes on
  moves the offset.
\<close>

function fru_read_loop :: "'s sender \<Rightarrow> byte \<Rightarrow> nat \<Rightarrow> bytes \<Rightarrow> nat \<Rightarrow> 's \<Rightarrow> bytes result \<times> 's" where
  "fru_read_loop send fruID sz data off s =
     (if off < sz then
        let n = (if off + 16 > sz then sz - off else 16)
        in case send 0x0A 0x11 [fruID, of_nat off, of_nat (off div 256), of_nat n] s of
             (Inl e, s) \<Rightarrow> (Inl e, s)
           | (Inr r, s) \<Rightarrow>
               if r = [] then (Inl index_panic, s)
               else if r ! 0 \<noteq> 0 \<or> length r < 2 then (Inr data, s)
               else
                 let got = unat (r ! 1)
                 in if got = 0 \<or> length r < 2 + got then (Inr data, s)
                    else fru_read_loop send fruID sz (data @ slice 2 (2 + got) r) (off + got) s
      else (Inr data, s))"
  by pat_completeness auto
termination by (relation "measure (\<lambda>(send, fruID, sz, data, off, s). sz - off)") auto

declare fru_read_loop.simps [simp del]

definition fru_size :: "byte \<Rightarrow> byte \<Rightarrow> nat" where
  "fru_size lo hi = (let sz = unat lo + 256 * unat hi in if sz \<le> 0 \<or> sz > 8192 then 256 else sz)"

definition ReadFRU :: "'s sender \<Rightarrow> byte \<Rightarrow> 's \<Rightarrow> FRU result \<times> 's" where
  "ReadFRU send fruID s =
     (case send_body send 0x0A 0x10 [fruID] (\<lambda>cc. ''ipmi: Get FRU Area Info cc=0x'' @ hex2 cc) s of
        (Inl e, s) \<Rightarrow> (Inl e, s)
      | (Inr b, s) \<Rightarrow>
          if length b < 2 then (Inl (Errorf ''ipmi: short FRU area info''), s)
          else
            (case fru_read_loop send fruID (fru_size (b ! 0) (b ! 1)) [] 0 s of
               (Inl e, s) \<Rightarrow> (Inl e, s)
             | (Inr data, s) \<Rightarrow> (parseFRU data, s)))"

section \<open>The interface the commands rely on\<close>

text \<open>
  In a good state a request is answered by a response of at least one byte (the completion code) or by an
  ordinary error, and the state stays good.
\<close>

locale ipmi_sender =
  fixes send :: "'s sender" and good :: "'s \<Rightarrow> bool"
  assumes nonempty: "send netFn cmd d s = (Inr r, s') \<Longrightarrow> r \<noteq> []"
    and no_panic: "good s \<Longrightarrow> send netFn cmd d s = (Inl e, s') \<Longrightarrow> \<not> is_panic e"
    and keeps: "good s \<Longrightarrow> send netFn cmd d s = (x, s') \<Longrightarrow> good s'"
begin

lemma send_body_safe:
  assumes "good s" and "send_body send netFn cmd req ccErr s = (x, s')"
  shows "good s' \<and> (\<forall>e. x = Inl e \<longrightarrow> \<not> is_panic e)"
proof -
  obtain r s1 where r: "send netFn cmd req s = (r, s1)" by fastforce
  show ?thesis
  proof (cases r)
    case (Inl e)
    then show ?thesis using assms r keeps [OF assms(1) r] no_panic [OF assms(1)] by (auto simp: send_body_def)
  next
    case (Inr b)
    then have "b \<noteq> []" using nonempty r by blast
    then obtain cc b' where "b = cc # b'" by (cases b) auto
    then show ?thesis using assms r keeps [OF assms(1) r] by (auto simp: send_body_def Inr split: if_splits)
  qed
qed

lemma sendCheck_safe:
  assumes "good s" and "sendCheck send what netFn cmd req s = (x, s')"
  shows "good s' \<and> (\<forall>e. x = Some e \<longrightarrow> \<not> is_panic e)"
proof -
  obtain r s1 where r: "send netFn cmd req s = (r, s1)" by fastforce
  show ?thesis
    using assms r keeps [OF assms(1) r] no_panic [OF assms(1)]
    by (auto simp: sendCheck_def split: sum.splits list.splits if_splits)
qed

lemma getUserAccess_safe:
  "good s \<Longrightarrow> getUserAccess send uid s = (x, s') \<Longrightarrow> good s' \<and> (\<forall>e. x = Inl e \<longrightarrow> \<not> is_panic e)"
  by (auto simp: getUserAccess_def split: prod.splits sum.splits if_splits dest: send_body_safe)

lemma GetUserName_safe:
  "good s \<Longrightarrow> GetUserName send uid s = (x, s') \<Longrightarrow> good s' \<and> (\<forall>e. x = Inl e \<longrightarrow> \<not> is_panic e)"
  by (auto simp: GetUserName_def split: prod.splits sum.splits dest: send_body_safe)

lemma list_user_safe:
  assumes "good s" and "list_user send first uid s = (x, s')"
  shows "good s' \<and> (\<exists>u. x = Inr u)"
proof -
  obtain y s1 where y: "(if uid = 1 then (Inr first, s) else getUserAccess send uid s) = (y, s1)" by fastforce
  have s1: "good s1" "\<And>e. y = Inl e \<Longrightarrow> \<not> is_panic e"
    using y assms(1) getUserAccess_safe [OF assms(1), of uid y s1] by (auto split: if_splits)
  obtain z s2 where z: "GetUserName send uid s1 = (z, s2)" by fastforce
  then have "good s2" "\<And>e. z = Inl e \<Longrightarrow> \<not> is_panic e" using GetUserName_safe [OF s1(1) z] by auto
  then show ?thesis using assms(2) s1 z by (cases y; cases z) (auto simp: list_user_def y)
qed

lemma list_users_loop_safe:
  "good s \<Longrightarrow> list_users_loop send first ids s = (x, s') \<Longrightarrow> good s' \<and> (\<exists>us. x = Inr us)"
proof (induction ids arbitrary: s x s')
  case (Cons i ids)
  obtain y s1 where y: "list_user send first (of_nat i) s = (y, s1)" by fastforce
  then obtain u where u: "y = Inr u" "good s1" using list_user_safe [OF Cons.prems(1) y] by auto
  obtain z s2 where z: "list_users_loop send first ids s1 = (z, s2)" by fastforce
  then show ?case using Cons.IH [OF u(2) z] Cons.prems(2) y u by auto
qed auto

lemma ListUsers_safe:
  assumes "good s" and "ListUsers send s = (x, s')"
  shows "good s' \<and> (\<forall>e. x = Inl e \<longrightarrow> \<not> is_panic e)"
proof -
  obtain y s1 where y: "getUserAccess send 1 s = (y, s1)" by fastforce
  then show ?thesis using getUserAccess_safe [OF assms(1) y] list_users_loop_safe [of s1] assms(2)
    by (cases y) (fastforce simp: ListUsers_def)+
qed

lemma getLANParam_safe:
  "good s \<Longrightarrow> getLANParam send p q s = (x, s') \<Longrightarrow> good s' \<and> (\<forall>e. x = Inl e \<longrightarrow> \<not> is_panic e)"
  by (auto simp: getLANParam_def split: prod.splits sum.splits if_splits dest: send_body_safe)

lemma lan_field_safe:
  assumes "\<exists>cfg s. acc = (Inr cfg, s) \<and> good s"
  shows "\<exists>cfg s. lan_field send p upd acc = (Inr cfg, s) \<and> good s"
proof -
  obtain cfg s where a: "acc = (Inr cfg, s)" "good s" using assms by blast
  obtain y s1 where y: "getLANParam send p 0 s = (y, s1)" by fastforce
  then show ?thesis using getLANParam_safe [OF a(2) y] by (cases y) (auto simp: lan_field_def a(1))
qed

lemma GetLANConfig_total: "good s \<Longrightarrow> \<exists>cfg s'. GetLANConfig send s = (Inr cfg, s') \<and> good s'"
  unfolding GetLANConfig_def Let_def by (intro lan_field_safe) auto

lemma fru_read_loop_safe:
  "good s \<Longrightarrow> fru_read_loop send i sz data off s = (x, s') \<Longrightarrow> good s' \<and> (\<forall>e. x = Inl e \<longrightarrow> \<not> is_panic e)"
proof (induction "sz - off" arbitrary: data off s rule: less_induct)
  case less
  show ?case
  proof (cases "off < sz")
    case False
    then show ?thesis using less.prems by (auto simp: fru_read_loop.simps)
  next
    case True
    define n where "n = (if off + 16 > sz then sz - off else 16)"
    obtain y s1 where y: "send 0x0A 0x11 [i, of_nat off, of_nat (off div 256), of_nat n] s = (y, s1)" by fastforce
    note step = less.prems(2) [unfolded fru_read_loop.simps [of send i sz data off s] Let_def n_def [symmetric] y]
    have g: "good s1" using keeps [OF less.prems(1) y] .
    show ?thesis
    proof (cases y)
      case (Inl e)
      then show ?thesis using step True g no_panic [OF less.prems(1)] y by auto
    next
      case (Inr r)
      then have r: "r \<noteq> []" using nonempty y by blast
      have "(x, s') = (Inr data, s1) \<or> (\<exists>got > 0. fru_read_loop send i sz (data @ slice 2 (2 + got) r) (off + got) s1 = (x, s'))"
        using step True r by (auto simp: Inr split: if_splits)
      then show ?thesis
      proof
        assume "\<exists>got > 0. fru_read_loop send i sz (data @ slice 2 (2 + got) r) (off + got) s1 = (x, s')"
        then obtain got where "0 < got" "fru_read_loop send i sz (data @ slice 2 (2 + got) r) (off + got) s1 = (x, s')" by blast
        then show ?thesis using less.hyps [of "off + got" s1 "data @ slice 2 (2 + got) r"] g True by simp
      qed (use g in auto)
    qed
  qed
qed

lemma ReadFRU_safe:
  assumes "good s" and "ReadFRU send i s = (x, s')"
  shows "good s' \<and> (\<forall>e. x = Inl e \<longrightarrow> \<not> is_panic e)"
proof -
  obtain y s1 where y: "send_body send 0x0A 0x10 [i] (\<lambda>cc. ''ipmi: Get FRU Area Info cc=0x'' @ hex2 cc) s = (y, s1)"
    by fastforce
  note b = send_body_safe [OF assms(1) y]
  show ?thesis
  proof (cases y)
    case (Inl e)
    then show ?thesis using b assms(2) y by (auto simp: ReadFRU_def)
  next
    case (Inr b')
    obtain z s2 where z: "fru_read_loop send i (fru_size (b' ! 0) (b' ! 1)) [] 0 s1 = (z, s2)" by fastforce
    have "good s2 \<and> (\<forall>e. z = Inl e \<longrightarrow> \<not> is_panic e)" using fru_read_loop_safe [OF _ z] b by blast
    then show ?thesis using b assms(2) [unfolded ReadFRU_def y Inr prod.case sum.case z]
      by (cases z) (auto simp: parseFRU_def Let_def split: if_splits)
  qed
qed

lemma GetDeviceID_safe:
  "good s \<Longrightarrow> GetDeviceID send s = (x, s') \<Longrightarrow> good s' \<and> (\<forall>e. x = Inl e \<longrightarrow> \<not> is_panic e)"
  by (auto simp: GetDeviceID_def Let_def split: prod.splits sum.splits if_splits dest: send_body_safe)

end

section \<open>The real sender\<close>

text \<open>What the environment must not do: no failing random source, no panics out of the network stack.\<close>

definition env_ok :: "ipmi_env \<Rightarrow> bool" where
  "env_ok env \<longleftrightarrow> (\<forall>n. \<exists>b. e_rand env n = Inr b)
     \<and> (\<forall>n p e. e_peer env n p = WriteErr e \<or> e_peer env n p = ReadErr e \<longrightarrow> \<not> is_panic e)"

definition keyed :: "IpmiSession \<Rightarrow> bool" where
  "keyed s \<longleftrightarrow> (case ss_k2 s of None \<Rightarrow> False | Some k \<Rightarrow> 16 \<le> length k)"

definition client_ok :: "ipmi_env \<Rightarrow> IpmiClient \<Rightarrow> bool" where
  "client_ok env c \<longleftrightarrow> env_ok env \<and> (case c_sess c of None \<Rightarrow> True | Some s \<Rightarrow> keyed s)"

lemma aesDecryptPayload_no_panic:
  "length iv = 16 \<Longrightarrow> aesDecryptPayload k iv ct = Inl e \<Longrightarrow> \<not> is_panic e"
  by (auto simp: aesDecryptPayload_def Let_def split: if_splits)

lemma parse_no_panic:
  assumes "case k2 of None \<Rightarrow> True | Some k \<Rightarrow> 16 \<le> length k" and "parseRMCPPlus pkt k1 k2 = Inl e"
  shows "\<not> is_panic e"
proof -
  have t: "check_trailer pkt n k1 = Some e' \<Longrightarrow> \<not> is_panic e'" for n e'
    by (auto simp: check_trailer_def Let_def split: option.splits if_splits)
  have o: "rmcp_open enc body k2 = Inl e' \<Longrightarrow> \<not> is_panic e'" for enc body e'
    using assms(1) aesDecryptPayload_no_panic [of "take 16 body" _ "drop 16 body" e']
    by (auto simp: rmcp_open_def key16_def split: option.splits if_splits)
  show ?thesis
    using assms(2) t o
    by (auto simp: parseRMCPPlus_def Let_def split: if_splits option.splits sum.splits)
qed

lemma retry_no_panic:
  assumes "env_ok env" "case k2 of None \<Rightarrow> True | Some k \<Rightarrow> 16 \<le> length k"
  shows "retry_loop env pkt k1 k2 n le s = (Inl e, s') \<Longrightarrow> \<not> is_panic e"
proof (induction n arbitrary: le s)
  case (Suc n)
  obtain x s1 where a: "attempt_once env pkt k1 k2 s = (x, s1)" by fastforce
  have "\<not> is_panic e'" if "x = Inl e'" for e'
    using a assms that parse_no_panic [OF assms(2)]
    by (auto simp: attempt_once_def env_ok_def Let_def split: attempt.splits sum.splits)
  then show ?case using Suc a by (auto split: sum.splits)
qed auto

lemma rawCall_no_panic:
  assumes "env_ok env" "keyed s" "rawCall env netFn cmd data s = (Inl e, s')"
  shows "\<not> is_panic e"
proof -
  obtain k where k: "ss_k2 s = Some k" "16 \<le> length k" using assms(2) by (auto simp: keyed_def split: option.splits)
  let ?s1 = "s\<lparr>ss_rqSeq := (ss_rqSeq s + 1) AND 0x3F, ss_outSeq := ss_outSeq s + 1\<rparr>"
  let ?req = "buildLANMessage netFn ((ss_rqSeq s + 1) AND 0x3F) cmd data"
  obtain b where "e_rand env (ss_rands s) = Inr b" using assms(1) unfolding env_ok_def by blast
  then obtain v where v: "newIV env ?s1 = (Inr v, ?s1\<lparr>ss_rands := Suc (ss_rands s)\<rparr>)" "length v = 16"
    by (simp add: newIV_def rand_Read_def)
  obtain body where "rmcp_body ?req (Some k) (Some v) = Inr body"
    using rmcp_body_ok [of "Some k" "Some v" ?req] k(2) v(2) by auto
  then obtain pkt where pkt: "buildRMCPPlus 0 (ss_sessionID s) (ss_outSeq s) ?req (ss_k1 s) (Some k) (Some v) = Inr pkt"
    using build_packet by (simp add: Let_def)
  obtain y s2 where y: "retry_loop env pkt (ss_k1 s) (Some k) 3 ''<nil>'' (?s1\<lparr>ss_rands := Suc (ss_rands s)\<rparr>) = (y, s2)"
    by fastforce
  show ?thesis
  proof (cases y)
    case (Inl e')
    then show ?thesis using assms(3) retry_no_panic [OF assms(1), of "Some k"] k y
      by (auto simp: rawCall_def v(1) roundtrip_def pkt)
  next
    case (Inr resp)
    then show ?thesis using assms(3) k y
      by (auto simp: rawCall_def v(1) roundtrip_def pkt parseLANResponse_def split: if_splits)
  qed
qed

lemma rawCall_keyed: "rawCall env netFn cmd data s = (x, s') \<Longrightarrow> keyed s' = keyed s"
  using rawCall_effect [of env netFn cmd data s x s'] by (auto simp: keyed_def)

lemma Client_Send_layout:
  "Client_Send env netFn cmd data c =
     (case c_sess c of
        None \<Rightarrow> (Inl (Errorf ''ipmi: session closed''), c)
      | Some s \<Rightarrow>
          (case rawCall env netFn cmd data s of
             (Inl e, s) \<Rightarrow> (Inl e, \<lparr>c_sess = Some s\<rparr>)
           | (Inr (cc, out), s) \<Rightarrow> (Inr (cc # out), \<lparr>c_sess = Some s\<rparr>)))"
proof -
  have "copy_from 1 out ((mk_buf (1 + length out))[0 := cc]) = cc # out" for cc out
    unfolding Let_def by (simp add: layout_simps)
  then show ?thesis by (simp add: Client_Send_def Let_def split: option.split sum.split prod.split)
qed

interpretation cs: ipmi_sender "Client_Send env" "client_ok env" for env
proof unfold_locales
  fix netFn cmd d c r c'
  assume "Client_Send env netFn cmd d c = (Inr r, c')"
  then show "r \<noteq> []"
    by (auto simp: Client_Send_layout split: option.splits sum.splits prod.splits)
next
  fix c netFn cmd d e c'
  assume "client_ok env c" "Client_Send env netFn cmd d c = (Inl e, c')"
  then show "\<not> is_panic e"
    by (auto simp: Client_Send_def client_ok_def Let_def dest: rawCall_no_panic split: option.splits sum.splits prod.splits)
next
  fix c netFn cmd d x c'
  assume "client_ok env c" "Client_Send env netFn cmd d c = (x, c')"
  then show "client_ok env c'"
    by (auto simp: Client_Send_def client_ok_def Let_def dest: rawCall_keyed split: option.splits sum.splits prod.splits)
qed

section \<open>Lemmas: the commands' wire format\<close>

lemma set_user_password_layout:
  "length pass \<le> 16 \<Longrightarrow> set_user_password_data uid pass = [uid AND 0x3F, 0x02] @ pass @ replicate (16 - length pass) 0"
  unfolding set_user_password_data_def Let_def by (simp add: layout_simps)

lemma set_user_name_layout:
  "set_user_name_data uid name = [uid AND 0x3F] @ take 16 name @ replicate (16 - length name) 0"
  unfolding set_user_name_data_def Let_def by (cases "length name \<le> 16") (simp_all add: layout_simps copy_to_def)

lemma subseq_set: "subseq xs ys \<Longrightarrow> set xs \<subseteq> set ys"
  by (induction rule: list_emb.induct) auto

lemma sorted_wrt_subseq: "subseq xs ys \<Longrightarrow> sorted_wrt P ys \<Longrightarrow> sorted_wrt P xs"
  by (induction rule: list_emb.induct) (auto dest: subseq_set)

lemma list_user_id: "list_user send first uid s = (Inr (Some u), s') \<Longrightarrow> u_ID u = uid"
  by (auto simp: list_user_def split: prod.splits sum.splits if_splits)

lemma list_users_loop_ids:
  "list_users_loop send first ids s = (Inr us, s') \<Longrightarrow> subseq (map u_ID us) (map of_nat ids)"
proof (induction ids arbitrary: s us)
  case (Cons i ids)
  obtain y s1 where y: "list_user send first (of_nat i) s = (y, s1)" by fastforce
  obtain z s2 where z: "list_users_loop send first ids s1 = (z, s2)" by fastforce
  obtain u where u: "y = Inr u" using Cons.prems y by (cases y) auto
  obtain us' where us': "z = Inr us'" "s2 = s'" "us = (case u of None \<Rightarrow> us' | Some u \<Rightarrow> u # us')"
    using Cons.prems by (cases z) (auto simp: y u z)
  have "subseq (map u_ID us') (map of_nat ids)" using Cons.IH z us' by blast
  then show ?case using us'(3) list_user_id [of send first "of_nat i" s _ s1] y u
    by (cases u) auto
qed auto

text \<open>A type/length-encoded field of eight-bit text, as the FRU specification stores it.\<close>

definition fru_field :: "bytes \<Rightarrow> bytes" where
  "fru_field s = (0xC0 OR of_nat (length s)) # s"

lemma fru_field_tl:
  assumes "length s < 64" and "length s \<noteq> 1"
  shows "(0xC0 OR of_nat (length s) :: byte) \<noteq> 0xC1" "unat ((0xC0 OR of_nat (length s) :: byte) AND 0x3F) = length s"
proof -
  have all: "\<forall>n \<in> set [0..<64]. (n \<noteq> 1 \<longrightarrow> (0xC0 OR of_nat n :: byte) \<noteq> 0xC1) \<and> unat ((0xC0 OR of_nat n :: byte) AND 0x3F) = n"
    by code_simp
  have "length s \<in> set [0..<64]" using assms(1) by simp
  from bspec [OF all this] show "(0xC0 OR of_nat (length s) :: byte) \<noteq> 0xC1"
    "unat ((0xC0 OR of_nat (length s) :: byte) AND 0x3F) = length s" using assms(2) by simp_all
qed

lemma fruString_field:
  assumes "length s < 64" and "length s \<noteq> 1"
  shows "fruString (pre @ fru_field s @ rest) (length pre) = (s, length pre + length (fru_field s))"
  using fru_field_tl [OF assms] by (simp add: fruString_def fru_field_def Let_def slice_def)

lemma fru_strings_fields:
  "list_all (\<lambda>s. length s < 64 \<and> length s \<noteq> 1) ss \<Longrightarrow> length ss = n \<Longrightarrow>
     fru_strings n (pre @ concat (map fru_field ss) @ rest) (length pre) = ss"
proof (induction ss arbitrary: n pre)
  case (Cons s ss)
  have "fruString (pre @ fru_field s @ concat (map fru_field ss) @ rest) (length pre) = (s, length (pre @ fru_field s))"
    using fruString_field [of s pre "concat (map fru_field ss) @ rest"] Cons.prems(1) by simp
  moreover have "fru_strings (length ss) ((pre @ fru_field s) @ concat (map fru_field ss) @ rest) (length (pre @ fru_field s)) = ss"
    using Cons by (intro Cons.IH) auto
  ultimately show ?case using Cons.prems(2) by auto
qed auto

lemma fru_read_loop_serves:
  assumes dev: "\<And>off n s. off + n \<le> length img \<Longrightarrow> n < 256 \<Longrightarrow>
      send 0x0A 0x11 [i, of_nat off, of_nat (off div 256), of_nat n] s = (Inr ([0, of_nat n] @ slice off (off + n) img), s)"
  shows "off \<le> length img \<Longrightarrow> fru_read_loop send i (length img) (take off img) off s = (Inr img, s)"
proof (induction "length img - off" arbitrary: off rule: less_induct)
  case less
  show ?case
  proof (cases "off < length img")
    case False
    then show ?thesis using less.prems by (simp add: fru_read_loop.simps)
  next
    case True
    define n where "n = (if off + 16 > length img then length img - off else 16)"
    have n: "0 < n" "n < 256" "off + n \<le> length img" using True by (auto simp: n_def)
    define r where "r = [0, of_nat n] @ slice off (off + n) img"
    have r: "r \<noteq> []" "r ! 0 = 0" "unat (r ! 1) = n" "length r = 2 + n" "slice 2 (2 + n) r = slice off (off + n) img"
      using n by (simp_all add: r_def slice_def)
    have "send 0x0A 0x11 [i, of_nat off, of_nat (off div 256), of_nat n] s = (Inr r, s)"
      unfolding r_def using dev n by blast
    note sent = this
    have "take off img @ slice off (off + n) img = take (off + n) img"
      by (simp add: slice_def take_add)
    moreover have "fru_read_loop send i (length img) (take off img) off s
        = fru_read_loop send i (length img) (take off img @ slice off (off + n) img) (off + n) s"
      using True n r
      by (subst fru_read_loop.simps, unfold Let_def n_def [symmetric] sent prod.case sum.case) simp
    ultimately show ?thesis using less.hyps [of "off + n"] n True by simp
  qed
qed

section \<open>Properties\<close>

text \<open>Malformed answers cannot crash the management commands.  On a client with an established session and a sound
  environment, whatever bytes the BMC sends, listing users, reading the LAN configuration, the device id
  or a FRU never panics; reading the LAN configuration even always yields a configuration.\<close>

theorem client_commands_never_panic:
  assumes "client_ok env c"
  shows "\<not> (\<exists>m c'. ListUsers (Client_Send env) c = (Inl (Panic m), c'))
     \<and> \<not> (\<exists>m c'. GetDeviceID (Client_Send env) c = (Inl (Panic m), c'))
     \<and> \<not> (\<exists>m c'. ReadFRU (Client_Send env) fruID c = (Inl (Panic m), c'))
     \<and> (\<exists>cfg c'. GetLANConfig (Client_Send env) c = (Inr cfg, c'))"
  using cs.ListUsers_safe [OF assms] cs.GetDeviceID_safe [OF assms] cs.ReadFRU_safe [OF assms, of fruID]
    cs.GetLANConfig_total [OF assms]
  by (metis is_panic.simps(1))

theorem client_commands_never_panic_witness:
  "client_ok demo_ipmi_env \<lparr>c_sess = Some demo_session2\<rparr>
     \<and> (\<exists>cfg c'. GetLANConfig (Client_Send demo_ipmi_env) \<lparr>c_sess = Some demo_session2\<rparr> = (Inr cfg, c'))"
proof -
  have ok: "client_ok demo_ipmi_env \<lparr>c_sess = Some demo_session2\<rparr>"
    by (simp add: client_ok_def env_ok_def keyed_def demo_ipmi_env_def demo_session2_def)
  then show ?thesis using client_commands_never_panic [OF ok] by blast
qed

text \<open>Each power command puts exactly its own chassis action on the wire: over an established session it writes at
  most three copies of one sealed Chassis Control request with that action byte, and reports success exactly
  when the call came back with completion code zero.\<close>

theorem power_command_action:
  assumes "(cmd, action) \<in> set [(PowerOff, 0x00), (PowerOn, 0x01), (PowerCycle, 0x02), (PowerReset, 0x03), (PowerSoftShutdown, 0x05)]"
    and "c_sess c = Some s" and "cmd env c = (r, c')"
  shows "\<exists>s' l. c_sess c' = Some s' \<and> ss_sent s' = ss_sent s @ l \<and> call_copies s (netFnChassisReq, 0x02, [action]) l
     \<and> (r = None \<longleftrightarrow> (\<exists>out. fst (rawCall env netFnChassisReq 0x02 [action] s) = Inr (0, out)))"
proof -
  have "cmd env c = with_sess (chassisControl env action) Some c"
    using assms(1) by (auto simp: PowerOn_def PowerOff_def PowerCycle_def PowerReset_def PowerSoftShutdown_def
        ChassisDown_def ChassisUp_def ChassisCycle_def ChassisReset_def ChassisSoft_def)
  moreover obtain x s' where x: "rawCall env netFnChassisReq 0x02 [action] s = (x, s')" by fastforce
  moreover from rawCall_effect [OF x] obtain l where
    "ss_sent s' = ss_sent s @ l" "call_copies s (netFnChassisReq, 0x02, [action]) l" by auto
  ultimately show ?thesis
    using assms(2,3) by (cases x) (auto simp: with_sess_def chassisControl_def split: if_splits)
qed

theorem power_command_action_witness:
  "\<exists>r c' s' l. PowerReset demo_ipmi_env \<lparr>c_sess = Some demo_session2\<rparr> = (r, c') \<and> c_sess c' = Some s'
     \<and> ss_sent s' = l \<and> call_copies demo_session2 (netFnChassisReq, 0x02, [0x03]) l"
proof -
  obtain r c' where r: "PowerReset demo_ipmi_env \<lparr>c_sess = Some demo_session2\<rparr> = (r, c')" by fastforce
  from power_command_action [of PowerReset "0x03", OF _ _ this, of demo_session2] r show ?thesis
    by (auto simp: demo_session2_def new_session_def)
qed

text \<open>User listing reports each slot at most once and in ascending order, only slots 1 to 63, whatever the
  BMC answers.\<close>

theorem list_users_slots:
  assumes "ListUsers send s = (Inr us, s')"
  shows "sorted_wrt (<) (map (\<lambda>u. unat (u_ID u)) us) \<and> set (map (\<lambda>u. unat (u_ID u)) us) \<subseteq> {1..63}"
proof -
  obtain first s1 where "getUserAccess send 1 s = (Inr first, s1)"
    and loop: "list_users_loop send first [1..<Suc (max_user_ids (ua_maxIDs first))] s1 = (Inr us, s')"
    using assms by (auto simp: ListUsers_def split: prod.splits sum.splits)
  have m: "max_user_ids b \<le> 63" for b :: byte
    by (auto simp: max_user_ids_def not_less word_le_nat_alt)
  let ?ids = "[1..<Suc (max_user_ids (ua_maxIDs first))]"
  have ids: "map unat (map of_nat ?ids :: byte list) = ?ids"
    unfolding map_map by (rule map_idI) (use m [of "ua_maxIDs first"] in \<open>auto simp del: upt_Suc\<close>)
  have "subseq (map unat (map u_ID us)) (map unat (map of_nat ?ids :: byte list))"
    using subseq_map [OF list_users_loop_ids [OF loop]] .
  then have sub: "subseq (map (\<lambda>u. unat (u_ID u)) us) ?ids" unfolding ids by (simp add: comp_def)
  have "sorted_wrt (<) (map (\<lambda>u. unat (u_ID u)) us)"
    by (rule sorted_wrt_subseq [OF sub]) (rule sorted_wrt_upt)
  moreover have "set (map (\<lambda>u. unat (u_ID u)) us) \<subseteq> {1..63}"
    using subseq_set [OF sub] m [of "ua_maxIDs first"] by auto
  ultimately show ?thesis by blast
qed

definition demo_user_send :: "nat sender" where
  "demo_user_send netFn cmd d s = (if cmd = 0x44 then Inr [0, 2, 0x40, 0, 0x14] else Inr [0, 65, 66], s)"

theorem list_users_slots_witness:
  "\<exists>us. ListUsers demo_user_send 0 = (Inr us, 0) \<and> map (\<lambda>u. unat (u_ID u)) us = [1, 2]
     \<and> sorted_wrt (<) (map (\<lambda>u. unat (u_ID u)) us)"
proof -
  define us where "us = [\<lparr>u_ID = 1, u_Name = [65, 66], u_Enabled = True, u_Privilege = 4, u_PrivName = ''Administrator'',
    u_MsgEnable = True, u_LinkAuth = False\<rparr>, \<lparr>u_ID = 2, u_Name = [65, 66], u_Enabled = True, u_Privilege = 4,
    u_PrivName = ''Administrator'', u_MsgEnable = True, u_LinkAuth = False\<rparr>]"
  have "ListUsers demo_user_send 0 = (Inr us, 0)" unfolding us_def by code_simp
  moreover from list_users_slots [OF this] have "sorted_wrt (<) (map (\<lambda>u. unat (u_ID u)) us)" ..
  ultimately show ?thesis by (auto simp: us_def)
qed

text \<open>Reading a FRU recovers the device's image and its fields.  Against a device that serves an image of at
  most 8192 bytes, the chunked read assembles it exactly, and a board area whose four text fields are encoded as
  the FRU format prescribes parses back to those fields, for fields of 0 or 2 to 63 bytes.\<close>

theorem read_fru_roundtrip:
  assumes img: "img = [1, 0, 0, 1, 0, 0, 0, hck, 1, alen, lang, d1, d2, d3] @ concat (map fru_field [mfg, prd, ser, part]) @ rest"
    and "length img \<le> 8192" and "list_all (\<lambda>f. length f < 64 \<and> length f \<noteq> 1) [mfg, prd, ser, part]"
    and "send 0x0A 0x10 [i] s = (Inr [0, of_nat (length img), of_nat (length img div 256), 0], s)"
    and dev: "\<And>off n s. off + n \<le> length img \<Longrightarrow> n < 256 \<Longrightarrow>
      send 0x0A 0x11 [i, of_nat off, of_nat (off div 256), of_nat n] s = (Inr ([0, of_nat n] @ slice off (off + n) img), s)"
  shows "ReadFRU send i s = (Inr (empty_fru\<lparr>fru_BoardMfg := mfg, fru_BoardProduct := prd, fru_BoardSerial := ser, fru_BoardPart := part\<rparr>), s)"
proof -
  let ?pre = "[1, 0, 0, 1, 0, 0, 0, hck, 1, alen, lang, d1, d2, d3]"
  have length_4: "length [mfg, prd, ser, part] = 4" by simp
  have len: "14 < length img" by (simp add: img fru_field_def)
  have "unat (of_nat (length img) :: byte) + 256 * unat (of_nat (length img div 256) :: byte) = length img"
    using assms(2) by (simp add: unat_of_nat)
  then have "fru_size (of_nat (length img)) (of_nat (length img div 256)) = length img"
    using len assms(2) by (auto simp: fru_size_def)
  moreover have "fru_read_loop send i (length img) [] 0 s = (Inr img, s)"
    using fru_read_loop_serves [where send = send and i = i and img = img and off = 0 and s = s] dev by simp
  moreover have "parseFRU img = Inr (empty_fru\<lparr>fru_BoardMfg := mfg, fru_BoardProduct := prd, fru_BoardSerial := ser, fru_BoardPart := part\<rparr>)"
  proof -
    have "img ! 0 = 1" "img ! 3 = 1" "img ! 4 = 0" by (simp_all add: img)
    moreover have "fru_strings 4 img 14 = [mfg, prd, ser, part]"
    proof -
      have "length ?pre = 14" by simp
      then show ?thesis using fru_strings_fields [OF assms(3), of 4 ?pre rest] unfolding img by (metis length_4)
    qed
    ultimately show ?thesis using len by (simp add: parseFRU_def Let_def)
  qed
  ultimately show ?thesis using assms(4) by (simp add: ReadFRU_def send_body_def)
qed

definition demo_fru :: bytes where
  "demo_fru = [1, 0, 0, 1, 0, 0, 0, 0, 1, 0, 0, 0, 0, 0] @ concat (map fru_field [[65, 66], [], [67, 68, 69], [70, 71]]) @ [0xC1]"

definition demo_fru_send :: "nat sender" where
  "demo_fru_send netFn cmd d s =
     (if cmd = 0x10 then (Inr [0, of_nat (length demo_fru), of_nat (length demo_fru div 256), 0], s)
      else let off = unat (d ! 1) + 256 * unat (d ! 2); n = unat (d ! 3)
           in (Inr ([0, of_nat n] @ slice off (off + n) demo_fru), s))"

theorem read_fru_roundtrip_witness:
  "ReadFRU demo_fru_send 0 7 = (Inr (empty_fru\<lparr>fru_BoardMfg := [65, 66], fru_BoardProduct := [], fru_BoardSerial := [67, 68, 69],
     fru_BoardPart := [70, 71]\<rparr>), 7)"
proof (rule read_fru_roundtrip)
  show "demo_fru = [1, 0, 0, 1, 0, 0, 0, 0, 1, 0, 0, 0, 0, 0] @ concat (map fru_field [[65, 66], [], [67, 68, 69], [70, 71]]) @ [0xC1]"
    by (simp add: demo_fru_def)
  have l: "length demo_fru = 26" by code_simp
  show "length demo_fru \<le> 8192" by (simp add: l)
  show "demo_fru_send 0x0A 0x11 [0, of_nat off, of_nat (off div 256), of_nat n] s = (Inr ([0, of_nat n] @ slice off (off + n) demo_fru), s)"
    if "off + n \<le> length demo_fru" "n < 256" for off n s
    using that l by (simp add: demo_fru_send_def Let_def)
qed (simp_all add: demo_fru_send_def)

text \<open>Setting a password sends nothing when it exceeds sixteen bytes, and otherwise exactly one request whose data is
  the slot number, the set-password operation and the password padded with zeros to sixteen bytes.\<close>

theorem set_password_request:
  "SetUserPassword send uid pass s =
     (if length pass > 16 then (Some (Errorf ''ipmi: password too long (max 16 for 16-byte mode)''), s)
      else sendCheck send ''Set User Password'' 0x06 0x47 ([uid AND 0x3F, 0x02] @ pass @ replicate (16 - length pass) 0) s)"
  by (simp add: SetUserPassword_def set_user_password_layout)

end
