(* ===== verification/Apcp_Session.thy ===== *)
theory Apcp_Session
  imports Apcp_Frame
begin

text \<open>
  The client half of the APCP handshake (\<open>internal/apcp/session.go\<close>): \<open>Session.Open\<close> with its
  deferred close, \<open>buildLogin\<close>, the heartbeat goroutine and \<open>PeekFrameHeader\<close>.  A connection is the
  bytes the peer will still send together with the outcomes of the coming writes; the dialler, the TLS
  upgrade hook and the random source are the environment.  \<open>Open\<close> returns its error, the session with
  the fields it has set, and the trace of writes and closes it performed, so that ordering and
  confidentiality are statements about that trace.
\<close>

section \<open>State and environment\<close>

record conn =
  c_in :: bytes
  c_wr :: "gerror option list"

datatype chan = Raw | Tls

datatype event = Write chan bytes | CloseRaw

abbreviation (input) SessionTypeVM :: byte where "SessionTypeVM \<equiv> 2"
abbreviation (input) SessionTypeKVM :: byte where "SessionTypeKVM \<equiv> 3"
abbreviation (input) SessionTypeKVMVMSubchannel :: byte where "SessionTypeKVMVMSubchannel \<equiv> 4"

record Session =
  s_Type :: byte
  s_SkipLogin :: bool
  s_Username :: bytes
  s_Password :: bytes
  s_Preempt :: bool
  s_Conn :: "(chan \<times> conn) option"
  s_Setup :: SessionSetup
  s_LoginStatus :: LoginStatus
  s_KVMLoginResponse :: KVMLoginResponse
  s_ClientRandom :: bytes
  s_KVMSessionID :: u32

text \<open>
  \<open>e_Dial\<close> and \<open>e_UpgradeTLS\<close> are the two hooks of the struct; \<open>e_Rand32\<close> is what
  \<open>rand.Read(ClientRandom)\<close> yields and \<open>e_RandSess\<close> the number \<open>rand.Int\<close> draws below ten million.
\<close>

record environment =
  e_Dial :: "conn result"
  e_UpgradeTLS :: "(conn \<Rightarrow> conn result) option"
  e_Rand32 :: "bytes result"
  e_RandSess :: nat

section \<open>Connection primitives\<close>

text \<open>\<open>conn.Write\<close>: the next scripted outcome, success when the script is exhausted.\<close>

definition conn_write :: "conn \<Rightarrow> gerror option \<times> conn" where
  "conn_write c = (case c_wr c of [] \<Rightarrow> (None, c) | o1 # os \<Rightarrow> (o1, c\<lparr>c_wr := os\<rparr>))"

definition conn_read_full :: "nat \<Rightarrow> conn \<Rightarrow> bytes result \<times> conn" where
  "conn_read_full n c = (case ReadFull n (c_in c) of (r, rest) \<Rightarrow> (r, c\<lparr>c_in := rest\<rparr>))"

section \<open>Opening a session\<close>

definition is_kvm :: "byte \<Rightarrow> bool" where
  "is_kvm t \<longleftrightarrow> t = SessionTypeKVM \<or> t = SessionTypeKVMVMSubchannel"

definition session_request :: "Session \<Rightarrow> SessionRequest" where
  "session_request s =
     (let (f2, f3) = (if is_kvm (s_Type s) then (2, 34) else (0, 0))
      in \<lparr>sr_SessionType = s_Type s, sr_Field2 = f2, sr_Field3 = f3, sr_Capability = 5,
          sr_Nonce = s_ClientRandom s, sr_NonceLen = 32\<rparr>)"

definition buildLogin :: "environment \<Rightarrow> Session \<Rightarrow> bytes result \<times> Session" where
  "buildLogin env s =
     (if s_Type s = SessionTypeVM
      then (EncodeLogin \<lparr>lr_Username = s_Username s, lr_Password = s_Password s, lr_Preempt = s_Preempt s\<rparr>, s)
      else let sessID = of_nat (e_RandSess env); s = s\<lparr>s_KVMSessionID := sessID\<rparr>
           in (EncodeKVMLogin \<lparr>kl_Username = s_Username s, kl_Password = s_Password s,
                 kl_ProtoMajor = 1, kl_ProtoMinor = 0, kl_Session = sessID,
                 kl_Extended = (ss_VersionMajor (s_Setup s) \<ge> 2), kl_Option = 0\<rparr>, s))"

text \<open>From the login frame to the end of \<open>Open\<close>, on the (possibly upgraded) connection.\<close>

definition open_login ::
  "environment \<Rightarrow> chan \<Rightarrow> conn \<Rightarrow> Session \<Rightarrow> gerror option \<times> Session \<times> event list" where
  "open_login env ch c s =
     (case buildLogin env s of
        (Inl e, s) \<Rightarrow> (Some e, s, [])
      | (Inr login, s) \<Rightarrow>
          case conn_write c of
            (Some e, c) \<Rightarrow> (Some (Wrapf ''apcp.Session: send Login: '' e), s, [Write ch login])
          | (None, c) \<Rightarrow>
              if is_kvm (s_Type s) then
                (case ReadAVPTFrame (c_in c) of
                   (Inl e, _) \<Rightarrow> (Some (Wrapf ''apcp.Session: read KVM login response: '' e), s, [Write ch login])
                 | (Inr lr, rest) \<Rightarrow>
                     (None, s\<lparr>s_KVMLoginResponse := DecodeKVMLoginResponse lr,
                             s_Conn := Some (ch, c\<lparr>c_in := rest\<rparr>)\<rparr>, [Write ch login]))
              else
                (case conn_read_full 111 c of
                   (Inl e, _) \<Rightarrow> (Some (Wrapf ''apcp.Session: read LoginStatus: '' e), s, [Write ch login])
                 | (Inr statusBuf, c) \<Rightarrow>
                     (case DecodeLoginStatus statusBuf of
                        Inl e \<Rightarrow> (Some e, s, [Write ch login])
                      | Inr ls \<Rightarrow>
                          let s = s\<lparr>s_LoginStatus := ls\<rparr> in
                          if ls_Status ls \<noteq> 0
                          then (Some (Errorf (''apcp.Session: login failed: '' @ LoginStatusName (ls_Status ls))), s,
                                [Write ch login])
                          else (None, s\<lparr>s_Conn := Some (ch, c)\<rparr>, [Write ch login]))))"

text \<open>The optional TLS upgrade.\<close>

definition open_upgrade :: "environment \<Rightarrow> SessionSetup \<Rightarrow> conn \<Rightarrow> (chan \<times> conn) result" where
  "open_upgrade env stp raw =
     (if SupportsSSL stp
      then (case e_UpgradeTLS env of
              None \<Rightarrow> Inl (Errorf ''apcp.Session: server requires SSL but no UpgradeTLS hook set'')
            | Some hook \<Rightarrow>
                (case hook raw of
                   Inl e \<Rightarrow> Inl (Wrapf ''apcp.Session: tls: '' e)
                 | Inr c \<Rightarrow> Inr (Tls, c)))
      else Inr (Raw, raw))"

text \<open>From the session request on, with the random and the channel type settled.\<close>

definition open_exchange :: "environment \<Rightarrow> conn \<Rightarrow> Session \<Rightarrow> gerror option \<times> Session \<times> event list" where
  "open_exchange env raw s =
     (let req = EncodeSessionRequest (session_request s)
      in case conn_write raw of
           (Some e, _) \<Rightarrow> (Some (Wrapf ''apcp.Session: send SessionRequest: '' e), s, [Write Raw req])
         | (None, raw) \<Rightarrow>
             (case conn_read_full SessionRequestLen raw of
                (Inl e, _) \<Rightarrow> (Some (Wrapf ''apcp.Session: read SessionSetup: '' e), s, [Write Raw req])
              | (Inr setupBuf, raw) \<Rightarrow>
                  (case DecodeSessionSetup setupBuf of
                     Inl e \<Rightarrow> (Some e, s, [Write Raw req])
                   | Inr stp \<Rightarrow>
                       let s = s\<lparr>s_Setup := stp\<rparr>
                       in case open_upgrade env stp raw of
                            Inl e \<Rightarrow> (Some e, s, [Write Raw req])
                          | Inr (ch, c) \<Rightarrow>
                              if s_SkipLogin s then (None, s\<lparr>s_Conn := Some (ch, c)\<rparr>, [Write Raw req])
                              else (case open_login env ch c s of
                                      (r, s, evs) \<Rightarrow> (r, s, Write Raw req # evs)))))"

text \<open>The body of \<open>Open\<close> after a successful dial, without the deferred close.\<close>

definition open_body :: "environment \<Rightarrow> conn \<Rightarrow> Session \<Rightarrow> gerror option \<times> Session \<times> event list" where
  "open_body env raw s =
     (case e_Rand32 env of
        Inl e \<Rightarrow> (Some (Wrapf ''apcp.Session: rand: '' e), s, [])
      | Inr rnd \<Rightarrow>
          let s = s\<lparr>s_ClientRandom := rnd\<rparr>;
              s = (if s_Type s = 0 then s\<lparr>s_Type := SessionTypeKVM\<rparr> else s)
          in open_exchange env raw s)"

definition Open :: "environment \<Rightarrow> Session \<Rightarrow> gerror option \<times> Session \<times> event list" where
  "Open env s =
     (case e_Dial env of
        Inl e \<Rightarrow> (Some (Wrapf ''apcp.Session: dial: '' e), s, [])
      | Inr raw \<Rightarrow>
          (case open_body env raw s of
             (None, s, evs) \<Rightarrow> (None, s, evs)
           | (Some e, s, evs) \<Rightarrow> (Some e, s, evs @ [CloseRaw])))"

section \<open>Heartbeat and header peek\<close>

text \<open>
  The heartbeat goroutine as a machine over what its \<open>select\<close> sees: the stop channel or a tick, the
  latter with the outcome of the write.  The result is the frames written and, once the goroutine has
  ended, what it sent on \<open>done\<close>.
\<close>

datatype hb_event = Stop | Tick "gerror option"

definition heartbeat_frame :: "byte \<Rightarrow> bytes" where
  "heartbeat_frame t = (if t = SessionTypeVM then Encode Heartbeat else KVMHeartbeat)"

fun StartHeartbeat :: "byte \<Rightarrow> hb_event list \<Rightarrow> bytes list \<times> gerror option option" where
  "StartHeartbeat t [] = ([], None)"
| "StartHeartbeat t (Stop # es) = ([], Some None)"
| "StartHeartbeat t (Tick (Some e) # es) = ([heartbeat_frame t], Some (Some e))"
| "StartHeartbeat t (Tick None # es) =
     (let (ws, r) = StartHeartbeat t es in (heartbeat_frame t # ws, r))"

definition PeekFrameHeader :: "bytes \<Rightarrow> bytes \<times> u32 \<times> u16 \<times> bool" where
  "PeekFrameHeader hdr =
     (if length hdr < AVMPHeaderLen then (mk_buf 4, 0, 0, False)
      else (slice 0 4 hdr, be32 (slice 4 8 hdr), be16 (slice 8 10 hdr), True))"

section \<open>Lemmas\<close>

lemma open_login_trace:
  "open_login env ch c s = (r, s', evs) \<Longrightarrow> \<forall>ev \<in> set evs. \<exists>b. ev = Write ch b"
  by (auto simp: open_login_def Let_def split: prod.splits sum.splits option.splits if_splits)

lemma buildLogin_frame:
  "buildLogin env s = (r, s') \<Longrightarrow>
     s_Type s' = s_Type s \<and> s_Setup s' = s_Setup s \<and> s_Conn s' = s_Conn s \<and> s_ClientRandom s' = s_ClientRandom s"
  by (auto simp: buildLogin_def Let_def split: if_splits)

lemma open_login_Setup: "open_login env ch c s = (r, s', evs) \<Longrightarrow> s_Setup s' = s_Setup s"
  by (auto simp: open_login_def Let_def dest!: buildLogin_frame
      split: prod.splits sum.splits option.splits if_splits)

lemma open_login_ok:
  "open_login env ch c s = (None, s', evs) \<Longrightarrow>
     (\<exists>c'. s_Conn s' = Some (ch, c')) \<and> s_Type s' = s_Type s
     \<and> (is_kvm (s_Type s') \<or> ls_Status (s_LoginStatus s') = 0)"
  by (auto simp: open_login_def Let_def dest!: buildLogin_frame
      split: prod.splits sum.splits option.splits if_splits)

lemma open_login_fail:
  "open_login env ch c s = (Some e, s', evs) \<Longrightarrow> s_Conn s' = s_Conn s"
  by (auto simp: open_login_def Let_def dest!: buildLogin_frame
      split: prod.splits sum.splits option.splits if_splits)

lemma open_login_vm:
  "open_login env ch c s = (None, s', evs) \<Longrightarrow> s_Type s' = SessionTypeVM \<Longrightarrow>
     \<exists>login. evs = [Write ch login] \<and> EncodeLogin \<lparr>lr_Username = s_Username s', lr_Password = s_Password s',
       lr_Preempt = s_Preempt s'\<rparr> = Inr login"
  by (auto simp: open_login_def buildLogin_def is_kvm_def Let_def
      split: prod.splits sum.splits option.splits if_splits)

lemma open_login_keeps:
  "open_login env ch c s = (r, s', evs) \<Longrightarrow> s_Type s' = s_Type s \<and> s_ClientRandom s' = s_ClientRandom s"
  by (auto simp: open_login_def Let_def dest!: buildLogin_frame
      split: prod.splits sum.splits option.splits if_splits)

lemma session_request_cong:
  "s_Type s' = s_Type s \<Longrightarrow> s_ClientRandom s' = s_ClientRandom s \<Longrightarrow> session_request s' = session_request s"
  by (simp add: session_request_def)

lemma open_upgrade_chan: "open_upgrade env stp raw = Inr (ch, c) \<Longrightarrow> ch = Tls \<longleftrightarrow> SupportsSSL stp"
  by (auto simp: open_upgrade_def split: if_splits option.splits sum.splits)

text \<open>What a run looks like: nothing, or the request first and at most one login write.\<close>

lemma open_exchange_cases:
  assumes "open_exchange env raw s = (r, s', evs)"
  obtains (early) "evs = [Write Raw (EncodeSessionRequest (session_request s'))]" "r \<noteq> None"
      "s_Conn s' = s_Conn s"
  | (skip) ch c where "evs = [Write Raw (EncodeSessionRequest (session_request s'))]" "r = None"
      "s_SkipLogin s" "s_Conn s' = Some (ch, c)" "ch = Tls \<longleftrightarrow> SupportsSSL (s_Setup s')"
  | (login) ch c s1 evs' where "evs = Write Raw (EncodeSessionRequest (session_request s')) # evs'"
      "\<not> s_SkipLogin s" "open_login env ch c s1 = (r, s', evs')" "s_Conn s1 = s_Conn s"
      "ch = Tls \<longleftrightarrow> SupportsSSL (s_Setup s')"
proof -
  let ?req = "EncodeSessionRequest (session_request s)"
  have early': thesis if "evs = [Write Raw ?req]" "r \<noteq> None" "s' = s \<or> (\<exists>stp. s' = s\<lparr>s_Setup := stp\<rparr>)"
    using that by (intro early) (auto simp: session_request_def)
  show thesis
  proof (cases "conn_write raw")
    case w: (Pair wr raw1)
    show thesis
    proof (cases wr)
      case (Some e)
      with w assms show thesis by (intro early') (auto simp: open_exchange_def Let_def)
    next
      case None
      show thesis
      proof (cases "conn_read_full SessionRequestLen raw1")
        case rd: (Pair x raw2)
        show thesis
        proof (cases "\<exists>sb stp. x = Inr sb \<and> DecodeSessionSetup sb = Inr stp \<and> (\<exists>y. open_upgrade env stp raw2 = Inr y)")
          case False
          with w None rd assms show thesis
            by (intro early') (auto simp: open_exchange_def Let_def split: sum.splits)
        next
          case True
          then obtain sb stp ch c where x: "x = Inr sb" "DecodeSessionSetup sb = Inr stp"
            "open_upgrade env stp raw2 = Inr (ch, c)" by auto
          note eqs = w None rd x
          show thesis
          proof (cases "s_SkipLogin s")
            case True
            with eqs assms open_upgrade_chan [OF x(3)] show thesis
              by (intro skip [of ch c]) (auto simp: open_exchange_def Let_def session_request_def)
          next
            case False
            with eqs assms obtain evs' where l: "open_login env ch c (s\<lparr>s_Setup := stp\<rparr>) = (r, s', evs')"
              "evs = Write Raw ?req # evs'"
              by (auto simp: open_exchange_def Let_def split: prod.splits)
            then have "session_request s' = session_request s" "s_Setup s' = stp"
              by (auto dest: open_login_keeps open_login_Setup intro!: session_request_cong)
            with l False open_upgrade_chan [OF x(3)] show thesis 
              by (intro login [of evs' ch c "s\<lparr>s_Setup := stp\<rparr>"]) auto
          qed
        qed
      qed
    qed
  qed
qed

lemma Open_dialled:
  assumes "Open env s = (r, s', evs)" "e_Dial env = Inr raw"
  obtains (rand) e where "r = Some e" "evs = [CloseRaw]" "s' = s"
  | (exchange) s0 evs0 where "open_exchange env raw s0 = (r, s', evs0)" "s_Conn s0 = s_Conn s"
      "s_SkipLogin s0 = s_SkipLogin s" "evs = (if r = None then evs0 else evs0 @ [CloseRaw])"
proof (cases "e_Rand32 env")
  case (Inl e)
  with assms show thesis by (intro rand) (auto simp: Open_def open_body_def)
next
  case (Inr rnd)
  let ?s = "s\<lparr>s_ClientRandom := rnd\<rparr>"
  let ?s0 = "if s_Type ?s = 0 then ?s\<lparr>s_Type := 3\<rparr> else ?s"
  from Inr assms obtain evs0 where "open_exchange env raw ?s0 = (r, s', evs0)"
    "evs = (if r = None then evs0 else evs0 @ [CloseRaw])"
    by (auto simp: Open_def open_body_def Let_def split: prod.splits option.splits)
  then show thesis by (intro exchange [of ?s0]) auto
qed

section \<open>Properties\<close>

definition demo_setup :: "byte \<Rightarrow> bytes" where
  "demo_setup caps = MagicAPCP @ [0, 0, 0, 53, 0x81, 0, 0, 0, 1, 0, 0, 0, 0, caps, 0, 0, 0] @ replicate 32 0"

definition demo_session :: "byte \<Rightarrow> Session" where
  "demo_session t = \<lparr>s_Type = t, s_SkipLogin = False, s_Username = [97], s_Password = [115], s_Preempt = True,
     s_Conn = None, s_Setup = \<lparr>ss_Status = 0, ss_VersionMajor = 0, ss_VersionMinor = 0, ss_Capabilities = 0,
       ss_TCPPort = 0, ss_NonceLen = 0, ss_Nonce = []\<rparr>,
     s_LoginStatus = \<lparr>ls_Status = 0, ls_CanRejectPreemption = False, ls_Username = []\<rparr>,
     s_KVMLoginResponse = kr_zero, s_ClientRandom = replicate 32 0, s_KVMSessionID = 0\<rparr>"

definition demo_env :: "byte \<Rightarrow> bytes \<Rightarrow> environment" where
  "demo_env caps reply = \<lparr>e_Dial = Inr \<lparr>c_in = demo_setup caps @ reply, c_wr = []\<rparr>,
     e_UpgradeTLS = Some Inr, e_Rand32 = Inr (replicate 32 7), e_RandSess = 42\<rparr>"

definition demo_vm_reply :: bytes where
  "demo_vm_reply = MagicAVMP @ [0, 0, 0, 111, 0x81, 0] @ replicate 101 0"

text \<open>C4: Opening a session either succeeds with a connection stored, nothing closed, and (on the
  virtual-media channel) a zero login status, over TLS exactly when the peer offered SSL; or it fails
  without touching the stored connection, and if the dial had succeeded the last thing it did was to
  close the raw connection, once.\<close>

theorem open_outcome:
  assumes "Open env s = (r, s', evs)"
  shows "case r of
      None \<Rightarrow> CloseRaw \<notin> set evs
        \<and> (\<exists>ch c. s_Conn s' = Some (ch, c) \<and> (ch = Tls \<longleftrightarrow> SupportsSSL (s_Setup s')))
        \<and> (s_SkipLogin s \<or> is_kvm (s_Type s') \<or> ls_Status (s_LoginStatus s') = 0)
    | Some e \<Rightarrow> s_Conn s' = s_Conn s
        \<and> ((\<exists>d. e_Dial env = Inl d) \<and> evs = [] \<or> (\<exists>ws. evs = ws @ [CloseRaw] \<and> CloseRaw \<notin> set ws))"
proof (cases "e_Dial env")
  case (Inl d)
  with assms show ?thesis by (auto simp: Open_def)
next
  case (Inr raw)
  from assms Inr show ?thesis
  proof (cases rule: Open_dialled)
    case (exchange s0 evs0)
    from exchange(1) show ?thesis
    proof (cases rule: open_exchange_cases)
      case (login ch c s1 evs')
      then have "CloseRaw \<notin> set evs'" by (auto dest: open_login_trace)
      with login exchange show ?thesis
        by (cases r) (auto dest!: open_login_ok open_login_fail)
    qed (use exchange in auto)
  qed simp
qed

theorem open_outcome_witness:
  "\<exists>r s' evs. Open (demo_env 4 KVMHeartbeat) (demo_session 3) = (r, s', evs) \<and> r = None \<and> CloseRaw \<notin> set evs"
proof -
  obtain r s' evs where o: "Open (demo_env 4 KVMHeartbeat) (demo_session 3) = (r, s', evs)"
    by (cases "Open (demo_env 4 KVMHeartbeat) (demo_session 3)") auto
  moreover have "fst (Open (demo_env 4 KVMHeartbeat) (demo_session 3)) = None" by code_simp
  ultimately show ?thesis using open_outcome [OF o] by auto
qed

text \<open>When the session setup offers SSL, the only bytes \<open>Open\<close> ever writes to the unencrypted
  connection are those of the session request, so the login frame and its password travel under
  TLS.\<close>

theorem open_confidential:
  assumes "Open env s = (r, s', evs)" and "SupportsSSL (s_Setup s')" and "Write Raw b \<in> set evs"
  shows "b = EncodeSessionRequest (session_request s')"
proof (cases "e_Dial env")
  case (Inl d)
  with assms show ?thesis by (auto simp: Open_def)
next
  case (Inr raw)
  from assms(1) Inr show ?thesis
  proof (cases rule: Open_dialled)
    case (exchange s0 evs0)
    from exchange(1) show ?thesis
    proof (cases rule: open_exchange_cases)
      case (login ch c s1 evs')
      with exchange assms show ?thesis by (auto dest: open_login_trace split: if_splits)
    qed (use exchange assms in \<open>auto split: if_splits\<close>)
  qed (use assms in auto)
qed

theorem open_confidential_witness:
  "\<exists>r s' evs b. Open (demo_env 4 KVMHeartbeat) (demo_session 3) = (r, s', evs) \<and> SupportsSSL (s_Setup s')
     \<and> Write Raw b \<in> set evs \<and> b = EncodeSessionRequest (session_request s')"
proof -
  obtain r s' evs where o: "Open (demo_env 4 KVMHeartbeat) (demo_session 3) = (r, s', evs)"
    by (cases "Open (demo_env 4 KVMHeartbeat) (demo_session 3)") auto
  have ssl: "SupportsSSL (s_Setup (fst (snd (Open (demo_env 4 KVMHeartbeat) (demo_session 3)))))" by code_simp
  have "\<exists>b l. snd (snd (Open (demo_env 4 KVMHeartbeat) (demo_session 3))) = Write Raw b # l"
    by (intro exI) code_simp
  then obtain b l where "evs = Write Raw b # l" using o by auto
  then have "Write Raw b \<in> set evs" by simp
  with o ssl open_confidential [OF o _ this] show ?thesis by auto
qed

text \<open>On the KVM channel the login reply is not judged: whatever frame the server answers with,
  a rejection included, \<open>Open\<close> stores its decoding and reports success (the virtual-media channel
  turns a non-zero status into an error).\<close>

theorem open_kvm_accepts_any_status:
  assumes "is_kvm (s_Type s)" and "buildLogin env s = (Inr login, s1)" and "conn_write c = (None, c')"
    and "ReadAVPTFrame (c_in c') = (Inr reply, rest)"
  shows "fst (open_login env ch c s) = None
    \<and> s_KVMLoginResponse (fst (snd (open_login env ch c s))) = DecodeKVMLoginResponse reply"
  using assms by (auto simp: open_login_def dest: buildLogin_frame)

theorem open_kvm_accepts_any_status_witness:
  "kr_Status (DecodeKVMLoginResponse \<lparr>a_ID = 33536, a_Payload = 2 # replicate 9 0\<rparr>) = 2
   \<and> LoginStatusName 2 = ''INVALID_PASSWORD''
   \<and> fst (open_login (demo_env 4 []) Tls
       \<lparr>c_in = AVPTEncode \<lparr>a_ID = 33536, a_Payload = 2 # replicate 9 0\<rparr>, c_wr = []\<rparr> (demo_session 3)) = None"
proof -
  let ?f = "\<lparr>a_ID = 33536, a_Payload = 2 # replicate 9 0\<rparr>"
  let ?c = "\<lparr>c_in = AVPTEncode ?f, c_wr = []\<rparr>"
  have k: "is_kvm (s_Type (demo_session 3))" by code_simp
  obtain login s1 where b: "buildLogin (demo_env 4 []) (demo_session 3) = (Inr login, s1)"
    using EncodeKVMLogin_layout
    by (fastforce simp: buildLogin_def demo_session_def Let_def)
  have r: "ReadAVPTFrame (c_in ?c) = (Inr ?f, [])"
    using ReadAVPTFrame_Encode [of ?f "[]"] by simp
  have "kr_Status (DecodeKVMLoginResponse ?f) = 2" "LoginStatusName 2 = ''INVALID_PASSWORD''" by code_simp+
  with open_kvm_accepts_any_status [OF k b _ r, of ?c Tls] show ?thesis by (simp add: conn_write_def)
qed

text \<open>When the peer's setup does not offer SSL, the virtual-media login goes out unencrypted: the
  frame \<open>Open\<close> writes to the raw connection right after the session request is the login frame with
  the password at bytes 109 to 140.\<close>

theorem open_plain_login:
  assumes "Open env s = (None, s', evs)" and "\<not> SupportsSSL (s_Setup s')" and "\<not> s_SkipLogin s"
    and "s_Type s' = SessionTypeVM"
  shows "\<exists>req login. evs = [Write Raw req, Write Raw login]
     \<and> take (length (s_Password s')) (slice 109 141 login) = s_Password s'"
proof -
  have ex: "\<exists>login. evs' = [Write ch login] \<and> take (length (s_Password s')) (slice 109 141 login) = s_Password s'"
    if "open_login env' ch c s1 = (None, s', evs')" "s_Type s' = SessionTypeVM" for env' ch c s1 evs'
    using open_login_vm [OF that] EncodeLogin_fields by fastforce
  from assms(1) obtain raw where "e_Dial env = Inr raw" by (auto simp: Open_def split: sum.splits)
  with assms(1) show ?thesis
  proof (cases rule: Open_dialled)
    case (exchange s0 evs0)
    from exchange(1) show ?thesis
    proof (cases rule: open_exchange_cases)
      case (login ch c s1 evs')
      then have "ch = Raw" using assms(2) by (cases ch) auto
      with login exchange assms ex [of env ch c s1 evs'] show ?thesis by auto
    qed (use exchange assms in auto)
  qed (use assms in auto)
qed

theorem open_plain_login_witness:
  "\<exists>s' evs req login. Open (demo_env 1 demo_vm_reply) (demo_session 2) = (None, s', evs)
      \<and> evs = [Write Raw req, Write Raw login] \<and> take 1 (slice 109 141 login) = [115]"
proof -
  let ?o = "Open (demo_env 1 demo_vm_reply) (demo_session 2)"
  have "fst ?o = None" by code_simp
  then obtain s' evs where o: "?o = (None, s', evs)" by (cases ?o) auto
  have "s_Password (fst (snd ?o)) = [115] \<and> \<not> SupportsSSL (s_Setup (fst (snd ?o)))
    \<and> s_Type (fst (snd ?o)) = SessionTypeVM \<and> \<not> s_SkipLogin (demo_session 2)" by code_simp
  then have p: "s_Password s' = [115]" "\<not> SupportsSSL (s_Setup s')" "s_Type s' = SessionTypeVM"
    "\<not> s_SkipLogin (demo_session 2)" by (simp_all add: o)
  from open_plain_login [OF o p(2,4,3)] o show ?thesis by (auto simp: p(1))
qed

end
