(* ===== verification/Tls_Dial.thy ===== *)
theory Tls_Dial
  imports Ipmi_Client Apcp_Session
begin

text \<open>
  Certificate pinning (\<open>internal/tlsdial/dial.go\<close>).  The TLS library \<open>utls\<close> is a parameter, a record of the two methods the code calls;
  so is \<open>x509.ParseCertificate\<close>.  What the code relies on is \<open>honours\<close>: a handshake that succeeds has run \<open>VerifyPeerCertificate\<close> on the
  certificates it reports, parsed, as the peer's, and got nil.  SHA-256 is an executable definition of the published algorithm.
  The package variable \<open>lastLeaf\<close> is passed through as state.
\<close>

section \<open>SHA-256\<close>

text \<open>The constants of the standard are the first 32 bits of the fractional parts of square and cube roots of primes: \<open>root_bits k n b r\<close> adds the \<open>b\<close>
  low bits to the approximation \<open>r\<close> of the \<open>k\<close>-th root of \<open>n\<close>.\<close>

fun root_bits :: "nat \<Rightarrow> int \<Rightarrow> nat \<Rightarrow> int \<Rightarrow> int" where
  "root_bits k n 0 r = r"
| "root_bits k n (Suc b) r = root_bits k n b (if (r + 2 ^ b) ^ k \<le> n then r + 2 ^ b else r)"

definition frac_root :: "nat \<Rightarrow> int \<Rightarrow> u32" where
  "frac_root k p = of_int (root_bits k (p * 2 ^ (32 * k)) 35 0)"

definition small_primes :: "int list" where
  "small_primes = filter (\<lambda>p. list_all (\<lambda>d. p mod d \<noteq> 0) [2..p - 1]) [2..311]"

definition sha256_k :: "u32 list" where
  "sha256_k = map (frac_root 3) small_primes"

text \<open>The schedule is kept newest word first.\<close>

fun sha256_schedule :: "nat \<Rightarrow> u32 list \<Rightarrow> u32 list" where
  "sha256_schedule 0 ws = ws"
| "sha256_schedule (Suc n) ws =
     (let s0 = word_rotr 7 (ws ! 14) XOR word_rotr 18 (ws ! 14) XOR drop_bit 3 (ws ! 14);
          s1 = word_rotr 17 (ws ! 1) XOR word_rotr 19 (ws ! 1) XOR drop_bit 10 (ws ! 1)
      in sha256_schedule n ((ws ! 15 + s0 + ws ! 6 + s1) # ws))"

type_synonym sha256_state = "u32 \<times> u32 \<times> u32 \<times> u32 \<times> u32 \<times> u32 \<times> u32 \<times> u32"

fun sha256_rounds :: "(u32 \<times> u32) list \<Rightarrow> sha256_state \<Rightarrow> sha256_state" where
  "sha256_rounds [] st = st"
| "sha256_rounds ((k, w) # kws) (a, b, c, d, e, f, g, h) =
     (let s1 = word_rotr 6 e XOR word_rotr 11 e XOR word_rotr 25 e;
          ch = (e AND f) XOR (NOT e AND g);
          t1 = h + s1 + ch + k + w;
          s0 = word_rotr 2 a XOR word_rotr 13 a XOR word_rotr 22 a;
          maj = (a AND b) XOR (a AND c) XOR (b AND c)
      in sha256_rounds kws (t1 + s0 + maj, a, b, c, d + t1, e, f, g))"

fun sha256_add :: "sha256_state \<Rightarrow> sha256_state \<Rightarrow> sha256_state" where
  "sha256_add (a, b, c, d, e, f, g, h) (a', b', c', d', e', f', g', h') =
     (a + a', b + b', c + c', d + d', e + e', f + f', g + g', h + h')"

definition sha256_block :: "bytes \<Rightarrow> sha256_state \<Rightarrow> sha256_state" where
  "sha256_block blk st =
     sha256_add st (sha256_rounds (zip sha256_k (rev (sha256_schedule 48 (rev (sha1_words blk))))) st)"

function sha256_blocks :: "bytes \<Rightarrow> sha256_state \<Rightarrow> sha256_state" where
  "sha256_blocks m st = (if length m < 64 then st else sha256_blocks (drop 64 m) (sha256_block (take 64 m) st))"
  by pat_completeness auto
termination by (relation "measure (\<lambda>(m, st). length m)") auto

declare sha256_blocks.simps [simp del]

fun sha256_digest :: "sha256_state \<Rightarrow> bytes" where
  "sha256_digest (a, b, c, d, e, f, g, h) =
     putBE32 a @ putBE32 b @ putBE32 c @ putBE32 d @ putBE32 e @ putBE32 f @ putBE32 g @ putBE32 h"

text \<open>Padding and the splitting into words are those of SHA-1.\<close>

definition sha256_init :: sha256_state where
  "sha256_init = (let h = frac_root 2 in (h 2, h 3, h 5, h 7, h 11, h 13, h 17, h 19))"

definition Sum256 :: "bytes \<Rightarrow> bytes" where
  "Sum256 m = sha256_digest (sha256_blocks (sha1_pad m) sha256_init)"

lemma length_sha256_digest [simp]: "length (sha256_digest st) = 32"
  by (cases st rule: sha256_digest.cases) simp

lemma length_Sum256 [simp]: "length (Sum256 m) = 32"
  by (simp add: Sum256_def)

section \<open>Certificates and the handshake\<close>

text \<open>The fields of a parsed certificate the program computes with; times are seconds.\<close>

record Certificate =
  crt_Raw :: bytes
  crt_NotBefore :: int
  crt_NotAfter :: int

definition bmcCipherSuites :: "u16 list" where
  "bmcCipherSuites = [0xc00a, 0xc014, 0x0039, 0xc009, 0xc013, 0x0033, 0x0035, 0x002f, 0x00ff]"

definition FingerprintSHA256 :: "Certificate \<Rightarrow> bytes" where
  "FingerprintSHA256 cert = str_bytes (hexs (Sum256 (crt_Raw cert)))"

text \<open>\<open>strings.ReplaceAll (s, ":", "")\<close>, and \<open>%s\<close> of a string.\<close>

definition strip_colons :: "bytes \<Rightarrow> bytes" where
  "strip_colons s = filter (\<lambda>b. b \<noteq> 0x3A) s"

definition bytes_str :: "bytes \<Rightarrow> string" where
  "bytes_str s = map (\<lambda>b. char_of (unat b)) s"

record utls_Config =
  u_MinVersion :: u16
  u_MaxVersion :: u16
  u_CipherSuites :: "u16 list"
  u_InsecureSkipVerify :: bool
  u_RenegotiateFreely :: bool
  u_VerifyPeerCertificate :: "bytes list \<Rightarrow> Certificate option \<Rightarrow> gerror option \<times> Certificate option"

datatype TLSExtension = SupportedPointsExtension bytes | SupportedCurvesExtension "u16 list"

record ClientHelloSpec =
  h_TLSVersMin :: u16
  h_TLSVersMax :: u16
  h_CipherSuites :: "u16 list"
  h_CompressionMethods :: bytes
  h_Extensions :: "TLSExtension list"

text \<open>\<open>u_Handshake\<close> returns the error, if any, and otherwise the encrypted connection and the peer's parsed certificates, and the new
  \<open>lastLeaf\<close>.\<close>

record utls =
  u_ApplyPreset :: "utls_Config \<Rightarrow> ClientHelloSpec \<Rightarrow> gerror option"
  u_Handshake :: "utls_Config \<Rightarrow> ClientHelloSpec \<Rightarrow> conn \<Rightarrow> Certificate option \<Rightarrow> (conn \<times> Certificate list) result \<times> Certificate option"

type_synonym x509_parser = "bytes \<Rightarrow> Certificate result"

definition verify_peer ::
  "x509_parser \<Rightarrow> bytes \<Rightarrow> bytes list \<Rightarrow> Certificate option \<Rightarrow> gerror option \<times> Certificate option" where
  "verify_peer P expectedFingerprint rawCerts lastLeaf =
     (if length rawCerts = 0 then
        (if expectedFingerprint = [] then (None, lastLeaf)
         else (Some (Errorf ''tlsdial: peer sent no certificate''), lastLeaf))
      else
        (case P (rawCerts ! 0) of
           Inl e \<Rightarrow>
             if expectedFingerprint = [] then (None, lastLeaf)
             else (Some (Wrapf ''tlsdial: parse leaf: '' e), lastLeaf)
         | Inr leaf \<Rightarrow>
             let lastLeaf = Some leaf
             in if expectedFingerprint = [] then (None, lastLeaf)
                else
                  let got = FingerprintSHA256 leaf;
                      want = to_lower (strip_colons expectedFingerprint)
                  in if got \<noteq> want then 
                       (Some (Errorf (''tlsdial: certificate pin mismatch'' @ [CHR 0x0A] @ ''  expected '' @ bytes_str want
                          @ [CHR 0x0A] @ ''  got      '' @ bytes_str got)), lastLeaf)
                     else (None, lastLeaf)))"

definition VersionTLS10 :: u16 where
  "VersionTLS10 = 0x0301"

definition tls_config :: "x509_parser \<Rightarrow> bytes \<Rightarrow> utls_Config" where
  "tls_config P expectedFingerprint =
     \<lparr>u_MinVersion = VersionTLS10, u_MaxVersion = VersionTLS10, u_CipherSuites = bmcCipherSuites, u_InsecureSkipVerify = True,
      u_RenegotiateFreely = True, u_VerifyPeerCertificate = verify_peer P expectedFingerprint\<rparr>"

definition hello_spec :: ClientHelloSpec where
  "hello_spec =
     \<lparr>h_TLSVersMin = VersionTLS10, h_TLSVersMax = VersionTLS10, h_CipherSuites = bmcCipherSuites, h_CompressionMethods = [0],
      h_Extensions = [SupportedPointsExtension [0], SupportedCurvesExtension [29, 23, 30, 24, 25]]\<rparr>"

definition handshake ::
  "x509_parser \<Rightarrow> utls \<Rightarrow> conn \<Rightarrow> string \<Rightarrow> bytes \<Rightarrow> Certificate option \<Rightarrow> (conn \<times> Certificate list) result \<times> Certificate option" where
  "handshake P U raw serverName expectedFingerprint lastLeaf =
     (let cfg = tls_config P expectedFingerprint
      in case u_ApplyPreset U cfg hello_spec of
           Some e \<Rightarrow> (Inl (Wrapf ''tlsdial: apply spec: '' e), lastLeaf)
         | None \<Rightarrow>
             (case u_Handshake U cfg hello_spec raw lastLeaf of
                (Inl e, lastLeaf) \<Rightarrow> (Inl (Wrapf (''tlsdial: handshake to '' @ serverName @ '': '') e), lastLeaf)
              | (Inr c, lastLeaf) \<Rightarrow> (Inr c, lastLeaf)))"

definition PinFromServer ::
  "x509_parser \<Rightarrow> utls \<Rightarrow> conn \<Rightarrow> string \<Rightarrow> Certificate option \<Rightarrow> bytes result \<times> Certificate option" where
  "PinFromServer P U raw serverName lastLeaf =
     (case handshake P U raw serverName [] lastLeaf of
        (Inl e, lastLeaf) \<Rightarrow> (Inl e, lastLeaf)
      | (Inr (c, certs), lastLeaf) \<Rightarrow>
          if length certs = 0 then (Inl (Errorf ''tlsdial: peer sent no certificate''), lastLeaf)
          else (Inr (FingerprintSHA256 (certs ! 0)), lastLeaf))"

definition UpgradeToTLS ::
  "x509_parser \<Rightarrow> utls \<Rightarrow> conn \<Rightarrow> string \<Rightarrow> bytes \<Rightarrow> Certificate option \<Rightarrow> conn result \<times> Certificate option" where
  "UpgradeToTLS P U raw serverName expectedFingerprint lastLeaf =
     (case handshake P U raw serverName expectedFingerprint lastLeaf of
        (Inl e, lastLeaf) \<Rightarrow> (Inl e, lastLeaf)
      | (Inr (c, certs), lastLeaf) \<Rightarrow> (Inr c, lastLeaf))"

section \<open>Lemmas\<close>

definition lower_hex :: "bytes \<Rightarrow> bool" where
  "lower_hex s \<longleftrightarrow> (\<forall>b \<in> set s. b \<in> set (str_bytes ''0123456789abcdef''))"

lemma hex_digit_nth: "n < 16 \<Longrightarrow> of_nat (of_char (hex_digit n)) = str_bytes ''0123456789abcdef'' ! n"
  by (simp add: str_bytes_def hex_digit_def del: list.map nth_Cons_numeral)

lemma hex_digit_inj:
  assumes "m < 16" "n < 16" "(of_nat (of_char (hex_digit m)) :: byte) = of_nat (of_char (hex_digit n))"
  shows "m = n"
proof -
  have "distinct (str_bytes ''0123456789abcdef'')" by code_simp
  moreover have "length (str_bytes ''0123456789abcdef'') = 16" by (simp add: str_bytes_def)
  ultimately show ?thesis using assms by (simp add: hex_digit_nth nth_eq_iff_index_eq)
qed

lemma hex_pair_inj:
  assumes "str_bytes (hex2 a) = str_bytes (hex2 b)"
  shows "a = b"
proof -
  have "unat a div 16 < 16" "unat b div 16 < 16" using unsigned_less [of a, where ?'a = nat] unsigned_less [of b, where ?'a = nat] by simp_all
  then have "unat a div 16 = unat b div 16" "unat a mod 16 = unat b mod 16"
    using assms hex_digit_inj by (simp_all add: hex2_def str_bytes_def)
  then have "unat a = unat b" by (metis div_mult_mod_eq)
  then show ?thesis by (rule unsigned_word_eqI)
qed

lemma str_bytes_hexs_Cons: "str_bytes (hexs (b # bs)) = str_bytes (hex2 b) @ str_bytes (hexs bs)"
  by (simp add: hexs_def str_bytes_def)

lemma hexs_inj: "str_bytes (hexs xs) = str_bytes (hexs ys) \<Longrightarrow> xs = ys"
proof (induction xs arbitrary: ys)
  case Nil
  then show ?case by (cases ys) (simp_all add: hexs_def str_bytes_def hex2_def)
next
  case (Cons x xs)
  then obtain y zs where ys: "ys = y # zs" by (cases ys) (auto simp: hexs_def str_bytes_def hex2_def)
  have "length (str_bytes (hex2 x)) = length (str_bytes (hex2 y))" by (simp add: hex2_def str_bytes_def)
  then have "str_bytes (hex2 x) = str_bytes (hex2 y)" "str_bytes (hexs xs) = str_bytes (hexs zs)"
    using Cons.prems by (simp_all add: ys str_bytes_hexs_Cons)
  with Cons.IH hex_pair_inj show ?case by (simp add: ys)
qed

lemma lower_hex_hexs: "lower_hex (str_bytes (hexs bs))"
proof (induction bs)
  case (Cons b bs)
  have n: "unat b div 16 < 16" "unat b mod 16 < 16" using unsigned_less [of b, where ?'a = nat] by simp_all
  have "length (str_bytes ''0123456789abcdef'') = 16" by (simp add: str_bytes_def)
  then have "set (str_bytes (hex2 b)) \<subseteq> set (str_bytes ''0123456789abcdef'')"
    using hex_digit_nth [OF n(1)] hex_digit_nth [OF n(2)] n nth_mem by (simp add: hex2_def str_bytes_def [of "[_, _]"])
  with Cons show ?case by (auto simp: lower_hex_def str_bytes_hexs_Cons)
qed (simp add: lower_hex_def hexs_def str_bytes_def)

lemma lower_hex_normal: "lower_hex s \<Longrightarrow> to_lower (strip_colons s) = s"
  by (induction s) (auto simp: lower_hex_def strip_colons_def str_bytes_def)

lemma fingerprint_form [simp]:
  "length (FingerprintSHA256 c) = 64" "lower_hex (FingerprintSHA256 c)" "to_lower (strip_colons (FingerprintSHA256 c)) = FingerprintSHA256 c"
proof -
  have "length (str_bytes (hexs bs)) = 2 * length bs" for bs by (induction bs) (simp_all add: hexs_def str_bytes_def hex2_def)
  then show "length (FingerprintSHA256 c) = 64" by (simp add: FingerprintSHA256_def)
  show "lower_hex (FingerprintSHA256 c)" by (simp add: FingerprintSHA256_def lower_hex_hexs)
  then show "to_lower (strip_colons (FingerprintSHA256 c)) = FingerprintSHA256 c" by (rule lower_hex_normal)
qed

lemma fingerprint_eq_iff: "FingerprintSHA256 c = FingerprintSHA256 d \<longleftrightarrow> Sum256 (crt_Raw c) = Sum256 (crt_Raw d)"
  by (auto simp: FingerprintSHA256_def dest: hexs_inj)

lemma fingerprint_not_empty [simp]: "FingerprintSHA256 c \<noteq> []" "[] \<noteq> FingerprintSHA256 c"
  using fingerprint_form(1) [of c] by (metis list.size(3) zero_neq_numeral)+

text \<open>With a pin the callback accepts exactly the chains whose leaf parses and has the pinned fingerprint.\<close>

lemma verify_peer_iff:
  assumes "pin \<noteq> []"
  shows "verify_peer P pin certs l = (None, l') \<longleftrightarrow>
    (\<exists>leaf. certs \<noteq> [] \<and> P (hd certs) = Inr leaf \<and> FingerprintSHA256 leaf = to_lower (strip_colons pin) \<and> l' = Some leaf)"
  using assms by (cases certs) (auto simp: verify_peer_def Let_def split: sum.splits)

lemma verify_peer_unpinned: "fst (verify_peer P [] certs l) = None"
  by (simp add: verify_peer_def Let_def split: sum.split)

text \<open>The documented contract of the handshake: success means the callback accepted the raw certificates of the chain it reports.\<close>

definition honours :: "x509_parser \<Rightarrow> utls \<Rightarrow> bool" where
  "honours P U \<longleftrightarrow> (\<forall>cfg spec raw l c certs l'. u_Handshake U cfg spec raw l = (Inr (c, certs), l') \<longrightarrow>
     (\<forall>x \<in> set certs. P (crt_Raw x) = Inr x) \<and> u_VerifyPeerCertificate cfg (map crt_Raw certs) l = (None, l'))"

text \<open>The peer behind \<open>raw\<close> presents \<open>certs\<close> and completes every handshake whose callback accepts them.\<close>

definition serves :: "x509_parser \<Rightarrow> utls \<Rightarrow> conn \<Rightarrow> Certificate list \<Rightarrow> bool" where
  "serves P U raw certs \<longleftrightarrow> (\<forall>x \<in> set certs. P (crt_Raw x) = Inr x) \<and> (\<forall>cfg spec l. u_ApplyPreset U cfg spec = None
     \<and> (\<forall>c certs' l'. u_Handshake U cfg spec raw l = (Inr (c, certs'), l') \<longrightarrow> certs' = certs)
     \<and> (fst (u_VerifyPeerCertificate cfg (map crt_Raw certs) l) = None \<longrightarrow> (\<exists>c l'. u_Handshake U cfg spec raw l = (Inr (c, certs), l'))))"

lemma handshake_ok:
  "handshake P U raw h pin l = (Inr (c, certs), l') \<longleftrightarrow>
     u_ApplyPreset U (tls_config P pin) hello_spec = None \<and> u_Handshake U (tls_config P pin) hello_spec raw l = (Inr (c, certs), l')"
  by (auto simp: handshake_def Let_def split: option.splits prod.splits sum.splits)

lemma UpgradeToTLS_ok:
  "UpgradeToTLS P U raw h pin l = (Inr c, l') \<longleftrightarrow> (\<exists>certs. handshake P U raw h pin l = (Inr (c, certs), l'))"
  by (auto simp: UpgradeToTLS_def split: prod.splits sum.splits)

lemma PinFromServer_ok:
  "PinFromServer P U raw h l = (Inr p, l') \<longleftrightarrow>
     (\<exists>c leaf chain. handshake P U raw h [] l = (Inr (c, leaf # chain), l') \<and> p = FingerprintSHA256 leaf)"
  by (auto simp: PinFromServer_def neq_Nil_conv split: prod.splits sum.splits)

lemma pinned_handshake:
  assumes "honours P U" "pin \<noteq> []" "handshake P U raw h pin l = (Inr (c, certs), l')"
  obtains leaf chain where "certs = leaf # chain" "FingerprintSHA256 leaf = to_lower (strip_colons pin)" "l' = Some leaf"
proof -
  have "(\<forall>x \<in> set certs. P (crt_Raw x) = Inr x) \<and> verify_peer P pin (map crt_Raw certs) l = (None, l')"
    using assms unfolding honours_def handshake_ok by (fastforce simp: tls_config_def)
  with assms(2) that show thesis by (cases certs) (auto simp: verify_peer_iff)
qed

lemma upgrade_serves:
  assumes "honours P U" "serves P U raw certs"
  shows "(\<exists>c. fst (UpgradeToTLS P U raw h q l) = Inr c) \<longleftrightarrow> fst (verify_peer P q (map crt_Raw certs) l) = None"
proof
  assume "\<exists>c. fst (UpgradeToTLS P U raw h q l) = Inr c"
  then obtain c l' where "UpgradeToTLS P U raw h q l = (Inr c, l')" by (metis prod.collapse)
  then obtain certs' where u: "u_Handshake U (tls_config P q) hello_spec raw l = (Inr (c, certs'), l')"
    by (auto simp: UpgradeToTLS_ok handshake_ok)
  have "certs' = certs" using assms(2) u unfolding serves_def by blast
  moreover have "u_VerifyPeerCertificate (tls_config P q) (map crt_Raw certs') l = (None, l')" using assms(1) u unfolding honours_def by blast
  ultimately show "fst (verify_peer P q (map crt_Raw certs) l) = None" by (simp add: tls_config_def)
next
  assume "fst (verify_peer P q (map crt_Raw certs) l) = None"
  then have "fst (u_VerifyPeerCertificate (tls_config P q) (map crt_Raw certs) l) = None" by (simp add: tls_config_def)
  then obtain c l' where "u_Handshake U (tls_config P q) hello_spec raw l = (Inr (c, certs), l')" "u_ApplyPreset U (tls_config P q) hello_spec = None"
    using assms(2) unfolding serves_def by blast
  then have "UpgradeToTLS P U raw h q l = (Inr c, l')" by (auto simp: UpgradeToTLS_ok handshake_ok)
  then show "\<exists>c. fst (UpgradeToTLS P U raw h q l) = Inr c" by simp
qed

section \<open>Properties\<close>

text \<open>With a pin, a connection is upgraded only for the pinned peer.  If the TLS library honours the callback and \<open>UpgradeToTLS\<close>
  succeeds with a non-empty pin, then the peer presented a chain whose leaf's DER bytes have the SHA-256 the pin spells (colons and upper case
  aside), the pin spells 64 hexadecimal digits, and that leaf is what \<open>LastLeaf\<close> reports.\<close>

theorem tls_pin_enforced:
  assumes "honours P U" and "pin \<noteq> []" and "UpgradeToTLS P U raw h pin l = (Inr c, l')"
  shows "\<exists>leaf chain. u_Handshake U (tls_config P pin) hello_spec raw l = (Inr (c, leaf # chain), Some leaf) \<and> l' = Some leaf
    \<and> str_bytes (hexs (Sum256 (crt_Raw leaf))) = to_lower (strip_colons pin) \<and> length (to_lower (strip_colons pin)) = 64"
proof -
  obtain certs where h: "handshake P U raw h pin l = (Inr (c, certs), l')" using assms(3) by (auto simp: UpgradeToTLS_ok)
  obtain leaf chain where "certs = leaf # chain" "FingerprintSHA256 leaf = to_lower (strip_colons pin)" "l' = Some leaf"
    using pinned_handshake [OF assms(1,2) h] .
  with h fingerprint_form(1) [of leaf] show ?thesis by (auto simp: handshake_ok FingerprintSHA256_def)
qed

text \<open>A parser that keeps the bytes, and a library that runs the callback on a fixed chain.\<close>

definition demo_x509 :: x509_parser where
  "demo_x509 der = Inr \<lparr>crt_Raw = der, crt_NotBefore = 0, crt_NotAfter = 0\<rparr>"

definition demo_utls :: "Certificate list \<Rightarrow> utls" where
  "demo_utls certs = \<lparr>u_ApplyPreset = \<lambda>cfg spec. None,
     u_Handshake = \<lambda>cfg spec raw l. (case u_VerifyPeerCertificate cfg (map crt_Raw certs) l of
        (Some e, l') \<Rightarrow> (Inl e, l') | (None, l') \<Rightarrow> (Inr (raw, certs), l'))\<rparr>"

definition demo_cert :: "bytes \<Rightarrow> Certificate" where
  "demo_cert der = \<lparr>crt_Raw = der, crt_NotBefore = 0, crt_NotAfter = 0\<rparr>"

lemma demo_honours: "honours demo_x509 (demo_utls [demo_cert d])"
  by (auto simp: honours_def demo_utls_def demo_x509_def demo_cert_def split: prod.splits option.splits)

lemma demo_serves: "serves demo_x509 (demo_utls [demo_cert d]) raw [demo_cert d]"
  by (auto simp: serves_def demo_utls_def demo_x509_def demo_cert_def split: prod.splits option.splits)

lemma demo_upgrade:
  "UpgradeToTLS demo_x509 (demo_utls [demo_cert d]) raw h (FingerprintSHA256 (demo_cert d)) l = (Inr raw, Some (demo_cert d))"
  by (simp add: UpgradeToTLS_ok handshake_ok tls_config_def demo_utls_def verify_peer_def demo_x509_def demo_cert_def)

theorem tls_pin_enforced_witness:
  "\<exists>leaf chain. u_Handshake (demo_utls [demo_cert [1]]) (tls_config demo_x509 (FingerprintSHA256 (demo_cert [1]))) hello_spec
       \<lparr>c_in = [], c_wr = []\<rparr> None = (Inr (\<lparr>c_in = [], c_wr = []\<rparr>, leaf # chain), Some leaf)
     \<and> str_bytes (hexs (Sum256 (crt_Raw leaf))) = FingerprintSHA256 (demo_cert [1])"
  using tls_pin_enforced [OF demo_honours _ demo_upgrade [of "[1]" "\<lparr>c_in = [], c_wr = []\<rparr>" "''bmc''" None]] by auto

text \<open>A learned pin selects the certificate it was learned from.  After \<open>PinFromServer\<close> has returned \<open>p\<close> for a peer, an upgrade with
  any spelling of \<open>p\<close> (colons, upper case) succeeds against a peer exactly when that peer's leaf has the same SHA-256.\<close>

theorem learned_pin_selects_leaf:
  assumes "honours P U" and "serves P U raw certs" and "serves P U raw2 certs2"
    and "PinFromServer P U raw h l = (Inr p, l1)" and "to_lower (strip_colons q) = p"
  shows "(\<exists>c. fst (UpgradeToTLS P U raw2 h2 q l2) = Inr c) \<longleftrightarrow>
    certs2 \<noteq> [] \<and> Sum256 (crt_Raw (hd certs2)) = Sum256 (crt_Raw (hd certs))"
proof -
  obtain c0 leaf chain where 0: "handshake P U raw h [] l = (Inr (c0, leaf # chain), l1)" "p = FingerprintSHA256 leaf"
    using assms(4) by (auto simp: PinFromServer_ok)
  then have certs: "certs = leaf # chain" using assms(2) unfolding serves_def handshake_ok by metis
  have q: "q \<noteq> []" using assms(5) 0(2) using fingerprint_not_empty [of leaf] by (auto simp: strip_colons_def)
  have "(\<exists>c. fst (UpgradeToTLS P U raw2 h2 q l2) = Inr c) \<longleftrightarrow> fst (verify_peer P q (map crt_Raw certs2) l2) = None"
    by (rule upgrade_serves [OF assms(1,3)])
  also have "\<dots> \<longleftrightarrow> (\<exists>l'. verify_peer P q (map crt_Raw certs2) l2 = (None, l'))" by (cases "verify_peer P q (map crt_Raw certs2) l2") auto
  also have "\<dots> \<longleftrightarrow> certs2 \<noteq> [] \<and> FingerprintSHA256 (hd certs2) = FingerprintSHA256 leaf"
    using assms(3,5) 0(2) by (cases certs2) (auto simp: verify_peer_iff [OF q] serves_def)
  finally show ?thesis by (simp add: fingerprint_eq_iff certs)
qed

theorem learned_pin_selects_leaf_witness:
  "\<exists>p l1 c. PinFromServer demo_x509 (demo_utls [demo_cert [1]]) \<lparr>c_in = [], c_wr = []\<rparr> ''bmc'' None = (Inr p, l1)
     \<and> fst (UpgradeToTLS demo_x509 (demo_utls [demo_cert [1]]) \<lparr>c_in = [9], c_wr = []\<rparr> ''bmc'' p None) = Inr c"
proof -
  have p: "PinFromServer demo_x509 (demo_utls [demo_cert [1]]) \<lparr>c_in = [], c_wr = []\<rparr> ''bmc'' None
      = (Inr (FingerprintSHA256 (demo_cert [1])), Some (demo_cert [1]))"
    by (simp add: PinFromServer_ok handshake_ok tls_config_def demo_utls_def verify_peer_def demo_x509_def demo_cert_def)
  then show ?thesis
    using learned_pin_selects_leaf [OF demo_honours demo_serves demo_serves p, of "FingerprintSHA256 (demo_cert [1])" "\<lparr>c_in = [9], c_wr = []\<rparr>" "''bmc''" None]
    by auto
qed

text \<open>Every session of the program is opened with \<open>UpgradeToTLS\<close> on the configured host and pin as its upgrade.\<close>

definition pinned_env :: "x509_parser \<Rightarrow> utls \<Rightarrow> string \<Rightarrow> bytes \<Rightarrow> Certificate option \<Rightarrow> environment \<Rightarrow> environment" where
  "pinned_env P U host pin l env = env\<lparr>e_UpgradeTLS := Some (\<lambda>raw. fst (UpgradeToTLS P U raw host pin l))\<rparr>"

lemma open_login_effect:
  "open_login env ch c s = (r, s', evs) \<Longrightarrow> s_Setup s' = s_Setup s \<and> session_request s' = session_request s \<and> (\<forall>ev \<in> set evs. \<exists>b. ev = Write ch b)"
  using open_login_trace open_login_Setup open_login_keeps session_request_cong by metis

lemma exchange_upgrades:
  assumes "open_exchange env raw s = (r, s', evs)" "e_UpgradeTLS env = Some f" "SupportsSSL (s_Setup s')"
    "Write ch b \<in> set evs" "b \<noteq> EncodeSessionRequest (session_request s')"
  shows "ch = Tls \<and> (\<exists>raw c. f raw = Inr c)"
  using assms unfolding open_exchange_def open_upgrade_def Let_def
  by (auto split: prod.splits option.splits sum.splits if_splits dest!: open_login_effect simp: session_request_def)

lemma login_needs_pin:
  assumes "honours P U" and "pin \<noteq> []" and "Open (pinned_env P U host pin l env) s = (r, s', evs)"
    and "SupportsSSL (s_Setup s')" and "Write ch b \<in> set evs" and "b \<noteq> EncodeSessionRequest (session_request s')"
  shows "ch = Tls \<and> (\<exists>raw c leaf chain. u_Handshake U (tls_config P pin) hello_spec raw l = (Inr (c, leaf # chain), Some leaf)
    \<and> str_bytes (hexs (Sum256 (crt_Raw leaf))) = to_lower (strip_colons pin))"
proof -
  let ?env = "pinned_env P U host pin l env" and ?f = "\<lambda>raw. fst (UpgradeToTLS P U raw host pin l)"
  have "ch = Tls \<and> (\<exists>raw c. ?f raw = Inr c)"
  proof (cases "e_Dial ?env")
    case (Inl d)
    with assms(3,5) show ?thesis by (auto simp: Open_def)
  next
    case (Inr raw)
    from assms(3) Inr show ?thesis
    proof (cases rule: Open_dialled)
      case (exchange s0 evs0)
      with assms(5) have w: "Write ch b \<in> set evs0" by (auto split: if_splits)
      show ?thesis by (rule exchange_upgrades [OF exchange(1) _ assms(4) w assms(6)]) (simp add: pinned_env_def)
    qed (use assms(5) in simp)
  qed
  moreover have "\<exists>leaf chain. u_Handshake U (tls_config P pin) hello_spec raw l = (Inr (c, leaf # chain), Some leaf)
    \<and> str_bytes (hexs (Sum256 (crt_Raw leaf))) = to_lower (strip_colons pin)" if "?f raw = Inr c" for raw c
  proof -
    from that obtain certs l' where h: "handshake P U raw host pin l = (Inr (c, certs), l')"
      by (metis UpgradeToTLS_ok prod.collapse)
    from pinned_handshake [OF assms(1,2) h] h show ?thesis by (metis FingerprintSHA256_def handshake_ok)
  qed
  ultimately show ?thesis by blast
qed

end
