(* ===== verification/Bridge_Video.thy ===== *)
theory Bridge_Video
  imports Apcp_Session Input_Event Video_Avocent
begin

text \<open>
  The video half of the browser bridge (\<open>cmd/beefkvm/main.go\<close>): the loop that reads BEEF frames from the video socket and acknowledges
  each of them, the dispatch of a frame to the decoders of the video package, the reassembly of fragmented tile packets, palette and cursor
  frames, and the serialised framebuffer offered to the browser subscribers.  A frame handler returns \<open>None\<close> when it would not return, a
  panic (which ends the process) as \<open>Inl\<close>, and the new state otherwise.  A subscriber is its bounded channel; the locks make one handler
  run at a time.  The decoders \<open>dec21\<close>, \<open>decDCT\<close> and \<open>decAvo2\<close> of the struct are constructed but never called by the bridge.
\<close>

section \<open>State\<close>

record subscriber =
  sub_send :: "bytes list"

record video_bridge =
  b_fb :: Framebuffer
  b_dec15 :: Decoder
  b_dec7g :: Decoder
  b_dec7p :: Decoder
  b_decAvo :: AvocentDecoder
  b_avoAgg :: bytes
  b_subs :: "subscriber list"

text \<open>The bridge as \<open>main\<close> builds it, before the first connection.\<close>

definition new_bridge :: "nat \<Rightarrow> nat \<Rightarrow> video_bridge" where
  "new_bridge w h = \<lparr>b_fb = NewFramebuffer w h, b_dec15 = projr (NewDecoder Depth15), b_dec7g = projr (NewDecoder Depth7Gray),
     b_dec7p = projr (NewDecoder Depth7Palette), b_decAvo = NewAvocentDecoder, b_avoAgg = [], b_subs = []\<rparr>"

text \<open>\<open>select { case s.send <- buf: default: }\<close> on a channel made with capacity 4, for every subscriber.\<close>

definition offer :: "bytes \<Rightarrow> subscriber \<Rightarrow> subscriber" where
  "offer buf s = (if length (sub_send s) < 4 then s\<lparr>sub_send := sub_send s @ [buf]\<rparr> else s)"

definition broadcast :: "bytes \<Rightarrow> video_bridge \<Rightarrow> video_bridge" where
  "broadcast buf b = b\<lparr>b_subs := map (offer buf) (b_subs b)\<rparr>"

section \<open>Frame handlers\<close>

definition handleCursorShape :: "AVPTFrame \<Rightarrow> video_bridge \<Rightarrow> video_bridge" where
  "handleCursorShape f b =
     (let p = a_Payload f in
      if length p < 8 then b
      else
        let hotX = be16 (slice 0 2 p); hotY = be16 (slice 2 4 p);
            w = unat (be16 (slice 4 6 p)); h = unat (be16 (slice 6 8 p));
            expectedLen = 8 + w * h * 4
        in if length p < expectedLen then b
           else
             let buf = mk_buf (12 + w * h * 4);
                 buf = copy_to 0 4 (str_bytes ''CURS'') buf;
                 buf = copy_to 4 6 (putBE16 hotX) buf;
                 buf = copy_to 6 8 (putBE16 hotY) buf;
                 buf = copy_to 8 10 (putBE16 (of_nat w)) buf;
                 buf = copy_to 10 12 (putBE16 (of_nat h)) buf;
                 buf = copy_from 12 (drop 8 p) buf
             in broadcast buf b)"

text \<open>Palette entries are read three or four bytes apart; the slots before the first updated one are those of a fresh slice.\<close>

definition palette_entry :: "nat \<Rightarrow> bytes \<Rightarrow> nat \<Rightarrow> u32" where
  "palette_entry entrySize body i =
     (let off = i * entrySize
      in 0xFF000000 OR push_bit 16 (ucast (body ! off)) OR push_bit 8 (ucast (body ! (off + 1))) OR ucast (body ! (off + 2)))"

definition handlePaletteUpdate :: "AVPTFrame \<Rightarrow> video_bridge \<Rightarrow> video_bridge" where
  "handlePaletteUpdate f b =
     (let p = a_Payload f in
      if length p < 10 then b
      else
        let start = int (unat (p ! 8));
            count = int (unat (p ! 9));
            count = (if start + count > 128 then 128 - start else count)
        in if count \<le> 0 then b
           else
             let body = drop 10 p; n = nat count in
             if \<not> length body \<ge> n * 4 \<and> length body < n * 3 then b
             else
               let entrySize = (if length body \<ge> n * 4 then 4 else 3);
                   entries = replicate (nat start) 0 @ map (palette_entry entrySize body) [0..<n]
               in b\<lparr>b_dec7p := SetPalette entries (b_dec7p b)\<rparr>)"

definition decode_avo :: "bytes \<Rightarrow> video_bridge \<Rightarrow> video_bridge result option" where
  "decode_avo payload b =
     (case avo_DecodePacket (b_fb b) payload (b_decAvo b) of
        None \<Rightarrow> None
      | Some (Inl e, d) \<Rightarrow> Some (Inl e)
      | Some (Inr (n, fb), d) \<Rightarrow> Some (Inr (b\<lparr>b_fb := fb, b_decAvo := d\<rparr>)))"

text \<open>The branch for frames 134 and 34310.\<close>

definition handle_tile :: "bytes \<Rightarrow> video_bridge \<Rightarrow> video_bridge result option" where
  "handle_tile p b =
     (if p ! 8 AND 1 \<noteq> 0 then
        (if length (b_avoAgg b) > 0
         then map_option (map_sum id (\<lambda>b. b\<lparr>b_avoAgg := p\<rparr>)) (decode_avo (b_avoAgg b) b)
         else Some (Inr (b\<lparr>b_avoAgg := p\<rparr>)))
      else if length (b_avoAgg b) = 0 then decode_avo p b
      else Some (Inr (b\<lparr>b_avoAgg := b_avoAgg b @ drop 12 p\<rparr>)))"

definition pick_decoder :: "u16 \<Rightarrow> video_bridge \<Rightarrow> Decoder" where
  "pick_decoder i b =
     (if i = 130 \<or> i = 34306 then b_dec7p b
      else if i = 131 \<or> i = 34307 then b_dec7g b
      else b_dec15 b)"

text \<open>The branch for the raster codecs: the cursor moves to the tile's origin when that is on the screen.\<close>

definition place_cursor :: "bytes \<Rightarrow> Framebuffer \<Rightarrow> Framebuffer" where
  "place_cursor p fb =
     (let x = be16 (slice 4 6 p); y = be16 (slice 6 8 p);
          cur = int (unat y) * fb_W fb + int (unat x)
      in if cur \<ge> 0 \<and> cur < npix fb then fb\<lparr>fb_Cur := cur\<rparr> else fb)"

definition handle_raster :: "u16 \<Rightarrow> bytes \<Rightarrow> video_bridge \<Rightarrow> video_bridge result" where
  "handle_raster i p b =
     map_sum id (\<lambda>(n, err, fb). b\<lparr>b_fb := fb\<rparr>) (video_Decode (pick_decoder i b) (place_cursor p (b_fb b)) (drop 12 p))"

definition handleVideoFrame :: "AVPTFrame \<Rightarrow> video_bridge \<Rightarrow> video_bridge result option" where
  "handleVideoFrame f b =
     (let i = a_ID f; p = a_Payload f in
      if i = 136 then Some (Inr (handleCursorShape f b))
      else if i = 138 \<or> i = 34314 then Some (Inr (handlePaletteUpdate f b))
      else if \<not> (i \<ge> 129 \<and> i \<le> 138 \<or> i = 34305 \<or> i = 34306 \<or> i = 34307 \<or> i = 34310 \<or> i = 34314) then Some (Inr b)
      else if length p < 12 then Some (Inr b)
      else if i = 134 \<or> i = 34310 then handle_tile p b
      else Some (handle_raster i p b))"

section \<open>The video loop\<close>

definition ack_frame :: "byte \<Rightarrow> bytes" where
  "ack_frame ackCounter = AVPTEncode \<lparr>a_ID = 0, a_Payload = [ackCounter, 0, 0, 0, 0, 0, 0, 0]\<rparr>"

text \<open>The result is the acknowledgements written (their errors are ignored by the code), the read error that ended the loop and the state.\<close>

function readVideoLoop :: "bytes \<Rightarrow> byte \<Rightarrow> video_bridge \<Rightarrow> (bytes list \<times> gerror \<times> video_bridge) result option" where
  "readVideoLoop inp ackCounter b =
     (case ReadAVPTFrame inp of
        (Inl e, _) \<Rightarrow> Some (Inr ([], e, b))
      | (Inr f, rest) \<Rightarrow>
          (case handleVideoFrame f b of
             None \<Rightarrow> None
           | Some (Inl e) \<Rightarrow> Some (Inl e)
           | Some (Inr b) \<Rightarrow>
               let ackCounter = ackCounter + 1 in
               map_option (map_sum id (\<lambda>(acks, r). (ack_frame ackCounter # acks, r))) (readVideoLoop rest ackCounter b)))"
  by pat_completeness auto
termination
  by (relation "measure (\<lambda>(inp, a, b). length inp)") (auto dest: avpt.rd_shrinks [OF sym])

declare readVideoLoop.simps [simp del]

text \<open>\<open>readControlLoop\<close> only drains its socket.\<close>

function readControlLoop :: "bytes \<Rightarrow> gerror" where
  "readControlLoop inp =
     (case ReadAVPTFrame inp of
        (Inl e, _) \<Rightarrow> e
      | (Inr f, rest) \<Rightarrow> readControlLoop rest)"
  by pat_completeness auto
termination
  by (relation "measure length") (auto dest: avpt.rd_shrinks [OF sym])

declare readControlLoop.simps [simp del]

section \<open>Serving the browser\<close>

definition pixel_rgba :: "u32 \<Rightarrow> bytes" where
  "pixel_rgba p = [ucast (drop_bit 16 p), ucast (drop_bit 8 p), ucast p, ucast (drop_bit 24 p)]"

text \<open>The pixel loop indexes the buffer; a pixel past its end is a panic.\<close>

fun put_pixels :: "nat \<Rightarrow> u32 list \<Rightarrow> bytes \<Rightarrow> bytes result" where
  "put_pixels i [] buf = Inr buf"
| "put_pixels i (p # ps) buf =
     (let off = 8 + i * 4
      in if off + 3 < length buf then put_pixels (i + 1) ps (copy_to off (off + 4) (pixel_rgba p) buf)
         else Inl pixel_panic)"

definition serializeFB :: "Framebuffer \<Rightarrow> bytes result" where
  "serializeFB fb =
     (if 8 + 4 * fb_W fb * fb_H fb < 0 then Inl (Panic ''makeslice: len out of range'')
      else
        let buf = mk_buf (nat (8 + 4 * fb_W fb * fb_H fb));
            buf = copy_to 0 4 (str_bytes ''IKVM'') buf;
            buf = copy_to 4 6 (putBE16 (word_of_int (fb_W fb))) buf;
            buf = copy_to 6 8 (putBE16 (word_of_int (fb_H fb))) buf
        in put_pixels 0 (fb_Pixels fb) buf)"

text \<open>One tick of \<open>pushLoop\<close>.\<close>

definition push_tick :: "video_bridge \<Rightarrow> video_bridge result" where
  "push_tick b =
     (if \<not> fb_Dirty (b_fb b) then Inr b
      else
        let b = b\<lparr>b_fb := (b_fb b)\<lparr>fb_Dirty := False\<rparr>\<rparr>
        in map_sum id (\<lambda>buf. broadcast buf b) (serializeFB (b_fb b)))"

text \<open>\<open>serveWS\<close> after the upgrade: the subscriber is registered and offered a full frame at once.\<close>

definition subscribe :: "video_bridge \<Rightarrow> video_bridge result" where
  "subscribe b =
     map_sum id (\<lambda>buf. b\<lparr>b_subs := b_subs b @ [offer buf \<lparr>sub_send = []\<rparr>]\<rparr>) (serializeFB (b_fb b))"

text \<open>One round of \<open>writeWS\<close> of the \<open>k\<close>-th subscriber: the oldest message is taken from the channel and written.\<close>

definition take_message :: "nat \<Rightarrow> video_bridge \<Rightarrow> (bytes \<times> video_bridge) option" where
  "take_message k b =
     (case sub_send (b_subs b ! k) of
        [] \<Rightarrow> None
      | m # ms \<Rightarrow> Some (m, b\<lparr>b_subs := (b_subs b)[k := \<lparr>sub_send = ms\<rparr>]\<rparr>))"

section \<open>Input from the browser\<close>

text \<open>An event after \<open>json.Unmarshal\<close>; the parser is the standard library's and a parameter of the reader.\<close>

record ws_event =
  ev_Type :: string
  ev_Key :: u16
  ev_Pressed :: bool
  ev_X :: int
  ev_Y :: int
  ev_Buttons :: byte
  ev_Wheel :: int

definition refresh_frames :: "bytes list" where
  "refresh_frames = [AVPTEncode \<lparr>a_ID = 782, a_Payload = [1, 1, 0, 0, 0, 0, 0, 0]\<rparr>,
                     AVPTEncode \<lparr>a_ID = 772, a_Payload = mk_buf 8\<rparr>]"

definition event_writes :: "ws_event \<Rightarrow> bytes list" where
  "event_writes evt =
     (if ev_Type evt = ''key'' then [KeyEvent (ev_Key evt) (ev_Pressed evt)]
      else if ev_Type evt = ''mouse'' then [MouseAbsolute (ev_X evt) (ev_Y evt) (ev_Buttons evt) (ev_Wheel evt)]
      else if ev_Type evt = ''refresh'' then refresh_frames
      else [])"

text \<open>\<open>readWS\<close> over the messages received before the read error: the frames written to the session, in order.\<close>

fun readWS :: "(bytes \<Rightarrow> ws_event option) \<Rightarrow> bytes list \<Rightarrow> bytes list" where
  "readWS unmarshal [] = []"
| "readWS unmarshal (msg # msgs) =
     (case unmarshal msg of
        None \<Rightarrow> readWS unmarshal msgs
      | Some evt \<Rightarrow> event_writes evt @ readWS unmarshal msgs)"

section \<open>Lemmas: frame handlers\<close>

definition bridge_ok :: "video_bridge \<Rightarrow> bool" where
  "bridge_ok b \<longleftrightarrow> fb_ok (b_fb b) \<and> fb_rect (b_fb b) \<and> decoder_ok (b_dec15 b) \<and> decoder_ok (b_dec7g b) \<and> decoder_ok (b_dec7p b)
     \<and> cache_ok (b_decAvo b)"

text \<open>What no frame may change: the dimensions of the framebuffer and the set of subscribers.\<close>

definition same_screen :: "video_bridge \<Rightarrow> video_bridge \<Rightarrow> bool" where
  "same_screen b b' \<longleftrightarrow> same_shape (b_fb b) (b_fb b') \<and> length (b_subs b') = length (b_subs b)"

lemma same_screen_trans: "same_screen a b \<Longrightarrow> same_screen b c \<Longrightarrow> same_screen a c"
  by (auto simp: same_screen_def intro: same_shape_trans)

lemma handleCursorShape_keeps:
  "b_fb (handleCursorShape f b) = b_fb b" "bridge_ok (handleCursorShape f b) = bridge_ok b" "same_screen b (handleCursorShape f b)"
  by (simp_all add: handleCursorShape_def Let_def broadcast_def bridge_ok_def same_screen_def)

lemma handlePaletteUpdate_keeps:
  "bridge_ok b \<Longrightarrow> bridge_ok (handlePaletteUpdate f b)" "same_screen b (handlePaletteUpdate f b)"
  by (simp_all add: handlePaletteUpdate_def Let_def bridge_ok_def same_screen_def SetPalette_ok)

lemma fb_ok_paints: "paints fb fb' \<Longrightarrow> fb_ok fb \<Longrightarrow> fb_ok fb'"
  by (auto simp: paints_def same_shape_def fb_ok_def)

lemma decode_avo_ok:
  assumes "bridge_ok b"
  shows "\<exists>n fb d. avo_DecodePacket (b_fb b) p (b_decAvo b) = Some (Inr (n, fb), d)
    \<and> decode_avo p b = Some (Inr (b\<lparr>b_fb := fb, b_decAvo := d\<rparr>)) \<and> bridge_ok (b\<lparr>b_fb := fb, b_decAvo := d\<rparr>)
    \<and> same_screen b (b\<lparr>b_fb := fb, b_decAvo := d\<rparr>)"
proof -
  obtain n fb d where "avo_DecodePacket (b_fb b) p (b_decAvo b) = Some (Inr (n, fb), d)" "cache_ok d" "paints (b_fb b) fb"
    using DecodePacket_returns [of "b_fb b" "b_decAvo b" p] assms by (auto simp: bridge_ok_def)
  then show ?thesis using assms fb_rect_paints fb_ok_paints paints_shape
    by (auto simp: decode_avo_def bridge_ok_def same_screen_def)
qed

lemma handle_tile_ok:
  assumes "bridge_ok b"
  shows "\<exists>b'. handle_tile p b = Some (Inr b') \<and> bridge_ok b' \<and> same_screen b b'"
proof -
  have agg: "bridge_ok (x\<lparr>b_avoAgg := q\<rparr>) = bridge_ok x" "same_screen b (x\<lparr>b_avoAgg := q\<rparr>) = same_screen b x" for x q
    by (simp_all add: bridge_ok_def same_screen_def)
  obtain b1 where 1: "decode_avo (b_avoAgg b) b = Some (Inr b1)" "bridge_ok b1" "same_screen b b1"
    using decode_avo_ok [OF assms] by blast
  obtain b2 where 2: "decode_avo p b = Some (Inr b2)" "bridge_ok b2" "same_screen b b2"
    using decode_avo_ok [OF assms] by blast
  have "same_screen b b" by (simp add: same_screen_def)
  with 1 2 assms show ?thesis by (simp add: handle_tile_def agg)
qed

lemma handle_raster_ok:
  assumes "bridge_ok b"
  shows "\<exists>b'. handle_raster i p b = Inr b' \<and> bridge_ok b' \<and> same_screen b b'"
proof -
  let ?fb = "place_cursor p (b_fb b)"
  have fb: "fb_ok ?fb" "same_shape (b_fb b) ?fb" using assms by (auto simp: bridge_ok_def fb_ok_def same_shape_def place_cursor_def Let_def)
  have d: "decoder_ok (pick_decoder i b)" using assms by (simp add: pick_decoder_def bridge_ok_def)
  obtain n e fb' where v: "video_Decode (pick_decoder i b) ?fb (drop 12 p) = Inr (n, e, fb')" "fb_ok fb'" "same_shape ?fb fb'"
    using decode_from_ok [OF d fb(1), of 0 "drop 12 p"] by (auto simp: video_Decode_def)
  have "bridge_ok (b\<lparr>b_fb := fb'\<rparr>)" "same_screen b (b\<lparr>b_fb := fb'\<rparr>)"
    using assms v(2) same_shape_trans [OF fb(2) v(3)] fb_rect_shape by (auto simp: bridge_ok_def same_screen_def)
  with v(1) show ?thesis by (simp add: handle_raster_def)
qed

lemma handleVideoFrame_ok:
  assumes "bridge_ok b"
  shows "\<exists>b'. handleVideoFrame f b = Some (Inr b') \<and> bridge_ok b' \<and> same_screen b b'"
proof -
  have "same_screen b b" by (simp add: same_screen_def)
  then show ?thesis
    using assms handle_tile_ok [OF assms, of "a_Payload f"] handle_raster_ok [OF assms, of "a_ID f" "a_Payload f"]
      handleCursorShape_keeps [where f = f and b = b] handlePaletteUpdate_keeps [where f = f and b = b]
    unfolding handleVideoFrame_def Let_def by (auto split: if_splits)
qed

section \<open>Lemmas: the video loop\<close>

text \<open>A sequence of frames handled one after the other.\<close>

fun handle_frames :: "AVPTFrame list \<Rightarrow> video_bridge \<Rightarrow> video_bridge result option" where
  "handle_frames [] b = Some (Inr b)"
| "handle_frames (f # fs) b =
     (case handleVideoFrame f b of
        None \<Rightarrow> None
      | Some (Inl e) \<Rightarrow> Some (Inl e)
      | Some (Inr b) \<Rightarrow> handle_frames fs b)"

definition acks_from :: "byte \<Rightarrow> nat \<Rightarrow> bytes list" where
  "acks_from a n = map (\<lambda>k. ack_frame (a + of_nat k + 1)) [0..<n]"

lemma acks_from_Suc: "acks_from a (Suc n) = ack_frame (a + 1) # acks_from (a + 1) n"
  by (simp add: acks_from_def upt_conv_Cons map_Suc_upt [symmetric] add_ac del: upt_Suc)

lemma readVideoLoop_frames:
  "bridge_ok b \<Longrightarrow> length inp < fuel \<Longrightarrow> \<exists>fs e b'. read_all ReadAVPTFrame fuel inp = Some (fs, e) \<and> handle_frames fs b = Some (Inr b')
     \<and> readVideoLoop inp a b = Some (Inr (acks_from a (length fs), e, b')) \<and> bridge_ok b' \<and> same_screen b b'"
proof (induction fuel arbitrary: inp a b)
  case (Suc fuel)
  obtain r rest where r: "ReadAVPTFrame inp = (r, rest)" by fastforce
  show ?case
  proof (cases r)
    case (Inl e)
    then show ?thesis using r Suc.prems by (subst readVideoLoop.simps) (simp add: acks_from_def same_screen_def)
  next
    case (Inr f)
    obtain b1 where b1: "handleVideoFrame f b = Some (Inr b1)" "bridge_ok b1" "same_screen b b1"
      using handleVideoFrame_ok [OF Suc.prems(1)] by blast
    have "length rest < fuel" using avpt.rd_shrinks [of inp f rest] r Inr Suc.prems by simp
    from Suc.IH [OF b1(2) this, of "a + 1"] obtain fs e b' where
      "read_all ReadAVPTFrame fuel rest = Some (fs, e)" "handle_frames fs b1 = Some (Inr b')"
      "readVideoLoop rest (a + 1) b1 = Some (Inr (acks_from (a + 1) (length fs), e, b'))" "bridge_ok b'" "same_screen b1 b'" by blast
    then show ?thesis using r Inr b1 same_screen_trans [OF b1(3)] by (subst readVideoLoop.simps) (simp add: acks_from_Suc Let_def)
  qed
qed simp

section \<open>Lemmas: messages to the browser\<close>

lemma length_pixel_rgba [simp]: "length (pixel_rgba p) = 4"
  by (simp add: pixel_rgba_def)

lemma length_rgba_list [simp]: "length (concat (map pixel_rgba ps)) = 4 * length ps"
  by (induction ps) auto

lemma copy_to_middle:
  "length pre = lo \<Longrightarrow> length new = n \<Longrightarrow> hi = lo + n \<Longrightarrow> length old = n \<Longrightarrow> copy_to lo hi new (pre @ old @ post) = pre @ new @ post"
  by (simp add: copy_to_def)

lemma put_pixels_fits:
  "length pre = 8 + i * 4 \<Longrightarrow> put_pixels i ps (pre @ replicate (4 * n) 0)
     = (if length ps \<le> n then Inr (pre @ concat (map pixel_rgba ps) @ replicate (4 * (n - length ps)) 0) else Inl pixel_panic)"
proof (induction ps arbitrary: i pre n)
  case (Cons p ps)
  show ?case
  proof (cases n)
    case (Suc m)
    have "replicate (4 * n) (0 :: byte) = replicate 4 0 @ replicate (4 * m) 0" by (simp add: Suc replicate_add [symmetric])
    moreover have "copy_to (8 + i * 4) (8 + i * 4 + 4) (pixel_rgba p) (pre @ replicate 4 0 @ replicate (4 * m) 0)
        = (pre @ pixel_rgba p) @ replicate (4 * m) 0" using Cons.prems by (subst copy_to_middle) simp_all
    ultimately show ?thesis using Cons.IH [of "pre @ pixel_rgba p" "i + 1" m] Cons.prems by (simp add: Suc Let_def)
  qed (use Cons.prems in \<open>simp add: Let_def\<close>)
qed simp

definition fb_header :: "Framebuffer \<Rightarrow> bytes" where
  "fb_header fb = str_bytes ''IKVM'' @ putBE16 (word_of_int (fb_W fb)) @ putBE16 (word_of_int (fb_H fb))"

lemma length_fb_header [simp]: "length (fb_header fb) = 8"
  by (simp add: fb_header_def str_bytes_def putBE16_def)

lemma serializeFB_layout:
  assumes "0 \<le> fb_W fb" "0 \<le> fb_H fb"
  shows "serializeFB fb =
    (if npix fb \<le> fb_W fb * fb_H fb
     then Inr (fb_header fb @ concat (map pixel_rgba (fb_Pixels fb)) @ replicate (4 * (nat (fb_W fb * fb_H fb) - length (fb_Pixels fb))) 0)
     else Inl pixel_panic)"
proof -
  let ?n = "nat (fb_W fb * fb_H fb)"
  have n: "0 \<le> fb_W fb * fb_H fb" using assms by simp
  then have l: "nat (8 + 4 * fb_W fb * fb_H fb) = 8 + 4 * ?n" "\<not> 8 + 4 * fb_W fb * fb_H fb < 0"
    by (simp_all add: mult.assoc nat_add_distrib nat_mult_distrib)
  have b: "mk_buf (8 + 4 * ?n) = replicate 8 0 @ replicate (4 * ?n) 0" by (simp only: mk_buf_def replicate_add)
  have h: "copy_to 6 8 (putBE16 h) (copy_to 4 6 (putBE16 w) (copy_to 0 4 (str_bytes ''IKVM'') (replicate 8 0 @ r)))
      = (str_bytes ''IKVM'' @ putBE16 w @ putBE16 h) @ r" for w h and r :: bytes
    by (simp add: copy_to_def str_bytes_def putBE16_def numeral_eq_Suc)
  have "serializeFB fb = put_pixels 0 (fb_Pixels fb) (fb_header fb @ replicate (4 * ?n) 0)"
    unfolding serializeFB_def if_not_P [OF l(2)] Let_def l(1) b h fb_header_def ..
  also have "\<dots> = (if length (fb_Pixels fb) \<le> ?n then Inr (fb_header fb @ concat (map pixel_rgba (fb_Pixels fb)) @ replicate (4 * (?n - length (fb_Pixels fb))) 0)
      else Inl pixel_panic)" by (rule put_pixels_fits) simp
  also have "length (fb_Pixels fb) \<le> ?n \<longleftrightarrow> npix fb \<le> fb_W fb * fb_H fb" using n by linarith
  finally show ?thesis .
qed

lemma be32_rgba: "be32 [pixel_rgba p ! 3, pixel_rgba p ! 0, pixel_rgba p ! 1, pixel_rgba p ! 2] = p"
  using be32_putBE32 [of p] by (simp add: pixel_rgba_def putBE32_def)

lemma nth_rgba_list: "i < length ps \<Longrightarrow> k < 4 \<Longrightarrow> concat (map pixel_rgba ps) ! (4 * i + k) = pixel_rgba (ps ! i) ! k"
proof (induction ps arbitrary: i)
  case (Cons p ps)
  then show ?case by (cases i) (auto simp: nth_append)
qed simp

lemma cursor_message:
  assumes "length p = 8 + 4 * unat w * unat h" "take 8 p = putBE16 hx @ putBE16 hy @ putBE16 w @ putBE16 h"
  shows "handleCursorShape \<lparr>a_ID = 136, a_Payload = p @ extra\<rparr> b = broadcast (str_bytes ''CURS'' @ p) b"
proof -
  let ?n = "4 * unat w * unat h"
  define px where "px = drop 8 p"
  have p: "p = putBE16 hx @ putBE16 hy @ putBE16 w @ putBE16 h @ px" using append_take_drop_id [of 8 p] assms(2) by (simp add: px_def)
  have px: "length px = ?n" using assms(1) by (simp add: px_def)
  have f: "be16 (slice 0 2 (p @ extra)) = hx" "be16 (slice 2 4 (p @ extra)) = hy" "be16 (slice 4 6 (p @ extra)) = w" "be16 (slice 6 8 (p @ extra)) = h"
    by (simp_all add: p slice_def putBE16_def) (simp_all add: be16_putBE16 [unfolded putBE16_def])
  have l: "\<not> length (p @ extra) < 8" "\<not> length (p @ extra) < 8 + unat w * unat h * 4" using assms(1) by simp_all
  have b: "mk_buf (12 + unat w * unat h * 4) = replicate 12 0 @ replicate ?n 0" by (simp add: mk_buf_def replicate_add mult.commute mult.left_commute)
  have c: "copy_from 12 (drop 8 (p @ extra)) (hd12 @ replicate ?n 0) = hd12 @ px" if "length hd12 = 12" for hd12
    using that px assms(1) by (simp add: copy_from_def copy_to_def p putBE16_def)
  let ?hdr = "str_bytes ''CURS'' @ putBE16 hx @ putBE16 hy @ putBE16 w @ putBE16 h"
  have h: "copy_to 10 12 (putBE16 h) (copy_to 8 10 (putBE16 w) (copy_to 6 8 (putBE16 hy) (copy_to 4 6 (putBE16 hx)
      (copy_to 0 4 (str_bytes ''CURS'') (replicate 12 0 @ r))))) = ?hdr @ r" for r :: bytes
    by (simp add: copy_to_def str_bytes_def putBE16_def numeral_eq_Suc)
  have "length ?hdr = 12" by (simp add: str_bytes_def putBE16_def)
  from c [OF this] show ?thesis
    unfolding handleCursorShape_def Let_def AVPTFrame.simps if_not_P [OF l(1)] f if_not_P [OF l(2)] b of_nat_unat ucast_id h
    by (simp add: p)
qed

lemma new_bridge_ok: "0 < w \<Longrightarrow> 0 < h \<Longrightarrow> bridge_ok (new_bridge w h)"
  by (simp add: bridge_ok_def new_bridge_def NewFramebuffer_def fb_ok_def fb_rect_def NewDecoder_def decoder_ok_def cache_ok_def NewAvocentDecoder_def)

section \<open>Lemmas: tile fragments\<close>

abbreviation (input) tile_frame :: "bytes \<Rightarrow> AVPTFrame" where "tile_frame p \<equiv> \<lparr>a_ID = 134, a_Payload = p\<rparr>"

definition starts_packet :: "bytes \<Rightarrow> bool" where
  "starts_packet p \<longleftrightarrow> 12 \<le> length p \<and> p ! 8 AND 1 \<noteq> 0"

definition continues_packet :: "bytes \<Rightarrow> bool" where
  "continues_packet p \<longleftrightarrow> 12 \<le> length p \<and> p ! 8 AND 1 = 0"

lemma handle_frames_append:
  "handle_frames fs b = Some (Inr b') \<Longrightarrow> handle_frames (fs @ gs) b = handle_frames gs b'"
  by (induction fs arbitrary: b) (auto split: option.splits sum.splits)

lemma tile_frame_handled: "12 \<le> length p \<Longrightarrow> handleVideoFrame (tile_frame p) b = handle_tile p b"
  by (simp add: handleVideoFrame_def Let_def)

lemma continuations_append:
  "list_all continues_packet qs \<Longrightarrow> b_avoAgg b \<noteq> [] \<Longrightarrow>
    handle_frames (map tile_frame qs) b = Some (Inr (b\<lparr>b_avoAgg := b_avoAgg b @ concat (map (drop 12) qs)\<rparr>))"
proof (induction qs arbitrary: b)
  case (Cons q qs)
  then have "handleVideoFrame (tile_frame q) b = Some (Inr (b\<lparr>b_avoAgg := b_avoAgg b @ drop 12 q\<rparr>))"
    by (simp add: tile_frame_handled handle_tile_def continues_packet_def)
  then show ?case using Cons.IH [of "b\<lparr>b_avoAgg := b_avoAgg b @ drop 12 q\<rparr>"] Cons.prems by simp
qed simp

lemma packet_collected:
  assumes "starts_packet p" "list_all continues_packet qs" "b_avoAgg b = []"
  shows "handle_frames (map tile_frame (p # qs)) b = Some (Inr (b\<lparr>b_avoAgg := p @ concat (map (drop 12) qs)\<rparr>))"
proof -
  have "p \<noteq> []" using assms(1) by (auto simp: starts_packet_def)
  then show ?thesis using assms continuations_append [of qs "b\<lparr>b_avoAgg := p\<rparr>"]
    by (simp add: tile_frame_handled handle_tile_def starts_packet_def)
qed

section \<open>Lemmas: browser events\<close>

definition event_frames :: "ws_event \<Rightarrow> AVPTFrame list" where
  "event_frames evt =
     (if ev_Type evt = ''key'' then
        [\<lparr>a_ID = 512, a_Payload = [0, if ev_Pressed evt then 0 else 1] @ putBE16 (ev_Key evt) @ replicate 4 0\<rparr>]
      else if ev_Type evt = ''mouse'' then
        [\<lparr>a_ID = 513, a_Payload = [0, ev_Buttons evt] @ putBE16 (word_of_int (max 0 (ev_X evt))) @ putBE16 (word_of_int (max 0 (ev_Y evt)))
           @ putBE16 (word_of_int (ev_Wheel evt))\<rparr>]
      else if ev_Type evt = ''refresh'' then
        [\<lparr>a_ID = 782, a_Payload = [1, 1, 0, 0, 0, 0, 0, 0]\<rparr>, \<lparr>a_ID = 772, a_Payload = replicate 8 0\<rparr>]
      else [])"

lemma event_writes_frames: "event_writes evt = map AVPTEncode (event_frames evt)"
  by (simp add: event_writes_def event_frames_def KeyEvent_layout MouseAbsolute_layout refresh_frames_def mk_buf_def)

lemma event_frames_short: "f \<in> set (event_frames evt) \<Longrightarrow> length (a_Payload f) < 65528"
  by (auto simp: event_frames_def putBE16_def split: if_splits)

lemma readWS_frames: "readWS unmarshal msgs = map AVPTEncode (concat (map event_frames (List.map_filter unmarshal msgs)))"
  by (induction msgs) (auto simp: event_writes_frames map_filter_simps split: option.splits)

section \<open>Properties\<close>



text \<open>C12: Fragment reassembly.  A tile packet that arrives as a start fragment and any number of continuations is not decoded while it
  arrives; when the next packet starts, the decoder runs once, on the start fragment followed by the bodies of the continuations in order,
  and the aggregate is replaced by the new packet.\<close>

theorem fragments_reassemble:
  assumes "bridge_ok b" "b_avoAgg b = []" "starts_packet p" "list_all continues_packet qs" "starts_packet s"
  shows "handle_frames (map tile_frame (p # qs)) b = Some (Inr (b\<lparr>b_avoAgg := p @ concat (map (drop 12) qs)\<rparr>))
    \<and> (\<exists>n fb d. avo_DecodePacket (b_fb b) (p @ concat (map (drop 12) qs)) (b_decAvo b) = Some (Inr (n, fb), d)
        \<and> handle_frames (map tile_frame (p # qs @ [s])) b = Some (Inr (b\<lparr>b_fb := fb, b_decAvo := d, b_avoAgg := s\<rparr>)))"
proof -
  let ?agg = "p @ concat (map (drop 12) qs)" and ?b = "b\<lparr>b_avoAgg := p @ concat (map (drop 12) qs)\<rparr>"
  note c = packet_collected [OF assms(3,4,2)]
  have "bridge_ok ?b" using assms(1) by (simp add: bridge_ok_def)
  from decode_avo_ok [OF this, of ?agg] obtain n fb d where
    d: "avo_DecodePacket (b_fb b) ?agg (b_decAvo b) = Some (Inr (n, fb), d)" "decode_avo ?agg ?b = Some (Inr (?b\<lparr>b_fb := fb, b_decAvo := d\<rparr>))"
    by auto
  have "?agg \<noteq> []" using assms(3) by (auto simp: starts_packet_def)
  then have "handle_frames [tile_frame s] ?b = Some (Inr (b\<lparr>b_fb := fb, b_decAvo := d, b_avoAgg := s\<rparr>))"
    using assms(5) d(2) by (simp add: tile_frame_handled handle_tile_def starts_packet_def)
  then have "handle_frames (map tile_frame (p # qs @ [s])) b = Some (Inr (b\<lparr>b_fb := fb, b_decAvo := d, b_avoAgg := s\<rparr>))"
    using handle_frames_append [OF c, of "[tile_frame s]"] by simp
  with c d(1) show ?thesis by blast
qed

theorem fragments_reassemble_witness:
  "\<exists>b'. handle_frames (map tile_frame (replicate 12 1 # [replicate 12 0 @ [7, 8]])) (new_bridge 16 16) = Some (Inr b')
     \<and> b_avoAgg b' = replicate 12 1 @ [7, 8]"
proof -
  have p: "starts_packet (replicate 12 1)" "list_all continues_packet [replicate 12 0 @ [7, 8]]" "b_avoAgg (new_bridge 16 16) = []"
    by (simp_all add: starts_packet_def continues_packet_def nth_append new_bridge_def)
  from conjunct1 [OF fragments_reassemble [OF new_bridge_ok [of 16 16] p(3,1,2,1)]] show ?thesis by auto
qed

text \<open>C36: The browser sees the framebuffer.  Serialising a framebuffer panics exactly when it holds more pixels than its dimensions say;
  otherwise the message has the magic and the dimensions, and every pixel can be read back from its RGBA bytes.\<close>

theorem serialize_faithful:
  assumes "0 \<le> fb_W fb" "0 \<le> fb_H fb"
  shows "if npix fb \<le> fb_W fb * fb_H fb
    then \<exists>buf. serializeFB fb = Inr buf \<and> int (length buf) = 8 + 4 * fb_W fb * fb_H fb \<and> take 4 buf = str_bytes ''IKVM''
      \<and> be16 (slice 4 6 buf) = word_of_int (fb_W fb) \<and> be16 (slice 6 8 buf) = word_of_int (fb_H fb)
      \<and> (\<forall>i < length (fb_Pixels fb).
           be32 [buf ! (8 + 4 * i + 3), buf ! (8 + 4 * i), buf ! (8 + 4 * i + 1), buf ! (8 + 4 * i + 2)] = fb_Pixels fb ! i)
    else serializeFB fb = Inl (Panic ''index out of range'')"
proof (cases "npix fb \<le> fb_W fb * fb_H fb")
  case True
  let ?buf = "fb_header fb @ concat (map pixel_rgba (fb_Pixels fb)) @ replicate (4 * (nat (fb_W fb * fb_H fb) - length (fb_Pixels fb))) 0"
  have s: "serializeFB fb = Inr ?buf" using serializeFB_layout [OF assms] True by simp
  have "0 \<le> fb_W fb * fb_H fb" using assms by simp
  then have l: "int (length ?buf) = 8 + 4 * fb_W fb * fb_H fb" using True by (simp add: of_nat_diff nat_le_iff le_nat_iff algebra_simps)
  have h: "take 4 ?buf = str_bytes ''IKVM''" "slice 4 6 ?buf = putBE16 (word_of_int (fb_W fb))" "slice 6 8 ?buf = putBE16 (word_of_int (fb_H fb))"
    by (simp_all add: fb_header_def str_bytes_def putBE16_def slice_def numeral_eq_Suc)
  have p: "?buf ! (8 + 4 * i + k) = pixel_rgba (fb_Pixels fb ! i) ! k" if "i < length (fb_Pixels fb)" "k < 4" for i k
    using that nth_rgba_list [OF that] by (simp add: nth_append add.assoc)
  have "be32 [?buf ! (8 + 4 * i + 3), ?buf ! (8 + 4 * i), ?buf ! (8 + 4 * i + 1), ?buf ! (8 + 4 * i + 2)] = fb_Pixels fb ! i"
    if "i < length (fb_Pixels fb)" for i
    using p [OF that, of 3] p [OF that, of 0] p [OF that, of 1] p [OF that, of 2] be32_rgba [of "fb_Pixels fb ! i"] by simp
  then show ?thesis using True s l h by (intro iffD2 [OF if_P] exI [of _ ?buf]) (simp_all add: be16_putBE16)
next
  case False
  then show ?thesis using serializeFB_layout [OF assms] by simp
qed

theorem serialize_faithful_witness:
  "\<exists>buf. serializeFB (NewFramebuffer 2 1) = Inr buf \<and> length buf = 16"
  using serialize_faithful [of "NewFramebuffer 2 1"] by (auto simp: NewFramebuffer_def)

text \<open>One tick of the push loop.  When the framebuffer is dirty the flag is cleared and every subscriber whose channel has room gets the
  serialised framebuffer as its newest message; a subscriber with four messages pending gets nothing, and since the flag is now clear
  further ticks do nothing: a slow browser misses the last frame of a burst for good when the screen then stays still.\<close>

theorem push_tick_delivery:
  assumes "bridge_ok b" "fb_Dirty (b_fb b)"
  shows "\<exists>b' buf. push_tick b = Inr b' \<and> serializeFB (b_fb b) = Inr buf \<and> \<not> fb_Dirty (b_fb b') \<and> fb_Pixels (b_fb b') = fb_Pixels (b_fb b)
    \<and> (\<forall>k < length (b_subs b). sub_send (b_subs b' ! k) = sub_send (b_subs b ! k) @ (if length (sub_send (b_subs b ! k)) < 4 then [buf] else []))
    \<and> push_tick b' = Inr b'"
proof -
  let ?fb = "(b_fb b)\<lparr>fb_Dirty := False\<rparr>"
  have r: "0 \<le> fb_W (b_fb b)" "0 \<le> fb_H (b_fb b)" "npix (b_fb b) \<le> fb_W (b_fb b) * fb_H (b_fb b)"
    using assms(1) by (simp_all add: bridge_ok_def fb_rect_def)
  have "fb_header ?fb = fb_header (b_fb b)" by (simp add: fb_header_def)
  then have "serializeFB ?fb = serializeFB (b_fb b)" using r by (simp add: serializeFB_layout)
  moreover obtain buf where "serializeFB (b_fb b) = Inr buf" using r by (simp add: serializeFB_layout)
  ultimately show ?thesis using assms(2)
    by (intro exI [of _ "broadcast buf (b\<lparr>b_fb := ?fb\<rparr>)"] exI [of _ buf]) (simp add: push_tick_def broadcast_def offer_def)
qed

theorem push_tick_delivery_witness:
  "\<exists>b' buf. push_tick ((new_bridge 2 2)\<lparr>b_fb := (NewFramebuffer 2 2)\<lparr>fb_Dirty := True\<rparr>, b_subs := [\<lparr>sub_send = replicate 4 [1]\<rparr>, \<lparr>sub_send = []\<rparr>]\<rparr>) = Inr b'
     \<and> sub_send (b_subs b' ! 0) = replicate 4 [1] \<and> sub_send (b_subs b' ! 1) = [buf] \<and> push_tick b' = Inr b'"
proof -
  let ?b = "(new_bridge 2 2)\<lparr>b_fb := (NewFramebuffer 2 2)\<lparr>fb_Dirty := True\<rparr>, b_subs := [\<lparr>sub_send = replicate 4 [1]\<rparr>, \<lparr>sub_send = []\<rparr>]\<rparr>"
  have "bridge_ok ?b" using new_bridge_ok [of 2 2] by (simp add: bridge_ok_def new_bridge_def NewFramebuffer_def fb_ok_def fb_rect_def)
  from push_tick_delivery [OF this] obtain b' buf where r: "push_tick ?b = Inr b'" "push_tick b' = Inr b'"
    and k: "\<forall>k < Suc (Suc 0). sub_send (b_subs b' ! k) = sub_send (b_subs ?b ! k) @ (if length (sub_send (b_subs ?b ! k)) < 4 then [buf] else [])" by auto
  from k have "sub_send (b_subs b' ! 0) = replicate 4 [1]" "sub_send (b_subs b' ! 1) = [buf]" by simp_all
  with r show ?thesis by blast
qed

text \<open>A palette frame that updates slots \<open>start\<close> to \<open>start + count - 1\<close> sets exactly these to the transmitted colours and keeps the later
  ones, but clears every slot before \<open>start\<close> to transparent black instead of keeping it.\<close>

theorem palette_update_slots:
  assumes "decoder_ok (b_dec7p b)" "10 \<le> length p" "0 < unat (p ! 9)" "unat (p ! 8) + unat (p ! 9) \<le> 128"
    "unat (p ! 9) * 3 \<le> length p - 10"
  shows "\<exists>pal. handlePaletteUpdate \<lparr>a_ID = 138, a_Payload = p\<rparr> b = b\<lparr>b_dec7p := (b_dec7p b)\<lparr>d_palette := Some pal\<rparr>\<rparr> \<and> length pal = 128
    \<and> (\<forall>i < 128. pal ! i =
         (if i < unat (p ! 8) then 0
          else if i < unat (p ! 8) + unat (p ! 9)
            then palette_entry (if unat (p ! 9) * 4 \<le> length p - 10 then 4 else 3) (drop 10 p) (i - unat (p ! 8))
          else (case d_palette (b_dec7p b) of None \<Rightarrow> paletteC7 | Some q \<Rightarrow> q) ! i))"
proof -
  let ?s = "unat (p ! 8)" and ?n = "unat (p ! 9)" and ?es = "if unat (p ! 9) * 4 \<le> length p - 10 then 4 else 3 :: nat"
  define old where "old = (case d_palette (b_dec7p b) of None \<Rightarrow> paletteC7 | Some q \<Rightarrow> q)"
  let ?new = "replicate ?s 0 @ map (palette_entry ?es (drop 10 p)) [0..<?n]"
  have g: "\<not> length p < 10" "\<not> 128 < int ?s + int ?n" "\<not> int ?n \<le> 0" "\<not> (\<not> ?n * 4 \<le> length p - 10 \<and> length p - 10 < ?n * 3)"
    using assms(2-5) by linarith+
  have o: "length old = 128" using assms(1) by (auto simp: old_def decoder_ok_def split: option.splits)
  have "handlePaletteUpdate \<lparr>a_ID = 138, a_Payload = p\<rparr> b = b\<lparr>b_dec7p := SetPalette ?new (b_dec7p b)\<rparr>"
    unfolding handlePaletteUpdate_def Let_def AVPTFrame.simps if_not_P [OF g(1)] if_not_P [OF g(2)] if_not_P [OF g(3)] nat_int length_drop
      if_not_P [OF g(4)] ..
  also have "SetPalette ?new (b_dec7p b) = (b_dec7p b)\<lparr>d_palette := Some (?new @ drop (?s + ?n) old)\<rparr>"
    using assms(4) by (simp add: SetPalette_def Let_def copy_to_def old_def [symmetric])
  finally show ?thesis using o assms(4) unfolding old_def [symmetric]
    by (intro exI [of _ "?new @ drop (?s + ?n) old"]) (auto simp: nth_append)
qed

theorem palette_update_slots_witness:
  "\<exists>pal. handlePaletteUpdate \<lparr>a_ID = 138, a_Payload = replicate 8 0 @ [2, 1, 10, 20, 30]\<rparr> (new_bridge 2 2)
      = (new_bridge 2 2)\<lparr>b_dec7p := (b_dec7p (new_bridge 2 2))\<lparr>d_palette := Some pal\<rparr>\<rparr>
    \<and> pal ! 1 = 0 \<and> pal ! 2 = 0xFF0A141E \<and> paletteC7 ! 1 \<noteq> 0"
proof -
  define p :: bytes where "p = replicate 8 0 @ [2, 1, 10, 20, 30]"
  have d: "decoder_ok (b_dec7p (new_bridge 2 2))" by (simp add: new_bridge_def NewDecoder_def decoder_ok_def)
  have p: "10 \<le> length p" "p ! 9 = 1" "p ! 8 = 2" "drop 10 p = [10, 20, 30]" "length p - 10 = 3" by (simp_all add: p_def nth_append)
  have e: "palette_entry 3 [10, 20, 30] 0 = 0xFF0A141E" "paletteC7 ! 1 \<noteq> 0" by code_simp+
  from palette_update_slots [OF d p(1), unfolded p] obtain pal where
    "handlePaletteUpdate \<lparr>a_ID = 138, a_Payload = p\<rparr> (new_bridge 2 2) = (new_bridge 2 2)\<lparr>b_dec7p := (b_dec7p (new_bridge 2 2))\<lparr>d_palette := Some pal\<rparr>\<rparr>"
    "pal ! 1 = 0" "pal ! 2 = palette_entry 3 [10, 20, 30] 0" by auto
  with e show ?thesis unfolding p_def by auto
qed

text \<open>A cursor frame reaches every browser with room in its channel as the magic followed by the frame's hotspot, dimensions and pixels,
  without the bytes that follow the bitmap.\<close>

theorem cursor_shape_broadcast:
  assumes "length p = 8 + 4 * unat w * unat h" "take 8 p = putBE16 hx @ putBE16 hy @ putBE16 w @ putBE16 h"
  shows "handleVideoFrame \<lparr>a_ID = 136, a_Payload = p @ extra\<rparr> b
    = Some (Inr (b\<lparr>b_subs := map (\<lambda>s. if length (sub_send s) < 4 then s\<lparr>sub_send := sub_send s @ [str_bytes ''CURS'' @ p]\<rparr> else s) (b_subs b)\<rparr>))"
  using cursor_message [OF assms] by (simp add: handleVideoFrame_def Let_def broadcast_def offer_def [abs_def])

theorem cursor_shape_broadcast_witness:
  "handleVideoFrame \<lparr>a_ID = 136, a_Payload = [0, 1, 0, 2, 0, 1, 0, 1, 9, 8, 7, 6] @ [5]\<rparr> ((new_bridge 2 2)\<lparr>b_subs := [\<lparr>sub_send = []\<rparr>]\<rparr>)
    = Some (Inr ((new_bridge 2 2)\<lparr>b_subs := [\<lparr>sub_send = [str_bytes ''CURS'' @ [0, 1, 0, 2, 0, 1, 0, 1, 9, 8, 7, 6]]\<rparr>]\<rparr>))"
  using cursor_shape_broadcast [of "[0, 1, 0, 2, 0, 1, 0, 1, 9, 8, 7, 6]" 1 1 1 2 "[5]" "(new_bridge 2 2)\<lparr>b_subs := [\<lparr>sub_send = []\<rparr>]\<rparr>"]
  by (simp add: putBE16_def)

text \<open>C37: Browser input reaches the controller.  For any messages from a browser, reading the bytes the bridge writes to the session yields
  exactly the key, pointer and refresh frames of the events that parse, in the order they were sent, and nothing else.\<close>

theorem browser_events_reach_bmc:
  assumes "length (concat (readWS unmarshal msgs)) < fuel"
  shows "read_all ReadAVPTFrame fuel (concat (readWS unmarshal msgs)) = Some (concat (map event_frames (List.map_filter unmarshal msgs)), EOF)"
proof -
  let ?fs = "concat (map event_frames (List.map_filter unmarshal msgs))"
  have ok: "list_all (\<lambda>f. length (a_Payload f) < 65528) ?fs" by (auto simp: list_all_iff event_frames_short)
  have "length fs \<le> length (concat (map AVPTEncode fs))" for fs by (induction fs) auto
  then have "length ?fs < fuel" using assms le_less_trans unfolding readWS_frames by blast
  from avpt.read_all_frames [OF ok this] show ?thesis by (simp add: readWS_frames)
qed

theorem browser_events_reach_bmc_witness:
  "read_all ReadAVPTFrame 100 (concat (readWS (\<lambda>m. if m = [] then None else Some \<lparr>ev_Type = ''key'', ev_Key = 30, ev_Pressed = True, ev_X = 0,
       ev_Y = 0, ev_Buttons = 0, ev_Wheel = 0\<rparr>) [[], [1]])) = Some ([\<lparr>a_ID = 512, a_Payload = [0, 0] @ putBE16 30 @ replicate 4 0\<rparr>], EOF)"
  using browser_events_reach_bmc [of "\<lambda>m. if m = [] then None else Some \<lparr>ev_Type = ''key'', ev_Key = 30, ev_Pressed = True, ev_X = 0,
       ev_Y = 0, ev_Buttons = 0, ev_Wheel = 0\<rparr>" "[[], [1]]" 100]
  by (simp add: event_writes_frames event_frames_def List.map_filter_simps length_AVPTEncode putBE16_def)

end
