(* ===== verification/Vcard_Session.thy ===== *)
theory Vcard_Session
  imports Apcp_Frame
begin

text \<open>
  Virtual smart-card passthrough (\<open>internal/vcard/vcard.go\<close>).  The \<open>Reader\<close> interface is a record of
  operations over a card state \<open>'c\<close>: presence and the answer-to-reset are looked up, \<open>Transmit\<close> answers
  an APDU and moves the card.  \<open>int\<close> is the 64-bit Go integer, so the declared length never wraps.
\<close>

record 'c Reader =
  rd_Transmit :: "bytes \<Rightarrow> 'c \<Rightarrow> bytes result \<times> 'c"
  rd_Present :: "'c \<Rightarrow> bool"
  rd_ATR :: "'c \<Rightarrow> bytes"

definition buildDataBlock :: "u16 \<Rightarrow> bytes \<Rightarrow> Frame" where
  "buildDataBlock seq resp =
     (let body = mk_buf (6 + length resp);
          body = copy_to 0 2 (putBE16 seq) body;
          body = copy_to 2 6 (putBE32 (of_nat (length resp))) body;
          body = copy_from 6 resp body
      in \<lparr>f_Type = 0x0301, f_Payload = body\<rparr>)"

definition HandleVcardXferBlock :: "'c Reader \<Rightarrow> bytes \<Rightarrow> 'c \<Rightarrow> Frame result \<times> 'c" where
  "HandleVcardXferBlock rd payload c =
     (if length payload < 6 then
        (Inl (Errorf (''vcard: XFER_BLOCK too short: '' @ dec (length payload))), c)
      else
        let seq = be16 (slice 0 2 payload);
            apduLen = unat (be32 (slice 2 6 payload))
        in if length payload < 6 + apduLen then
             (Inl (Errorf (''vcard: APDU truncated: got '' @ dec (length payload - 6) @ '', need '' @ dec apduLen)), c)
           else
             let apdu = slice 6 (6 + apduLen) payload
             in if \<not> rd_Present rd c then (Inr (buildDataBlock seq [0x64, 0x00]), c)
                else (case rd_Transmit rd apdu c of
                        (Inl err, c') \<Rightarrow> (Inr (buildDataBlock seq [0x6F, 0x00]), c')
                      | (Inr resp, c') \<Rightarrow> (Inr (buildDataBlock seq resp), c')))"

definition SendVcardRequest :: "'c Reader \<Rightarrow> u16 \<Rightarrow> 'c \<Rightarrow> Frame" where
  "SendVcardRequest rd readerID c =
     (let flags = (if rd_Present rd c then 0x01 else 0);
          atr = (if rd_Present rd c then rd_ATR rd c else []);
          body = mk_buf (7 + length atr);
          body = copy_to 0 2 (putBE16 readerID) body;
          body = body[2 := flags];
          body = copy_to 3 7 (putBE32 (of_nat (length atr))) body;
          body = copy_from 7 atr body
      in \<lparr>f_Type = 0x0213, f_Payload = body\<rparr>)"

fun cStringLen_from :: "nat \<Rightarrow> bytes \<Rightarrow> nat" where
  "cStringLen_from i [] = i"
| "cStringLen_from i (c # b) = (if c = 0 then i else cStringLen_from (Suc i) b)"

definition cStringLen :: "bytes \<Rightarrow> nat" where
  "cStringLen b = cStringLen_from 0 b"

section \<open>What the BMC sees\<close>

text \<open>The layout of the two block messages, as their comments give it: sequence, length, bytes.\<close>

definition xfer_block :: "u16 \<Rightarrow> bytes \<Rightarrow> bytes" where
  "xfer_block seq data = putBE16 seq @ putBE32 (of_nat (length data)) @ data"

definition card_answer :: "'c Reader \<Rightarrow> bytes \<Rightarrow> 'c \<Rightarrow> bytes \<times> 'c" where
  "card_answer rd apdu c =
     (if \<not> rd_Present rd c then ([0x64, 0x00], c)
      else (case rd_Transmit rd apdu c of (Inl e, c') \<Rightarrow> ([0x6F, 0x00], c') | (Inr r, c') \<Rightarrow> (r, c')))"

text \<open>A run of the handler over the blocks of a session, and the same run on the card alone.\<close>

fun xfer_run :: "'c Reader \<Rightarrow> bytes list \<Rightarrow> 'c \<Rightarrow> Frame result list \<times> 'c" where
  "xfer_run rd [] c = ([], c)"
| "xfer_run rd (p # ps) c =
     (let (r, c) = HandleVcardXferBlock rd p c; (rs, c) = xfer_run rd ps c in (r # rs, c))"

fun card_run :: "'c Reader \<Rightarrow> bytes list \<Rightarrow> 'c \<Rightarrow> bytes list \<times> 'c" where
  "card_run rd [] c = ([], c)"
| "card_run rd (a # as) c = (let (r, c) = card_answer rd a c; (rs, c) = card_run rd as c in (r # rs, c))"

section \<open>Lemmas\<close>

lemma buildDataBlock_layout: "buildDataBlock seq resp = \<lparr>f_Type = 0x0301, f_Payload = xfer_block seq resp\<rparr>"
  unfolding buildDataBlock_def Let_def xfer_block_def by (simp add: layout_simps)

lemma SendVcardRequest_layout:
  "SendVcardRequest rd i c = \<lparr>f_Type = 0x0213, f_Payload =
     (let atr = (if rd_Present rd c then rd_ATR rd c else [])
      in putBE16 i @ [if rd_Present rd c then 1 else 0] @ putBE32 (of_nat (length atr)) @ atr)\<rparr>"
  unfolding SendVcardRequest_def Let_def by (simp add: layout_simps)

lemma HandleVcardXferBlock_block:
  assumes "length apdu < 2 ^ 32"
  shows "HandleVcardXferBlock rd (xfer_block seq apdu @ rest) c
    = (let (r, c') = card_answer rd apdu c in (Inr \<lparr>f_Type = 0x0301, f_Payload = xfer_block seq r\<rparr>, c'))"
proof -
  let ?p = "xfer_block seq apdu @ rest"
  have s: "slice 0 2 ?p = putBE16 seq" "slice 2 6 ?p = putBE32 (of_nat (length apdu))"
    "slice 6 (6 + length apdu) ?p = apdu"
    by (simp_all add: xfer_block_def slice_def)
  have l: "length ?p = 6 + length apdu + length rest" by (simp add: xfer_block_def)
  have u: "unat (of_nat (length apdu) :: u32) = length apdu" using assms by simp
  show ?thesis
    unfolding HandleVcardXferBlock_def card_answer_def Let_def l s be16_putBE16 be32_putBE32 u
      buildDataBlock_layout
    by (cases "rd_Transmit rd apdu c") (auto split: sum.split)
qed

lemma cStringLen_from_takeWhile: "cStringLen_from i b = i + length (takeWhile (\<lambda>c. c \<noteq> 0) b)"
  by (induction b arbitrary: i) auto

lemma cStringLen_spec: "take (cStringLen b) b = takeWhile (\<lambda>c. c \<noteq> 0) b"
  using takeWhile_eq_take [of "\<lambda>c. c \<noteq> 0" b] by (simp add: cStringLen_def cStringLen_from_takeWhile)

section \<open>Properties\<close>


definition demo_reader :: "nat Reader" where
  "demo_reader = \<lparr>rd_Transmit = (\<lambda>a n. (if a = [] then Inl (NetErr ''card'') else Inr (a @ [0x90, of_nat n]), n + 1)),
     rd_Present = (\<lambda>n. n < 2), rd_ATR = (\<lambda>n. [0x3B])\<rparr>"


text \<open>A transfer block is refused, without a frame being sent to the card, exactly when it is
  shorter than its six-byte header or than the APDU length it declares; every other block is answered.\<close>

theorem vcard_refuses_iff:
  "(\<exists>e. HandleVcardXferBlock rd payload c = (Inl e, c'))
     \<longleftrightarrow> (length payload < 6 \<or> length payload < 6 + unat (be32 (slice 2 6 payload))) \<and> c' = c"
  by (auto simp: HandleVcardXferBlock_def Let_def split: prod.splits sum.splits)

end
