(* ===== verification/Vm_Session.thy ===== *)
theory Vm_Session
  imports Vcard_Session
begin

text \<open>
  The virtual-media client (\<open>internal/vm/vm.go\<close>): media images, the AVMP request handlers, and the
  session loop.  An open image is its content; a failing file operation is an entry of the environment,
  with the number of bytes it had transferred.  The connection is the list of frames written and the
  bytes still to be read, and a failed write is taken to have written nothing.  Go's \<open>int\<close> is 64 bits
  wide, so the products of 32-bit block numbers and sector sizes do not wrap.
\<close>

section \<open>Media\<close>

record Media =
  m_f :: "bytes option"
  m_blockSize :: nat
  m_blocks :: nat
  m_name :: bytes
  m_readOnly :: bool
  m_isCD :: bool
  m_isFloppy :: bool
  m_dirty :: bool
  m_deviceType :: byte
  m_bytesRead :: u64
  m_bytesWritten :: u64

fun after_sep :: "bytes \<Rightarrow> bytes \<Rightarrow> bytes" where
  "after_sep [] acc = acc"
| "after_sep (c # rev_rest) acc = (if c = 0x2F \<or> c = 0x5C then acc else after_sep rev_rest (c # acc))"

text \<open>\<open>pathBase\<close> scans from the end, collecting the bytes after the last separator.\<close>

definition pathBase :: "bytes \<Rightarrow> bytes" where
  "pathBase p = after_sep (rev p) []"

definition media_name :: "bytes \<Rightarrow> bytes" where
  "media_name path = (let name = pathBase path in if length name > 96 then take 96 name else name)"

text \<open>
  The file system's answers are arguments: what opening the file yields (its content, empty for one
  just created) and whether \<open>Stat\<close> and \<open>Truncate\<close> fail.
\<close>

definition OpenCD :: "bytes result \<Rightarrow> gerror option \<Rightarrow> bytes \<Rightarrow> Media result" where
  "OpenCD opened stat path =
     (case opened of
        Inl e \<Rightarrow> Inl e
      | Inr content \<Rightarrow>
          (case stat of
             Some e \<Rightarrow> Inl e
           | None \<Rightarrow> Inr \<lparr>m_f = Some content, m_blockSize = 2048, m_blocks = length content div 2048,
               m_name = media_name path, m_readOnly = True, m_isCD = True, m_isFloppy = False,
               m_dirty = False, m_deviceType = 0x05, m_bytesRead = 0, m_bytesWritten = 0\<rparr>))"

text \<open>\<open>Truncate\<close> to a larger size extends the file with zero bytes.\<close>

definition extend_to :: "int \<Rightarrow> bytes \<Rightarrow> bytes" where
  "extend_to n content = content @ replicate (nat n - length content) 0"

definition OpenUSB ::
  "bytes result \<Rightarrow> gerror option \<Rightarrow> gerror option \<Rightarrow> gerror option \<Rightarrow> bytes \<Rightarrow> bool \<Rightarrow> int \<Rightarrow> Media result" where
  "OpenUSB opened stat1 trunc stat2 path create sizeBytes =
     (case opened of
        Inl e \<Rightarrow> Inl e
      | Inr content \<Rightarrow>
          (case (if create then
                   (case stat1 of
                      Some e \<Rightarrow> Inl (Panic ''nil pointer dereference'')
                    | None \<Rightarrow>
                        if int (length content) < sizeBytes then
                          (case trunc of Some e \<Rightarrow> Inl e | None \<Rightarrow> Inr (extend_to sizeBytes content))
                        else Inr content)
                 else Inr content) of
             Inl e \<Rightarrow> Inl e
           | Inr content \<Rightarrow>
               (case stat2 of
                  Some e \<Rightarrow> Inl e
                | None \<Rightarrow> Inr \<lparr>m_f = Some content, m_blockSize = 512, m_blocks = length content div 512,
                    m_name = media_name path, m_readOnly = False, m_isCD = False, m_isFloppy = False,
                    m_dirty = False, m_deviceType = 0x06, m_bytesRead = 0, m_bytesWritten = 0\<rparr>)))"

definition OpenFloppy :: "bytes result \<Rightarrow> gerror option \<Rightarrow> bytes \<Rightarrow> bool \<Rightarrow> Media result" where
  "OpenFloppy opened stat path writable =
     (case opened of
        Inl e \<Rightarrow> Inl e
      | Inr content \<Rightarrow>
          (case stat of
             Some e \<Rightarrow> Inl e
           | None \<Rightarrow> Inr \<lparr>m_f = Some content, m_blockSize = 512, m_blocks = length content div 512,
               m_name = media_name path, m_readOnly = (\<not> writable), m_isCD = False, m_isFloppy = True,
               m_dirty = False, m_deviceType = 0x00, m_bytesRead = 0, m_bytesWritten = 0\<rparr>))"

definition media_Type :: "Media \<Rightarrow> string" where
  "media_Type m = (if m_isCD m then ''cd'' else if m_isFloppy m then ''floppy'' else ''usb'')"

text \<open>\<open>Media.Close\<close>; the argument is what closing the file reports.\<close>

definition media_Close :: "gerror option \<Rightarrow> Media \<Rightarrow> gerror option \<times> Media" where
  "media_Close clo m = (case m_f m of None \<Rightarrow> (None, m) | Some f \<Rightarrow> (clo, m\<lparr>m_f := None\<rparr>))"

section \<open>File access\<close>

text \<open>The fate of a file operation: it goes through, or fails after some bytes.\<close>

datatype io_outcome = IoOk | IoFail nat gerror

text \<open>
  \<open>File.ReadAt(buf, off)\<close>: the buffer afterwards and the error.  At the end of the file the read is
  short, the error is \<open>io.EOF\<close> and the rest of the buffer keeps what it held.  A nil file is refused.
\<close>

definition ReadAt :: "io_outcome \<Rightarrow> bytes option \<Rightarrow> nat \<Rightarrow> bytes \<Rightarrow> bytes \<times> gerror option" where
  "ReadAt io f off buf =
     (case f of
        None \<Rightarrow> (buf, Some (NetErr ''invalid argument''))
      | Some content \<Rightarrow>
          let got = take (length buf) (drop off content)
          in case io of
               IoFail k e \<Rightarrow> (copy_from 0 (take k got) buf, Some e)
             | IoOk \<Rightarrow> (copy_from 0 got buf, if length got < length buf then Some EOF else None))"

text \<open>\<open>File.WriteAt(data, off)\<close>: beyond the end the gap reads as zeros; an empty write does nothing.\<close>

definition overwrite :: "nat \<Rightarrow> bytes \<Rightarrow> bytes \<Rightarrow> bytes" where
  "overwrite off data content =
     (if data = [] then content
      else take off (content @ replicate (off - length content) 0) @ data @ drop (off + length data) content)"

definition WriteAt :: "io_outcome \<Rightarrow> bytes option \<Rightarrow> nat \<Rightarrow> bytes \<Rightarrow> bytes option \<times> gerror option" where
  "WriteAt io f off data =
     (case f of
        None \<Rightarrow> (f, Some (NetErr ''invalid argument''))
      | Some content \<Rightarrow>
          (case io of
             IoFail k e \<Rightarrow> (Some (overwrite off (take k data) content), Some e)
           | IoOk \<Rightarrow> (Some (overwrite off data content), None)))"

definition readSector :: "io_outcome \<Rightarrow> Media \<Rightarrow> nat \<Rightarrow> nat \<Rightarrow> bytes \<Rightarrow> (bytes \<times> gerror option) result" where
  "readSector io m startBlock nBlocks buf =
     (let off = startBlock * m_blockSize m; n = nBlocks * m_blockSize m
      in if n > length buf then Inl (Panic ''slice bounds out of range'')
         else let (got, err) = ReadAt io (m_f m) off (take n buf) in Inr (got @ drop n buf, err))"

section \<open>The session\<close>

record 'c vm_env =
  e_VCard :: "'c Reader option"
  e_write :: "nat \<Rightarrow> gerror option"
  e_io :: "nat \<Rightarrow> io_outcome"

record 'c VmSession =
  s_Media :: "Media option"
  s_card :: 'c
  s_sent :: "bytes list"
  s_nwrite :: nat
  s_nio :: nat

type_synonym 'c step = "gerror option \<times> 'c VmSession"

definition sendFrame :: "'c vm_env \<Rightarrow> Frame \<Rightarrow> 'c VmSession \<Rightarrow> 'c step" where
  "sendFrame env frame s =
     (let buf = Encode frame; r = e_write env (s_nwrite s); s = s\<lparr>s_nwrite := Suc (s_nwrite s)\<rparr>
      in case r of Some e \<Rightarrow> (Some e, s) | None \<Rightarrow> (None, s\<lparr>s_sent := s_sent s @ [buf]\<rparr>))"

definition send :: "'c vm_env \<Rightarrow> u16 \<Rightarrow> bytes \<Rightarrow> 'c VmSession \<Rightarrow> 'c step" where
  "send env msgType body s = sendFrame env \<lparr>f_Type = msgType, f_Payload = body\<rparr> s"

definition client_status_body :: "u16 \<Rightarrow> u32 \<Rightarrow> bytes" where
  "client_status_body diskID status =
     (let body = mk_buf 6; body = copy_to 0 2 (putBE16 diskID) body in copy_to 2 6 (putBE32 status) body)"

definition sendClientStatus :: "'c vm_env \<Rightarrow> u16 \<Rightarrow> u32 \<Rightarrow> 'c VmSession \<Rightarrow> 'c step" where
  "sendClientStatus env diskID status s = send env MsgClientStatus (client_status_body diskID status) s"

definition vdisk_read_data_body :: "u16 \<Rightarrow> nat \<Rightarrow> nat \<Rightarrow> bytes \<Rightarrow> bytes" where
  "vdisk_read_data_body diskID startBlk nBlks data =
     (let body = mk_buf (10 + length data);
          body = copy_to 0 2 (putBE16 diskID) body;
          body = copy_to 2 6 (putBE32 (of_nat startBlk)) body;
          body = copy_to 6 10 (putBE32 (of_nat nBlks)) body
      in copy_from 10 data body)"

definition sendVdiskReadData ::
  "'c vm_env \<Rightarrow> u16 \<Rightarrow> nat \<Rightarrow> nat \<Rightarrow> bytes \<Rightarrow> 'c VmSession \<Rightarrow> 'c step" where
  "sendVdiskReadData env diskID startBlk nBlks data s =
     send env MsgVdiskReadData (vdisk_read_data_body diskID startBlk nBlks data) s"

definition sendVdiskRelease :: "'c vm_env \<Rightarrow> u16 \<Rightarrow> 'c VmSession \<Rightarrow> 'c step" where
  "sendVdiskRelease env diskID s = send env MsgVdiskRelease (copy_to 0 2 (putBE16 diskID) (mk_buf 2)) s"

definition vdisk_request_body :: "u16 \<Rightarrow> Media \<Rightarrow> bytes" where
  "vdisk_request_body diskID m =
     (let nameLen = length (m_name m);
          body = mk_buf (14 + nameLen);
          body = copy_to 0 2 (putBE16 diskID) body;
          body = copy_to 2 6 (putBE32 (of_nat (m_blocks m))) body;
          body = copy_to 6 10 (putBE32 (of_nat (m_blocks m))) body;
          body = body[10 := (if m_readOnly m then 1 else 0)];
          body = body[11 := (if m_blocks m > 255 then 0xFF else of_nat (m_blocks m))];
          body = copy_to 12 14 (putBE16 (of_nat nameLen)) body
      in copy_from 14 (m_name m) body)"

definition sendVdiskRequest :: "'c vm_env \<Rightarrow> u16 \<Rightarrow> 'c VmSession \<Rightarrow> 'c step" where
  "sendVdiskRequest env diskID s =
     (case s_Media s of
        None \<Rightarrow> (Some (Panic ''nil pointer dereference''), s)
      | Some m \<Rightarrow> send env MsgVdiskRequest (vdisk_request_body diskID m) s)"

definition sendVdiskRequestCD :: "'c vm_env \<Rightarrow> u16 \<Rightarrow> nat \<Rightarrow> 'c VmSession \<Rightarrow> 'c step" where
  "sendVdiskRequestCD env diskID numDrives s = sendVdiskRequest env diskID s"

definition sendVdiskRequestUSB :: "'c vm_env \<Rightarrow> u16 \<Rightarrow> 'c VmSession \<Rightarrow> 'c step" where
  "sendVdiskRequestUSB env diskID s = sendVdiskRequest env diskID s"

definition respondVdiskInfo :: "'c vm_env \<Rightarrow> Frame \<Rightarrow> 'c VmSession \<Rightarrow> 'c step" where
  "respondVdiskInfo env f s = (case s_Media s of None \<Rightarrow> (None, s) | Some m \<Rightarrow> sendVdiskRequest env 0 s)"

subsection \<open>Reads\<close>

text \<open>One file read of the session: the buffer afterwards, the error, and the operation counted.\<close>

definition media_read ::
  "'c vm_env \<Rightarrow> nat \<Rightarrow> bytes \<Rightarrow> Media \<Rightarrow> 'c VmSession \<Rightarrow> bytes \<times> gerror option \<times> 'c VmSession" where
  "media_read env off buf m s =
     (let (buf, err) = ReadAt (e_io env (s_nio s)) (m_f m) off buf in (buf, err, s\<lparr>s_nio := Suc (s_nio s)\<rparr>))"

text \<open>
  The chunk loop.  It may run forever, so its result is an option and \<open>None\<close> stands for not returning.
\<close>

partial_function (option) vdisk_read_loop ::
  "'c vm_env \<Rightarrow> u16 \<Rightarrow> Media \<Rightarrow> nat \<Rightarrow> bytes \<Rightarrow> nat \<Rightarrow> nat \<Rightarrow> 'c VmSession \<Rightarrow> 'c step option" where
  "vdisk_read_loop env diskID m blkFactor buf remaining current s =
     (if remaining > 0 then
        let chunk = (if remaining > blkFactor then blkFactor else remaining);
            len = chunk * m_blockSize m;
            off = current * m_blockSize m;
            (got, err, s) = media_read env off (take len buf) m s;
            buf = got @ drop len buf
        in if err \<noteq> None \<and> err \<noteq> Some EOF then Some (sendClientStatus env diskID 2 s)
           else
             (case sendVdiskReadData env diskID current chunk (take len buf) s of
                (Some e, s) \<Rightarrow> Some (Some e, s)
              | (None, s) \<Rightarrow>
                  let m = m\<lparr>m_bytesRead := m_bytesRead m + of_nat len\<rparr>;
                      s = s\<lparr>s_Media := Some m\<rparr>
                  in vdisk_read_loop env diskID m blkFactor buf (remaining - chunk) (current + chunk) s)
      else Some (sendClientStatus env diskID 0 s))"

declare vdisk_read_loop.simps [code]

definition respondVdiskRead :: "'c vm_env \<Rightarrow> Frame \<Rightarrow> 'c VmSession \<Rightarrow> 'c step option" where
  "respondVdiskRead env f s =
     (if length (f_Payload f) < 14 then
        Some (Some (Errorf (''vm: VDISK_READ payload too short: '' @ dec (length (f_Payload f)))), s)
      else
        let diskID = be16 (slice 0 2 (f_Payload f));
            startBlk = unat (be32 (slice 2 6 (f_Payload f)));
            nBlks = unat (be32 (slice 6 10 (f_Payload f)));
            blkFactor = unat (be32 (slice 10 14 (f_Payload f)))
        in case s_Media s of
             None \<Rightarrow> Some (sendClientStatus env diskID 2 s)
           | Some m \<Rightarrow>
               vdisk_read_loop env diskID m blkFactor (mk_buf (blkFactor * m_blockSize m)) nBlks startBlk s)"

subsection \<open>Writes and the other requests\<close>

definition respondVdiskWrite :: "'c vm_env \<Rightarrow> Frame \<Rightarrow> 'c VmSession \<Rightarrow> 'c step" where
  "respondVdiskWrite env f s =
     (if length (f_Payload f) < 14 then (None, s)
      else
        let diskID = be16 (slice 0 2 (f_Payload f))
        in case s_Media s of
             None \<Rightarrow> sendClientStatus env diskID 3 s
           | Some m \<Rightarrow>
               if m_readOnly m then sendClientStatus env diskID 3 s
               else
                 let startBlk = unat (be32 (slice 2 6 (f_Payload f)));
                     nBlks = unat (be32 (slice 6 10 (f_Payload f)));
                     data = drop 14 (f_Payload f);
                     expectedLen = nBlks * m_blockSize m
                 in if length data < expectedLen then sendClientStatus env diskID 2 s
                    else
                      let off = startBlk * m_blockSize m;
                          (file, err) = WriteAt (e_io env (s_nio s)) (m_f m) off (take expectedLen data);
                          m = m\<lparr>m_f := file\<rparr>;
                          s = s\<lparr>s_Media := Some m, s_nio := Suc (s_nio s)\<rparr>
                      in case err of
                           Some e \<Rightarrow> sendClientStatus env diskID 2 s
                         | None \<Rightarrow>
                             let m = m\<lparr>m_dirty := True,
                                       m_bytesWritten := m_bytesWritten m + of_nat expectedLen\<rparr>
                             in sendClientStatus env diskID 0 (s\<lparr>s_Media := Some m\<rparr>))"

definition respondVcardXferBlock :: "'c vm_env \<Rightarrow> Frame \<Rightarrow> 'c VmSession \<Rightarrow> 'c step" where
  "respondVcardXferBlock env f s =
     (case e_VCard env of
        None \<Rightarrow> (None, s)
      | Some rd \<Rightarrow>
          (case HandleVcardXferBlock rd (f_Payload f) (s_card s) of
             (Inl e, c) \<Rightarrow> (None, s\<lparr>s_card := c\<rparr>)
           | (Inr resp, c) \<Rightarrow> sendFrame env resp (s\<lparr>s_card := c\<rparr>)))"

definition respondAlternateTocData :: "'c vm_env \<Rightarrow> Frame \<Rightarrow> 'c VmSession \<Rightarrow> 'c step" where
  "respondAlternateTocData env f s =
     (if length (f_Payload f) < 2 then (None, s)
      else
        let diskID = be16 (slice 0 2 (f_Payload f));
            body = mk_buf 6;
            body = copy_to 0 2 (putBE16 diskID) body;
            body = copy_to 2 6 (putBE32 0) body
        in send env MsgVdiskAlternateTocData body s)"

text \<open>The dispatch; the arguments of the debug call are evaluated, so an empty disconnect panics.\<close>

definition handle :: "'c vm_env \<Rightarrow> Frame \<Rightarrow> 'c VmSession \<Rightarrow> 'c step option" where
  "handle env f s =
     (if f_Type f = MsgVdiskInfo then Some (respondVdiskInfo env f s)
      else if f_Type f = MsgDeviceStatus then Some (None, s)
      else if f_Type f = MsgVdiskRead then respondVdiskRead env f s
      else if f_Type f = MsgVdiskWrite then Some (respondVdiskWrite env f s)
      else if f_Type f = MsgVcardXferBlock then Some (respondVcardXferBlock env f s)
      else if f_Type f = MsgVdiskGetAlternateTocData then Some (respondAlternateTocData env f s)
      else if f_Type f = MsgDisconnect then
        Some (if f_Payload f = [] then (Some (Panic ''index out of range''), s) else (Some EOF, s))
      else if f_Type f = MsgVdiskRequestRelease then Some (sendVdiskRelease env 0 s)
      else Some (None, s))"

subsection \<open>The loop\<close>

definition vm_announce :: "'c vm_env \<Rightarrow> 'c VmSession \<Rightarrow> 'c step" where
  "vm_announce env s =
     (case (case s_Media s of
              None \<Rightarrow> (None, s)
            | Some m \<Rightarrow> if m_isCD m then sendVdiskRequestCD env 0 1 s else sendVdiskRequestUSB env 0 s) of
        (Some e, s) \<Rightarrow> (Some e, s)
      | (None, s) \<Rightarrow>
          (case e_VCard env of
             None \<Rightarrow> (None, s)
           | Some rd \<Rightarrow> sendFrame env (SendVcardRequest rd 0 (s_card s)) s))"

function run_loop :: "'c vm_env \<Rightarrow> 'c VmSession \<Rightarrow> bytes \<Rightarrow> 'c step option" where
  "run_loop env s conn =
     (case ReadFrame conn of
        (Inl e, _) \<Rightarrow> Some (Some e, s)
      | (Inr f, conn) \<Rightarrow>
          (case handle env f s of
             None \<Rightarrow> None
           | Some (Some e, s) \<Rightarrow> Some (Some e, s)
           | Some (None, s) \<Rightarrow> run_loop env s conn))"
  by pat_completeness auto
termination
  by (relation "measure (\<lambda>(env, s, conn). length conn)") (auto dest!: sym [THEN ReadFrame_Inr])

declare run_loop.simps [simp del]

definition Run :: "'c vm_env \<Rightarrow> 'c VmSession \<Rightarrow> bytes \<Rightarrow> 'c step option" where
  "Run env s conn =
     (case vm_announce env s of (Some e, s) \<Rightarrow> Some (Some e, s) | (None, s) \<Rightarrow> run_loop env s conn)"

text \<open>\<open>Detach\<close>; \<open>clo\<close> is what closing the file reports.\<close>

definition Detach :: "'c vm_env \<Rightarrow> gerror option \<Rightarrow> u16 \<Rightarrow> 'c VmSession \<Rightarrow> 'c step" where
  "Detach env clo diskID s =
     (case s_Media s of
        None \<Rightarrow> (None, s)
      | Some m \<Rightarrow>
          let (sendErr, s) = sendVdiskRelease env diskID s;
              (closeErr, m) = media_Close clo m;
              s = s\<lparr>s_Media := None\<rparr>
          in (if sendErr \<noteq> None then sendErr else closeErr, s))"

section \<open>Lemmas: files and frames\<close>

lemma slice_overwrite: "slice off (off + length data) (overwrite off data content) = data"
  by (auto simp: overwrite_def slice_def)

lemma overwrite_elsewhere:
  "i < length content \<Longrightarrow> i < off \<or> off + length data \<le> i \<Longrightarrow> overwrite off data content ! i = content ! i"
  by (auto simp: overwrite_def nth_append)

lemma length_overwrite:
  "length (overwrite off data content) = (if data = [] then length content else max (length content) (off + length data))"
  by (auto simp: overwrite_def)

lemma overwrite_fits: "off + length data \<le> length (overwrite off data content) \<or> data = []"
  by (auto simp: length_overwrite)

lemma client_status_layout: "client_status_body d st = putBE16 d @ putBE32 st"
  unfolding client_status_body_def Let_def by (simp add: layout_simps)

lemma vdisk_read_data_layout:
  "vdisk_read_data_body d b n data = putBE16 d @ putBE32 (of_nat b) @ putBE32 (of_nat n) @ data"
  unfolding vdisk_read_data_body_def Let_def by (simp add: layout_simps)

lemma vdisk_request_layout:
  "vdisk_request_body d m = putBE16 d @ putBE32 (of_nat (m_blocks m)) @ putBE32 (of_nat (m_blocks m))
     @ [if m_readOnly m then 1 else 0, if m_blocks m > 255 then 0xFF else of_nat (m_blocks m)]
     @ putBE16 (of_nat (length (m_name m))) @ m_name m"
  unfolding vdisk_request_body_def Let_def by (simp add: layout_simps)

text \<open>Sending touches only the connection.\<close>

lemmas send_defs = send_def sendClientStatus_def sendVdiskReadData_def sendVdiskRelease_def

lemma sendFrame_keeps [simp]:
  "s_Media (snd (sendFrame env f s)) = s_Media s" "s_card (snd (sendFrame env f s)) = s_card s"
  "s_nio (snd (sendFrame env f s)) = s_nio s"
  by (auto simp: sendFrame_def Let_def split: option.split)

lemma send_keeps [simp]:
  "s_Media (snd (send env t b s)) = s_Media s" "s_Media (snd (sendClientStatus env d st s)) = s_Media s"
  "s_Media (snd (sendVdiskReadData env d st' n data s)) = s_Media s"
  "s_Media (snd (sendVdiskRelease env d s)) = s_Media s" "s_Media (snd (sendVdiskRequest env d s)) = s_Media s"
  by (auto simp: send_defs sendVdiskRequest_def split: option.split)

text \<open>An environment in which no write and no file operation fails.\<close>

definition reliable :: "'c vm_env \<Rightarrow> bool" where
  "reliable env \<longleftrightarrow> (\<forall>n. e_write env n = None \<and> e_io env n = IoOk)"

lemma reliable_sendFrame:
  "reliable env \<Longrightarrow> sendFrame env f s
     = (None, s\<lparr>s_sent := s_sent s @ [Encode f], s_nwrite := Suc (s_nwrite s)\<rparr>)"
  by (simp add: sendFrame_def reliable_def Let_def)

lemma reliable_sendClientStatus:
  "reliable env \<Longrightarrow> sendClientStatus env d st s
     = (None, s\<lparr>s_sent := s_sent s @ [Encode \<lparr>f_Type = MsgClientStatus, f_Payload = putBE16 d @ putBE32 st\<rparr>],
               s_nwrite := Suc (s_nwrite s)\<rparr>)"
  by (simp add: send_defs reliable_sendFrame client_status_layout)

section \<open>The read loop\<close>

text \<open>The blocks of one reply frame, and a contiguous sequence of chunks of at most \<open>bf\<close> blocks.\<close>

definition chunk_data :: "nat \<Rightarrow> bytes \<Rightarrow> nat \<times> nat \<Rightarrow> bytes" where
  "chunk_data bs file bc = slice (fst bc * bs) ((fst bc + snd bc) * bs) file"

definition chunk_frame :: "u16 \<Rightarrow> nat \<Rightarrow> bytes \<Rightarrow> nat \<times> nat \<Rightarrow> bytes" where
  "chunk_frame d bs file bc = Encode \<lparr>f_Type = MsgVdiskReadData, f_Payload =
     putBE16 d @ putBE32 (of_nat (fst bc)) @ putBE32 (of_nat (snd bc)) @ chunk_data bs file bc\<rparr>"

fun contiguous :: "nat \<Rightarrow> nat \<Rightarrow> nat \<Rightarrow> (nat \<times> nat) list \<Rightarrow> bool" where
  "contiguous bf start n [] \<longleftrightarrow> n = 0"
| "contiguous bf start n ((b, c) # cs) \<longleftrightarrow>
     b = start \<and> 0 < c \<and> c \<le> bf \<and> c \<le> n \<and> contiguous bf (start + c) (n - c) cs"

lemma contiguous_data:
  "contiguous bf start n cs \<Longrightarrow>
     concat (map (chunk_data bs file) cs) = slice (start * bs) ((start + n) * bs) file"
proof (induction bf start n cs rule: contiguous.induct)
  case (1 bf start n)
  then show ?case by (simp add: slice_def)
next
  case (2 bf start n b c cs)
  then have "concat (map (chunk_data bs file) cs) = slice ((start + c) * bs) ((start + n) * bs) file" by simp
  moreover have "chunk_data bs file (b, c) = slice (start * bs) ((start + c) * bs) file"
    using 2(2) by (simp add: chunk_data_def)
  ultimately show ?case using 2(2) by (simp add: slice_join)
qed

lemma ReadAt_inside:
  "off + length buf \<le> length content \<Longrightarrow>
     ReadAt IoOk (Some content) off buf = (slice off (off + length buf) content, None)"
  by (simp add: ReadAt_def copy_from_def copy_to_def slice_def Let_def)

lemma vdisk_read_loop_step:
  assumes rel: "reliable env" and "m_f m = Some file" "0 < n" and c: "c = (if n > bf then bf else n)"
    and bs: "bs = m_blockSize m" and buf: "length buf = bf * bs" and fits: "cur * bs + c * bs \<le> length file"
  shows "\<exists>buf' s'. vdisk_read_loop env d m bf buf n cur s
        = vdisk_read_loop env d (m\<lparr>m_bytesRead := m_bytesRead m + of_nat (c * bs)\<rparr>) bf buf' (n - c) (cur + c) s'
      \<and> length buf' = length buf \<and> s_sent s' = s_sent s @ [chunk_frame d bs file (cur, c)]
      \<and> s_Media s' = Some (m\<lparr>m_bytesRead := m_bytesRead m + of_nat (c * bs)\<rparr>) \<and> s_card s' = s_card s"
proof -
  define got where "got = slice (cur * bs) (cur * bs + c * bs) file"
  have cb: "c * bs \<le> bf * bs" by (simp add: c)
  have l: "length (take (c * bs) buf) = c * bs" using buf cb by simp
  have lg: "length got = c * bs" using fits by (simp add: got_def)
  have rd: "media_read env (cur * bs) (take (c * bs) buf) m s = (got, None, s\<lparr>s_nio := Suc (s_nio s)\<rparr>)"
    using rel fits l ReadAt_inside [of "cur * bs" "take (c * bs) buf" "file"]
    by (simp add: media_read_def assms(2) reliable_def got_def)
  have data: "vdisk_read_data_body d cur c got
      = putBE16 d @ putBE32 (of_nat cur) @ putBE32 (of_nat c) @ chunk_data bs file (cur, c)"
    by (simp add: vdisk_read_data_layout chunk_data_def add_mult_distrib got_def)
  have tk: "take (c * bs) (got @ drop (c * bs) buf) = got" using lg by simp
  let ?m = "m\<lparr>m_bytesRead := m_bytesRead m + of_nat (c * bs)\<rparr>" and ?buf = "got @ drop (c * bs) buf"
  let ?s = "s\<lparr>s_nio := Suc (s_nio s), s_sent := s_sent s @ [chunk_frame d bs file (cur, c)],
              s_nwrite := Suc (s_nwrite s), s_Media := Some ?m\<rparr>"
  have "vdisk_read_loop env d m bf buf n cur s = vdisk_read_loop env d ?m bf ?buf (n - c) (cur + c) ?s"
    using assms(3)
    by (subst vdisk_read_loop.simps, unfold Let_def c [symmetric] bs [symmetric] rd prod.case tk)
      (simp add: send_defs data reliable_sendFrame [OF rel] chunk_frame_def)
  moreover have "length ?buf = length buf" using lg buf cb by simp
  ultimately show ?thesis by (intro exI [of _ ?buf] exI [of _ ?s]) simp
qed

lemma vdisk_read_loop_serves:
  assumes "reliable env" "0 < bf"
  shows "m_f m = Some file \<Longrightarrow> s_Media s = Some m \<Longrightarrow> length buf = bf * m_blockSize m
    \<Longrightarrow> (cur + n) * m_blockSize m \<le> length file
    \<Longrightarrow> \<exists>cs s'. vdisk_read_loop env d m bf buf n cur s = Some (None, s')
        \<and> contiguous bf cur n cs
        \<and> s_sent s' = s_sent s @ map (chunk_frame d (m_blockSize m) file) cs
             @ [Encode \<lparr>f_Type = MsgClientStatus, f_Payload = putBE16 d @ putBE32 0\<rparr>]
        \<and> s_Media s' = Some (m\<lparr>m_bytesRead := m_bytesRead m + of_nat (n * m_blockSize m)\<rparr>)
        \<and> s_card s' = s_card s"
proof (induction n arbitrary: m buf cur s rule: less_induct)
  case (less n)
  show ?case
  proof (cases "n = 0")
    case True
    then show ?thesis using less.prems
      by (intro exI [of _ "[]"]) (simp add: vdisk_read_loop.simps reliable_sendClientStatus assms)
  next
    case False
    define c where "c = (if n > bf then bf else n)"
    define bs where "bs = m_blockSize m"
    have c: "0 < c" "c \<le> bf" "c \<le> n" using False assms(2) by (auto simp: c_def)
    have "(cur + c) * bs \<le> (cur + n) * bs" using c by (intro mult_le_mono1) simp
    also have "\<dots> \<le> length file" using less.prems(4) by (simp add: bs_def)
    finally have fits: "cur * bs + c * bs \<le> length file" by (simp add: add_mult_distrib)
    let ?m = "m\<lparr>m_bytesRead := m_bytesRead m + of_nat (c * bs)\<rparr>"
    obtain buf1 s1 where step: "vdisk_read_loop env d m bf buf n cur s
        = vdisk_read_loop env d ?m bf buf1 (n - c) (cur + c) s1" and s1: "length buf1 = length buf"
      "s_sent s1 = s_sent s @ [chunk_frame d bs file (cur, c)]" "s_Media s1 = Some ?m" "s_card s1 = s_card s"
      using vdisk_read_loop_step [OF assms(1) less.prems(1) _ c_def bs_def _ fits, of buf d s]
        False less.prems(3) by (auto simp: bs_def simp del: of_nat_mult)
    have "n - c < n" "m_f ?m = Some file" "length buf1 = bf * m_blockSize ?m"
      "(cur + c + (n - c)) * m_blockSize ?m \<le> length file"
      using less.prems s1 c by simp_all
    from less.IH [OF this(1,2) s1(3) this(3,4)]
    obtain cs s' where IH: "vdisk_read_loop env d ?m bf buf1 (n - c) (cur + c) s1 = Some (None, s')"
      "contiguous bf (cur + c) (n - c) cs"
      "s_sent s' = s_sent s1 @ map (chunk_frame d bs file) cs
         @ [Encode \<lparr>f_Type = MsgClientStatus, f_Payload = putBE16 d @ putBE32 0\<rparr>]"
      "s_Media s' = Some (?m\<lparr>m_bytesRead := m_bytesRead ?m + of_nat ((n - c) * bs)\<rparr>)"
      "s_card s' = s_card s1"
      by (auto simp: bs_def simp del: of_nat_mult)
    have "of_nat (c * bs) + of_nat ((n - c) * bs) = (of_nat (n * bs) :: u64)"
      using c by (simp add: of_nat_diff algebra_simps)
    then have "s_Media s' = Some (m\<lparr>m_bytesRead := m_bytesRead m + of_nat (n * bs)\<rparr>)"
      using IH(4) by (simp add: add.assoc del: of_nat_mult)
    then show ?thesis using IH c s1
      by (intro exI [of _ "(cur, c) # cs"] exI [of _ s']) (simp add: step bs_def)
  qed
qed

text \<open>With a positive blocking factor the loop returns, whatever fails.\<close>

lemma vdisk_read_loop_returns: "0 < bf \<Longrightarrow> \<exists>r. vdisk_read_loop env d m bf buf n cur s = Some r"
proof (induction n arbitrary: m buf cur s rule: less_induct)
  case (less n)
  then show ?case
    by (subst vdisk_read_loop.simps) (auto simp: Let_def split: prod.split option.split)
qed

text \<open>
  Induction over the rounds of a run of the loop that returned: it ended, a file read failed, a frame
  could not be sent, or another round follows.
\<close>

lemma vdisk_read_loop_rounds [consumes 1, case_names finished read_failed send_failed round]:
  assumes run: "vdisk_read_loop env d m bf buf n cur s = Some r"
    and fin: "\<And>m buf cur s. P m buf 0 cur s (sendClientStatus env d 0 s)"
    and rf: "\<And>m buf n cur s len got e s1. 0 < n \<Longrightarrow> len = (if bf < n then bf else n) * m_blockSize m \<Longrightarrow>
       media_read env (cur * m_blockSize m) (take len buf) m s = (got, Some e, s1) \<Longrightarrow> e \<noteq> EOF \<Longrightarrow>
       P m buf n cur s (sendClientStatus env d 2 s1)"
    and sf: "\<And>m buf n cur s c len got err s1 e s2. 0 < n \<Longrightarrow> c = (if bf < n then bf else n) \<Longrightarrow>
       len = c * m_blockSize m \<Longrightarrow>
       media_read env (cur * m_blockSize m) (take len buf) m s = (got, err, s1) \<Longrightarrow>
       sendVdiskReadData env d cur c (take len (got @ drop len buf)) s1 = (Some e, s2) \<Longrightarrow>
       P m buf n cur s (Some e, s2)"
    and rnd: "\<And>m buf n cur s c len got err s1 s2 m' r. 0 < n \<Longrightarrow> c = (if bf < n then bf else n) \<Longrightarrow>
       len = c * m_blockSize m \<Longrightarrow>
       media_read env (cur * m_blockSize m) (take len buf) m s = (got, err, s1) \<Longrightarrow>
       sendVdiskReadData env d cur c (take len (got @ drop len buf)) s1 = (None, s2) \<Longrightarrow>
       m' = m\<lparr>m_bytesRead := m_bytesRead m + of_nat len\<rparr> \<Longrightarrow>
       P m' (got @ drop len buf) (n - c) (cur + c) (s2\<lparr>s_Media := Some m'\<rparr>) r \<Longrightarrow>
       P m buf n cur s r"
  shows "P m buf n cur s r"
proof -
  let ?Q = "\<lambda>env' d' m bf' buf n cur s r. env' = env \<longrightarrow> d' = d \<longrightarrow> bf' = bf \<longrightarrow> P m buf n cur s r"
  have "?Q env d m bf buf n cur s r"
  proof (rule vdisk_read_loop.raw_induct [where P = ?Q, OF _ run], intro impI)
    fix f :: "'a vm_env \<Rightarrow> u16 \<Rightarrow> Media \<Rightarrow> nat \<Rightarrow> bytes \<Rightarrow> nat \<Rightarrow> nat \<Rightarrow> 'a VmSession \<Rightarrow> 'a step option"
      and env' d' m bf' buf and n cur :: nat and s r
    assume IH: "\<And>env d m bf buf n cur s r. f env d m bf buf n cur s = Some r \<Longrightarrow> ?Q env d m bf buf n cur s r"
      and step: "(if 0 < n
         then let chunk = if bf' < n then bf' else n; len = chunk * m_blockSize m; off = cur * m_blockSize m;
                  (got, err, s) = media_read env' off (take len buf) m s; buf = got @ drop len buf
              in if err \<noteq> None \<and> err \<noteq> Some EOF then Some (sendClientStatus env' d' 2 s)
                 else case sendVdiskReadData env' d' cur chunk (take len buf) s of
                        (None, s) \<Rightarrow> let m = m\<lparr>m_bytesRead := m_bytesRead m + of_nat len\<rparr>; s = s\<lparr>s_Media := Some m\<rparr>
                                     in f env' d' m bf' buf (n - chunk) (cur + chunk) s
                      | (Some e, s) \<Rightarrow> Some (Some e, s)
         else Some (sendClientStatus env' d' 0 s)) = Some r"
      and eqs: "env' = env" "d' = d" "bf' = bf"
    define c len where "c = (if bf < n then bf else n)" and "len = c * m_blockSize m"
    obtain got err s1 where rd: "media_read env (cur * m_blockSize m) (take len buf) m s = (got, err, s1)"
      by (metis prod_cases3)
    obtain e s2 where sd: "sendVdiskReadData env d cur c (take len (got @ drop len buf)) s1 = (e, s2)"
      by fastforce
    show "P m buf n cur s r"
    proof (cases "0 < n")
      case False
      then show ?thesis using step fin by (auto simp: eqs)
    next
      case True
      note step' = step [unfolded Let_def eqs c_def [symmetric] len_def [symmetric] rd prod.case sd]
      show ?thesis
        using step' True IH rf [OF True len_def [unfolded c_def]] rd sf [OF True c_def len_def rd] sd
          rnd [OF True c_def len_def rd _ refl] c_def
        by (auto simp: eqs split: if_splits option.splits)
    qed
  qed
  then show ?thesis by simp
qed

text \<open>With blocking factor zero every round sends an empty chunk and makes no progress.\<close>

lemma media_read_nothing:
  "reliable env \<Longrightarrow> m_f m = Some content \<Longrightarrow> media_read env off [] m s = ([], None, s\<lparr>s_nio := Suc (s_nio s)\<rparr>)"
  by (simp add: media_read_def ReadAt_def reliable_def copy_from_def copy_to_def)

lemma vdisk_read_loop_spins:
  assumes "reliable env" and "m_f m = Some content" "0 < n"
  shows "vdisk_read_loop env d m 0 buf n cur s = None"
proof (rule ccontr)
  assume "vdisk_read_loop env d m 0 buf n cur s \<noteq> None"
  then obtain r where "vdisk_read_loop env d m 0 buf n cur s = Some r" by auto
  then show False using assms(2,3)
    by (induction rule: vdisk_read_loop_rounds)
      (use assms(1) in \<open>auto simp: media_read_nothing send_defs reliable_sendFrame\<close>)
qed

section \<open>How a session changes its media\<close>

text \<open>
  The geometry, name and access mode never change; an open file stays open and does not shrink; a
  read-only medium keeps its content and is never marked dirty.
\<close>

definition media_evolves :: "Media \<Rightarrow> Media \<Rightarrow> bool" where
  "media_evolves m m' \<longleftrightarrow>
     m_blockSize m' = m_blockSize m \<and> m_blocks m' = m_blocks m \<and> m_name m' = m_name m
     \<and> m_readOnly m' = m_readOnly m \<and> m_isCD m' = m_isCD m \<and> m_isFloppy m' = m_isFloppy m
     \<and> m_deviceType m' = m_deviceType m
     \<and> (m_readOnly m \<longrightarrow> m_f m' = m_f m \<and> m_dirty m' = m_dirty m \<and> m_bytesWritten m' = m_bytesWritten m)
     \<and> (m_dirty m \<longrightarrow> m_dirty m')
     \<and> rel_option (\<lambda>f f'. length f \<le> length f') (m_f m) (m_f m')"

definition session_evolves :: "'c VmSession \<Rightarrow> 'c VmSession \<Rightarrow> bool" where
  "session_evolves s s' \<longleftrightarrow> rel_option media_evolves (s_Media s) (s_Media s')"

lemma media_evolves_refl [simp]: "media_evolves m m"
  by (auto simp: media_evolves_def intro: option.rel_refl)

lemma session_evolves_refl [simp]: "session_evolves s s"
  by (auto simp: session_evolves_def intro: option.rel_refl)

lemma media_evolves_trans: "media_evolves a b \<Longrightarrow> media_evolves b c \<Longrightarrow> media_evolves a c"
  by (cases "m_f a"; cases "m_f b"; cases "m_f c") (auto simp: media_evolves_def)

lemma session_evolves_trans: "session_evolves a b \<Longrightarrow> session_evolves b c \<Longrightarrow> session_evolves a c"
  by (cases "s_Media a"; cases "s_Media b"; cases "s_Media c")
    (auto simp: session_evolves_def intro: media_evolves_trans)

lemma session_evolves_media_eq: "s_Media s' = s_Media s \<Longrightarrow> session_evolves s s'"
  by (simp add: session_evolves_def option.rel_refl)

lemma evolves_counted: "media_evolves m (m\<lparr>m_bytesRead := k\<rparr>)"
  by (auto simp: media_evolves_def intro: option.rel_refl)

lemma media_read_keeps: "media_read env off buf m s = (got, err, s') \<Longrightarrow> s_Media s' = s_Media s"
  by (auto simp: media_read_def split: prod.splits)

lemma sendVdiskReadData_keeps:
  "sendVdiskReadData env d b n data s = (r, s') \<Longrightarrow> s_Media s' = s_Media s"
  using send_keeps(3) [of env d b n data s] by simp

lemma vdisk_read_loop_evolves:
  assumes "vdisk_read_loop env d m bf buf n cur s = Some r" "s_Media s = Some m"
  shows "session_evolves s (snd r)"
  using assms
proof (induction rule: vdisk_read_loop_rounds)
  case (round m buf n cur s c len got err s1 s2 m' r)
  have "session_evolves s (s2\<lparr>s_Media := Some m'\<rparr>)"
    using round by (simp add: session_evolves_def evolves_counted)
  then show ?case using round.IH by (auto elim: session_evolves_trans)
next
  case (send_failed m buf n cur s c len got err s1 e s2)
  then show ?case
    using media_read_keeps [OF send_failed(4)] sendVdiskReadData_keeps [OF send_failed(5)]
    by (intro session_evolves_media_eq) simp
qed (auto intro!: session_evolves_media_eq dest: media_read_keeps)

lemma respondVdiskWrite_evolves: "session_evolves s (snd (respondVdiskWrite env f s))"
proof (cases "length (f_Payload f) < 14 \<or> (case s_Media s of None \<Rightarrow> True | Some m \<Rightarrow> m_readOnly m)")
  case True
  then show ?thesis
    by (auto simp: respondVdiskWrite_def Let_def session_evolves_media_eq split: option.splits)
next
  case False
  then obtain m where m: "s_Media s = Some m" "\<not> m_readOnly m" by (auto split: option.splits)
  have wr: "media_evolves m (m\<lparr>m_f := fst (WriteAt io (m_f m) off data)\<rparr>)"
    "media_evolves m (m\<lparr>m_f := fst (WriteAt io (m_f m) off data), m_dirty := True, m_bytesWritten := k\<rparr>)"
    for io off data k
    using m(2) by (auto simp: media_evolves_def WriteAt_def length_overwrite split: option.split io_outcome.split)
  show ?thesis using False
    by (auto simp: respondVdiskWrite_def m Let_def session_evolves_def case_prod_beta wr
        intro: option.rel_refl split: option.split)
qed

lemma handle_evolves: "handle env f s = Some r \<Longrightarrow> session_evolves s (snd r)"
proof -
  assume h: "handle env f s = Some r"
  have rd: "respondVdiskRead env f s = Some r \<Longrightarrow> session_evolves s (snd r)"
    by (auto simp: respondVdiskRead_def Let_def session_evolves_media_eq
        split: if_splits option.splits intro: vdisk_read_loop_evolves)
  have "session_evolves s (snd (respondVdiskInfo env f s))" "session_evolves s (snd (respondVcardXferBlock env f s))"
    "session_evolves s (snd (respondAlternateTocData env f s))" "session_evolves s (snd (sendVdiskRelease env 0 s))"
    by (auto intro!: session_evolves_media_eq simp: respondVdiskInfo_def respondVcardXferBlock_def
        respondAlternateTocData_def Let_def split: option.splits prod.splits sum.splits)
  with h rd respondVdiskWrite_evolves [of s env f] show ?thesis
    by (auto simp: handle_def split: if_splits)
qed

lemma run_loop_evolves: "run_loop env s conn = Some r \<Longrightarrow> session_evolves s (snd r)"
proof (induction env s conn rule: run_loop.induct)
  case (1 env s conn)
  show ?case
  proof (cases "ReadFrame conn")
    case (Pair rf rest)
    show ?thesis
    proof (cases rf)
      case (Inl e)
      then show ?thesis using 1(2) by (auto simp: Pair run_loop.simps [of env s conn])
    next
      case (Inr f)
      obtain e s1 where h: "handle env f s = Some (e, s1)"
        using 1(2) by (cases "handle env f s") (auto simp: Pair Inr run_loop.simps [of env s conn])
      have "session_evolves s s1" using handle_evolves [OF h] by simp
      moreover have "session_evolves s1 (snd r)"
      proof (cases e)
        case None
        then show ?thesis using 1 h by (auto simp: Pair Inr run_loop.simps [of env s conn])
      next
        case (Some e')
        then show ?thesis using 1(2) h by (auto simp: Pair Inr run_loop.simps [of env s conn])
      qed
      ultimately show ?thesis by (rule session_evolves_trans)
    qed
  qed
qed

lemma vm_announce_keeps: "s_Media (snd (vm_announce env s)) = s_Media s"
proof -
  obtain e s1 where "sendVdiskRequest env 0 s = (e, s1)" by fastforce
  moreover from this have "s_Media s1 = s_Media s" using send_keeps(5) [of env 0 s] by simp
  ultimately show ?thesis
    by (auto simp: vm_announce_def sendVdiskRequestCD_def sendVdiskRequestUSB_def split: option.split)
qed

lemma Run_evolves: "Run env s conn = Some r \<Longrightarrow> session_evolves s (snd r)"
proof -
  assume run: "Run env s conn = Some r"
  obtain e s1 where a: "vm_announce env s = (e, s1)" by fastforce
  have "session_evolves s s1" using vm_announce_keeps [of env s] a by (simp add: session_evolves_media_eq)
  moreover have "session_evolves s1 (snd r)"
    using run by (auto simp: Run_def a split: option.splits dest: run_loop_evolves)
  ultimately show ?thesis by (rule session_evolves_trans)
qed

text \<open>Writes that succeed.\<close>

definition vdisk_range :: "u16 \<Rightarrow> u32 \<Rightarrow> u32 \<Rightarrow> u32 \<Rightarrow> bytes" where
  "vdisk_range d start n bf = putBE16 d @ putBE32 start @ putBE32 n @ putBE32 bf"

lemma vdisk_range_fields:
  "slice 0 2 (vdisk_range d st n bf @ rest) = putBE16 d" "slice 2 6 (vdisk_range d st n bf @ rest) = putBE32 st"
  "slice 6 10 (vdisk_range d st n bf @ rest) = putBE32 n" "slice 10 14 (vdisk_range d st n bf @ rest) = putBE32 bf"
  "drop 14 (vdisk_range d st n bf @ rest) = rest" "length (vdisk_range d st n bf) = 14"
  by (simp_all add: vdisk_range_def slice_def)

lemma handle_read:
  "s_Media s = Some m \<Longrightarrow> handle env \<lparr>f_Type = MsgVdiskRead, f_Payload = vdisk_range d start n bf @ rest\<rparr> s
     = vdisk_read_loop env d m (unat bf) (mk_buf (unat bf * m_blockSize m)) (unat n) (unat start) s"
  by (simp add: handle_def respondVdiskRead_def vdisk_range_fields Let_def)

lemma vdisk_read_loop_0: "vdisk_read_loop env d m bf buf 0 cur s = Some (sendClientStatus env d 0 s)"
  by (simp add: vdisk_read_loop.simps)

lemma respondVdiskWrite_ok:
  assumes "reliable env" "s_Media s = Some m" "m_f m = Some content" "\<not> m_readOnly m"
    and "length data = unat n * m_blockSize m"
  shows "\<exists>s'. respondVdiskWrite env \<lparr>f_Type = t, f_Payload = vdisk_range d st n bf @ data @ rest\<rparr> s = (None, s')
     \<and> s_Media s' = Some (m\<lparr>m_f := Some (overwrite (unat st * m_blockSize m) data content), m_dirty := True,
          m_bytesWritten := m_bytesWritten m + of_nat (length data)\<rparr>)
     \<and> s_sent s' = s_sent s @ [Encode \<lparr>f_Type = MsgClientStatus, f_Payload = putBE16 d @ putBE32 0\<rparr>]"
  using assms(1) assms(5) [symmetric]
  by (simp add: respondVdiskWrite_def vdisk_range_fields assms(2,3,4) Let_def reliable_sendClientStatus
      WriteAt_def reliable_def del: of_nat_mult)

section \<open>Media invariant\<close>

definition media_ok :: "Media \<Rightarrow> bool" where
  "media_ok m \<longleftrightarrow>
     m_blockSize m = (if m_isCD m then 2048 else 512)
     \<and> length (m_name m) \<le> 96
     \<and> \<not> (m_isCD m \<and> m_isFloppy m)
     \<and> (m_isCD m \<longrightarrow> m_readOnly m)
     \<and> m_deviceType m = (if m_isCD m then 5 else if m_isFloppy m then 0 else 6)
     \<and> (m_readOnly m \<longrightarrow> \<not> m_dirty m \<and> m_bytesWritten m = 0)
     \<and> (case m_f m of Some content \<Rightarrow> m_blocks m * m_blockSize m \<le> length content | None \<Rightarrow> True)"

lemma media_ok_evolves: "media_ok m \<Longrightarrow> media_evolves m m' \<Longrightarrow> media_ok m'"
  by (cases "m_f m"; cases "m_f m'") (auto simp: media_ok_def media_evolves_def)

lemma length_media_name: "length (media_name p) \<le> 96"
  by (simp add: media_name_def Let_def)

text \<open>The blocks a fresh medium offers are those of its file.\<close>

definition media_fresh :: "Media \<Rightarrow> bool" where
  "media_fresh m \<longleftrightarrow> media_ok m \<and> \<not> m_dirty m
     \<and> (case m_f m of Some content \<Rightarrow> m_blocks m = length content div m_blockSize m | None \<Rightarrow> False)"

lemma OpenCD_fresh: "OpenCD opened stat path = Inr m \<Longrightarrow> media_fresh m \<and> m_isCD m \<and> m_readOnly m"
  by (auto simp: OpenCD_def media_fresh_def media_ok_def length_media_name div_times_less_eq_dividend
      split: sum.splits option.splits)

lemma OpenUSB_fresh:
  "OpenUSB opened stat1 trunc stat2 path create sz = Inr m \<Longrightarrow> media_fresh m \<and> \<not> m_readOnly m
     \<and> (create \<longrightarrow> sz \<le> int (length (the (m_f m))))"
  by (auto simp: OpenUSB_def media_fresh_def media_ok_def length_media_name div_times_less_eq_dividend
      extend_to_def split: sum.splits option.splits if_splits)

lemma OpenFloppy_fresh:
  "OpenFloppy opened stat path writable = Inr m \<Longrightarrow> media_fresh m \<and> m_isFloppy m \<and> m_readOnly m = (\<not> writable)"
  by (auto simp: OpenFloppy_def media_fresh_def media_ok_def length_media_name div_times_less_eq_dividend
      split: sum.splits option.splits)

lemma after_sep_spec: "after_sep rp acc = rev (takeWhile (\<lambda>c. c \<noteq> 0x2F \<and> c \<noteq> 0x5C) rp) @ acc"
  by (induction rp arbitrary: acc) auto

lemma pathBase_spec: "pathBase p = rev (takeWhile (\<lambda>c. c \<noteq> 0x2F \<and> c \<noteq> 0x5C) (rev p))"
  by (simp add: pathBase_def after_sep_spec)

section \<open>Returning\<close>

text \<open>The requests whose chunk loop is known to end.\<close>

definition positive_factor :: "Frame \<Rightarrow> bool" where
  "positive_factor f \<longleftrightarrow> (f_Type f = MsgVdiskRead \<and> 14 \<le> length (f_Payload f)
     \<longrightarrow> be32 (slice 10 14 (f_Payload f)) \<noteq> 0)"

lemma handle_returns: "positive_factor f \<Longrightarrow> \<exists>r. handle env f s = Some r"
  using vdisk_read_loop_returns [of "unat (be32 (slice 10 14 (f_Payload f)))"]
  by (auto simp: handle_def respondVdiskRead_def Let_def positive_factor_def unat_gt_0 split: option.split)

lemma run_loop_returns:
  "read_all ReadFrame k conn = Some (fs, e) \<Longrightarrow> list_all positive_factor fs
     \<Longrightarrow> \<exists>e s'. run_loop env s conn = Some (Some e, s')"
proof (induction k arbitrary: conn fs s)
  case (Suc k)
  show ?case
  proof (cases "ReadFrame conn")
    case (Pair rf rest)
    show ?thesis
    proof (cases rf)
      case (Inl e)
      then show ?thesis by (simp add: Pair run_loop.simps)
    next
      case (Inr f)
      from Suc.prems obtain fs' where fs: "read_all ReadFrame k rest = Some (fs', e)" "fs = f # fs'"
        by (auto simp: Pair Inr)
      with Suc.prems(2) handle_returns [of f env s] obtain x s1 where h: "handle env f s = Some (x, s1)" by auto
      show ?thesis
        using Suc.IH [OF fs(1), of s1] Suc.prems(2)
        by (cases x) (simp_all add: Pair Inr h fs(2) run_loop.simps [of env s conn])
    qed
  qed
qed simp

section \<open>Properties\<close>

text \<open>C7: A read request that lies inside the image, with a positive blocking factor, is answered
  completely when nothing fails: a contiguous series of data frames of at most that many blocks, whose
  data concatenate to exactly the requested bytes of the image, then status 0; the counter of bytes
  served grows by the request's size and the medium is otherwise unchanged.\<close>

theorem vdisk_read_serves:
  assumes "reliable env" and "s_Media s = Some m" and "m_f m = Some img" and "bf \<noteq> 0"
    and "(unat start + unat n) * m_blockSize m \<le> length img"
  shows "\<exists>cs s'. handle env \<lparr>f_Type = MsgVdiskRead, f_Payload = vdisk_range d start n bf @ rest\<rparr> s = Some (None, s')
     \<and> contiguous (unat bf) (unat start) (unat n) cs
     \<and> s_sent s' = s_sent s @ map (chunk_frame d (m_blockSize m) img) cs
          @ [Encode \<lparr>f_Type = MsgClientStatus, f_Payload = putBE16 d @ putBE32 0\<rparr>]
     \<and> concat (map (chunk_data (m_blockSize m) img) cs)
          = slice (unat start * m_blockSize m) ((unat start + unat n) * m_blockSize m) img
     \<and> s_Media s' = Some (m\<lparr>m_bytesRead := m_bytesRead m + of_nat (unat n * m_blockSize m)\<rparr>)"
proof -
  have "0 < unat bf" using assms(4) by (simp add: unat_gt_0)
  from vdisk_read_loop_serves [OF assms(1) this assms(3,2) _ assms(5),
      of "mk_buf (unat bf * m_blockSize m)" d]
  obtain cs s' where "vdisk_read_loop env d m (unat bf) (mk_buf (unat bf * m_blockSize m)) (unat n) (unat start) s
       = Some (None, s')" "contiguous (unat bf) (unat start) (unat n) cs"
     "s_sent s' = s_sent s @ map (chunk_frame d (m_blockSize m) img) cs
          @ [Encode \<lparr>f_Type = MsgClientStatus, f_Payload = putBE16 d @ putBE32 0\<rparr>]"
     "s_Media s' = Some (m\<lparr>m_bytesRead := m_bytesRead m + of_nat (unat n * m_blockSize m)\<rparr>)"
    by auto
  then show ?thesis
    by (intro exI [of _ cs] exI [of _ s'])
      (auto simp: handle_read [OF assms(2)] contiguous_data simp del: of_nat_mult)
qed

definition demo_env :: "nat vm_env" where
  "demo_env = \<lparr>e_VCard = None, e_write = (\<lambda>n. None), e_io = (\<lambda>n. IoOk)\<rparr>"

definition demo_media :: Media where
  "demo_media = \<lparr>m_f = Some [10, 11, 12, 13, 14, 15], m_blockSize = 2, m_blocks = 3, m_name = [], m_readOnly = False,
     m_isCD = False, m_isFloppy = False, m_dirty = False, m_deviceType = 6, m_bytesRead = 0, m_bytesWritten = 0\<rparr>"

definition demo_session :: "nat VmSession" where
  "demo_session = \<lparr>s_Media = Some demo_media, s_card = 0, s_sent = [], s_nwrite = 0, s_nio = 0\<rparr>"

lemma demo_reliable: "reliable demo_env"
  by (simp add: reliable_def demo_env_def)

theorem vdisk_read_serves_witness:
  "\<exists>cs s'. handle demo_env \<lparr>f_Type = MsgVdiskRead, f_Payload = vdisk_range 0 0 3 2 @ []\<rparr> demo_session = Some (None, s')
     \<and> contiguous 2 0 3 cs \<and> concat (map (chunk_data 2 [10, 11, 12, 13, 14, 15]) cs) = [10, 11, 12, 13, 14, 15]"
  using vdisk_read_serves [of demo_env demo_session demo_media "[10, 11, 12, 13, 14, 15]" 2 0 3 0 "[]"]
  by (auto simp: demo_reliable demo_session_def demo_media_def slice_def)

text \<open>C28: When nothing fails and a medium is attached, a read request fails to return exactly when it
  asks for at least one block with blocking factor zero; every other request returns.\<close>

theorem vdisk_read_diverges_iff:
  assumes "reliable env" and "s_Media s = Some m" and "m_f m = Some img"
  shows "handle env \<lparr>f_Type = MsgVdiskRead, f_Payload = vdisk_range d start n bf @ rest\<rparr> s = None
     \<longleftrightarrow> bf = 0 \<and> n \<noteq> 0"
proof (cases "bf = 0")
  case True
  then show ?thesis
    using vdisk_read_loop_spins [OF assms(1,3)]
    by (cases "n = 0") (simp_all add: handle_read [OF assms(2)] unat_gt_0 vdisk_read_loop_0)
next
  case False
  then have "0 < unat bf" by (simp add: unat_gt_0)
  from vdisk_read_loop_returns [OF this] show ?thesis
    using False by (metis handle_read [OF assms(2)] option.distinct(1))
qed

theorem vdisk_read_diverges_iff_witness:
  "handle demo_env \<lparr>f_Type = MsgVdiskRead, f_Payload = vdisk_range 0 0 1 0 @ []\<rparr> demo_session = None"
  using vdisk_read_diverges_iff [of demo_env demo_session demo_media "[10, 11, 12, 13, 14, 15]" 0 0 1 0 "[]"]
  by (simp add: demo_reliable demo_session_def demo_media_def)

text \<open>C6: An image attached read-only is never altered, whatever the BMC sends: over a whole session the
  file content, the dirty flag and the write counter of a read-only medium stay as they were, and so do
  its geometry and name.\<close>

theorem read_only_image_immutable:
  assumes "Run env s conn = Some (r, s')" and "s_Media s = Some m" and "m_readOnly m"
  shows "\<exists>k. s_Media s' = Some (m\<lparr>m_bytesRead := k\<rparr>)"
proof -
  have "session_evolves s s'" using Run_evolves [OF assms(1)] by simp
  then obtain m' where m': "s_Media s' = Some m'" "media_evolves m m'"
    using assms(2) by (cases "s_Media s'") (auto simp: session_evolves_def)
  have "m' = m\<lparr>m_bytesRead := m_bytesRead m'\<rparr>"
    using m'(2) assms(3) by (auto simp: media_evolves_def)
  then show ?thesis using m'(1) by metis
qed

definition demo_conn :: bytes where
  "demo_conn = Encode \<lparr>f_Type = MsgVdiskWrite, f_Payload = vdisk_range 0 1 1 1 @ [7, 8]\<rparr>
     @ Encode \<lparr>f_Type = MsgVdiskRead, f_Payload = vdisk_range 0 0 2 2\<rparr>"

theorem read_only_image_immutable_witness:
  "\<exists>k s'. Run demo_env (demo_session\<lparr>s_Media := Some (demo_media\<lparr>m_readOnly := True\<rparr>)\<rparr>) demo_conn = Some (Some EOF, s')
     \<and> s_Media s' = Some (demo_media\<lparr>m_readOnly := True, m_bytesRead := k\<rparr>)"
proof -
  let ?s = "demo_session\<lparr>s_Media := Some (demo_media\<lparr>m_readOnly := True\<rparr>)\<rparr>"
  have "map_option fst (Run demo_env ?s demo_conn) = Some (Some EOF)" by code_simp
  then obtain s' where "Run demo_env ?s demo_conn = Some (Some EOF, s')" by auto
  with read_only_image_immutable [OF this, of "demo_media\<lparr>m_readOnly := True\<rparr>"] show ?thesis by auto
qed

text \<open>What the BMC writes it reads back, and nothing else changes.  On a writable medium, when nothing
  fails, a write of whole blocks is acknowledged with status 0, leaves every byte outside the addressed
  range as it was, and a following read of the range, with any positive blocking factor, delivers data
  frames that concatenate to the written bytes.\<close>

theorem vdisk_write_then_read:
  assumes "reliable env" and "s_Media s = Some m" and "m_f m = Some img" and "\<not> m_readOnly m" and "bf \<noteq> 0"
    and "length data = unat n * m_blockSize m" and "data \<noteq> []"
  shows "\<exists>s1 s2 cs img'.
     handle env \<lparr>f_Type = MsgVdiskWrite, f_Payload = vdisk_range d start n bf' @ data @ rest\<rparr> s = Some (None, s1)
     \<and> s_sent s1 = s_sent s @ [Encode \<lparr>f_Type = MsgClientStatus, f_Payload = putBE16 d @ putBE32 0\<rparr>]
     \<and> s_Media s1 = Some (m\<lparr>m_f := Some img', m_dirty := True,
          m_bytesWritten := m_bytesWritten m + of_nat (length data)\<rparr>)
     \<and> (\<forall>i < length img. i < unat start * m_blockSize m \<or> unat start * m_blockSize m + length data \<le> i
          \<longrightarrow> img' ! i = img ! i)
     \<and> handle env \<lparr>f_Type = MsgVdiskRead, f_Payload = vdisk_range d start n bf\<rparr> s1 = Some (None, s2)
     \<and> s_sent s2 = s_sent s1 @ map (chunk_frame d (m_blockSize m) img') cs
          @ [Encode \<lparr>f_Type = MsgClientStatus, f_Payload = putBE16 d @ putBE32 0\<rparr>]
     \<and> concat (map (chunk_data (m_blockSize m) img') cs) = data"
proof -
  let ?off = "unat start * m_blockSize m"
  define img' where "img' = overwrite ?off data img"
  let ?m = "m\<lparr>m_f := Some img', m_dirty := True, m_bytesWritten := m_bytesWritten m + of_nat (length data)\<rparr>"
  have hw: "handle env \<lparr>f_Type = MsgVdiskWrite, f_Payload = p\<rparr> s
      = Some (respondVdiskWrite env \<lparr>f_Type = MsgVdiskWrite, f_Payload = p\<rparr> s)" for p by (simp add: handle_def)
  obtain s1 where s1: "handle env \<lparr>f_Type = MsgVdiskWrite, f_Payload = vdisk_range d start n bf' @ data @ rest\<rparr> s
      = Some (None, s1)" "s_Media s1 = Some ?m"
    "s_sent s1 = s_sent s @ [Encode \<lparr>f_Type = MsgClientStatus, f_Payload = putBE16 d @ putBE32 0\<rparr>]"
    using respondVdiskWrite_ok [OF assms(1-4,6)] unfolding hw img'_def by blast
  have fits: "(unat start + unat n) * m_blockSize ?m \<le> length img'"
    using assms(6,7) overwrite_fits [of ?off data img] by (simp add: img'_def add_mult_distrib)
  have bf: "0 < unat bf" using assms(5) by (simp add: unat_gt_0)
  from vdisk_read_loop_serves [OF assms(1) bf _ s1(2) _ fits,
      where d = d and buf = "mk_buf (unat bf * m_blockSize ?m)"]
  obtain cs s2 where rd: "vdisk_read_loop env d ?m (unat bf) (mk_buf (unat bf * m_blockSize ?m)) (unat n)
      (unat start) s1 = Some (None, s2)" "contiguous (unat bf) (unat start) (unat n) cs"
    "s_sent s2 = s_sent s1 @ map (chunk_frame d (m_blockSize m) img') cs
        @ [Encode \<lparr>f_Type = MsgClientStatus, f_Payload = putBE16 d @ putBE32 0\<rparr>]"
    by auto
  have "concat (map (chunk_data (m_blockSize m) img') cs) = data"
    using contiguous_data [OF rd(2)] slice_overwrite [of ?off data img] assms(6)
    by (simp add: img'_def add_mult_distrib)
  then show ?thesis
    using s1 rd handle_read [OF s1(2), of env d start n bf "[]"]
    by (intro exI [of _ s1] exI [of _ s2] exI [of _ cs] exI [of _ img'])
      (auto simp: img'_def intro: overwrite_elsewhere)
qed

theorem vdisk_write_then_read_witness:
  "\<exists>s1 s2 cs img'.
     handle demo_env \<lparr>f_Type = MsgVdiskWrite, f_Payload = vdisk_range 0 1 1 1 @ [7, 8] @ []\<rparr> demo_session = Some (None, s1)
     \<and> handle demo_env \<lparr>f_Type = MsgVdiskRead, f_Payload = vdisk_range 0 1 1 4\<rparr> s1 = Some (None, s2)
     \<and> concat (map (chunk_data 2 img') cs) = [7, 8]"
  using vdisk_write_then_read [of demo_env demo_session demo_media "[10, 11, 12, 13, 14, 15]" 4 "[7, 8]" 1 0 1 1 "[]"]
  by (auto simp: demo_reliable demo_session_def demo_media_def)

text \<open>A session loop whose BMC never asks for blocks with blocking factor zero always comes to an end
  when the connection does, and always with an error value: \<open>Run\<close> returns, and never nil.\<close>

theorem vm_session_ends:
  assumes "read_all ReadFrame k conn = Some (fs, e0)" and "list_all positive_factor fs"
  shows "\<exists>e s'. Run env s conn = Some (Some e, s')"
proof -
  obtain x s1 where "vm_announce env s = (x, s1)" by fastforce
  then show ?thesis
    using run_loop_returns [OF assms, of env s1] by (cases x) (simp_all add: Run_def)
qed

theorem vm_session_ends_witness:
  "read_all ReadFrame 3 demo_conn = Some ([\<lparr>f_Type = MsgVdiskWrite, f_Payload = vdisk_range 0 1 1 1 @ [7, 8]\<rparr>,
       \<lparr>f_Type = MsgVdiskRead, f_Payload = vdisk_range 0 0 2 2\<rparr>], EOF)
     \<and> (\<exists>e s'. Run demo_env demo_session demo_conn = Some (Some e, s'))"
proof -
  have 1: "read_all ReadFrame 3 demo_conn = Some ([\<lparr>f_Type = MsgVdiskWrite, f_Payload = vdisk_range 0 1 1 1 @ [7, 8]\<rparr>,
       \<lparr>f_Type = MsgVdiskRead, f_Payload = vdisk_range 0 0 2 2\<rparr>], EOF)" by code_simp
  moreover have "list_all positive_factor [\<lparr>f_Type = MsgVdiskWrite, f_Payload = vdisk_range 0 1 1 1 @ [7, 8]\<rparr>,
       \<lparr>f_Type = MsgVdiskRead, f_Payload = vdisk_range 0 0 2 2\<rparr>]" by code_simp
  ultimately show ?thesis using vm_session_ends by blast
qed

text \<open>C27: The medium invariant.  Whichever way an image is opened, over a whole session the medium keeps its
  sector size, device type and access mode consistent with its kind, its name within 96 bytes, every
  block it announces inside the file, and a read-only medium clean.\<close>

theorem session_media_invariant:
  assumes "OpenCD opened stat path = Inr m \<or> OpenUSB opened stat trunc stat2 path create sz = Inr m
      \<or> OpenFloppy opened stat path writable = Inr m"
    and "s_Media s = Some m" and "Run env s conn = Some (r, s')"
  shows "\<exists>m'. s_Media s' = Some m' \<and> media_ok m' \<and> m_blocks m' = length (the (m_f m)) div m_blockSize m'
     \<and> m_blocks m' * m_blockSize m' \<le> length (the (m_f m'))"
proof -
  have fresh: "media_fresh m" using assms(1) OpenCD_fresh OpenUSB_fresh OpenFloppy_fresh by blast
  have "session_evolves s s'" using Run_evolves [OF assms(3)] by simp
  then obtain m' where m': "s_Media s' = Some m'" "media_evolves m m'"
    using assms(2) by (cases "s_Media s'") (auto simp: session_evolves_def)
  moreover have "media_ok m'" using media_ok_evolves [OF _ m'(2)] fresh by (simp add: media_fresh_def)
  ultimately show ?thesis
    using fresh by (auto simp: media_fresh_def media_ok_def media_evolves_def split: option.splits)
qed

theorem session_media_invariant_witness:
  "\<exists>m m' s'. OpenFloppy (Inr (replicate 1024 0)) None [0x61] True = Inr m
     \<and> Run demo_env (demo_session\<lparr>s_Media := Some m\<rparr>) [] = Some (Some EOF, s')
     \<and> s_Media s' = Some m' \<and> media_ok m' \<and> m_blocks m' = 2"
proof -
  obtain m where m: "OpenFloppy (Inr (replicate 1024 0)) None [0x61] True = Inr m" "m_f m = Some (replicate 1024 0)"
    "m_blockSize m = 512" "m_blocks m = 2" "\<not> m_isCD m"
    by (simp add: OpenFloppy_def)
  have "map_option fst (Run demo_env (demo_session\<lparr>s_Media := Some m\<rparr>) []) = Some (Some EOF)"
    by (simp add: Run_def vm_announce_def m(5) sendVdiskRequestUSB_def sendVdiskRequest_def demo_session_def send_def
        reliable_sendFrame [OF demo_reliable] run_loop.simps ReadFrame_def ReadFull_def)
      (simp add: demo_env_def run_loop.simps ReadFrame_def ReadFull_def)
  then obtain s' where r: "Run demo_env (demo_session\<lparr>s_Media := Some m\<rparr>) [] = Some (Some EOF, s')" by auto
  obtain m' where m': "s_Media s' = Some m'" "media_ok m'" "m_blocks m' = 1024 div m_blockSize m'"
    using session_media_invariant [OF disjI2 [OF disjI2 [OF m(1)]] _ r] m(2) by auto
  have "m_blockSize m' = 512"
    using Run_evolves [OF r] m m'(1) by (simp add: session_evolves_def media_evolves_def)
  then show ?thesis using m(1) r m' by auto
qed

text \<open>
  A chunk that reaches past the end of the image is padded with what the buffer still held: here the second
  block of a three-byte image with two-byte sectors carries a byte of the first one.
\<close>

lemma vdisk_read_stale_tail:
  "map_option (\<lambda>r. s_sent (snd r)) (vdisk_read_loop demo_env 0 (demo_media\<lparr>m_f := Some [10, 11, 12]\<rparr>) 1 (mk_buf 2) 2 0 demo_session)
     = Some [chunk_frame 0 2 [10, 11] (0, 1),
         Encode \<lparr>f_Type = MsgVdiskReadData, f_Payload = putBE16 0 @ putBE32 1 @ putBE32 1 @ [12, 11]\<rparr>,
         Encode \<lparr>f_Type = MsgClientStatus, f_Payload = putBE16 0 @ putBE32 0\<rparr>]"
  by code_simp

end
