(* ===== verification/Bridge_Session.thy ===== *)
theory Bridge_Session
  imports Bridge_Video Vm_Session
begin

text \<open>
  The life of the sessions the browser bridge keeps (\<open>cmd/beefkvm/main.go\<close>): connecting to the controller with its companion video
  socket, tearing a dead session down and reconnecting with backoff, and the virtual-media mounts with their check, insert and clean-up
  sections.  A socket is named by a handle and the process keeps the list of those it has open; a heartbeat goroutine is named by the
  handle it writes to and stays listed until its stop channel is closed.  Mount handlers and session goroutines interleave between their
  locked sections, so they are a step relation.
\<close>

section \<open>State\<close>

record bmc_state =
  n_user :: bytes
  n_pass :: bytes
  n_initW :: int
  n_initH :: int
  n_sess :: "(nat \<times> Session) option"
  n_videoConn :: "nat option"
  n_hbStop :: "nat option"
  n_avoAgg :: bytes
  n_open :: "nat list"
  n_beating :: "nat list"
  n_next :: nat
  n_log :: "(nat \<times> bytes) list"

definition bridge_session :: "byte \<Rightarrow> bool \<Rightarrow> bytes \<Rightarrow> bytes \<Rightarrow> bool \<Rightarrow> Session" where
  "bridge_session t skip user pass preempt =
     \<lparr>s_Type = t, s_SkipLogin = skip, s_Username = user, s_Password = pass, s_Preempt = preempt, s_Conn = None,
      s_Setup = \<lparr>ss_Status = 0, ss_VersionMajor = 0, ss_VersionMinor = 0, ss_Capabilities = 0, ss_TCPPort = 0, ss_NonceLen = 0, ss_Nonce = []\<rparr>,
      s_LoginStatus = \<lparr>ls_Status = 0, ls_CanRejectPreemption = False, ls_Username = []\<rparr>,
      s_KVMLoginResponse = kr_zero, s_ClientRandom = [], s_KVMSessionID = 0\<rparr>"

section \<open>Connecting\<close>

text \<open>A freshly opened socket gets the next handle; \<open>Open\<close> has closed its own socket when it fails.\<close>

definition new_socket :: "bmc_state \<Rightarrow> nat \<times> bmc_state" where
  "new_socket st = (n_next st, st\<lparr>n_next := n_next st + 1, n_open := n_next st # n_open st\<rparr>)"

definition close_socket :: "nat \<Rightarrow> bmc_state \<Rightarrow> bmc_state" where
  "close_socket h st = st\<lparr>n_open := removeAll h (n_open st)\<rparr>"

definition write_socket :: "nat \<Rightarrow> bytes \<Rightarrow> bmc_state \<Rightarrow> bmc_state" where
  "write_socket h b st = st\<lparr>n_log := n_log st @ [(h, b)]\<rparr>"

definition openVideoCompanion :: "environment \<Rightarrow> u32 \<Rightarrow> u32 \<Rightarrow> bmc_state \<Rightarrow> nat result \<times> bmc_state" where
  "openVideoCompanion env clientSessID serverSessID st =
     (case Open env (bridge_session SessionTypeKVMVMSubchannel True [] [] False) of
        (Some e, _, _) \<Rightarrow> (Inl e, st)
      | (None, s, _) \<Rightarrow>
          let (h, st) = new_socket st;
              st = write_socket h (EncodeVideoSyncDC clientSessID serverSessID) st
          in case fst (conn_write (snd (the (s_Conn s)))) of
               Some e \<Rightarrow> (Inl (Wrapf ''write dc: '' e), close_socket h st)
             | None \<Rightarrow> (Inr h, st\<lparr>n_beating := h # n_beating st\<rparr>))"

definition video_setup_frames :: "int \<Rightarrow> int \<Rightarrow> bytes list" where
  "video_setup_frames w h =
     (let res = mk_buf 8;
          res = copy_to 0 2 (putBE16 (word_of_int w)) res;
          res = copy_to 2 4 (putBE16 (word_of_int h)) res
      in [AVPTEncode \<lparr>a_ID = 782, a_Payload = [1, 1, 0, 0, 0, 0, 0, 0]\<rparr>, AVPTEncode \<lparr>a_ID = 770, a_Payload = res\<rparr>,
          AVPTEncode \<lparr>a_ID = 772, a_Payload = mk_buf 8\<rparr>])"

text \<open>From the opened session on: the heartbeat is started, the companion socket opened when the login reply asks for one, and the video
  stream is requested on the primary socket.\<close>

definition start_video :: "nat \<Rightarrow> nat \<Rightarrow> bmc_state \<Rightarrow> bmc_state" where
  "start_video h vc st = foldl (\<lambda>st b. write_socket h b st) (st\<lparr>n_videoConn := Some vc\<rparr>) (video_setup_frames (n_initW st) (n_initH st))"

definition connectBMC :: "environment \<Rightarrow> environment \<Rightarrow> bmc_state \<Rightarrow> gerror option \<times> bmc_state" where
  "connectBMC env env2 st =
     (case Open env (bridge_session SessionTypeKVM False (n_user st) (n_pass st) True) of
        (Some e, _, _) \<Rightarrow> (Some e, st)
      | (None, s, _) \<Rightarrow>
          let (h, st) = new_socket st;
              st = st\<lparr>n_sess := Some (h, s), n_hbStop := Some h, n_beating := h # n_beating st\<rparr>
          in if kr_NeedsCompanion (s_KVMLoginResponse s) then
               (case openVideoCompanion env2 (s_KVMSessionID s) (kr_SessionID (s_KVMLoginResponse s)) st of
                  (Inl e, st) \<Rightarrow> (Some (Wrapf ''open video companion: '' e), st)
                | (Inr vc, st) \<Rightarrow> (None, start_video h vc st))
             else (None, start_video h h st))"

section \<open>Tearing down and reconnecting\<close>

definition teardownSession :: "bmc_state \<Rightarrow> bmc_state" where
  "teardownSession st =
     (let st = (case n_hbStop st of None \<Rightarrow> st | Some h \<Rightarrow> st\<lparr>n_beating := removeAll h (n_beating st), n_hbStop := None\<rparr>);
          primary = map_option fst (n_sess st);
          st = (case n_videoConn st of None \<Rightarrow> st | Some v \<Rightarrow> if Some v \<noteq> primary then close_socket v st else st);
          st = (case primary of None \<Rightarrow> st | Some h \<Rightarrow> close_socket h st)
      in st\<lparr>n_avoAgg := []\<rparr>)"

definition handleDebugDrop :: "bmc_state \<Rightarrow> bmc_state" where
  "handleDebugDrop st =
     (let vc = n_videoConn st;
          st = (case vc of None \<Rightarrow> st | Some v \<Rightarrow> close_socket v st)
      in case n_sess st of None \<Rightarrow> st | Some (h, s) \<Rightarrow> if Some h \<noteq> vc then close_socket h st else st)"

text \<open>Backoff in seconds.  The environments of the coming attempts are a list; with the list used up the loop is still retrying.\<close>

definition next_backoff :: "nat \<Rightarrow> nat" where
  "next_backoff backoff = (if backoff < 15 then backoff * 2 else backoff)"

fun reconnect :: "(environment \<times> environment) list \<Rightarrow> nat \<Rightarrow> bmc_state \<Rightarrow> nat list \<times> bool \<times> bmc_state" where
  "reconnect [] backoff st = ([], False, st)"
| "reconnect ((env, env2) # attempts) backoff st =
     (case connectBMC env env2 st of
        (None, st) \<Rightarrow> ([backoff], True, st)
      | (Some e, st) \<Rightarrow>
          (case reconnect attempts (next_backoff backoff) st of (delays, r) \<Rightarrow> (backoff # delays, r)))"

text \<open>One round of the supervisor after the death signal: the delays slept, whether a session is up again, and the state.\<close>

definition superviseBMC :: "(environment \<times> environment) list \<Rightarrow> bmc_state \<Rightarrow> nat list \<times> bool \<times> bmc_state" where
  "superviseBMC attempts st = reconnect attempts 1 (teardownSession st)"

section \<open>Mounting media\<close>

text \<open>What the request handlers make of the media type; the file system's answers are those of the media package.\<close>

record media_files =
  mf_open :: "bytes result"
  mf_stat :: "gerror option"

datatype media_choice = BadType | OpenFailed gerror | Opened Media

definition open_media :: "media_files \<Rightarrow> bytes \<Rightarrow> bytes \<Rightarrow> bool \<Rightarrow> media_choice" where
  "open_media fs ty path writable =
     (let r = (if ty = str_bytes ''cd'' then Some (OpenCD (mf_open fs) (mf_stat fs) path)
               else if ty = str_bytes ''usb'' then Some (OpenUSB (mf_open fs) (mf_stat fs) None (mf_stat fs) path False 0)
               else if ty = str_bytes ''floppy'' then Some (OpenFloppy (mf_open fs) (mf_stat fs) path writable)
               else None)
      in case r of None \<Rightarrow> BadType | Some (Inl e) \<Rightarrow> OpenFailed e | Some (Inr m) \<Rightarrow> Opened m)"

record mount_request =
  mq_Type :: bytes
  mq_Path :: bytes
  mq_Writable :: bool

datatype mount_reply = MountError nat string | MountOpened Media

text \<open>\<open>handleVMMount\<close> up to the mount itself.\<close>

definition handleVMMount :: "media_files \<Rightarrow> string \<Rightarrow> mount_request result \<Rightarrow> mount_reply" where
  "handleVMMount fs meth body =
     (if meth \<noteq> ''POST'' then MountError 405 ''POST required''
      else
        (case body of
           Inl e \<Rightarrow> MountError 400 (''bad json: '' @ err_text e)
         | Inr req \<Rightarrow>
             if mq_Path req = [] then MountError 400 ''path required''
             else
               (case open_media fs (mq_Type req) (mq_Path req) (mq_Writable req) of
                  BadType \<Rightarrow> MountError 400 ''type must be cd|usb|floppy''
                | OpenFailed e \<Rightarrow> MountError 400 (''open media: '' @ err_text e)
                | Opened m \<Rightarrow> MountOpened m)))"

text \<open>\<open>handleVMUpload\<close> up to the mount: what storing the file yields, whether the temporary directory still exists on return, and the reply.\<close>

record upload =
  up_Type :: bytes
  up_Writable :: bytes
  up_Parse :: "gerror option"
  up_FormFile :: "gerror option"
  up_MkdirTemp :: "gerror option"
  up_Create :: "gerror option"
  up_Copy :: "gerror option"
  up_Path :: bytes

definition handleVMUpload :: "media_files \<Rightarrow> string \<Rightarrow> upload \<Rightarrow> mount_reply \<times> bool" where
  "handleVMUpload fs meth u =
     (if meth \<noteq> ''POST'' then (MountError 405 ''POST required'', False)
      else
        let mediaType = (if up_Type u = [] then str_bytes ''cd'' else up_Type u);
            writable = (up_Writable u = str_bytes ''1'')
        in case up_Parse u of Some e \<Rightarrow> (MountError 400 (''multipart: '' @ err_text e), False)
         | None \<Rightarrow> (case up_FormFile u of Some e \<Rightarrow> (MountError 400 (''form file: '' @ err_text e), False)
         | None \<Rightarrow> (case up_MkdirTemp u of Some e \<Rightarrow> (MountError 500 (''temp dir: '' @ err_text e), False)
         | None \<Rightarrow> (case up_Create u of Some e \<Rightarrow> (MountError 500 (''create: '' @ err_text e), False)
         | None \<Rightarrow> (case up_Copy u of Some e \<Rightarrow> (MountError 500 (''copy: '' @ err_text e), False)
         | None \<Rightarrow>
             (case open_media fs mediaType (up_Path u) writable of
                BadType \<Rightarrow> (MountError 400 ''type must be cd|usb|floppy'', False)
              | OpenFailed e \<Rightarrow> (MountError 400 (''open media: '' @ err_text e), False)
              | Opened m \<Rightarrow> (MountOpened m, True)))))))"

record mount_status =
  st_drive_id :: u16
  st_type :: string
  st_blocks :: nat
  st_block_size :: nat
  st_bytes_read :: u64
  st_bytes_written :: u64

definition mountStatus :: "u16 \<Rightarrow> Media \<Rightarrow> mount_status" where
  "mountStatus driveID m =
     \<lparr>st_drive_id = driveID, st_type = media_Type m, st_blocks = m_blocks m, st_block_size = m_blockSize m,
      st_bytes_read = m_bytesRead m, st_bytes_written = m_bytesWritten m\<rparr>"

section \<open>Concurrent mounts\<close>

text \<open>
  Each call of \<open>mountMediaSubchannel\<close> gets a number.  \<open>Checked\<close>: the first locked section found drive 0 free.  \<open>Failed\<close>: the media session
  could not be opened and the handler cleaned up.  \<open>Running\<close>: the second locked section has stored the mount and its goroutine runs.
  \<open>Ended\<close>: the session ended and the goroutine has cleaned up.  An upload has a temporary directory, whose path the handler stores in the
  mount after \<open>mountMediaSubchannel\<close> has returned.
\<close>

datatype phase = Absent | Checked | Failed | Running | Ended

record mount_sys =
  y_mounts :: "u16 \<Rightarrow> nat option"
  y_phase :: "nat \<Rightarrow> phase"
  y_upload :: "nat \<Rightarrow> bool"
  y_temp :: "nat \<Rightarrow> bool"
  y_dirs :: "nat \<Rightarrow> bool"
  y_next :: nat

definition no_mounts :: mount_sys where
  "no_mounts = \<lparr>y_mounts = (\<lambda>_. None), y_phase = (\<lambda>_. Absent), y_upload = (\<lambda>_. False), y_temp = (\<lambda>_. False), y_dirs = (\<lambda>_. False), y_next = 0\<rparr>"

inductive mount_step :: "mount_sys \<Rightarrow> mount_sys \<Rightarrow> bool" where
  refuse: "y_mounts s 0 \<noteq> None \<Longrightarrow> mount_step s s"
| check: "y_mounts s 0 = None \<Longrightarrow>
    mount_step s (s\<lparr>y_phase := (y_phase s)(y_next s := Checked), y_upload := (y_upload s)(y_next s := up), y_dirs := (y_dirs s)(y_next s := up),
      y_next := y_next s + 1\<rparr>)"
| open_fails: "y_phase s i = Checked \<Longrightarrow> mount_step s (s\<lparr>y_phase := (y_phase s)(i := Failed), y_dirs := (y_dirs s)(i := False)\<rparr>)"
| store: "y_phase s i = Checked \<Longrightarrow> mount_step s (s\<lparr>y_phase := (y_phase s)(i := Running), y_mounts := (y_mounts s)(0 := Some i)\<rparr>)"
| set_temp: "y_phase s i = Running \<or> y_phase s i = Ended \<Longrightarrow> y_upload s i \<Longrightarrow> mount_step s (s\<lparr>y_temp := (y_temp s)(i := True)\<rparr>)"
| session_ends: "y_phase s i = Running \<Longrightarrow>
    mount_step s (s\<lparr>y_phase := (y_phase s)(i := Ended), y_mounts := (y_mounts s)(0 := if y_mounts s 0 = Some i then None else y_mounts s 0),
      y_dirs := (y_dirs s)(i := y_dirs s i \<and> \<not> y_temp s i)\<rparr>)"

inductive_cases mount_stepE: "mount_step s s'"

inductive mount_reach :: "mount_sys \<Rightarrow> bool" where
  init: "mount_reach no_mounts"
| step: "mount_reach s \<Longrightarrow> mount_step s s' \<Longrightarrow> mount_reach s'"

text \<open>\<open>handleVMUnmount\<close> finds a mount by its drive; \<open>handleVMStatus\<close> lists the stored ones.\<close>

definition unmount_target :: "u16 \<Rightarrow> mount_sys \<Rightarrow> nat option" where
  "unmount_target driveID s = y_mounts s driveID"

definition listed :: "mount_sys \<Rightarrow> nat set" where
  "listed s = {i. \<exists>d. y_mounts s d = Some i}"

section \<open>Lemmas: sockets\<close>

definition session_sockets :: "bmc_state \<Rightarrow> nat set" where
  "session_sockets st = set_option (map_option fst (n_sess st)) \<union> set_option (n_videoConn st)"

text \<open>Nothing but the sockets of the current session is open.\<close>

definition no_leak :: "bmc_state \<Rightarrow> bool" where
  "no_leak st \<longleftrightarrow> set (n_open st) \<subseteq> session_sockets st"

lemma start_video_fields [simp]:
  "n_open (start_video h vc st) = n_open st" "n_sess (start_video h vc st) = n_sess st" "n_videoConn (start_video h vc st) = Some vc"
  "n_beating (start_video h vc st) = n_beating st" "n_hbStop (start_video h vc st) = n_hbStop st"
  "n_user (start_video h vc st) = n_user st" "n_pass (start_video h vc st) = n_pass st" "n_avoAgg (start_video h vc st) = n_avoAgg st"
  by (simp_all add: start_video_def video_setup_frames_def write_socket_def Let_def)

lemmas socket_defs = new_socket_def close_socket_def write_socket_def

lemma teardown_closes:
  assumes "no_leak st"
  shows "n_open (teardownSession st) = []"
proof -
  have "set (n_open (teardownSession st)) = set (n_open st) - session_sockets st"
    by (auto simp: teardownSession_def session_sockets_def close_socket_def Let_def split: option.splits)
  then have "set (n_open (teardownSession st)) = {}" using assms by (simp add: no_leak_def Diff_eq_empty_iff)
  then show ?thesis by simp
qed

lemma teardown_keeps [simp]:
  "n_user (teardownSession st) = n_user st" "n_pass (teardownSession st) = n_pass st" "n_avoAgg (teardownSession st) = []"
  "n_hbStop (teardownSession st) = None"
  by (auto simp: teardownSession_def close_socket_def Let_def split: option.split)

lemma connect_keeps: "connectBMC env env2 st = (r, st') \<Longrightarrow> n_user st' = n_user st \<and> n_pass st' = n_pass st"
  by (auto simp: connectBMC_def openVideoCompanion_def socket_defs Let_def split: prod.splits option.splits if_splits sum.splits)

text \<open>A successful connection adds exactly its own sockets; a failed one adds none unless the companion socket was the problem.\<close>

lemma connect_ok_sockets:
  assumes "connectBMC env env2 st = (None, st')"
  shows "set (n_open st') = set (n_open st) \<union> session_sockets st'"
  using assms
  by (auto simp: connectBMC_def openVideoCompanion_def socket_defs session_sockets_def Let_def split: prod.splits option.splits if_splits sum.splits)

definition primary_fails :: "environment \<Rightarrow> bmc_state \<Rightarrow> bool" where
  "primary_fails env st \<longleftrightarrow> fst (Open env (bridge_session SessionTypeKVM False (n_user st) (n_pass st) True)) \<noteq> None"

lemma primary_fails_connect: "primary_fails env st \<Longrightarrow> \<exists>e. connectBMC env env2 st = (Some e, st)"
  by (auto simp: primary_fails_def connectBMC_def split: prod.splits)

definition companion_fails :: "environment \<Rightarrow> environment \<Rightarrow> bmc_state \<Rightarrow> bool" where
  "companion_fails env env2 st \<longleftrightarrow>
     (\<exists>s evs. Open env (bridge_session SessionTypeKVM False (n_user st) (n_pass st) True) = (None, s, evs)
        \<and> kr_NeedsCompanion (s_KVMLoginResponse s))
     \<and> fst (Open env2 (bridge_session SessionTypeKVMVMSubchannel True [] [] False)) \<noteq> None"

lemma companion_fails_connect:
  assumes "companion_fails env env2 st"
  shows "\<exists>e st'. connectBMC env env2 st = (Some e, st') \<and> n_open st' = n_next st # n_open st \<and> n_beating st' = n_next st # n_beating st
    \<and> n_next st' = n_next st + 1 \<and> n_user st' = n_user st \<and> n_pass st' = n_pass st"
  using assms by (auto simp: companion_fails_def connectBMC_def openVideoCompanion_def socket_defs Let_def split: prod.splits)

section \<open>Lemmas: backoff\<close>

lemma next_backoff_min: "next_backoff (min (2 ^ k) 16) = min (2 ^ Suc k) 16"
proof (cases "k < 4")
  case True
  then have "k \<in> {0, 1, 2, 3}" by auto
  then show ?thesis by (auto simp: next_backoff_def)
next
  case False
  then have "(2 :: nat) ^ 4 \<le> 2 ^ k" by (intro power_increasing) auto
  then show ?thesis by (simp add: next_backoff_def)
qed

lemma reconnect_schedule:
  assumes "\<And>k st'. k < n \<Longrightarrow> Q st' \<Longrightarrow> \<exists>e st''. connectBMC (fst (as ! k)) (snd (as ! k)) st' = (Some e, st'') \<and> Q st''"
    and "\<And>st'. Q st' \<Longrightarrow> \<exists>st''. connectBMC (fst (as ! n)) (snd (as ! n)) st' = (None, st'') \<and> R st''"
    and "n < length as" "Q st"
  shows "\<exists>st'. reconnect as (min (2 ^ j) 16) st = (map (\<lambda>k. min (2 ^ (j + k)) 16) [0..<Suc n], True, st') \<and> R st'"
  using assms
proof (induction n arbitrary: as j st)
  case 0
  then obtain a as' where "as = a # as'" by (cases as) auto
  then show ?case using 0(2) [OF 0(4)] by (cases a) auto
next
  case (Suc n)
  then obtain a as' where as: "as = a # as'" by (cases as) auto
  obtain e st1 where c: "connectBMC (fst a) (snd a) st = (Some e, st1)" "Q st1" using Suc.prems(1) [of 0 st] Suc.prems(4) by (auto simp: as)
  have "\<exists>st'. reconnect as' (min (2 ^ Suc j) 16) st1 = (map (\<lambda>k. min (2 ^ (Suc j + k)) 16) [0..<Suc n], True, st') \<and> R st'"
  proof (rule Suc.IH)
    show "\<exists>e st''. connectBMC (fst (as' ! k)) (snd (as' ! k)) st' = (Some e, st'') \<and> Q st''" if "k < n" "Q st'" for k st'
      using Suc.prems(1) [of "Suc k" st'] that by (simp add: as)
    show "\<exists>st''. connectBMC (fst (as' ! n)) (snd (as' ! n)) st' = (None, st'') \<and> R st''" if "Q st'" for st'
      using Suc.prems(2) [OF that] by (simp add: as)
  qed (use Suc.prems(3) c(2) as in auto)
  then obtain st' where r: "reconnect as' (min (2 ^ Suc j) 16) st1 = (map (\<lambda>k. min (2 ^ (Suc j + k)) 16) [0..<Suc n], True, st')" "R st'" by blast
  have "map (\<lambda>k. min (2 ^ (j + k)) 16) [0..<Suc (Suc n)] = min (2 ^ j) 16 # map (\<lambda>k. min (2 ^ (Suc j + k)) (16 :: nat)) [0..<Suc n]"
    unfolding upt_conv_Cons [OF zero_less_Suc] map_Suc_upt [symmetric] by (simp del: upt_Suc)
  then show ?case using c r by (cases a) (simp add: as next_backoff_min del: upt_Suc power_Suc)
qed

section \<open>Lemmas: mounts\<close>

lemma mount_invariant:
  "mount_reach s \<Longrightarrow> (\<forall>d i. y_mounts s d = Some i \<longrightarrow> d = 0 \<and> y_phase s i = Running) \<and> (\<forall>i \<ge> y_next s. y_phase s i = Absent)"
proof (induction rule: mount_reach.induct)
  case init
  then show ?case by (simp add: no_mounts_def)
next
  case (step s s')
  have z: "y_mounts s d = None" if "d \<noteq> 0" for d using step.IH that by (metis not_None_eq)
  from step(2) show ?case
  proof (cases rule: mount_step.cases)
    case (check up)
    then show ?thesis using step.IH by (auto simp: Suc_le_eq)
  next
    case (session_ends i)
    then show ?thesis using step.IH z by (auto split: if_splits)
  qed (use step.IH z in \<open>auto split: if_splits\<close>)
qed

text \<open>Runs in which no two mount calls are between their two locked sections at the same time.\<close>

inductive serial_reach :: "mount_sys \<Rightarrow> bool" where
  serial_init: "serial_reach no_mounts"
| serial_step: "serial_reach s \<Longrightarrow> mount_step s s' \<Longrightarrow> (\<And>i j. y_phase s' i = Checked \<Longrightarrow> y_phase s' j = Checked \<Longrightarrow> i = j) \<Longrightarrow> serial_reach s'"

lemma serial_reach_reach: "serial_reach s \<Longrightarrow> mount_reach s"
  by (induction rule: serial_reach.induct) (auto intro: mount_reach.intros)

lemma serial_invariant:
  "serial_reach s \<Longrightarrow> (\<forall>i. y_phase s i = Running \<longrightarrow> y_mounts s 0 = Some i) \<and> (\<forall>i. y_phase s i = Checked \<longrightarrow> y_mounts s 0 = None)
     \<and> (\<forall>i j. y_phase s i = Checked \<longrightarrow> y_phase s j = Checked \<longrightarrow> i = j)"
proof (induction rule: serial_reach.induct)
  case serial_init
  then show ?case by (simp add: no_mounts_def)
next
  case (serial_step s s')
  note inv = mount_invariant [OF serial_reach_reach [OF serial_step(1)]]
  from serial_step(2) have "(\<forall>i. y_phase s' i = Running \<longrightarrow> y_mounts s' 0 = Some i) \<and> (\<forall>i. y_phase s' i = Checked \<longrightarrow> y_mounts s' 0 = None)"
  proof (cases rule: mount_step.cases)
    case (store i)
    then show ?thesis using serial_step.IH by auto
  next
    case (session_ends i)
    have "j = i" if "y_phase s j = Running" for j using that session_ends serial_step.IH by (metis option.inject)
    then have "y_phase s' j \<noteq> Running" for j using session_ends(1) by (cases "j = i") auto
    moreover have "y_mounts s' 0 = None" using session_ends serial_step.IH by simp
    ultimately show ?thesis by blast
  qed (use serial_step.IH in auto)
  then show ?case using serial_step(3) by blast
qed

section \<open>Properties\<close>

text \<open>C33: Reconnection succeeds as soon as the controller lets it, at a bounded pace.  If the next \<open>n\<close> attempts fail and the one after them
  connects, the supervisor ends up connected after exactly \<open>n + 1\<close> attempts, having slept 1, 2, 4, 8 and from then on 16 seconds.\<close>

theorem reconnect_backoff:
  assumes "n < length as"
    and "\<And>k st'. k < n \<Longrightarrow> n_user st' = n_user st \<Longrightarrow> n_pass st' = n_pass st \<Longrightarrow> fst (connectBMC (fst (as ! k)) (snd (as ! k)) st') \<noteq> None"
    and "\<And>st'. n_user st' = n_user st \<Longrightarrow> n_pass st' = n_pass st \<Longrightarrow> fst (connectBMC (fst (as ! n)) (snd (as ! n)) st') = None"
  shows "\<exists>st'. superviseBMC as st = (map (\<lambda>k. min (2 ^ k) 16) [0..<Suc n], True, st')"
proof -
  let ?Q = "\<lambda>st'. n_user st' = n_user st \<and> n_pass st' = n_pass st"
  have f: "\<exists>e st''. connectBMC (fst (as ! k)) (snd (as ! k)) st' = (Some e, st'') \<and> ?Q st''" if "k < n" "?Q st'" for k st'
    using assms(2) [of k st'] that connect_keeps by (cases "connectBMC (fst (as ! k)) (snd (as ! k)) st'") fastforce
  have s: "\<exists>st''. connectBMC (fst (as ! n)) (snd (as ! n)) st' = (None, st'') \<and> True" if "?Q st'" for st'
    using assms(3) [of st'] that by (cases "connectBMC (fst (as ! n)) (snd (as ! n)) st'") auto
  have "\<exists>st'. reconnect as (min (2 ^ 0) 16) (teardownSession st) = (map (\<lambda>k. min (2 ^ (0 + k)) 16) [0..<Suc n], True, st') \<and> True"
    by (rule reconnect_schedule [where Q = ?Q]) (use f s assms(1) in simp_all)
  then show ?thesis by (simp add: superviseBMC_def del: upt_Suc)
qed

definition demo_bmc :: bmc_state where
  "demo_bmc = \<lparr>n_user = [97], n_pass = [115], n_initW = 1024, n_initH = 768, n_sess = None, n_videoConn = None, n_hbStop = None, n_avoAgg = [],
     n_open = [], n_beating = [], n_next = 0, n_log = []\<rparr>"

definition dead_env :: environment where
  "dead_env = (Apcp_Session.demo_env 4 KVMHeartbeat)\<lparr>e_Dial := Inl (NetErr ''timeout'')\<rparr>"

lemma demo_open: "\<exists>s evs. Open (Apcp_Session.demo_env 4 KVMHeartbeat) (bridge_session 3 False [97] [115] True) = (None, s, evs)
    \<and> \<not> kr_NeedsCompanion (s_KVMLoginResponse s)"
proof -
  have "fst (Open (Apcp_Session.demo_env 4 KVMHeartbeat) (bridge_session 3 False [97] [115] True)) = None"
    "\<not> kr_NeedsCompanion (s_KVMLoginResponse (fst (snd (Open (Apcp_Session.demo_env 4 KVMHeartbeat) (bridge_session 3 False [97] [115] True)))))"
    by code_simp+
  then show ?thesis by (cases "Open (Apcp_Session.demo_env 4 KVMHeartbeat) (bridge_session 3 False [97] [115] True)") auto
qed

lemma demo_connects: "n_user st = [97] \<Longrightarrow> n_pass st = [115] \<Longrightarrow> fst (connectBMC (Apcp_Session.demo_env 4 KVMHeartbeat) env2 st) = None"
  using demo_open by (auto simp: connectBMC_def Let_def new_socket_def)

lemma dead_fails: "primary_fails dead_env st"
  by (simp add: primary_fails_def dead_env_def Open_def)

theorem reconnect_backoff_witness:
  "\<exists>st'. superviseBMC [(dead_env, dead_env), (dead_env, dead_env), (Apcp_Session.demo_env 4 KVMHeartbeat, dead_env)] demo_bmc = ([1, 2, 4], True, st')"
proof -
  let ?as = "[(dead_env, dead_env), (dead_env, dead_env), (Apcp_Session.demo_env 4 KVMHeartbeat, dead_env)]"
  have "\<exists>st'. superviseBMC ?as demo_bmc = (map (\<lambda>k. min (2 ^ k) 16) [0..<Suc 2], True, st')"
  proof (rule reconnect_backoff)
    fix k :: nat and st'
    assume "k < 2"
    then have "?as ! k = (dead_env, dead_env)" by (auto simp: less_2_cases_iff)
    then show "fst (connectBMC (fst (?as ! k)) (snd (?as ! k)) st') \<noteq> None" using primary_fails_connect [OF dead_fails] by (metis fst_conv option.distinct(1) snd_conv)
  qed (simp_all add: demo_connects demo_bmc_def)
  then show ?thesis by (simp add: upt_rec)
qed

text \<open>C34: A reconnection leaves nothing of the old session behind.  From a state in which only the sockets of the current session are open,
  and when the attempts that fail do so before the primary session is up, the open sockets after the reconnection are exactly those of the
  new session, and no half-received tile packet is carried over.\<close>

theorem reconnect_releases_sockets:
  assumes "no_leak st" "n < length as"
    and "\<And>k st'. k < n \<Longrightarrow> n_user st' = n_user st \<Longrightarrow> n_pass st' = n_pass st \<Longrightarrow> primary_fails (fst (as ! k)) st'"
    and "\<And>st'. n_user st' = n_user st \<Longrightarrow> n_pass st' = n_pass st \<Longrightarrow> fst (connectBMC (fst (as ! n)) (snd (as ! n)) st') = None"
  shows "\<exists>delays st'. superviseBMC as st = (delays, True, st') \<and> set (n_open st') = session_sockets st' \<and> n_avoAgg st' = []"
proof -
  let ?Q = "\<lambda>st'. n_user st' = n_user st \<and> n_pass st' = n_pass st \<and> n_open st' = [] \<and> n_avoAgg st' = []"
  let ?R = "\<lambda>st'. set (n_open st') = session_sockets st' \<and> n_avoAgg st' = []"
  have f: "\<exists>e st''. connectBMC (fst (as ! k)) (snd (as ! k)) st' = (Some e, st'') \<and> ?Q st''" if "k < n" "?Q st'" for k st'
    using primary_fails_connect [OF assms(3), of k st' "snd (as ! k)"] that by auto
  have agg: "connectBMC env env2 st1 = (r, st2) \<Longrightarrow> n_avoAgg st2 = n_avoAgg st1" for env env2 st1 r st2
    by (auto simp: connectBMC_def openVideoCompanion_def socket_defs Let_def split: prod.splits option.splits if_splits sum.splits)
  have s: "\<exists>st''. connectBMC (fst (as ! n)) (snd (as ! n)) st' = (None, st'') \<and> ?R st''" if "?Q st'" for st'
  proof -
    have q: "n_user st' = n_user st" "n_pass st' = n_pass st" using that by auto
    obtain st'' where c: "connectBMC (fst (as ! n)) (snd (as ! n)) st' = (None, st'')"
      using assms(4) [OF q] by (cases "connectBMC (fst (as ! n)) (snd (as ! n)) st'") auto
    then show ?thesis using connect_ok_sockets [OF c] agg [OF c] that by simp
  qed
  have "\<exists>st'. reconnect as (min (2 ^ 0) 16) (teardownSession st) = (map (\<lambda>k. min (2 ^ (0 + k)) 16) [0..<Suc n], True, st') \<and> ?R st'"
    by (rule reconnect_schedule [where Q = ?Q]) (use f s assms(1,2) teardown_closes in simp_all)
  then show ?thesis by (auto simp: superviseBMC_def simp del: upt_Suc)
qed

theorem reconnect_releases_sockets_witness:
  "\<exists>delays st'. superviseBMC [(dead_env, dead_env), (Apcp_Session.demo_env 4 KVMHeartbeat, dead_env)]
      (demo_bmc\<lparr>n_sess := Some (7, bridge_session 3 False [] [] True), n_videoConn := Some 8, n_open := [7, 8], n_next := 9\<rparr>) = (delays, True, st')
     \<and> set (n_open st') = session_sockets st'"
proof -
  let ?as = "[(dead_env, dead_env), (Apcp_Session.demo_env 4 KVMHeartbeat, dead_env)]"
    and ?st = "demo_bmc\<lparr>n_sess := Some (7, bridge_session 3 False [] [] True), n_videoConn := Some 8, n_open := [7, 8], n_next := 9\<rparr>"
  have "\<exists>delays st'. superviseBMC ?as ?st = (delays, True, st') \<and> set (n_open st') = session_sockets st' \<and> n_avoAgg st' = []"
    by (rule reconnect_releases_sockets [where n = 1])
      (auto simp: no_leak_def session_sockets_def dead_fails demo_connects demo_bmc_def)
  then show ?thesis by blast
qed

text \<open>When the companion socket cannot be opened the primary session is forgotten but not closed: every such attempt leaves one more open
  socket and one more running heartbeat behind, without bound.\<close>

theorem companion_failures_leak:
  assumes "no_leak st" "\<And>st'. n_user st' = n_user st \<Longrightarrow> n_pass st' = n_pass st \<Longrightarrow> companion_fails env env2 st'"
  shows "\<exists>delays st'. superviseBMC (replicate n (env, env2)) st = (delays, False, st') \<and> length (n_open st') = n \<and> distinct (n_open st')
    \<and> length (n_beating st') = n + length (n_beating (teardownSession st))"
proof -
  have "\<exists>delays st'. reconnect (replicate n (env, env2)) b st1 = (delays, False, st') \<and> length (n_open st') = n + length (n_open st1)
      \<and> distinct (n_open st') \<and> length (n_beating st') = n + length (n_beating st1)"
    if "n_user st1 = n_user st" "n_pass st1 = n_pass st" "distinct (n_open st1)" "\<forall>h \<in> set (n_open st1). h < n_next st1" for b st1
    using that
  proof (induction n arbitrary: b st1)
    case (Suc n)
    from companion_fails_connect [OF assms(2), of st1] Suc.prems obtain e st2 where
      c: "connectBMC env env2 st1 = (Some e, st2)" "n_open st2 = n_next st1 # n_open st1" "n_beating st2 = n_next st1 # n_beating st1"
        "n_next st2 = n_next st1 + 1" "n_user st2 = n_user st" "n_pass st2 = n_pass st" by auto
    have "distinct (n_open st2)" "\<forall>h \<in> set (n_open st2). h < n_next st2" using c(2,4) Suc.prems by auto
    from Suc.IH [OF c(5,6) this, of "next_backoff b"] show ?case using c by auto
  qed simp
  from this [of "teardownSession st" 1] show ?thesis using teardown_closes [OF assms(1)] by (simp add: superviseBMC_def)
qed

definition companion_env :: environment where
  "companion_env = Apcp_Session.demo_env 4 (AVPTEncode \<lparr>a_ID = 33536, a_Payload = [0, 0, 0, 0, 0, 9, 0, 0x10, 0, 0]\<rparr>)"

theorem companion_failures_leak_witness:
  "\<exists>delays st'. superviseBMC (replicate 5 (companion_env, dead_env)) demo_bmc = (delays, False, st') \<and> length (n_open st') = 5"
proof -
  let ?o = "Open companion_env (bridge_session 3 False [97] [115] True)"
  have "fst ?o = None" "kr_NeedsCompanion (s_KVMLoginResponse (fst (snd ?o)))" by code_simp+
  then have o: "\<exists>s evs. ?o = (None, s, evs) \<and> kr_NeedsCompanion (s_KVMLoginResponse s)" by (cases ?o) auto
  have "fst (Open dead_env s) \<noteq> None" for s by (simp add: dead_env_def Open_def)
  with o have "companion_fails companion_env dead_env st" if "n_user st = n_user demo_bmc" "n_pass st = n_pass demo_bmc" for st
    using that by (simp add: companion_fails_def demo_bmc_def)
  from companion_failures_leak [of demo_bmc, OF _ this, of 5] show ?thesis by (auto simp: no_leak_def demo_bmc_def)
qed

text \<open>The status page tells the truth about what it lists: a mount that is listed is on drive 0 and its session is running, so an ended
  session is never listed, however mount, upload, unmount and session goroutines interleave.\<close>

theorem listed_mounts_run:
  assumes "mount_reach s" "y_mounts s d = Some i"
  shows "d = 0 \<and> y_phase s i = Running"
  using mount_invariant [OF assms(1)] assms(2) by blast

definition one_mount :: mount_sys where
  "one_mount = no_mounts\<lparr>y_phase := (\<lambda>_. Absent)(0 := Checked, 0 := Running), y_mounts := (\<lambda>_. None)(0 := Some 0), y_next := 1\<rparr>"

lemma one_mount_reach: "mount_reach one_mount"
proof -
  have "mount_step no_mounts (no_mounts\<lparr>y_phase := (\<lambda>_. Absent)(0 := Checked), y_next := 1\<rparr>)"
    using mount_step.check [of no_mounts False] by (simp add: no_mounts_def fun_upd_idem)
  moreover have "mount_step (no_mounts\<lparr>y_phase := (\<lambda>_. Absent)(0 := Checked), y_next := 1\<rparr>) one_mount"
    using mount_step.store [of "no_mounts\<lparr>y_phase := (\<lambda>_. Absent)(0 := Checked), y_next := 1\<rparr>" 0] by (simp add: no_mounts_def one_mount_def)
  ultimately show ?thesis by (blast intro: mount_reach.intros)
qed

theorem listed_mounts_run_witness: "y_mounts one_mount 0 = Some 0 \<and> y_phase one_mount 0 = Running"
  using listed_mounts_run [OF one_mount_reach, of 0 0] by (simp add: one_mount_def)

text \<open>C35: As long as no two mount requests overlap between the check of drive 0 and the storing of the mount, every running media session is
  the one listed on drive 0, so it can be unmounted and no second one can be started.\<close>

theorem serial_mounts_tracked:
  assumes "serial_reach s" "y_phase s i = Running"
  shows "unmount_target 0 s = Some i \<and> (\<forall>s'. mount_step s s' \<longrightarrow> (\<forall>j. y_phase s' j = Checked \<longrightarrow> y_phase s j = Checked))"
proof -
  have m: "y_mounts s 0 = Some i" using serial_invariant [OF assms(1)] assms(2) by blast
  have "y_phase s j = Checked" if "mount_step s s'" "y_phase s' j = Checked" for s' j
    using that m by (auto elim!: mount_stepE split: if_splits)
  with m show ?thesis by (simp add: unmount_target_def)
qed

theorem serial_mounts_tracked_witness: "\<exists>s. serial_reach s \<and> y_phase s 0 = Running \<and> unmount_target 0 s = Some 0"
proof -
  let ?s = "no_mounts\<lparr>y_phase := (\<lambda>_. Absent)(0 := Checked), y_next := 1\<rparr>"
  have "mount_step no_mounts ?s" using mount_step.check [of no_mounts False] by (simp add: no_mounts_def fun_upd_idem)
  then have "serial_reach ?s" by (rule serial_step [OF serial_init]) (auto simp: no_mounts_def split: if_splits)
  moreover have "mount_step ?s one_mount" using mount_step.store [of ?s 0] by (simp add: no_mounts_def one_mount_def)
  ultimately have s: "serial_reach one_mount" by (rule serial_step) (auto simp: one_mount_def no_mounts_def split: if_splits)
  have r: "y_phase one_mount 0 = Running" by (simp add: one_mount_def)
  from serial_mounts_tracked [OF s r] s r show ?thesis by blast
qed

text \<open>Overlapping mount requests break the bookkeeping.  Two requests that both find drive 0 free both start a media session; only the
  second is listed, and the first keeps running without being listed or reachable by an unmount.\<close>

theorem overlapping_mounts_lose_one:
  "\<exists>s. mount_reach s \<and> y_phase s 0 = Running \<and> y_phase s 1 = Running \<and> listed s = {1} \<and> (\<forall>d. unmount_target d s \<noteq> Some 0)"
proof -
  let ?s1 = "no_mounts\<lparr>y_phase := (\<lambda>_. Absent)(0 := Checked), y_next := 1\<rparr>"
  let ?s2 = "no_mounts\<lparr>y_phase := (\<lambda>_. Absent)(0 := Checked, 1 := Checked), y_next := 2\<rparr>"
  let ?s3 = "?s2\<lparr>y_phase := (y_phase ?s2)(0 := Running), y_mounts := (y_mounts ?s2)(0 := Some 0)\<rparr>"
  let ?s4 = "?s3\<lparr>y_phase := (y_phase ?s3)(1 := Running), y_mounts := (y_mounts ?s3)(0 := Some 1)\<rparr>"
  have "mount_step no_mounts ?s1" using mount_step.check [of no_mounts False] by (simp add: no_mounts_def fun_upd_idem)
  moreover have "mount_step ?s1 ?s2" using mount_step.check [of ?s1 False] by (simp add: no_mounts_def fun_upd_idem numeral_2_eq_2)
  moreover have "mount_step ?s2 ?s3" by (rule mount_step.store) simp
  moreover have "mount_step ?s3 ?s4" by (rule mount_step.store) simp
  ultimately have "mount_reach ?s4" by (meson mount_reach.intros)
  then show ?thesis by (intro exI [of _ ?s4]) (auto simp: listed_def unmount_target_def no_mounts_def)
qed

text \<open>An uploaded image can outlive its mount.  When the media session ends before the upload handler has stored the directory in the
  mount, the clean-up does not know about the directory and it stays on disk, although nothing is mounted any more.\<close>

theorem upload_directory_left_behind:
  "\<exists>s. mount_reach s \<and> (\<forall>i. y_phase s i \<noteq> Checked \<and> y_phase s i \<noteq> Running) \<and> listed s = {} \<and> y_temp s 0 \<and> y_dirs s 0"
proof -
  let ?s1 = "no_mounts\<lparr>y_phase := (\<lambda>_. Absent)(0 := Checked), y_upload := (\<lambda>_. False)(0 := True), y_dirs := (\<lambda>_. False)(0 := True), y_next := 1\<rparr>"
  let ?s2 = "?s1\<lparr>y_phase := (y_phase ?s1)(0 := Running), y_mounts := (y_mounts ?s1)(0 := Some 0)\<rparr>"
  let ?s3 = "?s2\<lparr>y_phase := (y_phase ?s2)(0 := Ended), y_mounts := (y_mounts ?s2)(0 := if y_mounts ?s2 0 = Some 0 then None else y_mounts ?s2 0),
      y_dirs := (y_dirs ?s2)(0 := y_dirs ?s2 0 \<and> \<not> y_temp ?s2 0)\<rparr>"
  let ?s4 = "?s3\<lparr>y_temp := (y_temp ?s3)(0 := True)\<rparr>"
  have "mount_step no_mounts ?s1" using mount_step.check [of no_mounts True] by (simp add: no_mounts_def)
  moreover have "mount_step ?s1 ?s2" by (rule mount_step.store) simp
  moreover have "mount_step ?s2 ?s3" by (rule mount_step.session_ends) simp
  moreover have "mount_step ?s3 ?s4" by (rule mount_step.set_temp) simp_all
  ultimately have "mount_reach ?s4" by (meson mount_reach.intros)
  then show ?thesis by (intro exI [of _ ?s4]) (auto simp: listed_def no_mounts_def)
qed

text \<open>What a mount request makes writable.  A CD image is attached read-only and a floppy image follows the request, but a USB image is
  always attached writable, also when the request says otherwise.\<close>

theorem mount_access_mode:
  assumes "handleVMMount fs meth (Inr req) = MountOpened m"
  shows "meth = ''POST'' \<and> mq_Path req \<noteq> [] \<and> media_fresh m
    \<and> (m_readOnly m \<longleftrightarrow> media_Type m = ''cd'' \<or> media_Type m = ''floppy'' \<and> \<not> mq_Writable req) \<and> str_bytes (media_Type m) = mq_Type req"
proof -
  have m: "meth = ''POST''" "mq_Path req \<noteq> []" "open_media fs (mq_Type req) (mq_Path req) (mq_Writable req) = Opened m"
    using assms by (auto simp: handleVMMount_def split: if_splits media_choice.splits)
  consider (cd) "mq_Type req = str_bytes ''cd''" "OpenCD (mf_open fs) (mf_stat fs) (mq_Path req) = Inr m"
    | (usb) "mq_Type req = str_bytes ''usb''" "OpenUSB (mf_open fs) (mf_stat fs) None (mf_stat fs) (mq_Path req) False 0 = Inr m"
    | (floppy) "mq_Type req = str_bytes ''floppy''" "OpenFloppy (mf_open fs) (mf_stat fs) (mq_Path req) (mq_Writable req) = Inr m"
    using m(3) unfolding open_media_def Let_def by (auto split: if_splits option.splits sum.splits)
  then show ?thesis
  proof cases
    case cd
    then show ?thesis using m OpenCD_fresh [OF cd(2)] by (auto simp: OpenCD_def media_Type_def split: sum.splits option.splits)
  next
    case usb
    then show ?thesis using m OpenUSB_fresh [OF usb(2)] by (auto simp: OpenUSB_def media_Type_def split: sum.splits option.splits)
  next
    case floppy
    then show ?thesis using m OpenFloppy_fresh [OF floppy(2)] by (auto simp: OpenFloppy_def media_Type_def split: sum.splits option.splits)
  qed
qed

theorem mount_access_mode_witness:
  "\<exists>m. handleVMMount \<lparr>mf_open = Inr (replicate 512 0), mf_stat = None\<rparr> ''POST'' (Inr \<lparr>mq_Type = str_bytes ''usb'', mq_Path = [97], mq_Writable = False\<rparr>)
     = MountOpened m \<and> \<not> m_readOnly m"
proof -
  let ?fs = "\<lparr>mf_open = Inr (replicate 512 0), mf_stat = None\<rparr>" and ?q = "\<lparr>mq_Type = str_bytes ''usb'', mq_Path = [97], mq_Writable = False\<rparr>"
  have "str_bytes ''usb'' \<noteq> str_bytes ''cd''" by (simp add: str_bytes_def)
  then obtain m where m: "handleVMMount ?fs ''POST'' (Inr ?q) = MountOpened m" "media_Type m = ''usb''"
    by (simp add: handleVMMount_def open_media_def OpenUSB_def media_Type_def Let_def)
  from mount_access_mode [OF m(1)] m show ?thesis by auto
qed

end
