(* ===== verification/Ipmi_Sdr.thy ===== *)
theory Ipmi_Sdr
  imports Ipmi_Client
begin

text \<open>
  Sensor data records (\<open>internal/ipmi/sdr.go\<close>): the repository commands, the paged read of one record, the
  repository walk and the record parsers.  Error texts are exact, since \<open>isCC\<close> recognises a cancelled
  reservation by searching the text.  The walk may run forever against a BMC that keeps cancelling
  reservations or serves a cycle of records, so it is a partial function whose \<open>None\<close> means not returning.
\<close>

section \<open>Error texts\<close>

definition ccOrZero :: "bytes \<Rightarrow> byte" where
  "ccOrZero resp = (if length resp = 0 then 0 else resp ! 0)"

fun contains :: "string \<Rightarrow> string \<Rightarrow> bool" where
  "contains [] pat \<longleftrightarrow> pat = []"
| "contains (c # s) pat \<longleftrightarrow> take (length pat) (c # s) = pat \<or> contains s pat"

definition isCC :: "gerror \<Rightarrow> byte \<Rightarrow> bool" where
  "isCC err cc \<longleftrightarrow> contains (err_text err) (''cc=0x'' @ hex2 cc)"

section \<open>Repository commands\<close>

record SDRRepoInfo =
  ri_Version :: byte
  ri_RecordCount :: u16
  ri_FreeSpace :: u16
  ri_Reservation :: u16

definition GetSDRRepositoryInfo :: "'s sender \<Rightarrow> 's \<Rightarrow> SDRRepoInfo result \<times> 's" where
  "GetSDRRepositoryInfo send s =
     (case send 0x0A 0x20 [] s of
        (Inl e, s) \<Rightarrow> (Inl e, s)
      | (Inr resp, s) \<Rightarrow>
          if length resp < 15 \<or> resp ! 0 \<noteq> 0 then
            (Inl (Errorf (''ipmi: get sdr repo info: cc=0x'' @ hex2 (ccOrZero resp) @ '' len='' @ dec (length resp))), s)
          else (Inr \<lparr>ri_Version = resp ! 1, ri_RecordCount = le16 (slice 2 4 resp), ri_FreeSpace = le16 (slice 4 6 resp),
                 ri_Reservation = 0\<rparr>, s))"

definition ReserveSDRRepository :: "'s sender \<Rightarrow> 's \<Rightarrow> u16 result \<times> 's" where
  "ReserveSDRRepository send s =
     (case send 0x0A 0x22 [] s of
        (Inl e, s) \<Rightarrow> (Inl e, s)
      | (Inr resp, s) \<Rightarrow>
          if length resp < 3 \<or> resp ! 0 \<noteq> 0 then
            (Inl (Errorf (''ipmi: reserve sdr repo: cc=0x'' @ hex2 (ccOrZero resp))), s)
          else (Inr (le16 (slice 1 3 resp)), s))"

definition GetSDR :: "'s sender \<Rightarrow> u16 \<Rightarrow> u16 \<Rightarrow> byte \<Rightarrow> byte \<Rightarrow> 's \<Rightarrow> (u16 \<times> bytes) result \<times> 's" where
  "GetSDR send reservationID recordID offset len s =
     (let req = [ucast reservationID, ucast (drop_bit 8 reservationID), ucast recordID,
                 ucast (drop_bit 8 recordID), offset, len]
      in case send 0x0A 0x23 req s of
           (Inl e, s) \<Rightarrow> (Inl e, s)
         | (Inr resp, s) \<Rightarrow>
             if length resp < 3 then (Inl (Errorf (''ipmi: get sdr: short resp '' @ dec (length resp))), s)
             else if resp ! 0 \<noteq> 0 then (Inl (Errorf (''ipmi: get sdr: cc=0x'' @ hex2 (resp ! 0))), s)
             else (Inr (le16 (slice 1 3 resp), drop 3 resp), s))"

text \<open>The paging loop: every round that goes on appends at least one byte.\<close>

function sdr_page_loop :: "'s sender \<Rightarrow> u16 \<Rightarrow> u16 \<Rightarrow> nat \<Rightarrow> bytes \<Rightarrow> 's \<Rightarrow> bytes result \<times> 's" where
  "sdr_page_loop send resv rid tot out s =
     (if length out < tot then
        let remain = tot - length out;
            n = (if remain < 16 then remain else 16)
        in case GetSDR send resv rid (of_nat (length out)) (of_nat n) s of
             (Inl e, s) \<Rightarrow> (Inl e, s)
           | (Inr (_, page), s) \<Rightarrow>
               if length page = 0 then (Inr out, s) else sdr_page_loop send resv rid tot (out @ page) s
      else (Inr out, s))"
  by pat_completeness auto
termination
  by (relation "measure (\<lambda>(send, resv, rid, tot, out, s). tot - length out)")
    (auto intro!: diff_less_mono2 simp flip: length_greater_0_conv)

declare sdr_page_loop.simps [simp del]

definition getSDRRecord :: "'s sender \<Rightarrow> u16 \<Rightarrow> u16 \<Rightarrow> 's \<Rightarrow> (bytes \<times> u16) result \<times> 's" where
  "getSDRRecord send resv rid s =
     (case GetSDR send resv rid 0 5 s of
        (Inl e, s) \<Rightarrow> (Inl e, s)
      | (Inr (next_id, first), s) \<Rightarrow>
          if length first < 5 then (Inl (Errorf (''ipmi: get sdr header short ('' @ dec (length first) @ '')'')), s)
          else
            (case sdr_page_loop send resv rid (unat (first ! 4) + 5) first s of
               (Inl e, s) \<Rightarrow> (Inl e, s)
             | (Inr out, s) \<Rightarrow> (Inr (out, next_id), s)))"

section \<open>Record parsers\<close>

record Sensor =
  sn_RecordID :: u16
  sn_Type :: byte
  sn_OwnerID :: byte
  sn_OwnerLUN :: byte
  sn_Number :: byte
  sn_EntityID :: byte
  sn_EntityInst :: byte
  sn_SensorType :: byte
  sn_EventType :: byte
  sn_Name :: bytes
  sn_Linear :: byte
  sn_Unit1 :: byte
  sn_Unit2 :: byte
  sn_Unit3 :: byte
  sn_M :: u16
  sn_B :: u16
  sn_Accuracy :: u16
  sn_Rexp :: byte
  sn_Bexp :: byte
  sn_Analog :: byte
  sn_UpperNonRecover :: byte
  sn_UpperCritical :: byte
  sn_UpperNonCrit :: byte
  sn_LowerNonRecover :: byte
  sn_LowerCritical :: byte
  sn_LowerNonCrit :: byte
  sn_ThreshMask :: u16

text \<open>\<open>int16\<close> and \<open>int8\<close> fields are kept as words and read with \<open>sint\<close>.\<close>

definition new_sensor :: "u16 \<Rightarrow> byte \<Rightarrow> Sensor" where
  "new_sensor rid ty = \<lparr>sn_RecordID = rid, sn_Type = ty, sn_OwnerID = 0, sn_OwnerLUN = 0, sn_Number = 0, sn_EntityID = 0,
     sn_EntityInst = 0, sn_SensorType = 0, sn_EventType = 0, sn_Name = [], sn_Linear = 0, sn_Unit1 = 0, sn_Unit2 = 0,
     sn_Unit3 = 0, sn_M = 0, sn_B = 0, sn_Accuracy = 0, sn_Rexp = 0, sn_Bexp = 0, sn_Analog = 0, sn_UpperNonRecover = 0,
     sn_UpperCritical = 0, sn_UpperNonCrit = 0, sn_LowerNonRecover = 0, sn_LowerCritical = 0, sn_LowerNonCrit = 0,
     sn_ThreshMask = 0\<rparr>"

definition signExtend10 :: "u16 \<Rightarrow> u16" where
  "signExtend10 v = (if v AND 0x0200 \<noteq> 0 then v OR 0xFC00 else v AND 0x03FF)"

definition signExtend12 :: "u16 \<Rightarrow> u16" where
  "signExtend12 v = (if v AND 0x0800 \<noteq> 0 then v OR 0xF000 else v AND 0x0FFF)"

definition sign4 :: "byte \<Rightarrow> byte" where
  "sign4 v = (if v AND 0x08 \<noteq> 0 then v OR 0xF0 else v AND 0x0F)"

definition parseIDString :: "bytes \<Rightarrow> bytes" where
  "parseIDString b =
     (if length b = 0 then []
      else
        let n = unat (b ! 0 AND 0x1F)
        in if n = 0 \<or> 1 + n > length b then []
           else trim_spaces (takeWhile (\<lambda>c. c \<noteq> 0) (slice 1 (1 + n) b)))"

definition parseFullSDR :: "Sensor \<Rightarrow> bytes \<Rightarrow> Sensor \<times> bool" where
  "parseFullSDR s b =
     (if length b < 43 then (s, False)
      else
        let mLo = ucast (b ! 19) :: u16;
            mHi = push_bit 2 (ucast (b ! 20 AND 0xC0));
            bLo = ucast (b ! 21) :: u16;
            bHi = push_bit 2 (ucast (b ! 22 AND 0xC0));
            accLo = drop_bit 6 (ucast (b ! 22 AND 0xC0)) :: u16;
            accHi = push_bit 2 (ucast (b ! 23))
        in (s\<lparr>sn_OwnerID := b ! 0, sn_OwnerLUN := b ! 1 AND 0x03, sn_Number := b ! 2, sn_EntityID := b ! 3,
              sn_EntityInst := b ! 4 AND 0x7F, sn_SensorType := b ! 7, sn_EventType := b ! 8,
              sn_ThreshMask := le16 (slice 13 15 b), sn_Unit1 := b ! 15, sn_Unit2 := b ! 16, sn_Unit3 := b ! 17,
              sn_Linear := b ! 18, sn_Analog := drop_bit 6 (b ! 15) AND 0x03,
              sn_M := signExtend10 (mLo OR mHi), sn_B := signExtend10 (bLo OR bHi),
              sn_Accuracy := signExtend12 (accLo OR accHi),
              sn_Rexp := sign4 (drop_bit 4 (b ! 24)), sn_Bexp := sign4 (b ! 24 AND 0x0F),
              sn_UpperNonRecover := b ! 27, sn_UpperCritical := b ! 28, sn_UpperNonCrit := b ! 29,
              sn_LowerNonRecover := b ! 30, sn_LowerCritical := b ! 31, sn_LowerNonCrit := b ! 32,
              sn_Name := parseIDString (drop 42 b)\<rparr>, True))"

definition parseCompactSDR :: "Sensor \<Rightarrow> bytes \<Rightarrow> Sensor \<times> bool" where
  "parseCompactSDR s b =
     (if length b < 27 then (s, False)
      else (s\<lparr>sn_OwnerID := b ! 0, sn_OwnerLUN := b ! 1 AND 0x03, sn_Number := b ! 2, sn_EntityID := b ! 3,
              sn_EntityInst := b ! 4 AND 0x7F, sn_SensorType := b ! 7, sn_EventType := b ! 8,
              sn_Unit1 := b ! 15, sn_Unit2 := b ! 16, sn_Unit3 := b ! 17,
              sn_Analog := drop_bit 6 (b ! 15) AND 0x03, sn_Name := parseIDString (drop 26 b)\<rparr>, True))"

definition parseSDR :: "bytes \<Rightarrow> Sensor \<times> bool" where
  "parseSDR rec =
     (if length rec < 6 then (new_sensor 0 0, False)
      else
        let s = new_sensor (le16 (slice 0 2 rec)) (rec ! 3);
            body = drop 5 rec
        in if rec ! 3 = 0x01 then parseFullSDR s body
           else if rec ! 3 = 0x02 then parseCompactSDR s body
           else (new_sensor 0 0, False))"

section \<open>The repository walk\<close>

text \<open>The result pairs the sensors found with the error, as the code returns both.\<close>

partial_function (option) scan_loop ::
  "'s sender \<Rightarrow> u16 \<Rightarrow> u16 \<Rightarrow> Sensor list \<Rightarrow> 's \<Rightarrow> ((Sensor list \<times> gerror option) \<times> 's) option" where
  "scan_loop send resv rid out s =
     (case getSDRRecord send resv rid s of
        (Inl e, s) \<Rightarrow>
          if isCC e 0xC5 then
            (case ReserveSDRRepository send s of
               (Inl e, s) \<Rightarrow> Some ((out, Some e), s)
             | (Inr resv, s) \<Rightarrow> scan_loop send resv rid out s)
          else Some ((out, Some e), s)
      | (Inr (rec, next_id), s) \<Rightarrow>
          let out = (if length rec \<ge> 5 \<and> snd (parseSDR rec) then out @ [fst (parseSDR rec)] else out)
          in if next_id = 0xFFFF then Some ((out, None), s)
             else if next_id = rid then Some ((out, None), s)
             else scan_loop send resv next_id out s)"

declare scan_loop.simps [code]

definition ScanSensors :: "'s sender \<Rightarrow> 's \<Rightarrow> ((Sensor list \<times> gerror option) \<times> 's) option" where
  "ScanSensors send s =
     (case ReserveSDRRepository send s of
        (Inl e, s) \<Rightarrow> Some (([], Some e), s)
      | (Inr resv, s) \<Rightarrow> scan_loop send resv 0 [] s)"

section \<open>Lemmas\<close>

text \<open>Sign extension of the packed fields, as two's complement of their width.\<close>

lemma sint_signed_take_bit:
  fixes w :: "'a::len word"
  assumes "n < LENGTH('a)"
  shows "sint (signed_take_bit n w) = signed_take_bit n (uint w)"
  by (rule bit_eqI) (use assms in \<open>auto simp: bit_simps min_def\<close>)

lemma sign_extend_word:
  fixes v :: "'a::len word"
  shows "(if bit v k then v OR NOT (mask (Suc k)) else v AND mask (Suc k)) = signed_take_bit k v"
proof (rule bit_word_eqI)
  fix n assume "n < LENGTH('a)"
  consider "n < k" | "n = k" | "k < n" by linarith
  then show "bit (if bit v k then v OR NOT (mask (Suc k)) else v AND mask (Suc k)) n = bit (signed_take_bit k v) n"
    by cases (use \<open>n < LENGTH('a)\<close> in \<open>auto simp: bit_simps min_def\<close>)
qed

lemma signExtend10_signed: "signExtend10 v = signed_take_bit 9 v"
proof -
  have c: "(0x0200 :: u16) = 2 ^ 9" "(0xFC00 :: u16) = NOT (mask (Suc 9))" "(0x03FF :: u16) = mask (Suc 9)"
    by (simp_all add: mask_eq_exp_minus_1)
  show ?thesis unfolding signExtend10_def c and_exp_eq_0_iff_not_bit using sign_extend_word [of v 9] by simp
qed

lemma signExtend12_signed: "signExtend12 v = signed_take_bit 11 v"
proof -
  have c: "(0x0800 :: u16) = 2 ^ 11" "(0xF000 :: u16) = NOT (mask (Suc 11))" "(0x0FFF :: u16) = mask (Suc 11)"
    by (simp_all add: mask_eq_exp_minus_1)
  show ?thesis unfolding signExtend12_def c and_exp_eq_0_iff_not_bit using sign_extend_word [of v 11] by simp
qed

lemma sign4_signed: "sign4 v = signed_take_bit 3 v"
proof -
  have c: "(0x08 :: byte) = 2 ^ 3" "(0xF0 :: byte) = NOT (mask (Suc 3))" "(0x0F :: byte) = mask (Suc 3)"
    by (simp_all add: mask_eq_exp_minus_1)
  show ?thesis unfolding sign4_def c and_exp_eq_0_iff_not_bit using sign_extend_word [of v 3] by simp
qed

lemma uint_packed10:
  "uint (ucast lo OR push_bit 2 (ucast (hi AND 0xC0)) :: u16) = uint lo OR push_bit 8 (uint (drop_bit 6 hi))" for lo hi :: byte
proof -
  have c: "(0xC0 :: byte) = NOT (mask 6)" by (simp add: mask_eq_exp_minus_1)
  show ?thesis unfolding c by (rule bit_eqI) (auto simp: bit_simps dest: bit_imp_le_length)
qed

text \<open>Recognising a cancelled reservation by its text.\<close>

lemma hex2_c5: "hex2 c = ''c5'' \<longleftrightarrow> c = 0xC5"
proof -
  have all: "\<forall>n \<in> set [0..<256]. (hex2 (of_nat n) = ''c5'') = (n = 0xC5)" by code_simp
  have "unat c \<in> set [0..<256]" using unat_byte_bound [of c] by simp
  from bspec [OF all this] have "(hex2 c = ''c5'') = (unat c = unat (0xC5 :: byte))" by simp
  then show ?thesis by (simp only: word_eq_iff_unsigned [where ?'a = nat])
qed

lemma isCC_get_sdr: "isCC (Errorf (''ipmi: get sdr: cc=0x'' @ hex2 c)) 0xC5 \<longleftrightarrow> c = 0xC5"
proof -
  obtain h1 h2 where h: "hex2 c = [h1, h2]" by (simp add: hex2_def)
  have n: "hex2 0xC5 = ''c5''" by (simp add: hex2_c5)
  have "contains (''ipmi: get sdr: cc=0x'' @ [h1, h2]) ''cc=0xc5'' \<longleftrightarrow> [h1, h2] = ''c5''" by simp
  then show ?thesis unfolding isCC_def n h err_text.simps hex2_c5 [symmetric, of c] by simp
qed

lemma GetSDR_serves:
  assumes "send 0x0A 0x23 [ucast resv, ucast (drop_bit 8 resv), ucast rid, ucast (drop_bit 8 rid), off, n] s
      = (Inr ([0] @ putLE16 nxt @ d), s')"
  shows "GetSDR send resv rid off n s = (Inr (nxt, d), s')"
proof -
  have "slice 1 3 ([0] @ putLE16 nxt @ d) = putLE16 nxt" "drop 3 ([0] @ putLE16 nxt @ d) = d"
    by (simp_all add: slice_def)
  then show ?thesis unfolding GetSDR_def Let_def assms prod.case sum.case by simp
qed

text \<open>A repository that holds record \<open>r\<close> under id \<open>rid\<close>, for every offset a request can name.\<close>

definition serves_record :: "'s sender \<Rightarrow> u16 \<Rightarrow> u16 \<Rightarrow> u16 \<Rightarrow> bytes \<Rightarrow> bool" where
  "serves_record send resv rid nxt r \<longleftrightarrow> (\<forall>off n s. off + n \<le> length r \<longrightarrow>
     send 0x0A 0x23 [ucast resv, ucast (drop_bit 8 resv), ucast rid, ucast (drop_bit 8 rid), of_nat off, of_nat n] s
       = (Inr ([0] @ putLE16 nxt @ slice off (off + n) r), s))"

lemma sdr_page_loop_serves:
  assumes "serves_record send resv rid nxt r"
  shows "k \<le> length r \<Longrightarrow> sdr_page_loop send resv rid (length r) (take k r) s = (Inr r, s)"
proof (induction "length r - k" arbitrary: k rule: less_induct)
  case less
  show ?case
  proof (cases "k < length r")
    case False
    then show ?thesis using less.prems by (simp add: sdr_page_loop.simps)
  next
    case True
    define n where "n = (if length r - k < 16 then length r - k else 16)"
    have n: "0 < n" "k + n \<le> length r" using True by (auto simp: n_def)
    have lk: "length (take k r) = k" using True by simp
    have "GetSDR send resv rid (of_nat k) (of_nat n) s = (Inr (nxt, slice k (k + n) r), s)"
      using assms n by (intro GetSDR_serves) (simp add: serves_record_def)
    moreover have "take k r @ slice k (k + n) r = take (k + n) r" by (simp add: slice_def take_add)
    moreover have "slice k (k + n) r \<noteq> []" using n by (auto simp flip: length_greater_0_conv)
    ultimately have "sdr_page_loop send resv rid (length r) (take k r) s
        = sdr_page_loop send resv rid (length r) (take (k + n) r) s"
      using True by (subst sdr_page_loop.simps, unfold Let_def lk n_def [symmetric]) simp
    then show ?thesis using less.hyps [of "k + n"] n True by simp
  qed
qed

lemma getSDRRecord_serves:
  assumes "serves_record send resv rid nxt r" and "length r = unat (r ! 4) + 5"
  shows "getSDRRecord send resv rid s = (Inr (r, nxt), s)"
proof -
  have "GetSDR send resv rid 0 5 s = (Inr (nxt, slice 0 5 r), s)"
    using assms(1) [unfolded serves_record_def, rule_format, of 0 5 s] assms(2)
    by (intro GetSDR_serves) simp
  moreover have "slice 0 5 r = take 5 r" "take 5 r ! 4 = r ! 4" "length (take 5 r) = 5" using assms(2) by (simp_all add: slice_def)
  ultimately show ?thesis
    using sdr_page_loop_serves [OF assms(1), of 5 s] assms(2) by (simp add: getSDRRecord_def)
qed

text \<open>A chain of records: the first is read under id \<open>rid\<close>, each names the id of the next, the last names 0xFFFF.\<close>

fun serves_chain :: "'s sender \<Rightarrow> u16 \<Rightarrow> u16 \<Rightarrow> (u16 \<times> bytes) list \<Rightarrow> bool" where
  "serves_chain send resv rid [] \<longleftrightarrow> False"
| "serves_chain send resv rid [(nxt, r)] \<longleftrightarrow>
     nxt = 0xFFFF \<and> serves_record send resv rid nxt r \<and> length r = unat (r ! 4) + 5"
| "serves_chain send resv rid ((nxt, r) # rest) \<longleftrightarrow>
     nxt \<noteq> 0xFFFF \<and> nxt \<noteq> rid \<and> serves_record send resv rid nxt r \<and> length r = unat (r ! 4) + 5
     \<and> serves_chain send resv nxt rest"

definition sensors_of :: "(u16 \<times> bytes) list \<Rightarrow> Sensor list" where
  "sensors_of recs = map fst (filter snd (map (\<lambda>(nxt, r). parseSDR r) recs))"

lemma scan_loop_chain:
  "serves_chain send resv rid recs \<Longrightarrow> scan_loop send resv rid out s = Some ((out @ sensors_of recs, None), s)"
proof (induction send resv rid recs arbitrary: out rule: serves_chain.induct)
  case (2 send resv rid nxt r)
  then have "getSDRRecord send resv rid s = (Inr (r, nxt), s)" by (auto intro: getSDRRecord_serves)
  then show ?case using 2 by (subst scan_loop.simps) (simp add: sensors_of_def Let_def)
next
  case (3 send resv rid nxt r v vs)
  then have "getSDRRecord send resv rid s = (Inr (r, nxt), s)" by (simp add: getSDRRecord_serves)
  then show ?case using 3 by (subst scan_loop.simps) (simp add: sensors_of_def Let_def)
qed simp

section \<open>Properties\<close>


definition demo_sdr :: bytes where
  "demo_sdr = [1, 0, 0x51, 2, 28] @ [0x20, 0, 7, 3, 1, 0, 0, 1, 1] @ replicate 6 0 @ [0, 1, 0] @ replicate 8 0 @ [0xC1, 65]"

definition demo_sdr_send :: "nat sender" where
  "demo_sdr_send netFn cmd d s =
     (if cmd = 0x22 then (Inr [0, 9, 0], s)
      else let off = unat (d ! 4); n = unat (d ! 5)
           in (Inr ([0] @ putLE16 0xFFFF @ slice off (off + n) demo_sdr), s))"


text \<open>The walk does not give up on a BMC that keeps cancelling its reservation: if every read is answered with
  completion code 0xC5 and every reservation succeeds, \<open>ScanSensors\<close> never returns.\<close>

theorem scan_sensors_spins:
  assumes "\<And>req s. \<exists>s'. send 0x0A 0x23 req s = (Inr [0xC5, 0, 0], s')"
    and "\<And>s. \<exists>s' a b. send 0x0A 0x22 [] s = (Inr [0, a, b], s')"
  shows "ScanSensors send s = None"
proof -
  have get: "\<exists>s'. getSDRRecord send resv rid s = (Inl (Errorf (''ipmi: get sdr: cc=0x'' @ hex2 0xC5)), s')" for resv rid s
  proof -
    obtain s' where "send 0x0A 0x23 [ucast resv, ucast (drop_bit 8 resv), ucast rid, ucast (drop_bit 8 rid), 0, 5] s = (Inr [0xC5, 0, 0], s')"
      using assms(1) by blast
    then show ?thesis by (simp add: getSDRRecord_def GetSDR_def)
  qed
  have resv: "\<exists>s' r. ReserveSDRRepository send s = (Inr r, s')" for s
    using assms(2) [of s] by (auto simp: ReserveSDRRepository_def)
  have "scan_loop send r 0 out s = None" for r out s
  proof (rule ccontr)
    assume "scan_loop send r 0 out s \<noteq> None"
    then obtain y where y: "scan_loop send r 0 out s = Some y" by auto
    have "send = send \<longrightarrow> False"
    proof (rule scan_loop.raw_induct [where P = "\<lambda>send' r rid out s y. send' = send \<longrightarrow> False", OF _ y], rule impI)
      fix f :: "'a sender \<Rightarrow> u16 \<Rightarrow> u16 \<Rightarrow> Sensor list \<Rightarrow> 'a \<Rightarrow> ((Sensor list \<times> gerror option) \<times> 'a) option"
        and send' r rid out s y
      assume IH: "\<And>send' r rid out s y. f send' r rid out s = Some y \<Longrightarrow> send' = send \<longrightarrow> False"
        and step: "(case getSDRRecord send' r rid s of
        (Inl e, s) \<Rightarrow>
          if isCC e 0xC5 then
            (case ReserveSDRRepository send' s of
               (Inl e, s) \<Rightarrow> Some ((out, Some e), s)
             | (Inr resv, s) \<Rightarrow> f send' resv rid out s)
          else Some ((out, Some e), s)
      | (Inr (rec, next_id), s) \<Rightarrow>
          let out = (if length rec \<ge> 5 \<and> snd (parseSDR rec) then out @ [fst (parseSDR rec)] else out)
          in if next_id = 0xFFFF then Some ((out, None), s)
             else if next_id = rid then Some ((out, None), s)
             else f send' r next_id out s) = Some y" and eq: "send' = send"
      obtain s1 where g: "getSDRRecord send r rid s = (Inl (Errorf (''ipmi: get sdr: cc=0x'' @ hex2 0xC5)), s1)"
        using get by blast
      obtain s2 r2 where "ReserveSDRRepository send s1 = (Inr r2, s2)" using resv by blast
      then have "f send r2 rid out s2 = Some y"
        using step [unfolded eq g prod.case sum.case] isCC_get_sdr [of "0xC5"] by (simp del: append.simps)
      then show False using IH by blast
    qed
    then show False by simp
  qed
  then show ?thesis using resv [of s] by (auto simp: ScanSensors_def)
qed

theorem scan_sensors_spins_witness:
  "ScanSensors (\<lambda>netFn cmd d (s :: nat). (Inr (if cmd = 0x23 then [0xC5, 0, 0] else [0, 1, 0]), s)) 0 = None"
  by (rule scan_sensors_spins) auto

text \<open>The packed coefficients of a full record are two's-complement numbers of their widths: M and B are the signed
  10-bit values in -512..511 split over their two bytes, and the exponents the signed nibbles in -8..7.\<close>

theorem full_sdr_coefficients:
  assumes "parseFullSDR s b = (s', True)"
  shows "sint (sn_M s') = signed_take_bit 9 (uint (b ! 19) OR push_bit 8 (uint (drop_bit 6 (b ! 20))))
     \<and> sint (sn_B s') = signed_take_bit 9 (uint (b ! 21) OR push_bit 8 (uint (drop_bit 6 (b ! 22))))
     \<and> sint (sn_M s') \<in> {-512..<512} \<and> sint (sn_B s') \<in> {-512..<512}
     \<and> sint (sn_Rexp s') = signed_take_bit 3 (uint (drop_bit 4 (b ! 24)))
     \<and> sint (sn_Bexp s') = signed_take_bit 3 (uint (b ! 24 AND 0x0F))
     \<and> sint (sn_Rexp s') \<in> {-8..<8} \<and> sint (sn_Bexp s') \<in> {-8..<8}"
proof -
  have s': "sn_M s' = signExtend10 (ucast (b ! 19) OR push_bit 2 (ucast (b ! 20 AND 0xC0)))"
    "sn_B s' = signExtend10 (ucast (b ! 21) OR push_bit 2 (ucast (b ! 22 AND 0xC0)))"
    "sn_Rexp s' = sign4 (drop_bit 4 (b ! 24))" "sn_Bexp s' = sign4 (b ! 24 AND 0x0F)"
    using assms by (auto simp: parseFullSDR_def Let_def split: if_splits)
  have r9: "signed_take_bit 9 x \<in> {-512..<512}" for x :: int
    using signed_take_bit_int_less_exp [of 9 x] signed_take_bit_int_greater_eq_minus_exp [of 9 x] by simp
  have r3: "signed_take_bit 3 x \<in> {-8..<8}" for x :: int
    using signed_take_bit_int_less_exp [of 3 x] signed_take_bit_int_greater_eq_minus_exp [of 3 x] by simp
  have x10: "sint (signExtend10 w) = signed_take_bit 9 (uint w)" for w
    by (simp add: signExtend10_signed sint_signed_take_bit)
  have x4: "sint (sign4 w) = signed_take_bit 3 (uint w)" for w
    by (simp add: sign4_signed sint_signed_take_bit)
  show ?thesis unfolding s' x10 x4 uint_packed10 using r9 r3 by blast
qed

theorem full_sdr_coefficients_witness:
  "\<exists>s'. parseFullSDR (new_sensor 1 1) (replicate 19 0 @ [0xFE, 0xC0, 3, 0, 0, 0xF2] @ replicate 18 0) = (s', True)
     \<and> sint (sn_M s') = -2 \<and> sint (sn_Rexp s') = -1 \<and> sint (sn_M s') \<in> {-512..<512}"
proof -
  let ?b = "replicate 19 0 @ [0xFE, 0xC0, 3, 0, 0, 0xF2] @ replicate 18 0 :: bytes"
  obtain s' where p: "parseFullSDR (new_sensor 1 1) ?b = (s', True)" by (simp add: parseFullSDR_def Let_def)
  have b: "?b ! 19 = 0xFE" "?b ! 20 = 0xC0" "?b ! 24 = 0xF2" by code_simp+
  have "signed_take_bit 9 (uint (0xFE :: byte) OR push_bit 8 (uint (drop_bit 6 (0xC0 :: byte)))) = -2"
    "signed_take_bit 3 (uint (drop_bit 4 (0xF2 :: byte))) = -1" by code_simp+
  then show ?thesis using full_sdr_coefficients [OF p, unfolded b] p by auto
qed

end
