(* ===== verification/Ipmi_Sensor.thy ===== *)
theory Ipmi_Sensor
  imports Complex_Main Ipmi_Sdr
begin

text \<open>
  Sensor readings (\<open>internal/ipmi/sensor.go\<close>).  Go's \<open>float64\<close> and the \<open>math\<close> functions are a parameter: a record of
  operations over some number type, in the order and association the code applies them.  The clock is a parameter too:
  whether the deadline has passed when the sensor at a given position is looked at.
\<close>

record 'f float_ops =
  fo_int :: "int \<Rightarrow> 'f"
  fo_add :: "'f \<Rightarrow> 'f \<Rightarrow> 'f"
  fo_mul :: "'f \<Rightarrow> 'f \<Rightarrow> 'f"
  fo_div :: "'f \<Rightarrow> 'f \<Rightarrow> 'f"
  fo_isZero :: "'f \<Rightarrow> bool"
  fo_Pow10 :: "int \<Rightarrow> 'f"
  fo_Log :: "'f \<Rightarrow> 'f"
  fo_Log10 :: "'f \<Rightarrow> 'f"
  fo_Log2 :: "'f \<Rightarrow> 'f"
  fo_Exp :: "'f \<Rightarrow> 'f"
  fo_Pow :: "'f \<Rightarrow> 'f \<Rightarrow> 'f"
  fo_Sqrt :: "'f \<Rightarrow> 'f"
  fo_Cbrt :: "'f \<Rightarrow> 'f"

record 'f Reading =
  r_Name :: bytes
  r_Value :: 'f
  r_Unit :: bytes
  r_State :: string
  r_Type :: string
  r_Number :: byte
  r_LowerNC :: 'f
  r_LowerCrit :: 'f
  r_LowerNR :: 'f
  r_UpperNC :: 'f
  r_UpperCrit :: 'f
  r_UpperNR :: 'f
  r_HasThresh :: bool
  r_Available :: bool

definition GetSensorReading :: "'s sender \<Rightarrow> byte \<Rightarrow> 's \<Rightarrow> (byte \<times> bool \<times> byte) result \<times> 's" where
  "GetSensorReading send sensorID s =
     (case send 0x04 0x2D [sensorID] s of
        (Inl e, s) \<Rightarrow> (Inl e, s)
      | (Inr resp, s) \<Rightarrow>
          if length resp < 3 then
            (Inl (Errorf (''ipmi: get sensor reading '' @ dec (unat sensorID) @ '': short resp '' @ dec (length resp))), s)
          else if resp ! 0 \<noteq> 0 then
            (Inl (Errorf (''ipmi: get sensor reading '' @ dec (unat sensorID) @ '': cc=0x'' @ hex2 (resp ! 0))), s)
          else
            let raw = resp ! 1; avail = resp ! 2
            in if avail AND 0x20 \<noteq> 0 then (Inr (raw, False, 0), s)
               else (Inr (raw, True, if length resp \<ge> 4 then resp ! 3 else 0), s))"

definition linearise :: "'f float_ops \<Rightarrow> byte \<Rightarrow> 'f \<Rightarrow> 'f" where
  "linearise F l y =
     (if l = 0 then y
      else if l = 1 then fo_Log F y
      else if l = 2 then fo_Log10 F y
      else if l = 3 then fo_Log2 F y
      else if l = 4 then fo_Exp F y
      else if l = 5 then fo_Pow F (fo_int F 10) y
      else if l = 6 then fo_Pow F (fo_int F 2) y
      else if l = 7 then (if fo_isZero F y then fo_int F 0 else fo_div F (fo_int F 1) y)
      else if l = 8 then fo_mul F y y
      else if l = 9 then fo_mul F (fo_mul F y y) y
      else if l = 10 then fo_Sqrt F y
      else if l = 11 then fo_Cbrt F y
      else y)"

text \<open>The raw byte read in the sensor's analog format; \<open>int16\<close> one's complement is incremented when negative.\<close>

definition decode_raw :: "byte \<Rightarrow> byte \<Rightarrow> int" where
  "decode_raw analog raw =
     (if analog = 0 then uint raw
      else if analog = 1 then
        (let v = scast raw :: u16 in sint (if raw AND 0x80 \<noteq> 0 then v + 1 else v))
      else if analog = 2 then sint raw
      else uint raw)"

definition Convert :: "'f float_ops \<Rightarrow> Sensor \<Rightarrow> byte \<Rightarrow> 'f" where
  "Convert F s raw =
     (if sn_Analog s = 3 then fo_int F 0
      else
        let x = fo_int F (decode_raw (sn_Analog s) raw);
            m = fo_int F (sint (sn_M s));
            b = fo_int F (sint (sn_B s));
            k1 = fo_Pow10 F (sint (sn_Bexp s));
            k2 = fo_Pow10 F (sint (sn_Rexp s));
            y = fo_mul F (fo_add F (fo_mul F m x) (fo_mul F b k1)) k2
        in linearise F (sn_Linear s) y)"

definition stateFromMask :: "byte \<Rightarrow> string" where
  "stateFromMask m =
     (if m AND (0x04 OR 0x20) \<noteq> 0 then ''unrecoverable''
      else if m AND (0x02 OR 0x10) \<noteq> 0 then ''critical''
      else if m AND (0x01 OR 0x08) \<noteq> 0 then ''non-critical''
      else ''nominal'')"

text \<open>The labels as their UTF-8 bytes.\<close>

definition unit_table :: "(byte \<times> bytes) list" where
  "unit_table = [(0, []), (1, [0xC2, 0xB0, 0x43]), (2, [0xC2, 0xB0, 0x46]), (3, str_bytes ''K''), (4, str_bytes ''V''),
     (5, str_bytes ''A''), (6, str_bytes ''W''), (7, str_bytes ''J''), (8, str_bytes ''C''), (9, str_bytes ''VA''),
     (10, str_bytes ''Nits''), (11, str_bytes ''lm''), (18, str_bytes ''RPM''), (19, str_bytes ''Hz''),
     (20, [0xC2, 0xB5, 0x73]), (21, str_bytes ''ms''), (22, str_bytes ''s''), (23, str_bytes ''min''),
     (24, str_bytes ''hr''), (25, str_bytes ''day''), (26, str_bytes ''wk''), (27, str_bytes ''mil''),
     (28, str_bytes ''in''), (29, str_bytes ''ft''), (32, str_bytes ''m''), (33, str_bytes ''cm''),
     (34, str_bytes ''mm''), (65, str_bytes ''%''), (66, str_bytes ''psi''), (71, str_bytes ''bit''),
     (72, str_bytes ''kbit''), (73, str_bytes ''Mbit''), (74, str_bytes ''Gbit''), (75, str_bytes ''B''),
     (76, str_bytes ''KB''), (77, str_bytes ''MB''), (78, str_bytes ''GB'')]"

definition unitLabel :: "byte \<Rightarrow> bytes" where
  "unitLabel u = (case map_of unit_table u of Some l \<Rightarrow> l | None \<Rightarrow> str_bytes (''u'' @ dec (unat u)))"

definition sensorTypeName :: "byte \<Rightarrow> string" where
  "sensorTypeName t =
     (if t = 0x01 then ''temperature''
      else if t = 0x02 then ''voltage''
      else if t = 0x03 then ''current''
      else if t = 0x04 then ''fan''
      else if t = 0x08 then ''power''
      else if t = 0x09 then ''power''
      else if t = 0x0A then ''cooling''
      else if t = 0x0B then ''power''
      else if t = 0x14 then ''chipset''
      else if t = 0x15 then ''board''
      else if t = 0x16 then ''cpu''
      else if t = 0x17 then ''chassis''
      else ''other'')"

definition blank_reading :: "'f float_ops \<Rightarrow> Sensor \<Rightarrow> 'f Reading" where
  "blank_reading F s = \<lparr>r_Name = sn_Name s, r_Value = fo_int F 0, r_Unit = unitLabel (sn_Unit2 s), r_State = [],
     r_Type = sensorTypeName (sn_SensorType s), r_Number = sn_Number s, r_LowerNC = fo_int F 0, r_LowerCrit = fo_int F 0,
     r_LowerNR = fo_int F 0, r_UpperNC = fo_int F 0, r_UpperCrit = fo_int F 0, r_UpperNR = fo_int F 0,
     r_HasThresh = False, r_Available = False\<rparr>"

definition fill_thresholds :: "'f float_ops \<Rightarrow> Sensor \<Rightarrow> 'f Reading \<Rightarrow> 'f Reading" where
  "fill_thresholds F s r =
     (if sn_Type s = 0x01 then
        let m = sn_ThreshMask s;
            r = (if m AND 0x0001 \<noteq> 0 then r\<lparr>r_LowerNC := Convert F s (sn_LowerNonCrit s), r_HasThresh := True\<rparr> else r);
            r = (if m AND 0x0002 \<noteq> 0 then r\<lparr>r_LowerCrit := Convert F s (sn_LowerCritical s), r_HasThresh := True\<rparr> else r);
            r = (if m AND 0x0004 \<noteq> 0 then r\<lparr>r_LowerNR := Convert F s (sn_LowerNonRecover s), r_HasThresh := True\<rparr> else r);
            r = (if m AND 0x0008 \<noteq> 0 then r\<lparr>r_UpperNC := Convert F s (sn_UpperNonCrit s), r_HasThresh := True\<rparr> else r);
            r = (if m AND 0x0010 \<noteq> 0 then r\<lparr>r_UpperCrit := Convert F s (sn_UpperCritical s), r_HasThresh := True\<rparr> else r)
        in (if m AND 0x0020 \<noteq> 0 then r\<lparr>r_UpperNR := Convert F s (sn_UpperNonRecover s), r_HasThresh := True\<rparr> else r)
      else r)"

definition on_dashboard :: "Sensor \<Rightarrow> bool" where
  "on_dashboard s \<longleftrightarrow> \<not> (sn_Analog s = 3 \<or> sn_EventType s \<noteq> 0x01)"

text \<open>One sensor that is on the dashboard; a panicking sender is not swallowed.\<close>

definition read_sensor :: "'f float_ops \<Rightarrow> 's sender \<Rightarrow> bool \<Rightarrow> Sensor \<Rightarrow> 's \<Rightarrow> 'f Reading result \<times> 's" where
  "read_sensor F send expired sn s =
     (if expired then (Inr ((blank_reading F sn)\<lparr>r_State := ''n/a''\<rparr>), s)
      else
        (case GetSensorReading send (sn_Number sn) s of
           (Inl e, s) \<Rightarrow> if is_panic e then (Inl e, s) else (Inr ((blank_reading F sn)\<lparr>r_State := ''n/a''\<rparr>), s)
         | (Inr (raw, ok, msk), s) \<Rightarrow>
             if \<not> ok then (Inr ((blank_reading F sn)\<lparr>r_State := ''n/a''\<rparr>), s)
             else (Inr (fill_thresholds F sn ((blank_reading F sn)\<lparr>r_Value := Convert F sn raw,
                     r_State := stateFromMask msk, r_Available := True\<rparr>)), s)))"

fun read_all_from :: "'f float_ops \<Rightarrow> 's sender \<Rightarrow> (nat \<Rightarrow> bool) \<Rightarrow> nat \<Rightarrow> Sensor list \<Rightarrow> 's \<Rightarrow> 'f Reading list result \<times> 's" where
  "read_all_from F send expired i [] s = (Inr [], s)"
| "read_all_from F send expired i (sn # sns) s =
     (if \<not> on_dashboard sn then read_all_from F send expired (Suc i) sns s
      else
        (case read_sensor F send (expired i) sn s of
           (Inl e, s) \<Rightarrow> (Inl e, s)
         | (Inr r, s) \<Rightarrow>
             (case read_all_from F send expired (Suc i) sns s of
                (Inl e, s) \<Rightarrow> (Inl e, s)
              | (Inr rs, s) \<Rightarrow> (Inr (r # rs), s))))"

definition ReadAllDeadline :: "'f float_ops \<Rightarrow> 's sender \<Rightarrow> (nat \<Rightarrow> bool) \<Rightarrow> Sensor list \<Rightarrow> 's \<Rightarrow> 'f Reading list result \<times> 's" where
  "ReadAllDeadline F send expired sensors s = read_all_from F send expired 0 sensors s"

section \<open>Lemmas\<close>

lemma fill_thresholds_keeps [simp]:
  "r_Name (fill_thresholds F s r) = r_Name r" "r_Number (fill_thresholds F s r) = r_Number r"
  "r_Available (fill_thresholds F s r) = r_Available r" "r_State (fill_thresholds F s r) = r_State r"
  "r_Value (fill_thresholds F s r) = r_Value r"
  by (simp_all add: fill_thresholds_def Let_def)

lemma read_sensor_identity:
  "read_sensor F send ex sn s = (Inr r, s') \<Longrightarrow> r_Name r = sn_Name sn \<and> r_Number r = sn_Number sn
     \<and> (r_State r = ''n/a'' \<longleftrightarrow> \<not> r_Available r)"
  by (auto simp: read_sensor_def blank_reading_def stateFromMask_def split: if_splits prod.splits sum.splits)

lemma read_all_from_ids:
  "read_all_from F send ex i sns s = (Inr rs, s') \<Longrightarrow>
     map (\<lambda>r. (r_Name r, r_Number r)) rs = map (\<lambda>sn. (sn_Name sn, sn_Number sn)) (filter on_dashboard sns)
     \<and> (\<forall>r \<in> set rs. r_State r = ''n/a'' \<longleftrightarrow> \<not> r_Available r)"
proof (induction sns arbitrary: i s rs)
  case (Cons sn sns)
  show ?case
  proof (cases "on_dashboard sn")
    case False
    then show ?thesis using Cons by simp
  next
    case True
    obtain y s1 where y: "read_sensor F send (ex i) sn s = (y, s1)" by fastforce
    obtain r where r: "y = Inr r" using Cons.prems True y by (cases y) auto
    obtain z s2 where z: "read_all_from F send ex (Suc i) sns s1 = (z, s2)" by fastforce
    then obtain rs' where rs': "z = Inr rs'" "rs = r # rs'" "s2 = s'" using Cons.prems True y r by (cases z) auto
    show ?thesis using Cons.IH [of "Suc i" s1 rs'] z rs' read_sensor_identity [of F send "ex i" sn s r s1] y r True by auto
  qed
qed simp

lemma read_all_expired: "(\<And>j. i \<le> j \<Longrightarrow> ex j) \<Longrightarrow> snd (read_all_from F send ex i sns s) = s"
proof (induction sns arbitrary: i)
  case (Cons sn sns)
  have "snd (read_all_from F send ex (Suc i) sns s) = s" using Cons by simp
  moreover have "ex i" using Cons.prems by simp
  ultimately show ?case by (auto simp: read_sensor_def split: prod.splits sum.splits)
qed simp

section \<open>Properties\<close>

text \<open>A sweep reports exactly the analog threshold sensors, each once, in the order given and under its own
  name and number, whatever the BMC answers and however early the deadline passes; a reading is marked
  unavailable exactly when its state is "n/a"; and once the deadline has passed, nothing more is sent.\<close>

theorem read_all_reports_each_sensor:
  assumes "ReadAllDeadline F send expired sensors s = (Inr rs, s')"
  shows "map (\<lambda>r. (r_Name r, r_Number r)) rs = map (\<lambda>sn. (sn_Name sn, sn_Number sn)) (filter on_dashboard sensors)
     \<and> (\<forall>r \<in> set rs. r_State r = ''n/a'' \<longleftrightarrow> \<not> r_Available r)
     \<and> ((\<forall>j. expired j) \<longrightarrow> s' = s)"
proof -
  have "snd (read_all_from F send expired 0 sensors s) = s" if "\<forall>j. expired j" using that by (simp add: read_all_expired)
  then show ?thesis using assms read_all_from_ids [of F send expired 0 sensors s rs s']
    by (auto simp: ReadAllDeadline_def)
qed

definition int_ops :: "int float_ops" where
  "int_ops = \<lparr>fo_int = id, fo_add = (+), fo_mul = (*), fo_div = (div), fo_isZero = (\<lambda>y. y = 0), fo_Pow10 = (\<lambda>k. 10 ^ nat k),
     fo_Log = id, fo_Log10 = id, fo_Log2 = id, fo_Exp = id, fo_Pow = (\<lambda>x y. x ^ nat y), fo_Sqrt = id, fo_Cbrt = id\<rparr>"

theorem read_all_reports_each_sensor_witness:
  "\<exists>rs. ReadAllDeadline int_ops (\<lambda>netFn cmd d (s :: nat). (Inr [0, 20, 0x40, 0x02], s + 1)) (\<lambda>i. i > 0)
       [(new_sensor 1 2)\<lparr>sn_EventType := 1, sn_Number := 4\<rparr>, new_sensor 2 2, (new_sensor 3 2)\<lparr>sn_EventType := 1, sn_Number := 5\<rparr>] 0 = (Inr rs, 1)
     \<and> map r_Number rs = [4, 5] \<and> map r_State rs = [''critical'', ''n/a'']
     \<and> map (\<lambda>r. (r_Name r, r_Number r)) rs = [([], 4), ([], 5)]"
proof -
  let ?send = "\<lambda>netFn cmd d (s :: nat). (Inr [0, 20, 0x40, 0x02], s + 1)"
  let ?sns = "[(new_sensor 1 2)\<lparr>sn_EventType := 1, sn_Number := 4\<rparr>, new_sensor 2 2, (new_sensor 3 2)\<lparr>sn_EventType := 1, sn_Number := 5\<rparr>]"
  obtain x s' where x: "ReadAllDeadline int_ops ?send (\<lambda>i. i > 0) ?sns 0 = (x, s')" by fastforce
  have "map_prod (map_sum id (map r_State)) id (ReadAllDeadline int_ops ?send (\<lambda>i. i > 0) ?sns 0)
      = (Inr [''critical'', ''n/a''], 1)" by code_simp
  then obtain rs where rs: "x = Inr rs" "s' = 1" "map r_State rs = [''critical'', ''n/a'']"
    using x by (cases x) auto
  from read_all_reports_each_sensor [OF x [unfolded rs(1)]]
  have "map (\<lambda>r. (r_Name r, r_Number r)) rs = [([], 4), ([], 5)]"
    by (simp add: on_dashboard_def new_sensor_def)
  moreover from this have "map r_Number rs = [4, 5]" by (auto simp: map_eq_Cons_conv)
  ultimately show ?thesis using x rs by auto
qed

text \<open>The rank of a comparison mask.\<close>

definition mask_rank :: "byte \<Rightarrow> nat" where
  "mask_rank m = Max (set [if bit m k then r else 0. (k, r) \<leftarrow> [(0, 1), (3, 1), (1, 2), (4, 2), (2, 3), (5, 3)]])"

text \<open>The state string is the worst severity among the mask's bits: lower and upper non-critical rank 1,
  critical 2, non-recoverable 3.\<close>

theorem state_is_worst_threshold:
  "stateFromMask m = [''nominal'', ''non-critical'', ''critical'', ''unrecoverable''] ! mask_rank m"
proof -
  have b: "m AND 0x04 = 0 \<longleftrightarrow> \<not> bit m 2" "m AND 0x20 = 0 \<longleftrightarrow> \<not> bit m 5" "m AND 0x02 = 0 \<longleftrightarrow> \<not> bit m 1"
    "m AND 0x10 = 0 \<longleftrightarrow> \<not> bit m 4" "m AND 0x01 = 0 \<longleftrightarrow> \<not> bit m 0" "m AND 0x08 = 0 \<longleftrightarrow> \<not> bit m 3"
    using and_exp_eq_0_iff_not_bit [of m 2] and_exp_eq_0_iff_not_bit [of m 5] and_exp_eq_0_iff_not_bit [of m 1]
      and_exp_eq_0_iff_not_bit [of m 4] and_exp_eq_0_iff_not_bit [of m 0] and_exp_eq_0_iff_not_bit [of m 3] by simp_all
  have c: "m AND (0x04 OR 0x20) \<noteq> 0 \<longleftrightarrow> bit m 2 \<or> bit m 5" "m AND (0x02 OR 0x10) \<noteq> 0 \<longleftrightarrow> bit m 1 \<or> bit m 4"
    "m AND (0x01 OR 0x08) \<noteq> 0 \<longleftrightarrow> bit m 0 \<or> bit m 3"
    unfolding bit.conj_disj_distrib or_eq_0_iff b by blast+
  show ?thesis
    unfolding stateFromMask_def mask_rank_def c
    by (cases "bit m 0"; cases "bit m 1"; cases "bit m 2"; cases "bit m 3"; cases "bit m 4"; cases "bit m 5") simp_all
qed

text \<open>The three analog formats decode a raw byte to its unsigned, one's-complement and two's-complement value.\<close>

theorem decode_raw_formats:
  "decode_raw 0 raw = uint raw
   \<and> decode_raw 1 raw = (if uint raw < 128 then uint raw else uint raw - 255)
   \<and> decode_raw 2 raw = (if uint raw < 128 then uint raw else uint raw - 256)"
proof -
  have all: "list_all (\<lambda>n. decode_raw 1 (of_nat n) = (if int n < 128 then int n else int n - 255)
       \<and> decode_raw 2 (of_nat n) = (if int n < 128 then int n else int n - 256)) [0..<256]" by code_simp
  have "unat raw < 256" by (rule unat_byte_bound)
  then have "decode_raw 1 (of_nat (unat raw)) = (if int (unat raw) < 128 then int (unat raw) else int (unat raw) - 255)
       \<and> decode_raw 2 (of_nat (unat raw)) = (if int (unat raw) < 128 then int (unat raw) else int (unat raw) - 256)"
    using bspec [OF all [unfolded list_all_iff], of "unat raw"] by simp
  then show ?thesis by (simp add: decode_raw_def)
qed

text \<open>Exact arithmetic, for the conversion formula.\<close>

definition real_ops :: "real float_ops" where
  "real_ops = \<lparr>fo_int = of_int, fo_add = (+), fo_mul = (*), fo_div = (/), fo_isZero = (\<lambda>y. y = 0), fo_Pow10 = (\<lambda>k. 10 powr of_int k),
     fo_Log = ln, fo_Log10 = log 10, fo_Log2 = log 2, fo_Exp = exp, fo_Pow = (powr), fo_Sqrt = sqrt, fo_Cbrt = root 3\<rparr>"

text \<open>In exact arithmetic a linear sensor converts by the formula of its record, so with a positive M the
  converted values are ordered as the decoded raw readings are, and a reading lies at or above a converted threshold
  exactly when its raw value does.\<close>

theorem convert_linear_monotone:
  assumes "sn_Analog s \<noteq> 3" and "sn_Linear s = 0" and "0 < sint (sn_M s)"
  shows "Convert real_ops s r1 \<le> Convert real_ops s r2 \<longleftrightarrow> decode_raw (sn_Analog s) r1 \<le> decode_raw (sn_Analog s) r2"
proof -
  let ?x = "\<lambda>r. real_of_int (decode_raw (sn_Analog s) r)"
  let ?m = "real_of_int (sint (sn_M s))" and ?b = "real_of_int (sint (sn_B s)) * 10 powr real_of_int (sint (sn_Bexp s))"
  let ?k = "10 powr real_of_int (sint (sn_Rexp s)) :: real"
  have c: "Convert real_ops s r = (?m * ?x r + ?b) * ?k" for r
    using assms(1,2) by (simp add: Convert_def real_ops_def linearise_def Let_def)
  have "0 < ?m" using assms(3) by (rule of_int_0_less_iff [THEN iffD2])
  then have "?m * ?x r1 \<le> ?m * ?x r2 \<longleftrightarrow> ?x r1 \<le> ?x r2" by (rule mult_le_cancel_left_pos)
  then show ?thesis unfolding c by (simp add: mult_le_cancel_right)
qed

theorem convert_linear_monotone_witness:
  "Convert real_ops ((new_sensor 1 1)\<lparr>sn_M := 3\<rparr>) 10 \<le> Convert real_ops ((new_sensor 1 1)\<lparr>sn_M := 3\<rparr>) 20"
  using convert_linear_monotone [of "(new_sensor 1 1)\<lparr>sn_M := 3\<rparr>" 10 20] by (simp add: new_sensor_def decode_raw_def)

end
