(* ===== verification/Ipmi_Sel.thy ===== *)
theory Ipmi_Sel
  imports Ipmi_Sensor
begin

text \<open>
  The system event log (\<open>internal/ipmi/sel.go\<close>): the log commands, the record parser with its event texts and
  severities, and the walk over the log.  A time is the zero \<open>time.Time\<close> or a number of seconds since 1970.
  The walk is a partial function: \<open>None\<close> means that it does not return.
\<close>

section \<open>Data\<close>

datatype gotime = ZeroTime | UnixTime nat

record SELInfo =
  li_Version :: byte
  li_EntryCount :: u16
  li_FreeSpace :: u16
  li_LastAdd :: gotime
  li_LastErase :: gotime
  li_Operations :: byte
  li_Overflow :: bool
  li_SupportsDel :: bool

record SELEntry =
  le_RecordID :: u16
  le_RecordType :: byte
  le_Time :: gotime
  le_Generator :: u16
  le_EvMRev :: byte
  le_SensorType :: byte
  le_SensorNum :: byte
  le_EventType :: byte
  le_Direction :: string
  le_EventData :: bytes
  le_Description :: string
  le_Severity :: string

definition ipmiTime :: "u32 \<Rightarrow> gotime" where
  "ipmiTime v = (if v = 0xFFFFFFFF then ZeroTime else UnixTime (unat v))"

section \<open>Record parser\<close>

text \<open>\<open>%X\<close> of a value below 16, \<open>%02X\<close> of a byte, and \<open>% x\<close> of a byte slice.\<close>

definition hexu1 :: "byte \<Rightarrow> string" where
  "hexu1 b = [''0123456789ABCDEF'' ! (unat b mod 16)]"

definition hexu2 :: "byte \<Rightarrow> string" where
  "hexu2 b = hexu1 (drop_bit 4 b) @ hexu1 (b AND 0x0F)"

fun spaced_hexs :: "bytes \<Rightarrow> string" where
  "spaced_hexs [] = []"
| "spaced_hexs [b] = hex2 b"
| "spaced_hexs (b # bs) = hex2 b @ '' '' @ spaced_hexs bs"

definition threshold_what :: "byte \<Rightarrow> string" where
  "threshold_what offset =
     (if offset = 0x00 then ''lower non-critical, going low''
      else if offset = 0x01 then ''lower non-critical, going high''
      else if offset = 0x02 then ''lower critical, going low''
      else if offset = 0x03 then ''lower critical, going high''
      else if offset = 0x04 then ''lower non-recoverable, going low''
      else if offset = 0x05 then ''lower non-recoverable, going high''
      else if offset = 0x06 then ''upper non-critical, going low''
      else if offset = 0x07 then ''upper non-critical, going high''
      else if offset = 0x08 then ''upper critical, going low''
      else if offset = 0x09 then ''upper critical, going high''
      else if offset = 0x0A then ''upper non-recoverable, going low''
      else if offset = 0x0B then ''upper non-recoverable, going high''
      else ''threshold offset 0x'' @ hexu1 offset)"

definition describeEvent :: "SELEntry \<Rightarrow> string" where
  "describeEvent e =
     (let sname = sensorTypeName (le_SensorType e);
          dir = le_Direction e;
          offset = le_EventData e ! 0 AND 0x0F
      in if le_EventType e = 0x01 then
           sname @ '' sensor #'' @ dec (unat (le_SensorNum e)) @ '': '' @ threshold_what offset @ '' ('' @ dir @ '')''
         else
           sname @ '' sensor #'' @ dec (unat (le_SensorNum e)) @ '': event type 0x'' @ hexu2 (le_EventType e)
             @ '' offset 0x'' @ hexu1 offset @ '' ('' @ dir @ '')'')"

definition severityFromEvent :: "SELEntry \<Rightarrow> string" where
  "severityFromEvent e =
     (if le_EventType e \<noteq> 0x01 then ''info''
      else
        let offset = le_EventData e ! 0 AND 0x0F
        in if offset \<in> {0x04, 0x05, 0x0A, 0x0B} then ''unrecoverable''
           else if offset \<in> {0x02, 0x03, 0x08, 0x09} then ''critical''
           else if offset \<in> {0x00, 0x01, 0x06, 0x07} then ''non-critical''
           else ''info'')"

definition new_entry :: "u16 \<Rightarrow> byte \<Rightarrow> SELEntry" where
  "new_entry rid ty = \<lparr>le_RecordID = rid, le_RecordType = ty, le_Time = ZeroTime, le_Generator = 0, le_EvMRev = 0,
     le_SensorType = 0, le_SensorNum = 0, le_EventType = 0, le_Direction = [], le_EventData = [0, 0, 0],
     le_Description = [], le_Severity = []\<rparr>"

text \<open>The only caller passes at least the 16 bytes of a record.\<close>

definition parseSELRecord :: "bytes \<Rightarrow> SELEntry" where
  "parseSELRecord d =
     (let e = new_entry (le16 (slice 0 2 d)) (d ! 2)
      in if le_RecordType e = 0x02 then
           let et = d ! 12;
               e = e\<lparr>le_Time := ipmiTime (le32 (slice 3 7 d)), le_Generator := le16 (slice 7 9 d), le_EvMRev := d ! 9,
                     le_SensorType := d ! 10, le_SensorNum := d ! 11,
                     le_Direction := (if et AND 0x80 \<noteq> 0 then ''deassert'' else ''assert''),
                     le_EventType := et AND 0x7F, le_EventData := [d ! 13, d ! 14, d ! 15]\<rparr>;
               e = e\<lparr>le_Description := describeEvent e\<rparr>
           in e\<lparr>le_Severity := severityFromEvent e\<rparr>
         else
           let e = (if 0xC0 \<le> le_RecordType e \<and> le_RecordType e \<le> 0xDF
                    then e\<lparr>le_Time := ipmiTime (le32 (slice 3 7 d))\<rparr> else e)
           in e\<lparr>le_Description := ''OEM record type 0x'' @ hexu2 (le_RecordType e) @ '': '' @ spaced_hexs (drop 3 d),
                le_Severity := ''info''\<rparr>)"

section \<open>Log commands\<close>

definition GetSELInfo :: "'s sender \<Rightarrow> 's \<Rightarrow> SELInfo result \<times> 's" where
  "GetSELInfo send s =
     (case send 0x0A 0x40 [] s of
        (Inl e, s) \<Rightarrow> (Inl e, s)
      | (Inr resp, s) \<Rightarrow>
          if length resp < 15 \<or> resp ! 0 \<noteq> 0 then
            (Inl (Errorf (''ipmi: get sel info: cc=0x'' @ hex2 (ccOrZero resp) @ '' len='' @ dec (length resp))), s)
          else (Inr \<lparr>li_Version = resp ! 1, li_EntryCount = le16 (slice 2 4 resp), li_FreeSpace = le16 (slice 4 6 resp),
                 li_LastAdd = ipmiTime (le32 (slice 6 10 resp)), li_LastErase = ipmiTime (le32 (slice 10 14 resp)),
                 li_Operations = resp ! 14, li_Overflow = (resp ! 14 AND 0x80 \<noteq> 0),
                 li_SupportsDel = (resp ! 14 AND 0x08 \<noteq> 0)\<rparr>, s))"

definition ReserveSEL :: "'s sender \<Rightarrow> 's \<Rightarrow> u16 result \<times> 's" where
  "ReserveSEL send s =
     (case send 0x0A 0x42 [] s of
        (Inl e, s) \<Rightarrow> (Inl e, s)
      | (Inr resp, s) \<Rightarrow>
          if length resp < 3 \<or> resp ! 0 \<noteq> 0 then (Inl (Errorf (''ipmi: reserve sel: cc=0x'' @ hex2 (ccOrZero resp))), s)
          else (Inr (le16 (slice 1 3 resp)), s))"

definition sel_entry_request :: "u16 \<Rightarrow> u16 \<Rightarrow> bytes" where
  "sel_entry_request reservationID recordID =
     [ucast reservationID, ucast (drop_bit 8 reservationID), ucast recordID, ucast (drop_bit 8 recordID), 0x00, 0xFF]"

definition GetSELEntry :: "'s sender \<Rightarrow> u16 \<Rightarrow> u16 \<Rightarrow> 's \<Rightarrow> (SELEntry \<times> u16) result \<times> 's" where
  "GetSELEntry send reservationID recordID s =
     (case send 0x0A 0x43 (sel_entry_request reservationID recordID) s of
        (Inl e, s) \<Rightarrow> (Inl e, s)
      | (Inr resp, s) \<Rightarrow>
          if length resp < 3 \<or> resp ! 0 \<noteq> 0 then
            (Inl (Errorf (''ipmi: get sel entry '' @ dec (unat recordID) @ '': cc=0x'' @ hex2 (ccOrZero resp))), s)
          else
            let data = drop 3 resp
            in if length data < 16 then
                 (Inl (Errorf (''ipmi: get sel entry '' @ dec (unat recordID) @ '': short record '' @ dec (length data))), s)
               else (Inr (parseSELRecord data, le16 (slice 1 3 resp)), s))"

definition ClearSEL :: "'s sender \<Rightarrow> u16 \<Rightarrow> 's \<Rightarrow> unit result \<times> 's" where
  "ClearSEL send reservationID s =
     (case send 0x0A 0x47 [ucast reservationID, ucast (drop_bit 8 reservationID), 0x43, 0x4C, 0x52, 0xAA] s of
        (Inl e, s) \<Rightarrow> (Inl e, s)
      | (Inr resp, s) \<Rightarrow>
          if length resp < 1 \<or> resp ! 0 \<noteq> 0 then (Inl (Errorf (''ipmi: clear sel: cc=0x'' @ hex2 (ccOrZero resp))), s)
          else (Inr (), s))"

section \<open>The walk\<close>

partial_function (option) scan_sel_loop ::
  "'s sender \<Rightarrow> int \<Rightarrow> u16 \<Rightarrow> u16 \<Rightarrow> SELEntry list \<Rightarrow> 's \<Rightarrow> ((SELEntry list \<times> gerror option) \<times> 's) option" where
  "scan_sel_loop send limit resv rid out s =
     (if limit > 0 \<and> int (length out) \<ge> limit then Some ((out, None), s)
      else
        case GetSELEntry send resv rid s of
          (Inl e, s) \<Rightarrow>
            if isCC e 0xC5 then
              (case ReserveSEL send s of
                 (Inl e, s) \<Rightarrow> Some ((out, Some e), s)
               | (Inr resv, s) \<Rightarrow> scan_sel_loop send limit resv rid out s)
            else Some ((out, Some e), s)
        | (Inr (e, next_id), s) \<Rightarrow>
            if next_id = 0xFFFF then Some ((out @ [e], None), s)
            else scan_sel_loop send limit resv next_id (out @ [e]) s)"

declare scan_sel_loop.simps [code]

definition ScanSEL :: "'s sender \<Rightarrow> int \<Rightarrow> 's \<Rightarrow> ((SELEntry list \<times> gerror option) \<times> 's) option" where
  "ScanSEL send limit s =
     (case ReserveSEL send s of
        (Inl e, s) \<Rightarrow> Some (([], Some e), s)
      | (Inr resv, s) \<Rightarrow> scan_sel_loop send limit resv 0 [] s)"

section \<open>Lemmas\<close>

lemma contains_prefix: "contains (pat @ s) pat"
  by (cases "pat @ s") (auto, metis append_eq_conv_conj)

lemma contains_append: "contains s pat \<Longrightarrow> contains (pre @ s) pat"
  by (induction pre) auto

lemma isCC_text: "isCC (Errorf (pre @ ''cc=0x'' @ hex2 c)) c"
  unfolding isCC_def err_text.simps
  using contains_append [OF contains_prefix [of "''cc=0x'' @ hex2 c" "[]"], of pre] by (simp only: append_Nil2)

lemma GetSELEntry_serves:
  assumes "send 0x0A 0x43 (sel_entry_request resv rid) s = (Inr ([0] @ putLE16 nxt @ d), s')" "16 \<le> length d"
  shows "GetSELEntry send resv rid s = (Inr (parseSELRecord d, nxt), s')"
proof -
  have "slice 1 3 ([0] @ putLE16 nxt @ d) = putLE16 nxt" "drop 3 ([0] @ putLE16 nxt @ d) = d"
    by (simp_all add: slice_def)
  then show ?thesis unfolding GetSELEntry_def Let_def assms(1) prod.case sum.case using assms(2) by simp
qed

lemma GetSELEntry_cancelled:
  assumes "send 0x0A 0x43 (sel_entry_request resv rid) s = (Inr (0xC5 # junk), s')"
  shows "\<exists>e. GetSELEntry send resv rid s = (Inl e, s') \<and> isCC e 0xC5"
proof -
  let ?e = "Errorf (''ipmi: get sel entry '' @ dec (unat rid) @ '': cc=0x'' @ hex2 0xC5)"
  have "GetSELEntry send resv rid s = (Inl ?e, s')"
    unfolding GetSELEntry_def assms prod.case sum.case by (simp add: ccOrZero_def)
  moreover have "?e = Errorf ((''ipmi: get sel entry '' @ dec (unat rid) @ '': '') @ ''cc=0x'' @ hex2 0xC5)" by simp
  then have "isCC ?e 0xC5" by (simp only: isCC_text)
  ultimately show ?thesis by blast
qed

lemma ReserveSEL_serves:
  assumes "send 0x0A 0x42 [] s = (Inr ([0] @ putLE16 resv @ junk), s')"
  shows "ReserveSEL send s = (Inr resv, s')"
proof -
  have "slice 1 3 ([0] @ putLE16 resv @ junk) = putLE16 resv" by (simp add: slice_def)
  then show ?thesis unfolding ReserveSEL_def assms(1) prod.case sum.case by simp
qed

text \<open>
  The log as the BMC serves it during a walk: \<open>sel_log send resv rid s recs\<close> says that, from state \<open>s\<close> and record id
  \<open>rid\<close> on, the entry requests are answered with the raw records \<open>recs\<close>, each naming the id of the next and the last
  one 0xFFFF, where any request may first be refused any number of times with code 0xC5, each time followed by a new
  reservation.
\<close>

inductive sel_log :: "'s sender \<Rightarrow> u16 \<Rightarrow> u16 \<Rightarrow> 's \<Rightarrow> bytes list \<Rightarrow> bool" for send where
  last_record: "send 0x0A 0x43 (sel_entry_request resv rid) s = (Inr ([0] @ putLE16 0xFFFF @ r), s') \<Longrightarrow>
    16 \<le> length r \<Longrightarrow> sel_log send resv rid s [r]"
| next_record: "send 0x0A 0x43 (sel_entry_request resv rid) s = (Inr ([0] @ putLE16 nxt @ r), s') \<Longrightarrow>
    16 \<le> length r \<Longrightarrow> nxt \<noteq> 0xFFFF \<Longrightarrow> sel_log send resv nxt s' recs \<Longrightarrow> sel_log send resv rid s (r # recs)"
| cancelled: "send 0x0A 0x43 (sel_entry_request resv rid) s = (Inr (0xC5 # junk), s') \<Longrightarrow>
    send 0x0A 0x42 [] s' = (Inr ([0] @ putLE16 resv' @ junk'), s'') \<Longrightarrow>
    sel_log send resv' rid s'' recs \<Longrightarrow> sel_log send resv rid s recs"

definition capped :: "int \<Rightarrow> 'a list \<Rightarrow> 'a list" where
  "capped limit xs = (if limit > 0 then take (nat limit) xs else xs)"

lemma scan_sel_loop_full:
  "limit > 0 \<Longrightarrow> int (length out) \<ge> limit \<Longrightarrow> scan_sel_loop send limit resv rid out s = Some ((out, None), s)"
  by (subst scan_sel_loop.simps) simp

lemma scan_sel_loop_log:
  "sel_log send resv rid s recs \<Longrightarrow> (limit > 0 \<longrightarrow> int (length out) \<le> limit) \<Longrightarrow>
     \<exists>s'. scan_sel_loop send limit resv rid out s = Some ((capped limit (out @ map parseSELRecord recs), None), s')"
proof (induction arbitrary: out rule: sel_log.induct)
  case (last_record resv rid s r s')
  show ?case
  proof (cases "limit > 0 \<and> int (length out) \<ge> limit")
    case True
    then show ?thesis using last_record.prems by (auto simp: scan_sel_loop_full capped_def)
  next
    case False
    then show ?thesis using GetSELEntry_serves [of send, OF last_record.hyps(1,2)]
      by (subst scan_sel_loop.simps) (auto simp: capped_def)
  qed
next
  case (next_record resv rid s nxt r s' recs)
  show ?case
  proof (cases "limit > 0 \<and> int (length out) \<ge> limit")
    case True
    then show ?thesis using next_record.prems by (auto simp: scan_sel_loop_full capped_def)
  next
    case False
    then have "limit > 0 \<longrightarrow> int (length (out @ [parseSELRecord r])) \<le> limit" by auto
    from next_record.IH [OF this] show ?thesis using False GetSELEntry_serves [of send, OF next_record.hyps(1,2)] next_record.hyps(3)
      by (subst scan_sel_loop.simps) auto
  qed
next
  case (cancelled resv rid s junk s' resv' junk' s'' recs)
  show ?case
  proof (cases "limit > 0 \<and> int (length out) \<ge> limit")
    case True
    then show ?thesis using cancelled.prems by (auto simp: scan_sel_loop_full capped_def)
  next
    case False
    obtain e where "GetSELEntry send resv rid s = (Inl e, s')" "isCC e 0xC5"
      using GetSELEntry_cancelled [of send, OF cancelled.hyps(1)] by blast
    then show ?thesis using False ReserveSEL_serves [of send, OF cancelled.hyps(2)] cancelled.IH [OF cancelled.prems]
      by (subst scan_sel_loop.simps) auto
  qed
qed

lemma scan_sel_loop_bounded:
  assumes "\<And>resv rid s e s'. GetSELEntry send resv rid s = (Inl e, s') \<Longrightarrow> \<not> isCC e 0xC5" "limit > 0"
  shows "int (length out) \<le> limit \<Longrightarrow>
    \<exists>es err s'. scan_sel_loop send limit resv rid out s = Some ((es, err), s') \<and> int (length es) \<le> limit \<and> take (length out) es = out"
proof (induction "nat limit - length out" arbitrary: rid out s rule: less_induct)
  case less
  show ?case
  proof (cases "int (length out) \<ge> limit")
    case True
    then show ?thesis using less.prems assms(2) by (simp add: scan_sel_loop_full)
  next
    case False
    obtain r s1 where g: "GetSELEntry send resv rid s = (r, s1)" by (cases "GetSELEntry send resv rid s")
    show ?thesis
    proof (cases r)
      case (Inl e)
      then show ?thesis using False less.prems assms(1) [OF g [unfolded Inl]] g by (subst scan_sel_loop.simps) auto
    next
      case (Inr en)
      obtain e nxt where en: "en = (e, nxt)" by (cases en)
      have step: "scan_sel_loop send limit resv rid out s =
          (if nxt = 0xFFFF then Some ((out @ [e], None), s1) else scan_sel_loop send limit resv nxt (out @ [e]) s1)"
        using False by (subst scan_sel_loop.simps) (simp add: g Inr en)
      have "nat limit - length (out @ [e]) < nat limit - length out" "int (length (out @ [e])) \<le> limit" using False by auto
      from less.hyps [OF this, of nxt s1] obtain es err s' where
        ih: "scan_sel_loop send limit resv nxt (out @ [e]) s1 = Some ((es, err), s')" "int (length es) \<le> limit"
          "take (length (out @ [e])) es = out @ [e]" by blast
      have "take (length out) es = take (length out) (take (length (out @ [e])) es)" by (simp add: take_take)
      then have "take (length out) es = out" unfolding ih(3) by simp
      then show ?thesis using step ih False by (cases "nxt = 0xFFFF") auto
    qed
  qed
qed

section \<open>Properties\<close>

text \<open>Walking a log that the BMC serves record by record, \<open>ScanSEL\<close> returns without error every record once, parsed
  and in log order, or the first \<open>limit\<close> of them if a positive limit is given, and no cancelled reservation along
  the way loses or repeats a record.\<close>

theorem scan_sel_complete:
  assumes "send 0x0A 0x42 [] s = (Inr ([0] @ putLE16 resv @ junk), s')" and "sel_log send resv 0 s' recs"
  shows "\<exists>s''. ScanSEL send limit s = Some ((capped limit (map parseSELRecord recs), None), s'')"
  using scan_sel_loop_log [OF assms(2), of limit "[]"] ReserveSEL_serves [of send, OF assms(1)]
  by (auto simp: ScanSEL_def)

definition demo_sel :: "byte \<Rightarrow> bytes" where
  "demo_sel n = [n, 0, 2, 0x10, 0, 0, 0x60, 0x20, 0, 4, 1, n, 1, 0x59, 0, 0]"

text \<open>A log of two records whose second request is refused once.\<close>

definition demo_sel_send :: "nat sender" where
  "demo_sel_send netFn cmd d s =
     (if cmd = 0x42 then (Inr [0, of_nat s, 0], s + 1)
      else if s = 1 then (Inr ([0] @ putLE16 2 @ demo_sel 1), 2)
      else if s = 2 then (Inr [0xC5], 3)
      else (Inr ([0] @ putLE16 0xFFFF @ demo_sel 2), 5))"

theorem scan_sel_complete_witness:
  "\<exists>s''. ScanSEL demo_sel_send 0 0 = Some ((map parseSELRecord [demo_sel 1, demo_sel 2], None), s'')"
proof -
  have log: "sel_log demo_sel_send 0 0 1 [demo_sel 1, demo_sel 2]"
  proof (rule sel_log.next_record)
    show "demo_sel_send 0x0A 0x43 (sel_entry_request 0 0) 1 = (Inr ([0] @ putLE16 2 @ demo_sel 1), 2)"
      by (simp add: demo_sel_send_def)
    show "sel_log demo_sel_send 0 2 2 [demo_sel 2]"
    proof (rule sel_log.cancelled)
      show "demo_sel_send 0x0A 0x43 (sel_entry_request 0 2) 2 = (Inr (0xC5 # []), 3)" by (simp add: demo_sel_send_def)
      show "demo_sel_send 0x0A 0x42 [] 3 = (Inr ([0] @ putLE16 3 @ []), 4)" by code_simp
      show "sel_log demo_sel_send 3 2 4 [demo_sel 2]"
        by (rule sel_log.last_record [where s' = 5]) (simp_all add: demo_sel_send_def demo_sel_def)
    qed
  qed (simp_all add: demo_sel_def)
  have "demo_sel_send 0x0A 0x42 [] 0 = (Inr ([0] @ putLE16 0 @ []), 1)" by code_simp
  from scan_sel_complete [OF this log, of 0] show ?thesis by (simp add: capped_def)
qed

text \<open>With a positive limit, \<open>ScanSEL\<close> returns, with at most \<open>limit\<close> entries, from every BMC that does not cancel
  reservations, whatever it answers: a cyclic log cannot hold it.\<close>

theorem scan_sel_limit_returns:
  assumes "limit > 0" and "\<And>resv rid s e s'. GetSELEntry send resv rid s = (Inl e, s') \<Longrightarrow> \<not> isCC e 0xC5"
  shows "\<exists>es err s'. ScanSEL send limit s = Some ((es, err), s') \<and> int (length es) \<le> limit"
proof (cases "ReserveSEL send s")
  case (Pair r s1)
  have "\<exists>es err s'. scan_sel_loop send limit resv 0 [] s1 = Some ((es, err), s') \<and> int (length es) \<le> limit" for resv
    using scan_sel_loop_bounded [OF assms(2,1), where out = "[]" and resv = resv and rid = 0 and s = s1] assms(1) by auto
  then show ?thesis using Pair assms(1) by (cases r) (simp_all add: ScanSEL_def)
qed

theorem scan_sel_limit_returns_witness:
  "\<exists>es err s'. ScanSEL (\<lambda>netFn cmd d (s :: nat). (Inr ([0] @ putLE16 1 @ demo_sel 1), s)) 3 0 = Some ((es, err), s')
     \<and> int (length es) \<le> 3"
proof (rule scan_sel_limit_returns)
  fix resv rid e and s s' :: nat
  assume "GetSELEntry (\<lambda>netFn cmd d (s :: nat). (Inr ([0] @ putLE16 1 @ demo_sel 1), s)) resv rid s = (Inl e, s')"
  then show "\<not> isCC e 0xC5"
    using GetSELEntry_serves [of "\<lambda>netFn cmd d (s :: nat). (Inr ([0] @ putLE16 1 @ demo_sel 1), s)" resv rid s 1 "demo_sel 1" s]
    by (simp add: demo_sel_def)
qed simp

text \<open>Without a limit the walk only stops at record id 0xFFFF: if every entry request is answered with a record that
  names another id, for instance its own, \<open>ScanSEL\<close> never returns.\<close>

theorem scan_sel_cycle_diverges:
  assumes "\<And>s. \<exists>resv junk s'. send 0x0A 0x42 [] s = (Inr ([0] @ putLE16 resv @ junk), s')"
    and "\<And>req s. \<exists>nxt r s'. send 0x0A 0x43 req s = (Inr ([0] @ putLE16 nxt @ r), s') \<and> nxt \<noteq> 0xFFFF \<and> 16 \<le> length r"
    and "limit \<le> 0"
  shows "ScanSEL send limit s = None"
proof -
  have get: "\<exists>e nxt s'. GetSELEntry send resv rid s = (Inr (e, nxt), s') \<and> nxt \<noteq> 0xFFFF" for resv rid s
    using assms(2) [of "sel_entry_request resv rid" s] GetSELEntry_serves [of send resv rid s] by blast
  have "scan_sel_loop send limit r rid out s = None" for r rid out s
  proof (rule ccontr)
    assume "scan_sel_loop send limit r rid out s \<noteq> None"
    then obtain y where y: "scan_sel_loop send limit r rid out s = Some y" by auto
    have "send = send \<and> limit \<le> 0 \<longrightarrow> False"
    proof (rule scan_sel_loop.raw_induct [where P = "\<lambda>send' limit r rid out s y. send' = send \<and> limit \<le> 0 \<longrightarrow> False", OF _ y],
        rule impI, erule conjE)
      fix f :: "'a sender \<Rightarrow> int \<Rightarrow> u16 \<Rightarrow> u16 \<Rightarrow> SELEntry list \<Rightarrow> 'a \<Rightarrow> ((SELEntry list \<times> gerror option) \<times> 'a) option"
        and send' limit r rid out s y
      assume IH: "\<And>send' limit r rid out s y. f send' limit r rid out s = Some y \<Longrightarrow> send' = send \<and> limit \<le> 0 \<longrightarrow> False"
        and step: "(if limit > 0 \<and> int (length out) \<ge> limit then Some ((out, None), s)
          else case GetSELEntry send' r rid s of
            (Inl e, s) \<Rightarrow>
              if isCC e 0xC5 then
                (case ReserveSEL send' s of
                   (Inl e, s) \<Rightarrow> Some ((out, Some e), s)
                 | (Inr resv, s) \<Rightarrow> f send' limit resv rid out s)
              else Some ((out, Some e), s)
          | (Inr (e, next_id), s) \<Rightarrow>
              if next_id = 0xFFFF then Some ((out @ [e], None), s)
              else f send' limit r next_id (out @ [e]) s) = Some y" and eq: "send' = send" "limit \<le> 0"
      obtain e nxt s1 where "GetSELEntry send r rid s = (Inr (e, nxt), s1)" "nxt \<noteq> 0xFFFF" using get by blast
      then have "f send limit r nxt (out @ [e]) s1 = Some y" using step eq by simp
      then show False using IH eq(2) by blast
    qed
    then show False using assms(3) by simp
  qed
  moreover obtain resv junk s' where "send 0x0A 0x42 [] s = (Inr ([0] @ putLE16 resv @ junk), s')" using assms(1) by blast
  ultimately show ?thesis using ReserveSEL_serves [of send s resv junk s'] by (simp add: ScanSEL_def)
qed

theorem scan_sel_cycle_diverges_witness:
  "ScanSEL (\<lambda>netFn cmd d (s :: nat). (Inr ([0] @ putLE16 1 @ demo_sel 1), s)) 0 0 = None"
proof (rule scan_sel_cycle_diverges)
  fix req :: bytes and s :: nat
  show "\<exists>nxt r s'. (Inr ([0] @ putLE16 1 @ demo_sel 1), s) = (Inr ([0] @ putLE16 nxt @ r), s') \<and> nxt \<noteq> 0xFFFF \<and> 16 \<le> length r"
    by (rule exI [of _ 1], rule exI [of _ "demo_sel 1"], rule exI [of _ s]) (simp add: demo_sel_def)
qed auto

text \<open>Every field of a system event record is decoded from its place: record id, time stamp (the zero time for
  0xFFFFFFFF), generator, revision, sensor type and number, the event type without its direction bit, the direction,
  and the three event data bytes, whatever follows the 16 bytes.\<close>

theorem sel_system_record_fields:
  "let e = parseSELRecord (putLE16 rid @ [0x02] @ putLE32 ts @ putLE16 gen @ [evm, st, sn, et, d1, d2, d3] @ rest)
   in le_RecordID e = rid \<and> le_RecordType e = 0x02 \<and> le_Time e = (if ts = 0xFFFFFFFF then ZeroTime else UnixTime (unat ts))
      \<and> le_Generator e = gen \<and> le_EvMRev e = evm \<and> le_SensorType e = st \<and> le_SensorNum e = sn
      \<and> le_EventType e = et AND 0x7F \<and> le_Direction e = (if bit et 7 then ''deassert'' else ''assert'')
      \<and> le_EventData e = [d1, d2, d3]"
proof -
  let ?d = "putLE16 rid @ [0x02] @ putLE32 ts @ putLE16 gen @ [evm, st, sn, et, d1, d2, d3] @ rest"
  have s: "slice 0 2 ?d = putLE16 rid" "slice 3 7 ?d = putLE32 ts" "slice 7 9 ?d = putLE16 gen"
    "?d ! 2 = 0x02" "?d ! 9 = evm" "?d ! 10 = st" "?d ! 11 = sn" "?d ! 12 = et" "?d ! 13 = d1" "?d ! 14 = d2" "?d ! 15 = d3"
    by (simp_all add: slice_def nth_append)
  have b: "et AND 0x80 \<noteq> 0 \<longleftrightarrow> bit et 7" using and_exp_eq_0_iff_not_bit [of et 7] by simp
  show ?thesis unfolding parseSELRecord_def s Let_def by (simp add: new_entry_def b ipmiTime_def)
qed

text \<open>A threshold event is described and graded consistently: offsets 0 to 5 are the lower and 6 to 11 the upper
  thresholds, each pair of offsets one level, odd offsets going high, and the severity is the grade of that level;
  all other offsets and event types are graded \<open>info\<close>.\<close>

theorem sel_threshold_grading:
  assumes "16 \<le> length d" and "d ! 2 = 0x02"
  shows "let off = unat (d ! 13 AND 0x0F); e = parseSELRecord d
     in le_Severity e = (if d ! 12 AND 0x7F = 1 \<and> off < 12
          then [''non-critical'', ''critical'', ''unrecoverable''] ! (off mod 6 div 2) else ''info'')
      \<and> (d ! 12 AND 0x7F = 1 \<and> off < 12 \<longrightarrow>
          le_Description e = sensorTypeName (d ! 10) @ '' sensor #'' @ dec (unat (d ! 11)) @ '': ''
            @ (if off < 6 then ''lower '' else ''upper '')
            @ [''non-critical'', ''critical'', ''non-recoverable''] ! (off mod 6 div 2)
            @ (if even off then '', going low'' else '', going high'') @ '' ('' @ le_Direction e @ '')'')"
proof -
  have tab: "\<forall>n \<in> set [0..<16]. (if of_nat n \<in> {0x04, 0x05, 0x0A, 0x0B :: byte} then ''unrecoverable''
        else if of_nat n \<in> {0x02, 0x03, 0x08, 0x09 :: byte} then ''critical''
        else if of_nat n \<in> {0x00, 0x01, 0x06, 0x07 :: byte} then ''non-critical'' else ''info'')
      = (if n < 12 then [''non-critical'', ''critical'', ''unrecoverable''] ! (n mod 6 div 2) else ''info'')
      \<and> (n < 12 \<longrightarrow> threshold_what (of_nat n) = (if n < 6 then ''lower '' else ''upper '')
            @ [''non-critical'', ''critical'', ''non-recoverable''] ! (n mod 6 div 2)
            @ (if even n then '', going low'' else '', going high''))" by code_simp
  have "unat (d ! 13 AND 0x0F) < 16" using word_and_le1 [of "d ! 13" "0x0F"]
    by (simp add: word_le_nat_alt)
  then have "unat (d ! 13 AND 0x0F) \<in> set [0..<16]" by simp
  note t = bspec [OF tab this, simplified of_nat_unat ucast_id]
  show ?thesis using assms t
    by (simp add: parseSELRecord_def new_entry_def Let_def severityFromEvent_def describeEvent_def del: append.simps)
qed

theorem sel_threshold_grading_witness:
  "16 \<le> length (demo_sel 1) \<and> demo_sel 1 ! 2 = 0x02 \<and> le_Severity (parseSELRecord (demo_sel 1)) = ''critical''"
proof -
  have "16 \<le> length (demo_sel 1)" "demo_sel 1 ! 2 = 0x02" by (simp_all add: demo_sel_def)
  moreover have "demo_sel 1 ! 12 AND 0x7F = 1" "unat (demo_sel 1 ! 13 AND 0x0F) = 9" by code_simp+
  ultimately show ?thesis using sel_threshold_grading [of "demo_sel 1"] by (simp add: Let_def)
qed

end
