(* ===== verification/Bridge_Ipmi.thy ===== *)
theory Bridge_Ipmi
  imports Ipmi_Sel Ipmi_Sensor
begin

text \<open>
  The management endpoints of the browser bridge (\<open>cmd/beefkvm/ipmi_handlers.go\<close>): the lazily opened IPMI session with its sensor cache and
  one handler per endpoint.  A handler takes what the standard library has already decoded from the request (method, JSON body or the
  decoder's error, query values), and returns the response it writes and the new state, or \<open>None\<close> when the walk of the sensor repository or
  of the event log it starts never ends.  A nil client is a client without a session.  A panic inside a handler is recovered by
  \<open>net/http\<close>, which aborts the response.
\<close>

section \<open>State\<close>

record ipmi_state =
  i_client :: IpmiClient
  i_sensors :: "Sensor list"
  i_loaded :: bool
  i_open :: bool
  i_user :: bytes
  i_pass :: bytes

definition newIPMI :: "bytes \<Rightarrow> bytes \<Rightarrow> ipmi_state" where
  "newIPMI user pass =
     \<lparr>i_client = \<lparr>c_sess = None\<rparr>, i_sensors = [], i_loaded = False, i_open = False, i_user = user, i_pass = pass\<rparr>"

section \<open>Responses\<close>

datatype 'f json =
    JLan LANConfig
  | JUsers "User list option"
  | JSystem "DeviceID result" "FRU result"
  | JReadings "'f Reading list"
  | JSel SELInfo "SELEntry list"
  | JCleared
  | JPowerState string string
  | JPowerOk bytes
  | JBootOk bytes

datatype 'f response =
    JsonOk "'f json"
  | JsonError nat gerror
  | HttpError nat string
  | Aborted

definition json_error :: "nat \<Rightarrow> gerror \<Rightarrow> 'f response" where
  "json_error code e = (if is_panic e then Aborted else JsonError code e)"

definition panicked :: "'a result \<Rightarrow> bool" where
  "panicked r = (case r of Inl e \<Rightarrow> is_panic e | Inr _ \<Rightarrow> False)"

abbreviation (input) method_not_allowed :: "'f response" where
  "method_not_allowed \<equiv> HttpError 405 ''method not allowed''"

section \<open>The shared session\<close>

definition open_client :: "ipmi_env \<Rightarrow> ipmi_state \<Rightarrow> ipmi_state result" where
  "open_client env st =
     (if i_open st then Inr st
      else
        (case client_Open env (i_user st) (i_pass st) of
           Inl e \<Rightarrow> Inl e
         | Inr c \<Rightarrow> Inr (st\<lparr>i_client := c, i_open := True\<rparr>)))"

definition ensure :: "ipmi_env \<Rightarrow> ipmi_state \<Rightarrow> (Sensor list result \<times> ipmi_state) option" where
  "ensure env st =
     (case open_client env st of
        Inl e \<Rightarrow> Some (Inl e, st)
      | Inr st \<Rightarrow>
          if i_loaded st then Some (Inr (i_sensors st), st)
          else
            (case ScanSensors (Client_Send env) (i_client st) of
               None \<Rightarrow> None
             | Some ((sensors, Some e), c) \<Rightarrow> Some (Inl e, st\<lparr>i_client := c\<rparr>)
             | Some ((sensors, None), c) \<Rightarrow>
                 Some (Inr sensors, st\<lparr>i_client := c, i_sensors := sensors, i_loaded := True\<rparr>)))"

definition readSnapshot ::
  "'f float_ops \<Rightarrow> ipmi_env \<Rightarrow> (nat \<Rightarrow> bool) \<Rightarrow> ipmi_state \<Rightarrow> ('f Reading list result \<times> ipmi_state) option" where
  "readSnapshot F env expired st =
     (case ensure env st of
        None \<Rightarrow> None
      | Some (Inl e, st) \<Rightarrow> Some (Inl e, st)
      | Some (Inr sensors, st) \<Rightarrow>
          (case ReadAllDeadline F (Client_Send env) expired sensors (i_client st) of
             (r, c) \<Rightarrow> Some (r, st\<lparr>i_client := c\<rparr>)))"

text \<open>The prologue of the handlers: the session is ensured, or the request fails with 503.\<close>

definition with_ipmi ::
  "ipmi_env \<Rightarrow> (IpmiClient \<Rightarrow> ('f response \<times> IpmiClient) option) \<Rightarrow> ipmi_state \<Rightarrow> ('f response \<times> ipmi_state) option" where
  "with_ipmi env act st =
     (case ensure env st of
        None \<Rightarrow> None
      | Some (Inl e, st) \<Rightarrow> Some (json_error 503 e, st)
      | Some (Inr _, st) \<Rightarrow> map_option (\<lambda>(r, c). (r, st\<lparr>i_client := c\<rparr>)) (act (i_client st)))"

section \<open>Network configuration\<close>

text \<open>\<open>fmt.Sscanf\<close> with \<open>%d\<close> over the runes of the string: leading space is skipped (a newline is an error), a sign and decimal digits are
  taken, an underscore among them makes the number invalid, and input that follows the last operand is left unread.\<close>

definition is_space :: "nat \<Rightarrow> bool" where
  "is_space r \<longleftrightarrow> 9 \<le> r \<and> r \<le> 13 \<or> r = 0x20 \<or> r = 0x85 \<or> r = 0xA0 \<or> r = 0x1680 \<or> 0x2000 \<le> r \<and> r \<le> 0x200A \<or> r = 0x2028 \<or> r = 0x2029
     \<or> r = 0x202F \<or> r = 0x205F \<or> r = 0x3000"

fun skip_space :: "nat list \<Rightarrow> nat list option" where
  "skip_space [] = Some []"
| "skip_space (r # rs) =
     (if r = 13 \<and> take 1 rs = [10] then skip_space rs
      else if r = 10 then None
      else if is_space r then skip_space rs
      else Some (r # rs))"

definition is_digit :: "nat \<Rightarrow> bool" where
  "is_digit r \<longleftrightarrow> 48 \<le> r \<and> r \<le> 57"

definition digits_value :: "nat list \<Rightarrow> nat" where
  "digits_value = foldl (\<lambda>n r. n * 10 + (r - 48)) 0"

definition in_int64 :: "int \<Rightarrow> bool" where
  "in_int64 n \<longleftrightarrow> - (2 ^ 63) \<le> n \<and> n < 2 ^ 63"

definition scan_int :: "nat list \<Rightarrow> (int \<times> nat list) option" where
  "scan_int s =
     (case skip_space s of
        None \<Rightarrow> None
      | Some s \<Rightarrow>
          let neg = take 1 s = [45];
              s = (if take 1 s = [45] \<or> take 1 s = [43] then drop 1 s else s);
              tok = takeWhile (\<lambda>r. is_digit r \<or> r = 95) s;
              n = (if neg then - int (digits_value tok) else int (digits_value tok))
          in if tok = [] \<or> 95 \<in> set tok \<or> \<not> in_int64 n then None else Some (n, drop (length tok) s))"

definition scan_dot :: "nat list \<Rightarrow> nat list option" where
  "scan_dot s = (if take 1 s = [46] then Some (drop 1 s) else None)"

fun scan_ints :: "nat \<Rightarrow> nat list \<Rightarrow> int list option" where
  "scan_ints 0 s = Some []"
| "scan_ints (Suc n) s =
     (case scan_int s of
        None \<Rightarrow> None
      | Some (i, s) \<Rightarrow>
          if n = 0 then Some [i]
          else
            (case scan_dot s of
               None \<Rightarrow> None
             | Some s \<Rightarrow> map_option (Cons i) (scan_ints n s)))"

definition parseIPv4 :: "(nat list \<Rightarrow> string) \<Rightarrow> nat list \<Rightarrow> bytes result" where
  "parseIPv4 quote s =
     (case scan_ints 4 s of
        None \<Rightarrow> Inl (Errorf (''invalid IPv4 '' @ quote s))
      | Some vs \<Rightarrow>
          if list_ex (\<lambda>v. v < 0 \<or> v > 255) vs then Inl (Errorf (''invalid IPv4 '' @ quote s))
          else Inr (map word_of_int vs))"

record network_request =
  nr_IPSource :: "bytes option"
  nr_IP :: "nat list option"
  nr_SubnetMask :: "nat list option"
  nr_Gateway :: "nat list option"

text \<open>The loop over the three addresses; \<open>None\<close> means that it ran to its end, a response that the handler returned.\<close>

fun set_addresses ::
  "(nat list \<Rightarrow> string) \<Rightarrow> ipmi_env \<Rightarrow> (nat list option \<times> byte) list \<Rightarrow> IpmiClient \<Rightarrow> 'f response option \<times> IpmiClient" where
  "set_addresses quote env [] c = (None, c)"
| "set_addresses quote env ((val, param) # fs) c =
     (if val = None \<or> val = Some [] then set_addresses quote env fs c
      else
        (case parseIPv4 quote (the val) of
           Inl e \<Rightarrow> (Some (JsonError 400 e), c)
         | Inr ipb \<Rightarrow>
             (case SetLANParam (Client_Send env) param ipb c of
                (Some e, c) \<Rightarrow> (Some (json_error 503 e), c)
              | (None, c) \<Rightarrow> set_addresses quote env fs c)))"

definition set_source :: "ipmi_env \<Rightarrow> bytes option \<Rightarrow> IpmiClient \<Rightarrow> gerror option \<times> IpmiClient" where
  "set_source env src c =
     (case src of
        None \<Rightarrow> (None, c)
      | Some s \<Rightarrow> SetIPSource (Client_Send env) (if s = str_bytes ''dhcp'' then 2 else 1) c)"

definition reply_lan :: "ipmi_env \<Rightarrow> IpmiClient \<Rightarrow> 'f response \<times> IpmiClient" where
  "reply_lan env c =
     (case GetLANConfig (Client_Send env) c of
        (Inl e, c) \<Rightarrow> (json_error 503 e, c)
      | (Inr cfg, c) \<Rightarrow> (JsonOk (JLan cfg), c))"

definition network_post ::
  "(nat list \<Rightarrow> string) \<Rightarrow> ipmi_env \<Rightarrow> network_request \<Rightarrow> IpmiClient \<Rightarrow> 'f response \<times> IpmiClient" where
  "network_post quote env req c =
     (case set_source env (nr_IPSource req) c of
        (Some e, c) \<Rightarrow> (json_error 503 e, c)
      | (None, c) \<Rightarrow>
          (case set_addresses quote env [(nr_IP req, 3), (nr_SubnetMask req, 6), (nr_Gateway req, 12)] c of
             (Some r, c) \<Rightarrow> (r, c)
           | (None, c) \<Rightarrow> reply_lan env c))"

definition handleNetwork ::
  "(nat list \<Rightarrow> string) \<Rightarrow> ipmi_env \<Rightarrow> string \<Rightarrow> network_request result \<Rightarrow> ipmi_state \<Rightarrow> ('f response \<times> ipmi_state) option" where
  "handleNetwork quote env meth body =
     with_ipmi env (\<lambda>c. Some
       (if meth = ''GET'' then reply_lan env c
        else if meth = ''POST'' then
          (case body of
             Inl e \<Rightarrow> (JsonError 400 e, c)
           | Inr req \<Rightarrow> network_post quote env req c)
        else (method_not_allowed, c)))"

section \<open>Users\<close>

record user_request =
  ur_ID :: byte
  ur_Name :: "bytes option"
  ur_Password :: "bytes option"
  ur_Privilege :: "byte option"
  ur_Enabled :: "bool option"

text \<open>\<open>if field != nil { if err := op; err != nil { return error } }\<close>.\<close>

definition apply_field ::
  "('a \<Rightarrow> 's \<Rightarrow> gerror option \<times> 's) \<Rightarrow> 'a option \<Rightarrow> gerror option \<times> 's \<Rightarrow> gerror option \<times> 's" where
  "apply_field op field acc =
     (case acc of
        (Some e, c) \<Rightarrow> (Some e, c)
      | (None, c) \<Rightarrow> (case field of None \<Rightarrow> (None, c) | Some v \<Rightarrow> op v c))"

definition change_user :: "'s sender \<Rightarrow> user_request \<Rightarrow> 's \<Rightarrow> gerror option \<times> 's" where
  "change_user send req c =
     (let uid = ur_ID req;
          acc = (None, c);
          acc = apply_field (SetUserName send uid) (ur_Name req) acc;
          acc = apply_field (SetUserPrivilege send uid) (ur_Privilege req) acc;
          acc = apply_field (\<lambda>p c. if p = [] then (None, c) else SetUserPassword send uid p c) (ur_Password req) acc
      in apply_field (\<lambda>en c. if en then EnableUser send uid c else DisableUser send uid c) (ur_Enabled req) acc)"

definition users_post :: "ipmi_env \<Rightarrow> user_request \<Rightarrow> IpmiClient \<Rightarrow> 'f response \<times> IpmiClient" where
  "users_post env req c =
     (if ur_ID req < 1 \<or> ur_ID req > 63 then (JsonError 400 (Errorf (''invalid user id '' @ dec (unat (ur_ID req)))), c)
      else
        (case change_user (Client_Send env) req c of
           (Some e, c) \<Rightarrow> (json_error 503 e, c)
         | (None, c) \<Rightarrow>
             (case ListUsers (Client_Send env) c of
                (Inl e, c) \<Rightarrow> (if is_panic e then Aborted else JsonOk (JUsers None), c)
              | (Inr us, c) \<Rightarrow> (JsonOk (JUsers (Some us)), c))))"

definition handleUsers ::
  "ipmi_env \<Rightarrow> string \<Rightarrow> user_request result \<Rightarrow> ipmi_state \<Rightarrow> ('f response \<times> ipmi_state) option" where
  "handleUsers env meth body =
     with_ipmi env (\<lambda>c. Some
       (if meth = ''GET'' then
          (case ListUsers (Client_Send env) c of
             (Inl e, c) \<Rightarrow> (json_error 503 e, c)
           | (Inr us, c) \<Rightarrow> (JsonOk (JUsers (Some us)), c))
        else if meth = ''POST'' then
          (case body of
             Inl e \<Rightarrow> (JsonError 400 e, c)
           | Inr req \<Rightarrow> users_post env req c)
        else (method_not_allowed, c)))"

section \<open>System, sensors and the event log\<close>

definition handleSystem :: "ipmi_env \<Rightarrow> ipmi_state \<Rightarrow> ('f response \<times> ipmi_state) option" where
  "handleSystem env =
     with_ipmi env (\<lambda>c. Some
       (case GetDeviceID (Client_Send env) c of
          (dev, c) \<Rightarrow>
            if panicked dev then (Aborted, c)
            else
              (case ReadFRU (Client_Send env) 0 c of
                 (fru, c) \<Rightarrow>
                   if panicked fru then (Aborted, c)
                   else (JsonOk (JSystem dev fru), c))))"

definition handleSensors ::
  "'f float_ops \<Rightarrow> ipmi_env \<Rightarrow> (nat \<Rightarrow> bool) \<Rightarrow> ipmi_state \<Rightarrow> ('f response \<times> ipmi_state) option" where
  "handleSensors F env expired st =
     (case readSnapshot F env expired st of
        None \<Rightarrow> None
      | Some (Inl e, st) \<Rightarrow> Some (json_error 503 e, st)
      | Some (Inr rs, st) \<Rightarrow> Some (JsonOk (JReadings rs), st))"

text \<open>The event stream: one event at once and one per tick until the browser leaves; \<open>marshal\<close> is \<open>json.Marshal\<close>, whose failure drops the
  event.\<close>

definition sensor_event :: "('f Reading list \<Rightarrow> string result) \<Rightarrow> 'f Reading list result \<Rightarrow> string list" where
  "sensor_event marshal r =
     (case r of
        Inl e \<Rightarrow> [''event: error'' @ [CHR 0x0A] @ ''data: '' @ err_text e @ [CHR 0x0A, CHR 0x0A]]
      | Inr rs \<Rightarrow>
          (case marshal rs of
             Inl _ \<Rightarrow> []
           | Inr buf \<Rightarrow> [''event: sensors'' @ [CHR 0x0A] @ ''data: '' @ buf @ [CHR 0x0A, CHR 0x0A]]))"

fun handleSensorsStream ::
  "'f float_ops \<Rightarrow> ('f Reading list \<Rightarrow> string result) \<Rightarrow> ipmi_env \<Rightarrow> (nat \<Rightarrow> bool) list \<Rightarrow> ipmi_state \<Rightarrow> (string list \<times> ipmi_state) option" where
  "handleSensorsStream F marshal env [] st = Some ([], st)"
| "handleSensorsStream F marshal env (expired # ticks) st =
     (case readSnapshot F env expired st of
        None \<Rightarrow> None
      | Some (r, st) \<Rightarrow>
          if panicked r then Some ([], st)
          else map_option (\<lambda>(evs, st). (sensor_event marshal r @ evs, st)) (handleSensorsStream F marshal env ticks st))"

text \<open>\<open>strconv.Atoi\<close>.\<close>

definition Atoi :: "string \<Rightarrow> int option" where
  "Atoi v =
     (let neg = take 1 v = ''-'';
          ds = map of_char (if take 1 v = ''-'' \<or> take 1 v = ''+'' then drop 1 v else v);
          n = (if neg then - int (digits_value ds) else int (digits_value ds))
      in if ds = [] \<or> \<not> list_all is_digit ds \<or> \<not> in_int64 n then None else Some n)"

definition query_limit :: "string \<Rightarrow> int" where
  "query_limit v = (case Atoi v of Some n \<Rightarrow> if n > 0 \<and> n \<le> 5000 then n else 100 | None \<Rightarrow> 100)"

definition query_offset :: "string \<Rightarrow> int" where
  "query_offset v = (case Atoi v of Some n \<Rightarrow> if n \<ge> 0 then n else 0 | None \<Rightarrow> 0)"

text \<open>\<open>offset + limit\<close> is a 64-bit addition.\<close>

definition add64 :: "int \<Rightarrow> int \<Rightarrow> int" where
  "add64 a b = sint (word_of_int (a + b) :: 64 word)"

definition sel_page :: "'s sender \<Rightarrow> int \<Rightarrow> int \<Rightarrow> 's \<Rightarrow> ('f response \<times> 's) option" where
  "sel_page send limit offset c =
     (case GetSELInfo send c of
        (Inl e, c) \<Rightarrow> Some (json_error 503 e, c)
      | (Inr info, c) \<Rightarrow>
          (case ScanSEL send (add64 offset limit) c of
             None \<Rightarrow> None
           | Some ((es, Some e), c) \<Rightarrow> Some (json_error 503 e, c)
           | Some ((es, None), c) \<Rightarrow>
               Some (JsonOk (JSel info (if offset > int (length es) then [] else drop (nat offset) es)), c)))"

definition handleSELGet :: "ipmi_env \<Rightarrow> string \<Rightarrow> string \<Rightarrow> ipmi_state \<Rightarrow> ('f response \<times> ipmi_state) option" where
  "handleSELGet env vlimit voffset = with_ipmi env (sel_page (Client_Send env) (query_limit vlimit) (query_offset voffset))"

definition handleSELClear :: "ipmi_env \<Rightarrow> ipmi_state \<Rightarrow> ('f response \<times> ipmi_state) option" where
  "handleSELClear env =
     with_ipmi env (\<lambda>c. Some
       (case ReserveSEL (Client_Send env) c of
          (Inl e, c) \<Rightarrow> (json_error 503 e, c)
        | (Inr resv, c) \<Rightarrow>
            (case ClearSEL (Client_Send env) resv c of
               (Inl e, c) \<Rightarrow> (json_error 503 e, c)
             | (Inr _, c) \<Rightarrow> (JsonOk JCleared, c))))"

definition handleSEL :: "ipmi_env \<Rightarrow> string \<Rightarrow> string \<Rightarrow> string \<Rightarrow> ipmi_state \<Rightarrow> ('f response \<times> ipmi_state) option" where
  "handleSEL env meth vlimit voffset st =
     (if meth = ''GET'' then handleSELGet env vlimit voffset st
      else if meth = ''DELETE'' then handleSELClear env st
      else Some (method_not_allowed, st))"

section \<open>Power\<close>

definition handlePowerStatus :: "ipmi_env \<Rightarrow> ipmi_state \<Rightarrow> ('f response \<times> ipmi_state) option" where
  "handlePowerStatus env =
     with_ipmi env (\<lambda>c. Some
       (case PowerStatus env c of
          (Inl e, c) \<Rightarrow> (json_error 503 e, c)
        | (Inr cst, c) \<Rightarrow> (JsonOk (JPowerState (if cs_PowerOn cst then ''on'' else ''off'') (cs_LastEvent cst)), c)))"

definition power_action :: "bytes \<Rightarrow> (ipmi_env \<Rightarrow> IpmiClient \<Rightarrow> gerror option \<times> IpmiClient) option" where
  "power_action action =
     (if action = str_bytes ''on'' then Some PowerOn
      else if action = str_bytes ''off'' then Some PowerOff
      else if action = str_bytes ''cycle'' then Some PowerCycle
      else if action = str_bytes ''reset'' then Some PowerReset
      else if action = str_bytes ''soft'' then Some PowerSoftShutdown
      else None)"

definition handlePower ::
  "(bytes \<Rightarrow> string) \<Rightarrow> ipmi_env \<Rightarrow> string \<Rightarrow> bytes result \<Rightarrow> ipmi_state \<Rightarrow> ('f response \<times> ipmi_state) option" where
  "handlePower quote env meth body st =
     (if meth \<noteq> ''POST'' then Some (method_not_allowed, st)
      else
        (case body of
           Inl e \<Rightarrow> Some (JsonError 400 e, st)
         | Inr action \<Rightarrow>
             with_ipmi env (\<lambda>c. Some
               (case power_action action of
                  None \<Rightarrow> (JsonError 400 (Errorf (''unknown action '' @ quote action)), c)
                | Some cmd \<Rightarrow>
                    (case cmd env c of
                       (Some e, c) \<Rightarrow> (json_error 503 e, c)
                     | (None, c) \<Rightarrow> (JsonOk (JPowerOk action), c)))) st))"

definition handlePowerBoot ::
  "(bytes \<Rightarrow> string) \<Rightarrow> ipmi_env \<Rightarrow> string \<Rightarrow> bytes result \<Rightarrow> ipmi_state \<Rightarrow> ('f response \<times> ipmi_state) option" where
  "handlePowerBoot quote env meth body st =
     (if meth \<noteq> ''POST'' then Some (method_not_allowed, st)
      else
        (case body of
           Inl e \<Rightarrow> Some (JsonError 400 e, st)
         | Inr device \<Rightarrow>
             with_ipmi env (\<lambda>c. Some
               (case SetOneTimeBoot quote env device c of
                  (Some e, c) \<Rightarrow> (json_error 503 e, c)
                | (None, c) \<Rightarrow> (JsonOk (JBootOk device), c))) st))"

section \<open>Lemmas: no command panics\<close>

text \<open>The shape of the safety lemmas: the state stays good and an error is no panic; one rule per construct of the commands.\<close>

definition safe :: "('s \<Rightarrow> bool) \<Rightarrow> 'a result \<times> 's \<Rightarrow> bool" where
  "safe good p \<longleftrightarrow> good (snd p) \<and> \<not> panicked (fst p)"

definition safe_error :: "('s \<Rightarrow> bool) \<Rightarrow> gerror option \<times> 's \<Rightarrow> bool" where
  "safe_error good p \<longleftrightarrow> good (snd p) \<and> (\<forall>e. fst p = Some e \<longrightarrow> \<not> is_panic e)"

named_theorems safety \<open>introduction rules for safe commands\<close>

lemma safe_Inl [safety]: "good s \<Longrightarrow> \<not> is_panic e \<Longrightarrow> safe good (Inl e, s)"
  by (simp add: safe_def panicked_def)

lemma safe_Inr [safety]: "good s \<Longrightarrow> safe good (Inr r, s)"
  by (simp add: safe_def panicked_def)

lemma safe_None [safety]: "good s \<Longrightarrow> safe_error good (None, s)"
  by (simp add: safe_error_def)

lemma safe_Some [safety]: "good s \<Longrightarrow> \<not> is_panic e \<Longrightarrow> safe_error good (Some e, s)"
  by (simp add: safe_error_def)

lemma safe_cases [consumes 1, case_names Inl Inr]:
  assumes "safe good p"
  obtains e s where "p = (Inl e, s)" "good s" "\<not> is_panic e" | r s where "p = (Inr r, s)" "good s"
  using assms by (cases p; cases "fst p") (auto simp: safe_def panicked_def)

lemma safe_bind [safety]:
  assumes "safe good p" "\<And>e s. good s \<Longrightarrow> \<not> is_panic e \<Longrightarrow> safe good (f e s)" "\<And>r s. good s \<Longrightarrow> safe good (g r s)"
  shows "safe good (case p of (x, s) \<Rightarrow> case x of Inl e \<Rightarrow> f e s | Inr r \<Rightarrow> g r s)"
  using assms by (cases p; cases "fst p") (auto simp: safe_def panicked_def)

lemma safe_bind_pair:
  assumes "safe good p" "\<And>e s. good s \<Longrightarrow> \<not> is_panic e \<Longrightarrow> safe good (f e s)" "\<And>a b s. good s \<Longrightarrow> safe good (g a b s)"
  shows "safe good (case p of (x, s) \<Rightarrow> case x of Inl e \<Rightarrow> f e s | Inr (a, b) \<Rightarrow> g a b s)"
  using assms by (cases p; cases "fst p") (auto simp: safe_def panicked_def)

lemma safe_bind_error [safety]:
  assumes "safe good p" "\<And>e s. good s \<Longrightarrow> \<not> is_panic e \<Longrightarrow> safe_error good (f e s)" "\<And>r s. good s \<Longrightarrow> safe_error good (g r s)"
  shows "safe_error good (case p of (x, s) \<Rightarrow> case x of Inl e \<Rightarrow> f e s | Inr r \<Rightarrow> g r s)"
  using assms by (cases p; cases "fst p") (auto simp: safe_def panicked_def)

lemma safe_if [safety]:
  "(b \<Longrightarrow> safe good p) \<Longrightarrow> (\<not> b \<Longrightarrow> safe good q) \<Longrightarrow> safe good (if b then p else q)"
  "(b \<Longrightarrow> safe_error good x) \<Longrightarrow> (\<not> b \<Longrightarrow> safe_error good y) \<Longrightarrow> safe_error good (if b then x else y)"
  by simp_all

lemma safe_Let [safety]: "safe good (f x) \<Longrightarrow> safe good (let y = x in f y)" "safe_error good (g x) \<Longrightarrow> safe_error good (let y = x in g y)"
  by simp_all

text \<open>A walk that may not end: when it does, the state is good and its error is no panic.\<close>

definition safe_walk :: "('s \<Rightarrow> bool) \<Rightarrow> ('a \<times> gerror option) \<times> 's \<Rightarrow> bool" where
  "safe_walk good y \<longleftrightarrow> good (snd y) \<and> (\<forall>e. snd (fst y) = Some e \<longrightarrow> \<not> is_panic e)"

context ipmi_sender
begin

lemma safe_send [safety]: "good s \<Longrightarrow> safe good (send netFn cmd d s)"
  using no_panic [of s netFn cmd d] keeps [of s netFn cmd d]
  by (cases "send netFn cmd d s") (auto simp: safe_def panicked_def split: sum.splits)

lemma GetSDR_safe: "good s \<Longrightarrow> safe good (GetSDR send resv rid off n s)"
  unfolding GetSDR_def by (intro safety) simp_all

lemma sdr_page_loop_safe: "good s \<Longrightarrow> safe good (sdr_page_loop send resv rid tot out s)"
proof (induction "tot - length out" arbitrary: out s rule: less_induct)
  case less
  have step: "safe good (sdr_page_loop send resv rid tot (out @ page) s')" if "length out < tot" "length page \<noteq> 0" "good s'" for page s'
    using less.hyps [of "out @ page" s'] that by (cases page) auto
  show ?case
    by (subst sdr_page_loop.simps) (intro safety GetSDR_safe; use less.prems step in \<open>auto intro!: safety split: prod.split\<close>)
qed

lemma getSDRRecord_safe: "good s \<Longrightarrow> safe good (getSDRRecord send resv rid s)"
  unfolding getSDRRecord_def by (rule safe_bind_pair [OF GetSDR_safe]) (auto intro!: safety sdr_page_loop_safe)

lemma reserve_safe: "good s \<Longrightarrow> safe good (ReserveSDRRepository send s)" "good s \<Longrightarrow> safe good (ReserveSEL send s)"
  unfolding ReserveSDRRepository_def ReserveSEL_def by (intro safety; simp)+

lemma sel_commands_safe:
  "good s \<Longrightarrow> safe good (GetSELInfo send s)" "good s \<Longrightarrow> safe good (GetSELEntry send resv rid s)" "good s \<Longrightarrow> safe good (ClearSEL send resv s)"
  unfolding GetSELInfo_def GetSELEntry_def ClearSEL_def by (intro safety; simp)+

lemma scan_loop_safe:
  assumes "scan_loop send resv rid out s = Some y" "good s"
  shows "safe_walk good y"
proof -
  have "send = send \<longrightarrow> good s \<longrightarrow> safe_walk good y"
  proof (rule scan_loop.raw_induct [where P = "\<lambda>snd' resv rid out s y. snd' = send \<longrightarrow> good s \<longrightarrow> safe_walk good y", OF _ assms(1)],
      intro impI, goal_cases)
    case (1 f snd' resv rid out s y)
    note [simp] = 1(3)
    from getSDRRecord_safe [OF 1(4), of resv rid] show ?case
    proof (cases rule: safe_cases)
      case (Inl e s1)
      from reserve_safe(1) [OF Inl(2)] show ?thesis
        by (cases rule: safe_cases) (use 1(1,2) Inl in \<open>auto simp: safe_walk_def split: if_splits\<close>)
    next
      case (Inr r s1)
      then show ?thesis using 1(1,2) by (cases r) (auto simp: safe_walk_def Let_def split: if_splits)
    qed
  qed
  then show ?thesis using assms(2) by simp
qed

lemma ScanSensors_safe: "ScanSensors send s = Some y \<Longrightarrow> good s \<Longrightarrow> safe_walk good y"
  by (rule safe_cases [OF reserve_safe(1) [of s]]) (auto simp: ScanSensors_def safe_walk_def dest: scan_loop_safe)

lemma scan_sel_loop_safe:
  assumes "scan_sel_loop send limit resv rid out s = Some y" "good s"
  shows "safe_walk good y"
proof -
  have "send = send \<longrightarrow> good s \<longrightarrow> safe_walk good y"
  proof (rule scan_sel_loop.raw_induct [where P = "\<lambda>snd' limit resv rid out s y. snd' = send \<longrightarrow> good s \<longrightarrow> safe_walk good y", OF _ assms(1)],
      intro impI, goal_cases)
    case (1 f snd' limit resv rid out s y)
    note [simp] = 1(3)
    from sel_commands_safe(2) [OF 1(4), of resv rid] show ?case
    proof (cases rule: safe_cases)
      case (Inl e s1)
      from reserve_safe(2) [OF Inl(2)] show ?thesis
        by (cases rule: safe_cases) (use 1(1,2,4) Inl in \<open>auto simp: safe_walk_def split: if_splits\<close>)
    next
      case (Inr r s1)
      then show ?thesis using 1(1,2,4) by (cases r) (auto simp: safe_walk_def split: if_splits)
    qed
  qed
  then show ?thesis using assms(2) by simp
qed

lemma ScanSEL_safe: "ScanSEL send limit s = Some y \<Longrightarrow> good s \<Longrightarrow> safe_walk good y"
  by (rule safe_cases [OF reserve_safe(2) [of s]]) (auto simp: ScanSEL_def safe_walk_def dest: scan_sel_loop_safe)

lemma sendCheck_ok: "good s \<Longrightarrow> safe_error good (sendCheck send what netFn cmd d s)"
  using sendCheck_safe [of s what netFn cmd d] by (cases "sendCheck send what netFn cmd d s") (auto simp: safe_error_def)

lemma setters_safe:
  assumes "good s"
  shows "safe_error good (SetLANParam send param d s)" "safe_error good (SetIPSource send b s)" "safe_error good (SetUserName send uid name s)"
    "safe_error good (SetUserPassword send uid name s)" "safe_error good (EnableUser send uid s)" "safe_error good (DisableUser send uid s)"
    "safe_error good (SetUserPrivilege send uid b s)"
  using sendCheck_ok [OF assms] assms
  by (simp_all add: SetLANParam_def SetIPSource_def SetUserName_def SetUserPassword_def EnableUser_def DisableUser_def SetUserPrivilege_def safety)

lemma listing_safe:
  assumes "good s"
  shows "safe good (ListUsers send s)" "safe good (GetLANConfig send s)" "safe good (GetDeviceID send s)" "safe good (ReadFRU send i s)"
  using ListUsers_safe [OF assms] GetLANConfig_total [OF assms] GetDeviceID_safe [OF assms] ReadFRU_safe [OF assms]
  by (auto simp: safe_def panicked_def split: sum.splits) (metis prod.collapse)+

lemma read_all_safe: "good s \<Longrightarrow> safe good (read_all_from F send expired i sns s)"
proof (induction sns arbitrary: i s)
  case (Cons sn sns)
  have "safe good (GetSensorReading send k s)" if "good s" for k s
    unfolding GetSensorReading_def by (intro safety; use that in simp)
  then have "safe good (read_sensor F send ex sn s)" if "good s" for ex s
    unfolding read_sensor_def using that by (intro safety) (auto intro!: safety split: prod.split)
  then show ?case using Cons by (auto intro!: safety)
qed (simp add: safety)

end

section \<open>Lemmas: the handlers\<close>

text \<open>A client with an established session, and the invariant of the shared state.\<close>

definition live :: "ipmi_env \<Rightarrow> IpmiClient \<Rightarrow> bool" where
  "live env c \<longleftrightarrow> client_ok env c \<and> c_sess c \<noteq> None"

definition ipmi_ok :: "ipmi_env \<Rightarrow> ipmi_state \<Rightarrow> bool" where
  "ipmi_ok env st \<longleftrightarrow> env_ok env \<and> (i_open st \<longrightarrow> live env (i_client st))"

interpretation live: ipmi_sender "Client_Send env" "live env" for env
proof unfold_locales
  fix netFn cmd d c r c'
  assume "Client_Send env netFn cmd d c = (Inr r, c')"
  then show "r \<noteq> []" by (rule cs.nonempty)
next
  fix c netFn cmd d e c'
  assume "live env c" "Client_Send env netFn cmd d c = (Inl e, c')"
  then show "\<not> is_panic e" using cs.no_panic by (auto simp: live_def)
next
  fix c netFn cmd d x c'
  assume c: "live env c" "Client_Send env netFn cmd d c = (x, c')"
  then have "client_ok env c'" using cs.keeps by (auto simp: live_def)
  moreover have "c_sess c' \<noteq> None" using c by (auto simp: live_def Client_Send_layout split: prod.splits sum.splits)
  ultimately show "live env c'" by (simp add: live_def)
qed

lemma with_sess_safe:
  assumes "live env c"
  shows "safe (live env) (PowerStatus env c)" "safe_error (live env) (with_sess (chassisControl env a) Some c)"
    "safe_error (live env) (with_sess (setBootDevice env b) Some c)"
proof -
  obtain s where s: "c_sess c = Some s" "env_ok env" "keyed s" using assms by (auto simp: live_def client_ok_def)
  have r: "safe keyed (rawCall env netFn cmd d s)" for netFn cmd d
    using rawCall_no_panic [OF s(2,3)] rawCall_keyed s(3) by (cases "rawCall env netFn cmd d s") (force simp: safe_def panicked_def split: sum.split)
  have "safe keyed (getChassisStatus env s)" unfolding getChassisStatus_def by (rule safe_bind_pair [OF r]) (auto intro!: safety)
  then show "safe (live env) (PowerStatus env c)"
    using s(2) by (auto simp: PowerStatus_def with_sess_def s(1) safe_def live_def client_ok_def split: prod.split)
  have l: "safe_error (live env) (with_sess f Some c)" if "safe_error keyed (f s)" for f
    using s(2) that by (auto simp: with_sess_def s(1) safe_error_def live_def client_ok_def split: prod.split)
  show "safe_error (live env) (with_sess (chassisControl env a) Some c)"
    by (rule l, unfold chassisControl_def, rule safe_bind_error [OF r]) (auto intro!: safety split: prod.split)
  show "safe_error (live env) (with_sess (setBootDevice env b) Some c)"
    by (rule l, unfold setBootDevice_def Let_def, rule safe_bind_error [OF r]) (auto intro!: safety split: prod.split)
qed

lemma Dial_no_panic:
  assumes "env_ok env" "Dial env user pass = (Inl e, x)"
  shows "\<not> is_panic e"
proof -
  have rr: "rand_Read env n s \<noteq> (Inl e, s')" for n s e s'
  proof -
    obtain b where "e_rand env (ss_rands s) = Inr b" using assms(1) unfolding env_ok_def by blast
    then show ?thesis by (simp add: rand_Read_def)
  qed
  have f: "rakp_finish env k u cr br g s = (Some e, s') \<Longrightarrow> \<not> is_panic e" for k u cr br g s e s'
    by (auto simp: rakp_finish_def Let_def check_rakp4_def check_rakp4_icv_def split: prod.splits sum.splits option.splits if_splits)
  have "rakp_exchange env u p s = (Some e, s') \<Longrightarrow> \<not> is_panic e" for u p s e s'
    by (auto simp: rakp_exchange_def Let_def check_rakp2_def check_rakp2_auth_def rr dest: f split: prod.splits sum.splits option.splits if_splits)
  then have k: "rakp env user pass s = (Some e, s') \<Longrightarrow> \<not> is_panic e" for s e s'
    by (auto simp: rakp_def Let_def check_open_response_def split: prod.splits sum.splits option.splits if_splits)
  have "keyed s" if r: "rakp env user pass new_session = (None, s)" for s
  proof -
    obtain s1 where "rakp_exchange env user pass s1 = (None, s)" using rakp_reaches_exchange [OF r] by blast
    then obtain cr br g s2 where "rakp_finish env (padKey pass) user cr br g s2 = (None, s)" using rakp_exchange_success by blast
    then show ?thesis using rakp_finish_success by (fastforce simp: session_keys_def keyed_def)
  qed
  then show ?thesis
    using assms k [of new_session] rawCall_no_panic [OF assms(1)]
    by (auto simp: Dial_def Let_def split: option.splits prod.splits sum.splits if_splits)
qed

lemma client_Open_live:
  assumes "env_ok env" "client_Open env user pass = Inr c"
  shows "live env c"
  using assms dial_cases [of env user pass] by (auto simp: client_Open_def live_def client_ok_def keyed_def)

lemma ensure_ok:
  assumes "ipmi_ok env st" "ensure env st = Some (x, st')"
  shows "ipmi_ok env st' \<and> \<not> panicked x \<and> (\<forall>l. x = Inr l \<longrightarrow> i_open st' \<and> i_loaded st' \<and> i_sensors st' = l)"
proof (cases "open_client env st")
  case (Inl e)
  then have "\<not> i_open st" "client_Open env (i_user st) (i_pass st) = Inl e" by (auto simp: open_client_def split: if_splits sum.splits)
  then have "\<not> is_panic e" using Dial_no_panic assms(1) by (auto simp: client_Open_def ipmi_ok_def split: prod.splits sum.splits)
  then show ?thesis using assms Inl by (auto simp: ensure_def panicked_def)
next
  case (Inr st1)
  have o: "i_open st1" "live env (i_client st1)"
    using Inr assms(1) client_Open_live by (auto simp: open_client_def ipmi_ok_def split: if_splits sum.splits)
  show ?thesis
  proof (cases "i_loaded st1")
    case True
    then show ?thesis using assms Inr o by (auto simp: ensure_def panicked_def ipmi_ok_def)
  next
    case False
    then obtain l er c where s: "ScanSensors (Client_Send env) (i_client st1) = Some ((l, er), c)"
      using assms(2) Inr by (auto simp: ensure_def split: option.splits)
    have "live env c" "er = Some e \<Longrightarrow> \<not> is_panic e" for e using live.ScanSensors_safe [OF s o(2)] by (auto simp: safe_walk_def)
    then show ?thesis using assms Inr False s o by (cases er) (auto simp: ensure_def ipmi_ok_def panicked_def)
  qed
qed

text \<open>A reply that is not an aborted response, over a client that is still live.\<close>

definition replies :: "ipmi_env \<Rightarrow> 'f response \<times> IpmiClient \<Rightarrow> bool" where
  "replies env p \<longleftrightarrow> fst p \<noteq> Aborted \<and> live env (snd p)"

lemma replies_simps [simp]:
  "replies env (JsonOk j, c) = live env c" "replies env (JsonError n e, c) = live env c" "replies env (HttpError n m, c) = live env c"
  "replies env (json_error n e, c) = (\<not> is_panic e \<and> live env c)" "\<not> replies env (Aborted, c)"
  by (auto simp: replies_def json_error_def)

lemma replies_bind [safety]:
  assumes "safe (live env) p" "\<And>e c. live env c \<Longrightarrow> \<not> is_panic e \<Longrightarrow> replies env (f e c)" "\<And>r c. live env c \<Longrightarrow> replies env (g r c)"
  shows "replies env (case p of (x, c) \<Rightarrow> case x of Inl e \<Rightarrow> f e c | Inr r \<Rightarrow> g r c)"
  using assms(1) by (cases rule: safe_cases) (simp_all add: assms(2,3))

lemma replies_bind_error [safety]:
  assumes "safe_error (live env) p" "\<And>e c. live env c \<Longrightarrow> \<not> is_panic e \<Longrightarrow> replies env (f e c)" "\<And>c. live env c \<Longrightarrow> replies env (g c)"
  shows "replies env (case p of (x, c) \<Rightarrow> case x of None \<Rightarrow> g c | Some e \<Rightarrow> f e c)"
  using assms by (cases p; cases "fst p") (auto simp: safe_error_def)

lemma with_ipmi_ok:
  assumes "ipmi_ok env st" "with_ipmi env act st = Some (r, st')" "\<And>c p. live env c \<Longrightarrow> act c = Some p \<Longrightarrow> replies env p"
  shows "r \<noteq> Aborted \<and> ipmi_ok env st'"
proof -
  obtain x st1 where e: "ensure env st = Some (x, st1)" using assms(2) by (auto simp: with_ipmi_def split: option.splits)
  note ok = ensure_ok [OF assms(1) e]
  show ?thesis
  proof (cases x)
    case (Inl er)
    then show ?thesis using assms(2) e ok by (auto simp: with_ipmi_def panicked_def json_error_def)
  next
    case (Inr l)
    then obtain c where c: "act (i_client st1) = Some (r, c)" "st' = st1\<lparr>i_client := c\<rparr>" using assms(2) e by (auto simp: with_ipmi_def)
    have "live env (i_client st1)" using ok Inr by (simp add: ipmi_ok_def)
    from assms(3) [OF this c(1)] show ?thesis using ok c(2) by (simp add: replies_def ipmi_ok_def)
  qed
qed

lemma with_ipmi_replies:
  assumes "ipmi_ok env st" "with_ipmi env (\<lambda>c. Some (act c)) st = Some (r, st')" "\<And>c. live env c \<Longrightarrow> replies env (act c)"
  shows "r \<noteq> Aborted \<and> ipmi_ok env st'"
proof (rule with_ipmi_ok [OF assms(1,2)])
  fix c p
  assume "live env c" "Some (act c) = Some p"
  then show "replies env p" using assms(3) [of c] by simp
qed

lemma reply_lan_ok: "live env c \<Longrightarrow> replies env (reply_lan env c)"
  unfolding reply_lan_def by (intro safety live.listing_safe) simp_all

lemma set_addresses_ok:
  "live env c \<Longrightarrow> set_addresses quote env fs c = (x, c') \<Longrightarrow> live env c' \<and> x \<noteq> Some Aborted"
proof (induction fs arbitrary: c)
  case (Cons f fs)
  obtain val param where f: "f = (val, param)" by (cases f)
  show ?case
  proof (cases "val = None \<or> val = Some []")
    case True
    then show ?thesis using Cons f by auto
  next
    case False
    show ?thesis
    proof (cases "parseIPv4 quote (the val)")
      case (Inr b)
      obtain y c1 where y: "SetLANParam (Client_Send env) param b c = (y, c1)" by fastforce
      have "live env c1" "\<And>e. y = Some e \<Longrightarrow> \<not> is_panic e" using live.setters_safe(1) [OF Cons.prems(1), of param b] y by (auto simp: safe_error_def)
      then show ?thesis using Cons False f Inr y by (cases y) (auto simp: json_error_def)
    qed (use Cons False f in auto)
  qed
qed simp

lemma network_post_ok: "live env c \<Longrightarrow> replies env (network_post quote env req c)"
proof -
  assume c: "live env c"
  have "safe_error (live env) (set_source env src c)" for src
    using c by (auto simp: set_source_def safety live.setters_safe split: option.split)
  then show ?thesis unfolding network_post_def
  proof (rule replies_bind_error)
    fix c
    assume c: "live env c"
    obtain x c' where x: "set_addresses quote env [(nr_IP req, 3), (nr_SubnetMask req, 6), (nr_Gateway req, 12)] c = (x :: 'a response option, c')"
      by fastforce
    show "replies env (case set_addresses quote env [(nr_IP req, 3), (nr_SubnetMask req, 6), (nr_Gateway req, 12)] c of
        (None, c) \<Rightarrow> reply_lan env c | (Some r, c) \<Rightarrow> (r :: 'a response, c))"
      unfolding x using set_addresses_ok [OF c x] reply_lan_ok [of env c'] by (cases x) (auto simp: replies_def)
  qed simp
qed

lemma apply_field_ok:
  assumes "safe_error (live env) acc" "\<And>v c. live env c \<Longrightarrow> safe_error (live env) (op v c)"
  shows "safe_error (live env) (apply_field op field acc)"
  using assms by (auto simp: apply_field_def safe_error_def split: prod.split option.split)

lemma change_user_ok: "live env c \<Longrightarrow> safe_error (live env) (change_user (Client_Send env) req c)"
  unfolding change_user_def Let_def by (intro apply_field_ok) (auto intro!: safety live.setters_safe)

lemma users_post_ok: "live env c \<Longrightarrow> replies env (users_post env req c)"
proof -
  assume c: "live env c"
  have "replies env (case change_user (Client_Send env) req c of (Some e, c) \<Rightarrow> (json_error 503 e, c)
      | (None, c) \<Rightarrow> (case ListUsers (Client_Send env) c of (Inl e, c) \<Rightarrow> (if is_panic e then Aborted else JsonOk (JUsers None), c)
              | (Inr us, c) \<Rightarrow> (JsonOk (JUsers (Some us)) :: 'a response, c)))"
    by (intro replies_bind_error replies_bind change_user_ok live.listing_safe) (use c in simp_all)
  then show ?thesis using c by (simp add: users_post_def)
qed

lemma sel_page_ok:
  assumes "live env c" "sel_page (Client_Send env) limit offset c = Some p"
  shows "replies env p"
  using live.sel_commands_safe(1) [OF assms(1)]
proof (cases rule: safe_cases)
  case (Inl e c1)
  then show ?thesis using assms(2) by (auto simp: sel_page_def)
next
  case (Inr info c1)
  then obtain es er c2 where s: "ScanSEL (Client_Send env) (add64 offset limit) c1 = Some ((es, er), c2)"
    using assms(2) by (auto simp: sel_page_def split: option.splits)
  from live.ScanSEL_safe [OF s Inr(2)] show ?thesis using assms(2) Inr s by (cases er) (auto simp: sel_page_def safe_walk_def)
qed

lemma handlers_ok:
  assumes "ipmi_ok env st"
  shows "handleNetwork quote env meth nbody st = Some (r, st') \<Longrightarrow> r \<noteq> Aborted \<and> ipmi_ok env st'"
    "handleUsers env meth ubody st = Some (r, st') \<Longrightarrow> r \<noteq> Aborted \<and> ipmi_ok env st'"
    "handleSystem env st = Some (r, st') \<Longrightarrow> r \<noteq> Aborted \<and> ipmi_ok env st'"
    "handleSEL env meth vlimit voffset st = Some (r, st') \<Longrightarrow> r \<noteq> Aborted \<and> ipmi_ok env st'"
    "handlePowerStatus env st = Some (r, st') \<Longrightarrow> r \<noteq> Aborted \<and> ipmi_ok env st'"
proof -
  show "r \<noteq> Aborted \<and> ipmi_ok env st'" if "handleNetwork quote env meth nbody st = Some (r, st')"
    using that unfolding handleNetwork_def
    by (rule with_ipmi_replies [OF assms]) (auto simp: reply_lan_ok network_post_ok split: sum.splits)
  show "r \<noteq> Aborted \<and> ipmi_ok env st'" if "handleUsers env meth ubody st = Some (r, st')"
    using that unfolding handleUsers_def
    by (rule with_ipmi_replies [OF assms]) (auto intro!: safety live.listing_safe simp: users_post_ok split: sum.split)
  show "r \<noteq> Aborted \<and> ipmi_ok env st'" if "handlePowerStatus env st = Some (r, st')"
    using that unfolding handlePowerStatus_def
    by (rule with_ipmi_replies [OF assms]) (auto intro!: safety with_sess_safe)
  show "r \<noteq> Aborted \<and> ipmi_ok env st'" if "handleSystem env st = Some (r, st')"
    using that unfolding handleSystem_def
  proof (rule with_ipmi_replies [OF assms])
    fix c
    assume c: "live env c"
    obtain dev c1 where d: "GetDeviceID (Client_Send env) c = (dev, c1)" by fastforce
    obtain fru c2 where f: "ReadFRU (Client_Send env) 0 c1 = (fru, c2)" by fastforce
    have "\<not> panicked dev" "live env c1" using live.listing_safe(3) [OF c] d by (auto simp: safe_def)
    moreover from this have "\<not> panicked fru" "live env c2" using live.listing_safe(4) [of env c1 0] f by (auto simp: safe_def)
    ultimately show "replies env (case GetDeviceID (Client_Send env) c of (dev, c) \<Rightarrow>
            if panicked dev then (Aborted, c) else (case ReadFRU (Client_Send env) 0 c of (fru, c) \<Rightarrow>
               if panicked fru then (Aborted, c) else (JsonOk (JSystem dev fru), c)))" using d f by simp
  qed
  show "r \<noteq> Aborted \<and> ipmi_ok env st'" if h: "handleSEL env meth vlimit voffset st = Some (r, st')"
  proof -
    have "r \<noteq> Aborted \<and> ipmi_ok env st'" if "handleSELGet env vlimit voffset st = Some (r, st')"
      using that unfolding handleSELGet_def by (rule with_ipmi_ok [OF assms]) (rule sel_page_ok)
    moreover have "r \<noteq> Aborted \<and> ipmi_ok env st'" if "handleSELClear env st = Some (r, st')"
      using that unfolding handleSELClear_def
      by (rule with_ipmi_replies [OF assms]) (auto intro!: safety live.reserve_safe live.sel_commands_safe)
    ultimately show ?thesis using h assms by (auto simp: handleSEL_def split: if_splits)
  qed
qed

lemma power_handlers_ok:
  assumes "ipmi_ok env st"
  shows "handlePower quote env meth body st = Some (r, st') \<Longrightarrow> r \<noteq> Aborted \<and> ipmi_ok env st'"
    "handlePowerBoot quote env meth body st = Some (r, st') \<Longrightarrow> r \<noteq> Aborted \<and> ipmi_ok env st'"
proof -
  have a: "safe_error (live env) (cmd env c)" if "power_action act = Some cmd" "live env c" for act cmd c
    using that with_sess_safe(2) [OF that(2)]
    by (auto simp: power_action_def PowerOn_def PowerOff_def PowerCycle_def PowerReset_def PowerSoftShutdown_def split: if_splits)
  have b: "safe_error (live env) (SetOneTimeBoot quote env dev c)" if "live env c" for dev c
    using that with_sess_safe(3) [OF that] by (auto simp: SetOneTimeBoot_def safety split: option.split)
  show "r \<noteq> Aborted \<and> ipmi_ok env st'" if h: "handlePower quote env meth body st = Some (r, st')"
  proof (cases "meth = ''POST''")
    case True
    then show ?thesis
    proof (cases body)
      case (Inr act)
      have "with_ipmi env (\<lambda>c. Some (case power_action act of
                  None \<Rightarrow> (JsonError 400 (Errorf (''unknown action '' @ quote act)), c)
                | Some cmd \<Rightarrow> (case cmd env c of (Some e, c) \<Rightarrow> (json_error 503 e, c) | (None, c) \<Rightarrow> (JsonOk (JPowerOk act), c)))) st = Some (r, st')"
        using h True Inr by (simp add: handlePower_def)
      then show ?thesis by (rule with_ipmi_replies [OF assms]) (auto intro!: replies_bind_error a split: option.splits)
    qed (use h True assms in \<open>auto simp: handlePower_def\<close>)
  qed (use h assms in \<open>auto simp: handlePower_def\<close>)
  show "r \<noteq> Aborted \<and> ipmi_ok env st'" if h: "handlePowerBoot quote env meth body st = Some (r, st')"
  proof (cases "meth = ''POST''")
    case True
    then show ?thesis
    proof (cases body)
      case (Inr dev)
      have "with_ipmi env (\<lambda>c. Some (case SetOneTimeBoot quote env dev c of (Some e, c) \<Rightarrow> (json_error 503 e, c)
                | (None, c) \<Rightarrow> (JsonOk (JBootOk dev), c))) st = Some (r, st')"
        using h True Inr by (simp add: handlePowerBoot_def)
      then show ?thesis by (rule with_ipmi_replies [OF assms]) (auto intro!: replies_bind_error b)
    qed (use h True assms in \<open>auto simp: handlePowerBoot_def\<close>)
  qed (use h assms in \<open>auto simp: handlePowerBoot_def\<close>)
qed

lemma readSnapshot_ok:
  assumes "ipmi_ok env st" "readSnapshot F env expired st = Some (x, st')"
  shows "ipmi_ok env st' \<and> \<not> panicked x"
proof -
  obtain y st1 where e: "ensure env st = Some (y, st1)" using assms(2) by (auto simp: readSnapshot_def split: option.splits)
  note ok = ensure_ok [OF assms(1) e]
  show ?thesis
  proof (cases y)
    case (Inr l)
    then have "live env (i_client st1)" using ok by (simp add: ipmi_ok_def)
    from live.read_all_safe [OF this, of F expired 0 l] show ?thesis
      using assms(2) e ok Inr by (auto simp: readSnapshot_def ReadAllDeadline_def safe_def ipmi_ok_def split: prod.splits)
  qed (use assms(2) e ok in \<open>auto simp: readSnapshot_def panicked_def\<close>)
qed

section \<open>Lemmas: dotted addresses\<close>

abbreviation (input) runes :: "string \<Rightarrow> nat list" where "runes s \<equiv> map of_char s"

lemma hex_digit_rune: "n < 10 \<Longrightarrow> of_char (hex_digit n) = 48 + n"
proof -
  have "\<forall>n \<in> set [0..<10]. (of_char (hex_digit n) :: nat) = 48 + n" by code_simp
  then show "n < 10 \<Longrightarrow> of_char (hex_digit n) = 48 + n" by simp
qed

lemma dec_runes: "list_all is_digit (runes (dec n)) \<and> dec n \<noteq> [] \<and> digits_value (runes (dec n)) = n"
proof (induction n rule: dec.induct)
  case (1 n)
  show ?case
  proof (cases "n < 10")
    case True
    then show ?thesis by (subst (1 2 3) dec.simps) (simp add: hex_digit_rune is_digit_def digits_value_def)
  next
    case False
    have "n mod 10 < 10" by simp
    with 1 False show ?thesis
      by (subst (1 2 3) dec.simps) (auto simp: hex_digit_rune digits_value_def, simp add: is_digit_def)
  qed
qed

lemma scan_int_dec:
  assumes "n < 2 ^ 63" "rest = [] \<or> \<not> is_digit (hd rest) \<and> hd rest \<noteq> 95"
  shows "scan_int (runes (dec n) @ rest) = Some (int n, rest)"
proof -
  note d = dec_runes [of n]
  obtain r rs where r: "runes (dec n) = r # rs" "is_digit r" using d by (cases "dec n") auto
  have s: "skip_space (runes (dec n) @ rest) = Some (runes (dec n) @ rest)" using r by (auto simp: is_digit_def is_space_def)
  have n: "\<not> take 1 (runes (dec n) @ rest) = [45]" "\<not> take 1 (runes (dec n) @ rest) = [43]" using r by (auto simp: is_digit_def)
  have "takeWhile (\<lambda>r. is_digit r \<or> r = 95) (runes (dec n) @ rest) = runes (dec n)"
    using d assms(2) by (cases rest) (auto simp: takeWhile_append list_all_iff)
  moreover have "95 \<notin> set (runes (dec n))" using d by (auto simp: list_all_iff is_digit_def)
  moreover have "in_int64 (int n)" using assms(1) by (simp add: in_int64_def)
  ultimately show ?thesis unfolding scan_int_def s option.case Let_def using n d r by simp
qed

lemma scan_dot_dot: "scan_dot (46 # s) = Some s"
  by (simp add: scan_dot_def)

section \<open>Properties\<close>



text \<open>Address parsing inverts address printing.  The dotted form of any four bytes parses back to these bytes; so does the dotted form
  followed by anything that is neither a digit nor an underscore, so that trailing garbage is accepted.\<close>

theorem parse_ipv4_inverts_print:
  assumes "rest = [] \<or> \<not> is_digit (hd rest) \<and> hd rest \<noteq> 95"
  shows "parseIPv4 quote (runes (ipv4 [a, b, c, d]) @ rest) = Inr [a, b, c, d]"
proof -
  have s: "scan_int (runes (dec (unat x)) @ r) = Some (uint x, r)" if "r = [] \<or> \<not> is_digit (hd r) \<and> hd r \<noteq> 95" for x :: byte and r
    using scan_int_dec [OF _ that, of "unat x"] unat_byte_bound [of x] by simp
  have dot: "\<not> is_digit (hd (46 # r)) \<and> hd (46 # r) \<noteq> 95" for r by (simp add: is_digit_def)
  have four: "(4 :: nat) = Suc (Suc (Suc (Suc 0)))" by simp
  have "scan_ints 4 (runes (ipv4 [a, b, c, d]) @ rest) = Some [uint a, uint b, uint c, uint d]"
    unfolding four using s assms dot by (simp add: ipv4_def scan_dot_dot)
  moreover have "uint x \<le> 255" for x :: byte using uint_lt2p [of x] by simp
  ultimately show ?thesis by (simp add: parseIPv4_def not_less)
qed

theorem parse_ipv4_inverts_print_witness:
  "parseIPv4 (\<lambda>_. []) (runes (ipv4 [10, 0, 0, 255]) @ runes ''/24'') = Inr [10, 0, 0, 255]"
  by (rule parse_ipv4_inverts_print) (simp add: is_digit_def)

text \<open>User changes are applied in the safe order and nothing else is sent.  Against a controller that accepts every command, the requests
  are exactly those of the fields that are present: the name, the privilege, the password unless it is empty, and at last enabling or
  disabling the slot.\<close>

theorem user_changes_in_order:
  assumes "\<And>netFn cmd d reqs. send netFn cmd d reqs = (Inr [0], reqs @ [(netFn, cmd, d)])"
    and "\<forall>p. ur_Password req = Some p \<longrightarrow> length p \<le> 16"
  shows "change_user send req reqs = (None, reqs
     @ (case ur_Name req of None \<Rightarrow> [] | Some n \<Rightarrow> [(0x06, 0x45, [ur_ID req AND 0x3F] @ take 16 n @ replicate (16 - length n) 0)])
     @ (case ur_Privilege req of None \<Rightarrow> [] | Some v \<Rightarrow> [(0x06, 0x43, [0x91, ur_ID req AND 0x3F, v AND 0x0F, 0x00])])
     @ (case ur_Password req of None \<Rightarrow> [] | Some p \<Rightarrow>
          if p = [] then [] else [(0x06, 0x47, [ur_ID req AND 0x3F, 0x02] @ p @ replicate (16 - length p) 0)])
     @ (case ur_Enabled req of None \<Rightarrow> [] | Some en \<Rightarrow> [(0x06, 0x47, [ur_ID req AND 0x3F, if en then 0x01 else 0x00])]))"
proof -
  have "sendCheck send what netFn cmd d reqs = (None, reqs @ [(netFn, cmd, d)])" for what netFn cmd d reqs
    by (simp add: sendCheck_def assms(1))
  then show ?thesis using assms(2)
    by (auto simp: change_user_def apply_field_def SetUserName_def set_user_name_layout SetUserPrivilege_def SetUserPassword_def
        set_user_password_layout EnableUser_def DisableUser_def Let_def split: option.split)
qed

theorem user_changes_in_order_witness:
  "change_user (\<lambda>netFn cmd d reqs. (Inr [0], reqs @ [(netFn, cmd, d)]))
     \<lparr>ur_ID = 3, ur_Name = None, ur_Password = Some [65, 66], ur_Privilege = None, ur_Enabled = Some True\<rparr> []
   = (None, [(0x06, 0x47, [3, 2] @ [65, 66] @ replicate 14 0), (0x06, 0x47, [3, 1])])"
  by (subst user_changes_in_order) simp_all

text \<open>C26: Event log pagination.  For a log that the controller serves record by record, a request for \<open>limit\<close> entries from \<open>offset\<close> on returns
  exactly that page of the log, parsed and in log order.\<close>

theorem sel_page_exact:
  assumes "GetSELInfo send c = (Inr info, c1)" "ReserveSEL send c1 = (Inr resv, c2)" "sel_log send resv 0 c2 recs"
    and "0 \<le> offset" "0 < limit" "offset + limit < 2 ^ 63"
  shows "\<exists>c'. sel_page send limit offset c = Some (JsonOk (JSel info (take (nat limit) (drop (nat offset) (map parseSELRecord recs)))), c')"
proof -
  let ?es = "map parseSELRecord recs" and ?n = "nat (offset + limit)"
  have w: "sint (word_of_int k :: 64 word) = k" if "0 \<le> k" "k < 2 ^ 63" for k
    using that by (simp add: signed_of_int signed_take_bit_int_eq_self)
  have a: "add64 offset limit = offset + limit" unfolding add64_def by (rule w) (use assms(4-6) in simp_all)
  obtain c' where "scan_sel_loop send (offset + limit) resv 0 [] c2 = Some ((capped (offset + limit) ?es, None), c')"
    using scan_sel_loop_log [OF assms(3), of "offset + limit" "[]"] assms(4,5) by auto
  then have s: "ScanSEL send (offset + limit) c1 = Some ((take ?n ?es, None), c')" using assms(2,4,5) by (simp add: ScanSEL_def capped_def)
  have d: "drop (nat offset) (take ?n ?es) = take (nat limit) (drop (nat offset) ?es)" using assms(4,5) by (simp add: drop_take nat_add_distrib)
  have "(if offset > int (length (take ?n ?es)) then [] else drop (nat offset) (take ?n ?es)) = drop (nat offset) (take ?n ?es)" by auto
  then show ?thesis using assms(1) s a d by (simp add: sel_page_def)
qed

theorem sel_page_exact_witness:
  "\<exists>c'. sel_page (\<lambda>netFn cmd d s. if cmd = 0x40 then (Inr (replicate 15 0), s) else demo_sel_send netFn cmd d s) 1 1 0
     = Some (JsonOk (JSel (projr (fst (GetSELInfo (\<lambda>netFn cmd d s. (Inr (replicate 15 0), s)) (0 :: nat)))) [parseSELRecord (demo_sel 2)]) :: int response, c')"
proof -
  define send :: "nat sender" where "send = (\<lambda>netFn cmd d s. if cmd = 0x40 then (Inr (replicate 15 0), s) else demo_sel_send netFn cmd d s)"
  have eq: "send netFn cmd d s = demo_sel_send netFn cmd d s" if "cmd \<noteq> 0x40" for netFn cmd d s using that by (simp add: send_def)
  have log: "sel_log send 0 0 1 [demo_sel 1, demo_sel 2]"
  proof (rule sel_log.next_record)
    show "send 0x0A 0x43 (sel_entry_request 0 0) 1 = (Inr ([0] @ putLE16 2 @ demo_sel 1), 2)" by (simp add: eq demo_sel_send_def)
    show "sel_log send 0 2 2 [demo_sel 2]"
    proof (rule sel_log.cancelled)
      show "send 0x0A 0x43 (sel_entry_request 0 2) 2 = (Inr (0xC5 # []), 3)" by (simp add: eq demo_sel_send_def)
      have "demo_sel_send 0x0A 0x42 [] 3 = (Inr ([0] @ putLE16 3 @ []), 4)" by code_simp
      then show "send 0x0A 0x42 [] 3 = (Inr ([0] @ putLE16 3 @ []), 4)" by (simp add: eq)
      show "sel_log send 3 2 4 [demo_sel 2]"
        by (rule sel_log.last_record [where s' = 5]) (simp_all add: eq demo_sel_send_def demo_sel_def)
    qed
  qed (simp_all add: demo_sel_def)
  have "demo_sel_send 0x0A 0x42 [] 0 = (Inr ([0] @ putLE16 0 @ []), 1)" by code_simp
  then have r: "ReserveSEL send 0 = (Inr 0, 1)" using ReserveSEL_serves [of send 0 0 "[]" 1] by (simp add: eq)
  have i: "GetSELInfo send 0 = (Inr (projr (fst (GetSELInfo (\<lambda>netFn cmd d s. (Inr (replicate 15 0), s)) (0 :: nat)))), 0)"
    by (simp add: GetSELInfo_def send_def)
  from sel_page_exact [OF i r log, of 1 1] show ?thesis by (simp add: send_def)
qed

end
