(* ===== verification/Ipmi_Sol.thy ===== *)
theory Ipmi_Sol
  imports Ipmi_Client
begin

text \<open>
  Serial over LAN (\<open>internal/ipmi/sol.go\<close>).  The record holds the fields of the Go struct; \<open>so_acks\<close> is
  the content of the buffered channel, \<open>so_delivered\<close> the chunks handed to \<open>onData\<close>.  The receive loop, the keepalive
  and any number of writers run concurrently: each of them is split where it takes and releases its mutexes, and
  \<open>sol_step\<close> interleaves the pieces.  The result of reading the socket is an input of the receive loop.
\<close>

section \<open>State\<close>

record SOL =
  so_s :: IpmiSession
  so_onData :: bool
  so_txSeq :: byte
  so_lastRxSeq :: byte
  so_acks :: bytes
  so_acksSeen :: u64
  so_done :: bool
  so_readDone :: bool
  so_delivered :: "bytes list"

definition activateErr :: "byte \<Rightarrow> string" where
  "activateErr cc =
     (if cc = 0x80 then ''payload already active on another session''
      else if cc = 0x81 then ''payload disabled''
      else if cc = 0x82 then ''payload activation limit reached''
      else if cc = 0x83 then ''cannot activate with encryption''
      else if cc = 0x84 then ''cannot activate without encryption''
      else ''activation failed'')"

definition new_sol :: "IpmiSession \<Rightarrow> bool \<Rightarrow> SOL" where
  "new_sol s onData = \<lparr>so_s = s, so_onData = onData, so_txSeq = 0, so_lastRxSeq = 0, so_acks = [], so_acksSeen = 0,
     so_done = False, so_readDone = False, so_delivered = []\<rparr>"

text \<open>After an error the session is closed; a panic in there ends the program and replaces the error.\<close>

definition close_with :: "ipmi_env \<Rightarrow> gerror \<Rightarrow> IpmiSession \<Rightarrow> SOL result \<times> IpmiSession option" where
  "close_with env e s =
     (case sess_Close env s of
        (Some e', s) \<Rightarrow> if is_panic e' then (Inl e', Some s) else (Inl e, Some s)
      | (None, s) \<Rightarrow> (Inl e, Some s))"

definition OpenSOL :: "ipmi_env \<Rightarrow> bytes \<Rightarrow> bytes \<Rightarrow> bool \<Rightarrow> SOL result \<times> IpmiSession option" where
  "OpenSOL env user pass onData =
     (case Dial env user pass of
        (Inl e, so) \<Rightarrow> (Inl e, so)
      | (Inr s, _) \<Rightarrow>
          (case rawCall env netFnAppReq 0x48 [payloadSOL, 0x01, 0xC0, 0x00, 0x00, 0x00] s of
             (Inl e, s) \<Rightarrow> if is_panic e then (Inl e, Some s) else close_with env (Wrapf ''ipmi: SOL activate: '' e) s
           | (Inr (cc, _), s) \<Rightarrow>
               if cc \<noteq> 0 then
                 close_with env (Errorf (''ipmi: SOL Activate Payload cc=0x'' @ hex2 cc @ '' ('' @ activateErr cc @ '')'')) s
               else (Inr (new_sol s onData), Some s)))"

section \<open>Sending\<close>

definition conn_Write :: "ipmi_env \<Rightarrow> bytes \<Rightarrow> IpmiSession \<Rightarrow> gerror option \<times> IpmiSession" where
  "conn_Write env pkt s =
     (case e_peer env (ss_attempts s) pkt of
        WriteErr e \<Rightarrow> (Some e, s\<lparr>ss_attempts := Suc (ss_attempts s)\<rparr>)
      | _ \<Rightarrow> (None, s\<lparr>ss_attempts := Suc (ss_attempts s), ss_sent := ss_sent s @ [pkt]\<rparr>))"

definition sendPacket :: "ipmi_env \<Rightarrow> byte \<Rightarrow> byte \<Rightarrow> byte \<Rightarrow> bytes \<Rightarrow> SOL \<Rightarrow> gerror option \<times> SOL" where
  "sendPacket env seq ackSeq charCount data sol =
     (let pkt = mk_buf (4 + length data);
          pkt = pkt[0 := seq];
          pkt = pkt[1 := ackSeq];
          pkt = pkt[2 := charCount];
          pkt = pkt[3 := 0];
          pkt = copy_from 4 data pkt;
          s = so_s sol;
          seqNum = ss_outSeq s;
          s = s\<lparr>ss_outSeq := ss_outSeq s + 1\<rparr>
      in case newIV env s of
           (Inl e, s) \<Rightarrow> (Some e, sol\<lparr>so_s := s\<rparr>)
         | (Inr iv, s) \<Rightarrow>
             (case buildRMCPPlus payloadSOL (ss_sessionID s) seqNum pkt (ss_k1 s) (ss_k2 s) (Some iv) of
                Inl e \<Rightarrow> (Some e, sol\<lparr>so_s := s\<rparr>)
              | Inr out \<Rightarrow> (case conn_Write env out s of (err, s) \<Rightarrow> (err, sol\<lparr>so_s := s\<rparr>))))"

text \<open>The first critical section of \<open>Write\<close>.\<close>

definition bump_tx :: "SOL \<Rightarrow> SOL" where
  "bump_tx sol =
     (let sol = sol\<lparr>so_txSeq := so_txSeq sol + 1\<rparr>
      in if so_txSeq sol = 0 \<or> so_txSeq sol > 15 then sol\<lparr>so_txSeq := 1\<rparr> else sol)"

definition sol_Write :: "ipmi_env \<Rightarrow> bytes \<Rightarrow> SOL \<Rightarrow> gerror option \<times> SOL" where
  "sol_Write env data sol =
     (if length data = 0 then (None, sol)
      else let sol = bump_tx sol; seq = so_txSeq sol in sendPacket env seq 0 0 data sol)"

definition keepalive_tick :: "ipmi_env \<Rightarrow> SOL \<Rightarrow> gerror option \<times> SOL" where
  "keepalive_tick env sol = sendPacket env 0 0 0 [] sol"

section \<open>Receiving\<close>

datatype read_result = ReadTimeout | ReadFailed gerror | ReadPacket bytes

datatype rx_action = RxContinue | RxReturn | RxPanic gerror | RxAck byte byte

definition note_ack :: "byte \<Rightarrow> SOL \<Rightarrow> SOL" where
  "note_ack ackSeq sol =
     (if ackSeq \<noteq> 0 then
        let sol = sol\<lparr>so_acksSeen := so_acksSeen sol + 1\<rparr>
        in if length (so_acks sol) < 16 then sol\<lparr>so_acks := so_acks sol @ [ackSeq]\<rparr> else sol
      else sol)"

definition rx_packet :: "bytes \<Rightarrow> SOL \<Rightarrow> rx_action \<times> SOL" where
  "rx_packet dgram sol =
     (case parseRMCPPlus (take 4096 dgram) (ss_k1 (so_s sol)) (ss_k2 (so_s sol)) of
        Inl perr \<Rightarrow> (if is_panic perr then RxPanic perr else RxContinue, sol)
      | Inr (pt, _, _, payload) \<Rightarrow>
          if pt \<noteq> payloadSOL \<or> length payload < 4 then (RxContinue, sol)
          else
            let seq = payload ! 0 AND 0x0F;
                ackSeq = payload ! 1 AND 0x0F;
                data = drop 4 payload;
                sol = note_ack ackSeq sol
            in if seq \<noteq> 0 \<and> length data > 0 then
                 let dup = (seq = so_lastRxSeq sol);
                     sol = sol\<lparr>so_lastRxSeq := seq\<rparr>;
                     sol = (if \<not> dup \<and> so_onData sol then sol\<lparr>so_delivered := so_delivered sol @ [data]\<rparr> else sol);
                     cc = (if length data > 255 then 255 else of_nat (length data))
                 in (RxAck seq cc, sol)
               else (RxContinue, sol))"

text \<open>One round of the loop up to, but not including, the acknowledgement.\<close>

definition rx_round :: "read_result \<Rightarrow> SOL \<Rightarrow> rx_action \<times> SOL" where
  "rx_round r sol =
     (if so_done sol then (RxReturn, sol\<lparr>so_readDone := True\<rparr>)
      else case r of
             ReadTimeout \<Rightarrow> (RxContinue, sol)
           | ReadFailed e \<Rightarrow> (RxReturn, sol\<lparr>so_readDone := True\<rparr>)
           | ReadPacket dgram \<Rightarrow> rx_packet dgram sol)"

text \<open>The loop over the results the socket gives, until it returns or no further result is there.\<close>

fun readLoop :: "ipmi_env \<Rightarrow> read_result list \<Rightarrow> SOL \<Rightarrow> SOL" where
  "readLoop env [] sol = sol"
| "readLoop env (r # rs) sol =
     (case rx_round r sol of
        (RxContinue, sol) \<Rightarrow> readLoop env rs sol
      | (RxReturn, sol) \<Rightarrow> sol
      | (RxPanic e, sol) \<Rightarrow> sol
      | (RxAck seq cc, sol) \<Rightarrow>
          (case sendPacket env 0 seq cc [] sol of
             (Some e, sol) \<Rightarrow> if is_panic e then sol else readLoop env rs sol
           | (None, sol) \<Rightarrow> readLoop env rs sol))"

section \<open>Close\<close>

definition sol_Close :: "ipmi_env \<Rightarrow> SOL \<Rightarrow> gerror option \<times> SOL" where
  "sol_Close env sol =
     (let sol = sol\<lparr>so_done := True\<rparr>
      in case rawCall env netFnAppReq 0x49 [payloadSOL, 0x01, 0x00, 0x00, 0x00, 0x00] (so_s sol) of
           (Inl e, s) \<Rightarrow>
             if is_panic e then (Some e, sol\<lparr>so_s := s\<rparr>)
             else (case sess_Close env s of (r, s) \<Rightarrow> (r, sol\<lparr>so_s := s\<rparr>))
         | (Inr _, s) \<Rightarrow> (case sess_Close env s of (r, s) \<Rightarrow> (r, sol\<lparr>so_s := s\<rparr>)))"

section \<open>Interleaving\<close>

text \<open>
  \<open>sy_writes\<close> holds the \<open>Write\<close> calls that have drawn their sequence number and not yet sent, \<open>sy_ack\<close> the
  acknowledgement the receive loop is about to send.
\<close>

record sol_sys =
  sy_sol :: SOL
  sy_writes :: "(byte \<times> bytes) list"
  sy_ack :: "(byte \<times> byte) option"

inductive sol_step :: "ipmi_env \<Rightarrow> sol_sys \<Rightarrow> sol_sys \<Rightarrow> bool" for env where
  receive: "sy_ack y = None \<Longrightarrow> \<not> so_readDone (sy_sol y) \<Longrightarrow> rx_round r (sy_sol y) = (act, sol) \<Longrightarrow>
    sol_step env y (y\<lparr>sy_sol := sol, sy_ack := (case act of RxAck seq cc \<Rightarrow> Some (seq, cc) | _ \<Rightarrow> None)\<rparr>)"
| acknowledge: "sy_ack y = Some (seq, cc) \<Longrightarrow> sendPacket env 0 seq cc [] (sy_sol y) = (e, sol) \<Longrightarrow>
    sol_step env y (y\<lparr>sy_sol := sol, sy_ack := None\<rparr>)"
| keepalive: "keepalive_tick env (sy_sol y) = (e, sol) \<Longrightarrow> sol_step env y (y\<lparr>sy_sol := sol\<rparr>)"
| write_draw: "data \<noteq> [] \<Longrightarrow> sol = bump_tx (sy_sol y) \<Longrightarrow>
    sol_step env y (y\<lparr>sy_sol := sol, sy_writes := sy_writes y @ [(so_txSeq sol, data)]\<rparr>)"
| write_send: "i < length (sy_writes y) \<Longrightarrow> sy_writes y ! i = (seq, data) \<Longrightarrow>
    sendPacket env seq 0 0 data (sy_sol y) = (e, sol) \<Longrightarrow>
    sol_step env y (y\<lparr>sy_sol := sol, sy_writes := take i (sy_writes y) @ drop (Suc i) (sy_writes y)\<rparr>)"
| stop: "sol_step env y (y\<lparr>sy_sol := (sy_sol y)\<lparr>so_done := True\<rparr>\<rparr>)"

inductive sol_reach :: "ipmi_env \<Rightarrow> sol_sys \<Rightarrow> sol_sys \<Rightarrow> bool" for env where
  start: "sol_reach env y y"
| later: "sol_reach env y y' \<Longrightarrow> sol_step env y' y'' \<Longrightarrow> sol_reach env y y''"

section \<open>Lemmas: sending\<close>

definition sol_payload :: "byte \<Rightarrow> byte \<Rightarrow> byte \<Rightarrow> bytes \<Rightarrow> bytes" where
  "sol_payload seq ackSeq charCount data = [seq, ackSeq, charCount, 0] @ data"

lemma sendPacket_payload:
  "copy_from 4 data ((((mk_buf (4 + length data))[0 := seq])[1 := ackSeq])[2 := charCount, 3 := 0])
     = sol_payload seq ackSeq charCount data"
proof -
  have "mk_buf (4 + length data) = [0, 0, 0, 0] @ mk_buf (length data)" by (simp add: mk_buf_def numeral_eq_Suc)
  then show ?thesis by (simp add: sol_payload_def copy_from_def copy_to_def)
qed

definition sealed :: "IpmiSession \<Rightarrow> u32 \<Rightarrow> bytes \<Rightarrow> bytes \<Rightarrow> bool" where
  "sealed s q payload pkt \<longleftrightarrow> (\<exists>iv. length iv = 16 \<and>
     buildRMCPPlus payloadSOL (ss_sessionID s) q payload (ss_k1 s) (ss_k2 s) (Some iv) = Inr pkt)"

lemma conn_Write_effect:
  "conn_Write env pkt s = (e, s') \<Longrightarrow> \<exists>l. (l = [] \<or> l = [pkt])
     \<and> s' = s\<lparr>ss_attempts := Suc (ss_attempts s), ss_sent := ss_sent s @ l\<rparr>"
  by (auto simp: conn_Write_def split: attempt.splits)

lemma sendPacket_effect:
  assumes "sendPacket env seq a c data sol = (e, sol')"
  shows "\<exists>n l. sol' = sol\<lparr>so_s := (so_s sol)\<lparr>ss_outSeq := ss_outSeq (so_s sol) + 1, ss_rands := Suc (ss_rands (so_s sol)),
        ss_attempts := n, ss_sent := ss_sent (so_s sol) @ l\<rparr>\<rparr>
     \<and> (l = [] \<or> (\<exists>pkt. sealed (so_s sol) (ss_outSeq (so_s sol)) (sol_payload seq a c data) pkt \<and> l = [pkt]))"
proof -
  let ?s1 = "(so_s sol)\<lparr>ss_outSeq := ss_outSeq (so_s sol) + 1\<rparr>"
  obtain x s2 where iv: "newIV env ?s1 = (x, s2)" by fastforce
  have s2: "s2 = ?s1\<lparr>ss_rands := Suc (ss_rands (so_s sol))\<rparr>" using newIV_effect [OF iv] by simp
  note def = assms [unfolded sendPacket_def Let_def sendPacket_payload iv prod.case]
  show ?thesis
  proof (cases x)
    case (Inl e')
    then show ?thesis using def s2 by (intro exI [of _ "ss_attempts (so_s sol)"] exI [of _ "[]"]) auto
  next
    case (Inr v)
    have v: "length v = 16" using newIV_length iv Inr by blast
    show ?thesis
    proof (cases "buildRMCPPlus payloadSOL (ss_sessionID s2) (ss_outSeq (so_s sol)) (sol_payload seq a c data) (ss_k1 s2) (ss_k2 s2) (Some v)")
      case (Inl e')
      then show ?thesis using def s2 Inr by (intro exI [of _ "ss_attempts (so_s sol)"] exI [of _ "[]"]) auto
    next
      case pkt: (Inr pkt)
      obtain s3 where w: "conn_Write env pkt s2 = (e, s3)" "sol' = sol\<lparr>so_s := s3\<rparr>"
        using def Inr pkt by (auto split: prod.splits)
      from conn_Write_effect [OF w(1)] obtain l where
        "l = [] \<or> l = [pkt]" "s3 = s2\<lparr>ss_attempts := Suc (ss_attempts s2), ss_sent := ss_sent s2 @ l\<rparr>" by blast
      moreover have "sealed (so_s sol) (ss_outSeq (so_s sol)) (sol_payload seq a c data) pkt"
        using pkt v s2 by (auto simp: sealed_def)
      ultimately show ?thesis using w(2) s2 by (intro exI [of _ "Suc (ss_attempts s2)"] exI [of _ l]) auto
    qed
  qed
qed

lemma sendPacket_no_panic:
  assumes "env_ok env" "keyed (so_s sol)" "sendPacket env seq a c data sol = (Some e, sol')"
  shows "\<not> is_panic e"
proof -
  obtain k where k: "ss_k2 (so_s sol) = Some k" "16 \<le> length k" using assms(2) by (auto simp: keyed_def split: option.splits)
  let ?s1 = "(so_s sol)\<lparr>ss_outSeq := ss_outSeq (so_s sol) + 1\<rparr>"
  obtain b where "e_rand env (ss_rands (so_s sol)) = Inr b" using assms(1) unfolding env_ok_def by blast
  then obtain v where v: "newIV env ?s1 = (Inr v, ?s1\<lparr>ss_rands := Suc (ss_rands (so_s sol))\<rparr>)" "length v = 16"
    by (simp add: newIV_def rand_Read_def)
  obtain body where "rmcp_body (sol_payload seq a c data) (Some k) (Some v) = Inr body"
    using rmcp_body_ok [of "Some k" "Some v" "sol_payload seq a c data"] k(2) v(2) by auto
  then obtain pkt where "buildRMCPPlus 1 (ss_sessionID (so_s sol)) (ss_outSeq (so_s sol)) (sol_payload seq a c data)
      (ss_k1 (so_s sol)) (Some k) (Some v) = Inr pkt"
    using build_packet by (simp add: Let_def)
  then show ?thesis using assms(1,3)
    unfolding sendPacket_def Let_def sendPacket_payload
    by (auto simp: v(1) k(1) conn_Write_def env_ok_def split: attempt.splits)
qed

section \<open>Lemmas: receiving\<close>

definition is_copy :: "bytes option \<Rightarrow> bytes option \<Rightarrow> byte \<times> bytes \<Rightarrow> bytes \<Rightarrow> bool" where
  "is_copy k1 k2 p dgram \<longleftrightarrow> length dgram \<le> 4096 \<and> (\<exists>sid q a c st hi. hi AND 0x0F = 0 \<and>
     parseRMCPPlus dgram k1 k2 = Inr (payloadSOL, sid, q, [hi OR fst p, a, c, st] @ snd p))"

definition valid_chunk :: "byte \<times> bytes \<Rightarrow> bool" where
  "valid_chunk p \<longleftrightarrow> fst p \<noteq> 0 \<and> fst p \<le> 15 \<and> snd p \<noteq> []"

lemma nibble:
  assumes "hi AND 0x0F = 0" "n \<le> (15 :: byte)"
  shows "(hi OR n) AND 0x0F = n"
proof -
  have m: "(0x0F :: byte) = mask 4" by (simp add: mask_eq_exp_minus_1)
  have "unat n < 2 ^ 4" using assms(2) by (simp add: word_le_nat_alt)
  then have "take_bit 4 n = n"
    by (simp add: word_eq_iff_unsigned [where ?'a = nat] unsigned_take_bit_eq take_bit_nat_eq_self)
  moreover have "take_bit 4 hi = 0" using assms(1) unfolding m by (simp add: take_bit_eq_mask)
  ultimately show ?thesis unfolding m take_bit_eq_mask [symmetric] take_bit_or by simp
qed

lemma note_ack_frame:
  "so_s (note_ack a sol) = so_s sol" "so_lastRxSeq (note_ack a sol) = so_lastRxSeq sol" "so_done (note_ack a sol) = so_done sol"
  "so_delivered (note_ack a sol) = so_delivered sol" "so_onData (note_ack a sol) = so_onData sol" "so_txSeq (note_ack a sol) = so_txSeq sol"
  by (auto simp: note_ack_def Let_def)

lemma rx_packet_chunk:
  assumes "is_copy (ss_k1 (so_s sol)) (ss_k2 (so_s sol)) p dgram" "valid_chunk p" "so_onData sol"
  shows "\<exists>sol'. rx_packet dgram sol = (RxAck (fst p) (of_nat (min (length (snd p)) 255)), sol')
     \<and> so_s sol' = so_s sol \<and> so_lastRxSeq sol' = fst p \<and> so_onData sol' \<and> so_done sol' = so_done sol
     \<and> so_delivered sol' = so_delivered sol @ (if fst p = so_lastRxSeq sol then [] else [snd p])"
proof -
  obtain sid q a c st hi where d: "length dgram \<le> 4096" "hi AND 0x0F = 0"
    "parseRMCPPlus dgram (ss_k1 (so_s sol)) (ss_k2 (so_s sol)) = Inr (payloadSOL, sid, q, [hi OR fst p, a, c, st] @ snd p)"
    using assms(1) by (auto simp: is_copy_def)
  have n: "(hi OR fst p) AND 0x0F = fst p" using nibble d(2) assms(2) by (auto simp: valid_chunk_def)
  have "(if length (snd p) > 255 then 255 else of_nat (length (snd p))) = (of_nat (min (length (snd p)) 255) :: byte)" by simp
  then show ?thesis using assms(2,3) d(1,3) n
    by (auto simp: rx_packet_def valid_chunk_def note_ack_frame Let_def)
qed

lemma readLoop_chunk:
  assumes "env_ok env" "keyed (so_s sol)" "\<not> so_done sol" "so_onData sol" "valid_chunk p"
    "is_copy (ss_k1 (so_s sol)) (ss_k2 (so_s sol)) p dgram"
  shows "\<exists>sol'. readLoop env (ReadPacket dgram # rs) sol = readLoop env rs sol'
     \<and> ss_k1 (so_s sol') = ss_k1 (so_s sol) \<and> ss_k2 (so_s sol') = ss_k2 (so_s sol) \<and> \<not> so_done sol' \<and> so_onData sol'
     \<and> so_lastRxSeq sol' = fst p \<and> ss_outSeq (so_s sol') = ss_outSeq (so_s sol) + 1
     \<and> so_delivered sol' = so_delivered sol @ (if fst p = so_lastRxSeq sol then [] else [snd p])"
proof -
  from rx_packet_chunk [OF assms(6,5,4)] obtain sol1 cc where r: "rx_packet dgram sol = (RxAck (fst p) cc, sol1)"
    "so_s sol1 = so_s sol" "so_lastRxSeq sol1 = fst p" "so_onData sol1" "so_done sol1 = so_done sol"
    "so_delivered sol1 = so_delivered sol @ (if fst p = so_lastRxSeq sol then [] else [snd p])" by blast
  obtain e sol2 where s: "sendPacket env 0 (fst p) cc [] sol1 = (e, sol2)" by fastforce
  have "\<not> is_panic e'" if "e = Some e'" for e'
    using sendPacket_no_panic [OF assms(1), of sol1] s that assms(2) r(2) by auto
  then have "readLoop env (ReadPacket dgram # rs) sol = readLoop env rs sol2"
    using r(1) s assms(3) by (auto simp: rx_round_def split: option.splits)
  then show ?thesis using sendPacket_effect [OF s] r assms(3) by (intro exI [of _ sol2]) auto
qed

text \<open>Each chunk is sent one or more times in a row, every copy a separate datagram.\<close>

definition copies :: "bytes option \<Rightarrow> bytes option \<Rightarrow> byte \<times> bytes \<Rightarrow> bytes list \<Rightarrow> bool" where
  "copies k1 k2 p dgrams \<longleftrightarrow> valid_chunk p \<and> dgrams \<noteq> [] \<and> (\<forall>d \<in> set dgrams. is_copy k1 k2 p d)"

lemma readLoop_repeats:
  assumes "env_ok env" "valid_chunk p"
  shows "\<forall>d \<in> set ds. is_copy (ss_k1 (so_s sol)) (ss_k2 (so_s sol)) p d \<Longrightarrow> keyed (so_s sol) \<Longrightarrow> \<not> so_done sol \<Longrightarrow> so_onData sol
    \<Longrightarrow> so_lastRxSeq sol = fst p \<Longrightarrow>
    \<exists>sol'. readLoop env (map ReadPacket ds @ rs) sol = readLoop env rs sol'
     \<and> ss_k1 (so_s sol') = ss_k1 (so_s sol) \<and> ss_k2 (so_s sol') = ss_k2 (so_s sol) \<and> \<not> so_done sol' \<and> so_onData sol'
     \<and> so_lastRxSeq sol' = fst p \<and> ss_outSeq (so_s sol') = ss_outSeq (so_s sol) + of_nat (length ds)
     \<and> so_delivered sol' = so_delivered sol"
proof (induction ds arbitrary: sol)
  case Nil
  then show ?case by (intro exI [of _ sol]) auto
next
  case (Cons d ds)
  from readLoop_chunk [OF assms(1) Cons.prems(2-4) assms(2), of d "map ReadPacket ds @ rs"] Cons.prems obtain sol1 where
    r: "readLoop env (ReadPacket d # map ReadPacket ds @ rs) sol = readLoop env (map ReadPacket ds @ rs) sol1"
     "ss_k1 (so_s sol1) = ss_k1 (so_s sol)" "ss_k2 (so_s sol1) = ss_k2 (so_s sol)" "\<not> so_done sol1" "so_onData sol1"
     "so_lastRxSeq sol1 = fst p" "ss_outSeq (so_s sol1) = ss_outSeq (so_s sol) + 1" "so_delivered sol1 = so_delivered sol" by auto
  then have "keyed (so_s sol1)" using Cons.prems(2) by (simp add: keyed_def)
  from Cons.IH [OF _ this r(4-6)] Cons.prems(1) r show ?case by (auto simp: algebra_simps)
qed

lemma readLoop_copies:
  assumes "env_ok env"
  shows "list_all2 (copies (ss_k1 (so_s sol)) (ss_k2 (so_s sol))) ps groups \<Longrightarrow> keyed (so_s sol) \<Longrightarrow> \<not> so_done sol \<Longrightarrow> so_onData sol
    \<Longrightarrow> successively (\<noteq>) (so_lastRxSeq sol # map fst ps) \<Longrightarrow>
    so_delivered (readLoop env (map ReadPacket (concat groups)) sol) = so_delivered sol @ map snd ps
    \<and> ss_outSeq (so_s (readLoop env (map ReadPacket (concat groups)) sol)) = ss_outSeq (so_s sol) + of_nat (length (concat groups))"
proof (induction ps arbitrary: groups sol)
  case Nil
  then show ?case by simp
next
  case (Cons p ps)
  obtain grp gs where gs: "groups = grp # gs" "copies (ss_k1 (so_s sol)) (ss_k2 (so_s sol)) p grp"
    and all: "list_all2 (copies (ss_k1 (so_s sol)) (ss_k2 (so_s sol))) ps gs"
    using Cons.prems(1) by (auto simp: list_all2_Cons1)
  then obtain d ds where g: "groups = (d # ds) # gs" and c: "copies (ss_k1 (so_s sol)) (ss_k2 (so_s sol)) p (d # ds)"
    by (auto simp: copies_def neq_Nil_conv)
  have v: "valid_chunk p" and d: "is_copy (ss_k1 (so_s sol)) (ss_k2 (so_s sol)) p d"
    and ds: "\<forall>d \<in> set ds. is_copy (ss_k1 (so_s sol)) (ss_k2 (so_s sol)) p d" using c by (auto simp: copies_def)
  have new: "fst p \<noteq> so_lastRxSeq sol" and rest: "successively (\<noteq>) (fst p # map fst ps)" using Cons.prems(5) by auto
  from readLoop_chunk [OF assms Cons.prems(2-4) v d, of "map ReadPacket ds @ map ReadPacket (concat gs)"] new obtain sol1 where
    r: "readLoop env (map ReadPacket (concat groups)) sol = readLoop env (map ReadPacket ds @ map ReadPacket (concat gs)) sol1"
     "ss_k1 (so_s sol1) = ss_k1 (so_s sol)" "ss_k2 (so_s sol1) = ss_k2 (so_s sol)" "\<not> so_done sol1" "so_onData sol1"
     "so_lastRxSeq sol1 = fst p" "ss_outSeq (so_s sol1) = ss_outSeq (so_s sol) + 1"
     "so_delivered sol1 = so_delivered sol @ [snd p]" by (auto simp: g)
  then have "keyed (so_s sol1)" using Cons.prems(2) by (simp add: keyed_def)
  from readLoop_repeats [OF assms v _ this r(4-6), of ds "map ReadPacket (concat gs)"] ds r obtain sol2 where
    r2: "readLoop env (map ReadPacket (concat groups)) sol = readLoop env (map ReadPacket (concat gs)) sol2"
     "ss_k1 (so_s sol2) = ss_k1 (so_s sol)" "ss_k2 (so_s sol2) = ss_k2 (so_s sol)" "\<not> so_done sol2" "so_onData sol2"
     "so_lastRxSeq sol2 = fst p" "ss_outSeq (so_s sol2) = ss_outSeq (so_s sol) + 1 + of_nat (length ds)"
     "so_delivered sol2 = so_delivered sol @ [snd p]" by auto
  then have "keyed (so_s sol2)" using Cons.prems(2) by (simp add: keyed_def)
  from Cons.IH [OF _ this r2(4,5), of gs] all rest r2 show ?case by (simp add: g algebra_simps)
qed

section \<open>Lemmas: the interleaved system\<close>

definition wellformed_payload :: "bytes \<Rightarrow> bool" where
  "wellformed_payload pl \<longleftrightarrow> (\<exists>q a c data. pl = sol_payload q a c data
     \<and> (q = 0 \<and> data = [] \<or> q \<noteq> 0 \<and> q \<le> 15 \<and> a = 0 \<and> data \<noteq> []))"

definition sol_log :: "IpmiSession \<Rightarrow> IpmiSession \<Rightarrow> nat \<Rightarrow> (nat \<times> bytes) list \<Rightarrow> bool" where
  "sol_log s0 s n es \<longleftrightarrow> ss_sessionID s = ss_sessionID s0 \<and> ss_k1 s = ss_k1 s0 \<and> ss_k2 s = ss_k2 s0
     \<and> ss_outSeq s = ss_outSeq s0 + of_nat n \<and> sorted_wrt (<) (map fst es) \<and> (\<forall>(i, pl) \<in> set es. i < n \<and> wellformed_payload pl)
     \<and> (\<exists>pkts. ss_sent s = ss_sent s0 @ pkts \<and> list_all2 (\<lambda>(i, pl) pkt. sealed s0 (ss_outSeq s0 + of_nat i) pl pkt) es pkts)"

definition tx_ok :: "sol_sys \<Rightarrow> bool" where
  "tx_ok y \<longleftrightarrow> so_txSeq (sy_sol y) \<le> 15 \<and> (\<forall>(q, data) \<in> set (sy_writes y). q \<noteq> 0 \<and> q \<le> 15 \<and> data \<noteq> [])"

lemma sol_log_send:
  assumes "sol_log s0 (so_s sol) n es" "sendPacket env q a c data sol = (e, sol')"
    "q = 0 \<and> data = [] \<or> q \<noteq> 0 \<and> q \<le> 15 \<and> a = 0 \<and> data \<noteq> []"
  shows "\<exists>es'. sol_log s0 (so_s sol') (Suc n) es'"
proof -
  from sendPacket_effect [OF assms(2)] obtain l where
    s: "ss_sent (so_s sol') = ss_sent (so_s sol) @ l" "ss_outSeq (so_s sol') = ss_outSeq (so_s sol) + 1"
     "ss_sessionID (so_s sol') = ss_sessionID (so_s sol)" "ss_k1 (so_s sol') = ss_k1 (so_s sol)" "ss_k2 (so_s sol') = ss_k2 (so_s sol)"
     "l = [] \<or> (\<exists>pkt. sealed (so_s sol) (ss_outSeq (so_s sol)) (sol_payload q a c data) pkt \<and> l = [pkt])" by auto
  obtain pkts where p: "ss_sent (so_s sol) = ss_sent s0 @ pkts"
     "list_all2 (\<lambda>(i, pl) pkt. sealed s0 (ss_outSeq s0 + of_nat i) pl pkt) es pkts"
    using assms(1) unfolding sol_log_def by blast
  have es: "sorted_wrt (<) (map fst es)" "\<forall>(i, pl) \<in> set es. i < n \<and> wellformed_payload pl"
    using assms(1) unfolding sol_log_def by blast+
  consider "l = []" | pkt where "l = [pkt]" "sealed (so_s sol) (ss_outSeq (so_s sol)) (sol_payload q a c data) pkt"
    using s(6) by blast
  then show ?thesis
  proof cases
    case 1
    then show ?thesis using assms(1) s p es by (intro exI [of _ es]) (fastforce simp: sol_log_def)
  next
    case 2
    have w: "wellformed_payload (sol_payload q a c data)" using assms(3) unfolding wellformed_payload_def by blast
    have sl: "sealed s0 (ss_outSeq s0 + of_nat n) (sol_payload q a c data) pkt"
      using 2(2) assms(1) by (simp add: sealed_def sol_log_def)
    have "sorted_wrt (<) (map fst (es @ [(n, sol_payload q a c data)]))"
      using es by (auto simp: sorted_wrt_append)
    moreover have "\<forall>(i, pl) \<in> set (es @ [(n, sol_payload q a c data)]). i < Suc n \<and> wellformed_payload pl"
      using es(2) w by (auto simp: less_Suc_eq)
    moreover have "list_all2 (\<lambda>(i, pl) pkt. sealed s0 (ss_outSeq s0 + of_nat i) pl pkt) (es @ [(n, sol_payload q a c data)]) (pkts @ [pkt])"
      using p(2) sl by (simp add: list_all2_appendI)
    ultimately show ?thesis using assms(1) s p 2(1)
      by (intro exI [of _ "es @ [(n, sol_payload q a c data)]"]) (auto simp: sol_log_def simp del: map_append)
  qed
qed

lemma rx_round_frame:
  "rx_round r sol = (act, sol') \<Longrightarrow> so_s sol' = so_s sol \<and> so_txSeq sol' = so_txSeq sol"
  by (auto simp: rx_round_def rx_packet_def note_ack_frame Let_def split: if_splits read_result.splits sum.splits)

lemma bump_tx_range: "so_txSeq (bump_tx sol) \<noteq> 0 \<and> so_txSeq (bump_tx sol) \<le> 15"
  by (auto simp: bump_tx_def Let_def not_less)

lemma bump_tx_s: "so_s (bump_tx sol) = so_s sol"
  by (simp add: bump_tx_def Let_def)

lemma sendPacket_tx: "sendPacket env q a c data sol = (e, sol') \<Longrightarrow> so_txSeq sol' = so_txSeq sol"
  using sendPacket_effect by fastforce

lemma sol_step_preserves:
  assumes "sol_step env y y'" "tx_ok y" "sol_log s0 (so_s (sy_sol y)) n es"
  shows "tx_ok y' \<and> (\<exists>n' es'. n \<le> n' \<and> sol_log s0 (so_s (sy_sol y')) n' es')"
  using assms
proof (cases rule: sol_step.cases)
  case (receive r act sol)
  then show ?thesis using assms(2,3) rx_round_frame [of r "sy_sol y" act sol] by (auto simp: tx_ok_def)
next
  case (acknowledge seq cc e sol)
  then show ?thesis using assms(2) sol_log_send [OF assms(3) acknowledge(3)] sendPacket_tx
    by (auto simp: tx_ok_def intro!: exI [of _ "Suc n"])
next
  case (keepalive e sol)
  then show ?thesis using assms(2) sol_log_send [OF assms(3) keepalive(2) [unfolded keepalive_tick_def]] sendPacket_tx
    by (auto simp: tx_ok_def keepalive_tick_def intro!: exI [of _ "Suc n"])
next
  case (write_draw data sol)
  then show ?thesis using assms(2,3) bump_tx_range [of "sy_sol y"] by (auto simp: tx_ok_def bump_tx_s)
next
  case (write_send i seq data e sol)
  have "(seq, data) \<in> set (sy_writes y)" using write_send by (metis nth_mem)
  then have "seq \<noteq> 0 \<and> seq \<le> 15 \<and> data \<noteq> []" using assms(2) by (auto simp: tx_ok_def)
  then show ?thesis using write_send assms(2) sol_log_send [OF assms(3) write_send(4)] sendPacket_tx [OF write_send(4)]
    by (auto simp: tx_ok_def dest: in_set_takeD in_set_dropD intro!: exI [of _ "Suc n"])
next
  case stop
  then show ?thesis using assms(2,3) by (auto simp: tx_ok_def)
qed

lemma sol_reach_preserves:
  "sol_reach env y y' \<Longrightarrow> tx_ok y \<Longrightarrow> tx_ok y' \<and> (\<exists>n es. sol_log (so_s (sy_sol y)) (so_s (sy_sol y')) n es)"
proof (induction rule: sol_reach.induct)
  case (start y)
  then show ?case by (auto simp: sol_log_def intro!: exI [of _ 0] exI [of _ "[]"])
next
  case (later y y' y'')
  then show ?case using sol_step_preserves by meson
qed

lemma sess_Close_closes: "sess_Close env s = (r, s') \<Longrightarrow> ss_closed s' \<or> (\<exists>e. r = Some e \<and> is_panic e)"
  by (auto simp: sess_Close_def split: if_splits prod.splits sum.splits)

lemma close_with_closes:
  "\<exists>e' s'. close_with env e s = (Inl e', Some s') \<and> (ss_closed s' \<or> is_panic e')"
proof -
  obtain r s' where c: "sess_Close env s = (r, s')" by fastforce
  from sess_Close_closes [OF c] show ?thesis by (cases r) (auto simp: close_with_def c)
qed

section \<open>Properties\<close>



text \<open>C23: However the receive loop, the keepalive and the writers interleave, the socket carries, after what was there before,
  packets sealed under the session's id and keys whose session sequence numbers are offsets from the first one in strictly
  increasing order, so none is used twice before the 32-bit counter wraps; each is either an acknowledgement or keepalive
  without data, or carries data under a sequence number from 1 to 15.\<close>

theorem sol_interleaving_sequence:
  assumes "sol_reach env y y'" and "so_txSeq (sy_sol y) \<le> 15" and "sy_writes y = []"
  shows "\<exists>n es pkts. ss_sent (so_s (sy_sol y')) = ss_sent (so_s (sy_sol y)) @ pkts
     \<and> list_all2 (\<lambda>(i, pl) pkt. sealed (so_s (sy_sol y)) (ss_outSeq (so_s (sy_sol y)) + of_nat i) pl pkt) es pkts
     \<and> sorted_wrt (<) (map fst es) \<and> (\<forall>(i, pl) \<in> set es. i < n \<and> wellformed_payload pl)
     \<and> ss_outSeq (so_s (sy_sol y')) = ss_outSeq (so_s (sy_sol y)) + of_nat n"
  using sol_reach_preserves [OF assms(1)] assms(2,3) unfolding sol_log_def tx_ok_def by auto

definition sol_sys0 :: sol_sys where
  "sol_sys0 = \<lparr>sy_sol = new_sol demo_session2 True, sy_writes = [], sy_ack = None\<rparr>"

theorem sol_interleaving_sequence_witness:
  "\<exists>y' n (es :: (nat \<times> bytes) list). sol_step demo_ipmi_env sol_sys0 y' \<and> y' \<noteq> sol_sys0 \<and> sorted_wrt (<) (map fst es)
     \<and> ss_outSeq (so_s (sy_sol y')) = ss_outSeq (so_s (sy_sol sol_sys0)) + of_nat n \<and> length es = length (ss_sent (so_s (sy_sol y')))"
proof -
  obtain e sol where k: "keepalive_tick demo_ipmi_env (sy_sol sol_sys0) = (e, sol)" by fastforce
  let ?y = "sol_sys0\<lparr>sy_sol := sol\<rparr>"
  have st: "sol_step demo_ipmi_env sol_sys0 ?y" by (rule sol_step.keepalive [OF k])
  have ne: "?y \<noteq> sol_sys0"
    using sendPacket_effect [OF k [unfolded keepalive_tick_def]] by (auto simp: sol_sys0_def new_sol_def demo_session2_def new_session_def)
  have r: "sol_reach demo_ipmi_env sol_sys0 ?y" using st by (rule sol_reach.later [OF sol_reach.start])
  have "so_txSeq (sy_sol sol_sys0) \<le> 15" "sy_writes sol_sys0 = []" "ss_sent (so_s (sy_sol sol_sys0)) = []"
    by (simp_all add: sol_sys0_def new_sol_def demo_session2_def new_session_def)
  from sol_interleaving_sequence [OF r this(1,2), unfolded this(3)] obtain n es pkts where
    o: "ss_sent (so_s (sy_sol ?y)) = [] @ pkts" "list_all2 (\<lambda>(i, pl) pkt. sealed (so_s (sy_sol sol_sys0))
        (ss_outSeq (so_s (sy_sol sol_sys0)) + of_nat i) pl pkt) es pkts" "sorted_wrt (<) (map fst es)"
    "ss_outSeq (so_s (sy_sol ?y)) = ss_outSeq (so_s (sy_sol sol_sys0)) + of_nat n" by (elim exE conjE)
  then have "length es = length (ss_sent (so_s (sy_sol ?y)))" using list_all2_lengthD [OF o(2)] by simp
  with st ne o(3,4) show ?thesis by blast
qed

text \<open>\<open>Write\<close> numbers its packets 1, 2, up to 15 and round again, skipping 0: the call number \<open>n\<close> (from 0) on a fresh
  console uses \<open>n mod 15 + 1\<close>.\<close>

theorem sol_write_numbers:
  "so_txSeq ((bump_tx ^^ Suc n) (new_sol s onData)) = of_nat (n mod 15 + 1)"
proof (induction n)
  case 0
  then show ?case by (simp add: bump_tx_def new_sol_def)
next
  case (Suc n)
  have tab: "\<forall>k \<in> set [0..<15]. (let w = of_nat (k + 1) + 1 :: byte in if w = 0 \<or> w > 15 then 1 else w) = of_nat (Suc k mod 15 + 1)"
    by code_simp
  have "(let w = of_nat (n mod 15 + 1) + 1 :: byte in if w = 0 \<or> w > 15 then 1 else w) = of_nat (Suc (n mod 15) mod 15 + 1)"
    using bspec [OF tab, of "n mod 15"] by simp
  moreover have "so_txSeq (bump_tx sol) = (let w = so_txSeq sol + 1 in if w = 0 \<or> w > 15 then 1 else w)" for sol
    by (simp add: bump_tx_def Let_def)
  ultimately show ?case using Suc by (simp del: of_nat_add add: mod_Suc_eq)
qed

text \<open>Opening a console either fails and leaves no socket open (short of a panic of the random source), or
  yields a console in its initial state on an open session with a non-zero id and keys.\<close>

theorem open_sol_outcome:
  "(\<exists>e so. OpenSOL env user pass onData = (Inl e, so) \<and> (is_panic e \<or> (\<forall>s. so = Some s \<longrightarrow> ss_closed s)))
   \<or> (\<exists>s. OpenSOL env user pass onData = (Inr (new_sol s onData), Some s) \<and> \<not> ss_closed s \<and> ss_sessionID s \<noteq> 0 \<and> keyed s)"
proof -
  consider e so where "Dial env user pass = (Inl e, so)" "is_panic e \<or> (\<forall>s. so = Some s \<longrightarrow> ss_closed s)"
    | s where "Dial env user pass = (Inr s, Some s)" "\<not> ss_closed s" "ss_sessionID s \<noteq> 0" "keyed s"
    using dial_cases [of env user pass] by (auto simp: keyed_def)
  then show ?thesis
  proof cases
    case 1
    then show ?thesis by (auto simp: OpenSOL_def)
  next
    case 2
    obtain r s1 where c: "rawCall env netFnAppReq 0x48 [payloadSOL, 0x01, 0xC0, 0x00, 0x00, 0x00] s = (r, s1)" by fastforce
    have s1: "\<not> ss_closed s1" "ss_sessionID s1 \<noteq> 0" "keyed s1" using rawCall_effect [OF c] 2 by (auto simp: keyed_def)
    show ?thesis
    proof (cases r)
      case (Inl e)
      then show ?thesis using 2(1) c close_with_closes [of env "Wrapf ''ipmi: SOL activate: '' e" s1] by (auto simp: OpenSOL_def)
    next
      case (Inr p)
      obtain cc out where p: "p = (cc, out)" by (cases p)
      show ?thesis
      proof (cases "cc = 0")
        case True
        then show ?thesis using 2(1) c Inr p s1 by (simp add: OpenSOL_def)
      next
        case False
        let ?e = "Errorf (''ipmi: SOL Activate Payload cc=0x'' @ hex2 cc @ '' ('' @ activateErr cc @ '')'')"
        have "OpenSOL env user pass onData = close_with env ?e s1"
          unfolding OpenSOL_def 2(1) prod.case sum.case c Inr p using False by simp
        then show ?thesis using close_with_closes [of env ?e s1] by auto
      qed
    qed
  qed
qed

end
