(* ===== verification/Bridge_Access.thy ===== *)
theory Bridge_Access
  imports Tls_Dial Bridge_Session Bridge_Ipmi Ipmi_Sol
begin

text \<open>
  Who may use the browser bridge, and what its start-up insists on (\<open>cmd/beefkvm/main.go\<close>, \<open>cmd/beefkvm/sol_handler.go\<close>): the flag checks,
  the session token, the token gate and the origin check, the route table, the certificate and screenshot endpoints and the serial console
  socket.  A request holds what \<open>net/http\<close> has parsed of it.  The host part \<open>url.Parse\<close> finds in an Origin header and the WebSocket
  upgrade of \<open>gorilla/websocket\<close> are parameters.
\<close>

section \<open>Start-up\<close>

record flags =
  fl_host :: bytes
  fl_user :: bytes
  fl_pass :: bytes
  fl_pin :: bytes
  fl_videoRes :: "nat list"
  fl_ipmiUser :: bytes
  fl_ipmiPass :: bytes
  fl_showVersion :: bool

definition envOr :: "(string \<Rightarrow> bytes) \<Rightarrow> string \<Rightarrow> bytes \<Rightarrow> bytes" where
  "envOr getenv k def = (let v = getenv k in if v \<noteq> [] then v else def)"

definition default_flags :: "(string \<Rightarrow> bytes) \<Rightarrow> flags" where
  "default_flags getenv =
     \<lparr>fl_host = envOr getenv ''BMC_HOST'' [], fl_user = envOr getenv ''BMC_USER'' (str_bytes ''admin''), fl_pass = envOr getenv ''BMC_PASS'' [],
      fl_pin = envOr getenv ''BMC_PIN'' [], fl_videoRes = map of_char ''1024x768'',
      fl_ipmiUser = envOr getenv ''BMC_IPMI_USER'' (envOr getenv ''BMC_USER'' []),
      fl_ipmiPass = envOr getenv ''BMC_IPMI_PASS'' (envOr getenv ''BMC_PASS'' []), fl_showVersion = False\<rparr>"

datatype start = PrintVersion | Fatal string | Start

definition main_checks :: "flags \<Rightarrow> start" where
  "main_checks opts =
     (if fl_showVersion opts then PrintVersion
      else if fl_host opts = [] then Fatal ''beefkvm: --host (or BMC_HOST) is required, e.g. --host bmc.example or an IP''
      else if fl_pass opts = [] \<or> fl_pin opts = [] then
        Fatal (''beefkvm: --pass and --pin (or BMC_PASS/BMC_PIN) required; '' @ ''learn the pin with: apcp-probe --host <bmc> --learn-pin'')
      else Start)"

text \<open>\<open>fmt.Sscanf (videoRes, "%dx%d", &w, &h)\<close> over the default dimensions: what is not scanned keeps its default.\<close>

definition video_resolution :: "nat list \<Rightarrow> int \<times> int" where
  "video_resolution s =
     (case scan_int s of
        None \<Rightarrow> (1024, 768)
      | Some (w, s) \<Rightarrow>
          if take 1 s = [120] then (case scan_int (drop 1 s) of None \<Rightarrow> (w, 768) | Some (h, _) \<Rightarrow> (w, h))
          else (w, 768))"

definition session_token :: "bytes result \<Rightarrow> bytes result" where
  "session_token rand = map_sum id (\<lambda>tokenBytes. str_bytes (hexs tokenBytes)) rand"

definition ipmi_config :: "flags \<Rightarrow> ipmi_state option" where
  "ipmi_config opts =
     (if fl_ipmiUser opts \<noteq> [] \<and> fl_ipmiPass opts \<noteq> [] then Some (newIPMI (fl_ipmiUser opts) (fl_ipmiPass opts)) else None)"

section \<open>The gate\<close>

text \<open>\<open>rq_t\<close> is the first value of the query parameter \<open>t\<close> (empty when absent), \<open>rq_cookie\<close> the value of the cookie \<open>ikvm-token\<close>,
  \<open>rq_Origin\<close> the Origin header (empty when absent).\<close>

record http_request =
  rq_Path :: string
  rq_t :: bytes
  rq_cookie :: "bytes option"
  rq_Origin :: bytes
  rq_Host :: bytes

definition ConstantTimeCompare :: "bytes \<Rightarrow> bytes \<Rightarrow> nat" where
  "ConstantTimeCompare x y =
     (if length x \<noteq> length y then 0
      else if fold (\<lambda>(a, b) v. v OR (a XOR b)) (zip x y) 0 = (0 :: byte) then 1 else 0)"

definition checkToken :: "bytes \<Rightarrow> http_request \<Rightarrow> bool" where
  "checkToken token r =
     (if rq_t r \<noteq> [] \<and> ConstantTimeCompare (rq_t r) token = 1 then True
      else (case rq_cookie r of None \<Rightarrow> False | Some c \<Rightarrow> ConstantTimeCompare c token = 1))"

definition sameOrigin :: "(bytes \<Rightarrow> bytes option) \<Rightarrow> http_request \<Rightarrow> bool" where
  "sameOrigin url_host r =
     (if rq_Origin r = [] then False
      else (case url_host (rq_Origin r) of None \<Rightarrow> False | Some h \<Rightarrow> h = rq_Host r))"

text \<open>What is sent back: an error reply, the reply of the wrapped handler with the token cookie set, or the end of a WebSocket.\<close>

datatype 'r reply = HttpReply nat string | WithCookie bytes 'r | WebSocket 'r

definition gate :: "bytes \<Rightarrow> (http_request \<Rightarrow> 's \<Rightarrow> 'r \<times> 's) \<Rightarrow> http_request \<Rightarrow> 's \<Rightarrow> 'r reply \<times> 's" where
  "gate token nxt r st =
     (if checkToken token r then (case nxt r st of (x, st) \<Rightarrow> (WithCookie token x, st))
      else (HttpReply 401 ''missing or bad token'', st))"

text \<open>\<open>upgrade\<close> takes the origin check and the request; it fails with a status and a text, or upgrades.\<close>

type_synonym upgrader = "(http_request \<Rightarrow> bool) \<Rightarrow> http_request \<Rightarrow> (nat \<times> string) option"

definition serveWS ::
  "upgrader \<Rightarrow> (bytes \<Rightarrow> bytes option) \<Rightarrow> bytes \<Rightarrow> (http_request \<Rightarrow> 's \<Rightarrow> 'r \<times> 's) \<Rightarrow> http_request \<Rightarrow> 's \<Rightarrow> 'r reply \<times> 's" where
  "serveWS upgrade url_host token run r st =
     (if \<not> checkToken token r then (HttpReply 401 ''unauthorized'', st)
      else
        (case upgrade (sameOrigin url_host) r of
           Some (code, msg) \<Rightarrow> (HttpReply code msg, st)
         | None \<Rightarrow> (case run r st of (x, st) \<Rightarrow> (WebSocket x, st))))"

text \<open>The same for the console socket (the head of \<open>serveSOL\<close>), which also needs the IPMI credentials.\<close>

definition sol_checks ::
  "upgrader \<Rightarrow> (bytes \<Rightarrow> bytes option) \<Rightarrow> bytes \<Rightarrow> ipmi_state option \<Rightarrow> (http_request \<Rightarrow> 's \<Rightarrow> 'r \<times> 's) \<Rightarrow> http_request \<Rightarrow> 's \<Rightarrow> 'r reply \<times> 's" where
  "sol_checks upgrade url_host token ipmi run r st =
     (if \<not> checkToken token r then (HttpReply 401 ''unauthorized'', st)
      else if ipmi = None then (HttpReply 503 ''IPMI not configured (no --ipmi-user)'', st)
      else
        (case upgrade (sameOrigin url_host) r of
           Some (code, msg) \<Rightarrow> (HttpReply code msg, st)
         | None \<Rightarrow> (case run r st of (x, st) \<Rightarrow> (WebSocket x, st))))"

section \<open>Routes\<close>

datatype endpoint = Static | Ws | WsSol | ScreenPNG | DebugDrop | Cert | Smartcard | VMMount | VMUnmount | VMStatus | VMUpload
  | Sensors | SensorsStream | SEL | PowerStatusE | PowerE | PowerBoot | SystemE | UsersE | NetworkE

definition main_routes :: "(string \<times> endpoint) list" where
  "main_routes = [(''/'', Static), (''/ws'', Ws), (''/ws/sol'', WsSol), (''/api/screen.png'', ScreenPNG), (''/api/debug/drop'', DebugDrop),
     (''/api/cert'', Cert), (''/api/smartcard'', Smartcard), (''/api/vm/mount'', VMMount), (''/api/vm/unmount'', VMUnmount),
     (''/api/vm/status'', VMStatus), (''/api/vm/upload'', VMUpload)]"

definition registerIPMIHandlers :: "ipmi_state option \<Rightarrow> (string \<times> endpoint) list" where
  "registerIPMIHandlers ipmi =
     (if ipmi = None then []
      else [(''/api/sensors'', Sensors), (''/api/sensors/stream'', SensorsStream), (''/api/sel'', SEL), (''/api/power/status'', PowerStatusE),
            (''/api/power'', PowerE), (''/api/power/boot'', PowerBoot), (''/api/system'', SystemE), (''/api/users'', UsersE), (''/api/network'', NetworkE)])"

text \<open>\<open>http.ServeMux\<close> on these patterns: only the pattern \<open>/\<close> ends in a slash, so it takes every (cleaned) path that no other equals.\<close>

definition mux :: "ipmi_state option \<Rightarrow> string \<Rightarrow> endpoint" where
  "mux ipmi path = (case map_of (main_routes @ registerIPMIHandlers ipmi) path of Some e \<Rightarrow> e | None \<Rightarrow> Static)"

text \<open>Serving a request: the WebSocket endpoints check the token themselves, every other one is behind the gate.\<close>

definition serve ::
  "upgrader \<Rightarrow> (bytes \<Rightarrow> bytes option) \<Rightarrow> bytes \<Rightarrow> ipmi_state option \<Rightarrow> (endpoint \<Rightarrow> http_request \<Rightarrow> 's \<Rightarrow> 'r \<times> 's)
   \<Rightarrow> http_request \<Rightarrow> 's \<Rightarrow> 'r reply \<times> 's" where
  "serve upgrade url_host token ipmi handler r st =
     (case mux ipmi (rq_Path r) of
        Ws \<Rightarrow> serveWS upgrade url_host token (handler Ws) r st
      | WsSol \<Rightarrow> sol_checks upgrade url_host token ipmi (handler WsSol) r st
      | e \<Rightarrow> gate token (handler e) r st)"

section \<open>Certificate and screenshot\<close>

text \<open>The fields of the report the handler computes; the names, the serial number and the day count are formatting only.\<close>

record cert_report =
  cr_expired :: bool
  cr_fingerprint :: bytes
  cr_pin_matches :: bool

definition handleCert :: "bytes \<Rightarrow> int \<Rightarrow> Certificate option \<Rightarrow> cert_report result" where
  "handleCert pin now lastLeaf =
     (case lastLeaf of
        None \<Rightarrow> Inl (Errorf ''no BMC certificate captured yet'')
      | Some cert \<Rightarrow>
          let fp = FingerprintSHA256 cert
          in Inr \<lparr>cr_expired = (now > crt_NotAfter cert \<or> now < crt_NotBefore cert), cr_fingerprint = fp, cr_pin_matches = (fp = pin)\<rparr>)"

text \<open>The pixel buffer of the image \<open>handleScreenPNG\<close> encodes, of a rectangle with its corners put in order; a pixel past its end is a panic.\<close>

fun png_pixels :: "nat \<Rightarrow> u32 list \<Rightarrow> bytes \<Rightarrow> bytes result" where
  "png_pixels i [] pixbuf = Inr pixbuf"
| "png_pixels i (p # ps) pixbuf =
     (if i * 4 + 3 < length pixbuf then
        png_pixels (i + 1) ps (pixbuf[i * 4 := ucast (drop_bit 16 p), i * 4 + 1 := ucast (drop_bit 8 p), i * 4 + 2 := ucast p, i * 4 + 3 := 0xFF])
      else Inl pixel_panic)"

definition handleScreenPNG :: "Framebuffer \<Rightarrow> bytes result" where
  "handleScreenPNG fb =
     (let n = 4 * \<bar>fb_W fb\<bar> * \<bar>fb_H fb\<bar>
      in if n \<ge> 2 ^ 63 then Inl (Panic ''image: NewRGBA Rectangle has huge or negative dimensions'')
         else png_pixels 0 (fb_Pixels fb) (mk_buf (nat n)))"

section \<open>The serial console socket\<close>

text \<open>Browser to serial: the messages read before the read error; the loop ends early when a write fails.\<close>

fun sol_pump :: "ipmi_env \<Rightarrow> (nat \<times> bytes) list \<Rightarrow> SOL \<Rightarrow> gerror option \<times> SOL" where
  "sol_pump env [] sol = (None, sol)"
| "sol_pump env ((mt, msg) # msgs) sol =
     (if mt = 2 \<or> mt = 1 then
        (case sol_Write env msg sol of
           (Some werr, sol) \<Rightarrow> (Some werr, sol)
         | (None, sol) \<Rightarrow> sol_pump env msgs sol)
      else sol_pump env msgs sol)"

text \<open>After the upgrade: what the console ends with and the error that ended it, or why it never opened.\<close>

datatype sol_end = SolFailed gerror "IpmiSession option" | SolEnded "gerror option" SOL

definition serveSOL :: "ipmi_env \<Rightarrow> bytes \<Rightarrow> bytes \<Rightarrow> (nat \<times> bytes) list \<Rightarrow> sol_end" where
  "serveSOL env user pass msgs =
     (case OpenSOL env user pass True of
        (Inl e, s) \<Rightarrow> SolFailed e s
      | (Inr sol, _) \<Rightarrow>
          (case sol_pump env msgs sol of
             (werr, sol) \<Rightarrow>
               (case sol_Close env sol of
                  (Some e, sol) \<Rightarrow> SolEnded (if is_panic e then Some e else werr) sol
                | (None, sol) \<Rightarrow> SolEnded werr sol)))"

section \<open>Lemmas\<close>

lemma ConstantTimeCompare_iff [simp]: "ConstantTimeCompare x y = Suc 0 \<longleftrightarrow> x = y"
proof -
  have "ConstantTimeCompare x y = (if equalBytes x y then 1 else 0)" by (simp add: ConstantTimeCompare_def equalBytes_def del: equalBytes_iff)
  then show ?thesis by simp
qed

lemma checkToken_iff: "checkToken token r \<longleftrightarrow> token \<noteq> [] \<and> rq_t r = token \<or> rq_cookie r = Some token"
  by (auto simp: checkToken_def split: option.splits)

lemma serve_refused:
  "\<not> checkToken token r \<Longrightarrow> \<exists>msg. serve upgrade url_host token ipmi handler r st = (HttpReply 401 msg, st)"
  by (simp add: serve_def gate_def serveWS_def sol_checks_def split: endpoint.split)

lemma serve_gated:
  assumes "checkToken token r" "mux ipmi (rq_Path r) \<noteq> Ws" "mux ipmi (rq_Path r) \<noteq> WsSol"
  shows "serve upgrade url_host token ipmi handler r st = apfst (WithCookie token) (handler (mux ipmi (rq_Path r)) r st)"
  using assms by (auto simp: serve_def gate_def split: endpoint.split prod.splits)

lemma sendPacket_written:
  assumes "env_ok env" "keyed (so_s sol)" "\<And>n p e. e_peer env n p \<noteq> WriteErr e"
  shows "\<exists>n pkt. sendPacket env seq a c data sol = (None, sol\<lparr>so_s := (so_s sol)\<lparr>ss_outSeq := ss_outSeq (so_s sol) + 1,
      ss_rands := Suc (ss_rands (so_s sol)), ss_attempts := n, ss_sent := ss_sent (so_s sol) @ [pkt]\<rparr>\<rparr>)
    \<and> sealed (so_s sol) (ss_outSeq (so_s sol)) (sol_payload seq a c data) pkt"
proof -
  obtain k where k: "ss_k2 (so_s sol) = Some k" "16 \<le> length k" using assms(2) by (auto simp: keyed_def split: option.splits)
  let ?s1 = "(so_s sol)\<lparr>ss_outSeq := ss_outSeq (so_s sol) + 1\<rparr>" and ?pl = "sol_payload seq a c data"
  obtain b where "e_rand env (ss_rands (so_s sol)) = Inr b" using assms(1) unfolding env_ok_def by blast
  then obtain v where v: "newIV env ?s1 = (Inr v, ?s1\<lparr>ss_rands := Suc (ss_rands (so_s sol))\<rparr>)" "length v = 16"
    by (simp add: newIV_def rand_Read_def)
  obtain body where "rmcp_body ?pl (Some k) (Some v) = Inr body" using rmcp_body_ok [of "Some k" "Some v" ?pl] k(2) v(2) by auto
  then obtain pkt where pkt: "buildRMCPPlus 1 (ss_sessionID (so_s sol)) (ss_outSeq (so_s sol)) ?pl (ss_k1 (so_s sol)) (Some k) (Some v) = Inr pkt"
    using build_packet by (simp add: Let_def)
  then have "sealed (so_s sol) (ss_outSeq (so_s sol)) ?pl pkt" using v(2) k(1) by (auto simp: sealed_def)
  moreover have "conn_Write env pkt s = (None, s\<lparr>ss_attempts := Suc (ss_attempts s), ss_sent := ss_sent s @ [pkt]\<rparr>)" for s
    using assms(3) by (simp add: conn_Write_def split: attempt.split)
  ultimately show ?thesis
    unfolding sendPacket_def Let_def sendPacket_payload by (simp add: v(1) k(1) pkt) blast
qed

text \<open>The numbering of console packets, and a sequence of messages carried by packets sealed under consecutive session numbers.\<close>

definition next_tx :: "byte \<Rightarrow> byte" where
  "next_tx t = (if t + 1 = 0 \<or> t + 1 > 15 then 1 else t + 1)"

fun carries :: "IpmiSession \<Rightarrow> u32 \<Rightarrow> byte \<Rightarrow> bytes list \<Rightarrow> bytes list \<Rightarrow> bool" where
  "carries s q t [] pkts = (pkts = [])"
| "carries s q t (m # ms) pkts =
     (case pkts of [] \<Rightarrow> False | pkt # pkts \<Rightarrow> sealed s q (sol_payload (next_tx t) 0 0 m) pkt \<and> carries s (q + 1) (next_tx t) ms pkts)"

definition typed :: "(nat \<times> bytes) list \<Rightarrow> bytes list" where
  "typed msgs = map snd (filter (\<lambda>(mt, msg). (mt = 2 \<or> mt = 1) \<and> msg \<noteq> []) msgs)"

lemma bump_tx_next: "bump_tx sol = sol\<lparr>so_txSeq := next_tx (so_txSeq sol)\<rparr>"
  by (simp add: bump_tx_def next_tx_def Let_def)

lemma carries_cong:
  "ss_sessionID s' = ss_sessionID s \<Longrightarrow> ss_k1 s' = ss_k1 s \<Longrightarrow> ss_k2 s' = ss_k2 s \<Longrightarrow> carries s' q t ms pkts = carries s q t ms pkts"
  by (induction s q t ms pkts rule: carries.induct) (auto simp: sealed_def split: list.split)

lemma sol_pump_carries:
  assumes "env_ok env" "\<And>n p e. e_peer env n p \<noteq> WriteErr e" "keyed (so_s sol)"
  shows "\<exists>sol' pkts. sol_pump env msgs sol = (None, sol') \<and> ss_sent (so_s sol') = ss_sent (so_s sol) @ pkts
    \<and> carries (so_s sol) (ss_outSeq (so_s sol)) (so_txSeq sol) (typed msgs) pkts"
  using assms(3)
proof (induction msgs arbitrary: sol)
  case Nil
  then show ?case by (auto simp: typed_def)
next
  case (Cons m msgs)
  obtain mt msg where m: "m = (mt, msg)" by (cases m)
  show ?case
  proof (cases "(mt = 2 \<or> mt = 1) \<and> msg \<noteq> []")
    case False
    with Cons show ?thesis by (auto simp: m typed_def sol_Write_def)
  next
    case True
    let ?sol = "bump_tx sol"
    have k: "keyed (so_s ?sol)" using Cons.prems by (simp add: bump_tx_next)
    obtain n pkt where w: "sendPacket env (so_txSeq ?sol) 0 0 msg ?sol = (None, ?sol\<lparr>so_s := (so_s sol)\<lparr>ss_outSeq := ss_outSeq (so_s sol) + 1,
      ss_rands := Suc (ss_rands (so_s sol)), ss_attempts := n, ss_sent := ss_sent (so_s sol) @ [pkt]\<rparr>\<rparr>)"
      "sealed (so_s sol) (ss_outSeq (so_s sol)) (sol_payload (next_tx (so_txSeq sol)) 0 0 msg) pkt"
      using sendPacket_written [OF assms(1) k assms(2), of "so_txSeq ?sol" 0 0 msg] by (auto simp: bump_tx_next)
    let ?s = "?sol\<lparr>so_s := (so_s sol)\<lparr>ss_outSeq := ss_outSeq (so_s sol) + 1,
      ss_rands := Suc (ss_rands (so_s sol)), ss_attempts := n, ss_sent := ss_sent (so_s sol) @ [pkt]\<rparr>\<rparr>"
    have "keyed (so_s ?s)" using Cons.prems by (simp add: keyed_def)
    from Cons.IH [OF this] obtain sol' pkts where "sol_pump env msgs ?s = (None, sol')" "ss_sent (so_s sol') = ss_sent (so_s sol) @ pkt # pkts"
      "carries (so_s ?s) (ss_outSeq (so_s sol) + 1) (next_tx (so_txSeq sol)) (typed msgs) pkts" by (auto simp: bump_tx_next)
    moreover from this(3) have "carries (so_s sol) (ss_outSeq (so_s sol) + 1) (next_tx (so_txSeq sol)) (typed msgs) pkts"
      by (subst carries_cong [symmetric, of "so_s ?s"]) simp_all
    moreover have "sol_pump env (m # msgs) sol = sol_pump env msgs ?s" using True w(1) by (simp add: m sol_Write_def Let_def)
    moreover have "typed (m # msgs) = msg # typed msgs" using True by (simp add: m typed_def)
    ultimately show ?thesis using w(2) by (intro exI [of _ sol'] exI [of _ "pkt # pkts"]) simp
  qed
qed

lemma sol_Close_closes:
  assumes "sol_Close env sol = (r, sol')"
  shows "so_done sol' \<and> (ss_closed (so_s sol') \<or> (\<exists>e. r = Some e \<and> is_panic e))"
proof -
  have "so_done sol' \<and> ((\<exists>e. r = Some e \<and> is_panic e) \<or> (\<exists>s. sess_Close env s = (r, so_s sol')))"
    using assms by (auto simp: sol_Close_def Let_def split: prod.splits sum.splits if_splits)
  with sess_Close_closes show ?thesis by blast
qed

definition opaque_rgb :: "u32 \<Rightarrow> bytes" where
  "opaque_rgb p = [ucast (drop_bit 16 p), ucast (drop_bit 8 p), ucast p, 0xFF]"

lemma length_opaque_rgb [simp]: "length (opaque_rgb p) = 4"
  by (simp add: opaque_rgb_def)

lemma png_pixels_layout:
  assumes "length pre = 4 * i"
  shows "png_pixels i ps (pre @ rest) =
    (if 4 * length ps \<le> length rest then Inr (pre @ concat (map opaque_rgb ps) @ drop (4 * length ps) rest) else Inl pixel_panic)"
  using assms
proof (induction ps arbitrary: i pre rest)
  case (Cons p ps)
  show ?case
  proof (cases "4 \<le> length rest")
    case True
    then obtain a b c d rest' where r: "rest = a # b # c # d # rest'"
      by (auto simp: numeral_eq_Suc Suc_le_length_iff)
    have dr: "drop (4 + n) (a # b # c # d # rest') = drop n rest'" for n by (simp add: numeral_eq_Suc)
    have "png_pixels i (p # ps) (pre @ rest) = png_pixels (Suc i) ps ((pre @ opaque_rgb p) @ rest')"
      using Cons.prems by (simp add: r opaque_rgb_def list_update_append)
    also have "\<dots> = (if 4 * length ps \<le> length rest' then Inr ((pre @ opaque_rgb p) @ concat (map opaque_rgb ps) @ drop (4 * length ps) rest')
       else Inl pixel_panic)"
      by (rule Cons.IH) (use Cons.prems in \<open>simp add: opaque_rgb_def\<close>)
    finally show ?thesis by (simp add: r dr del: png_pixels.simps)
  next
    case False
    then show ?thesis using Cons.prems by simp
  qed
qed simp

lemma nth_opaque_list: "i < length ps \<Longrightarrow> k < 4 \<Longrightarrow> concat (map opaque_rgb ps) ! (4 * i + k) = opaque_rgb (ps ! i) ! k"
proof (induction ps arbitrary: i)
  case (Cons p ps)
  then show ?case by (cases i) (auto simp: nth_append)
qed simp

section \<open>Properties\<close>

text \<open>C13: Nothing without the token.  A request whose query parameter and cookie both differ from the session token gets status 401 on every path,
  configured or not, and changes nothing; a request that presents the token in either place reaches its handler on every path that is not a
  WebSocket, exactly once, and has the cookie set.\<close>

theorem token_decides_access:
  "(if token \<noteq> [] \<and> rq_t r = token \<or> rq_cookie r = Some token
    then mux ipmi (rq_Path r) \<notin> {Ws, WsSol} \<longrightarrow>
      serve upgrade url_host token ipmi handler r st = apfst (WithCookie token) (handler (mux ipmi (rq_Path r)) r st)
    else \<exists>msg. serve upgrade url_host token ipmi handler r st = (HttpReply 401 msg, st))"
  using serve_refused [of token r upgrade url_host ipmi handler st] serve_gated [of token r ipmi upgrade url_host handler st]
  by (simp add: checkToken_iff)

theorem token_decides_access_witness:
  "serve (\<lambda>check r. None) Some [1] None (\<lambda>e r n. (e, Suc n)) \<lparr>rq_Path = ''/api/cert'', rq_t = [1], rq_cookie = None, rq_Origin = [], rq_Host = []\<rparr> (0::nat)
     = (WithCookie [1] Cert, 1)"
  using token_decides_access [of "[1]" "\<lparr>rq_Path = ''/api/cert'', rq_t = [1], rq_cookie = None, rq_Origin = [], rq_Host = []\<rparr>" None
      "\<lambda>check r. None" Some "\<lambda>e r n. (e, Suc n)" "0::nat"]
  by (simp add: mux_def main_routes_def)

text \<open>C14: No cross-site WebSocket.  If the upgrade fails whenever its origin check does (as \<open>gorilla/websocket\<close> documents), a request to the
  screen or console socket whose Origin header is missing, unparsable or names another host than the request opens no socket and changes
  nothing, even with the right token.\<close>

theorem cross_origin_refused:
  assumes "\<And>check r. \<not> check r \<Longrightarrow> upgrade check r \<noteq> None" and "mux ipmi (rq_Path r) \<in> {Ws, WsSol}"
    and "rq_Origin r = [] \<or> url_host (rq_Origin r) \<noteq> Some (rq_Host r)"
  shows "\<exists>code msg. serve upgrade url_host token ipmi handler r st = (HttpReply code msg, st)"
proof -
  have "\<not> sameOrigin url_host r" using assms(3) by (auto simp: sameOrigin_def split: option.splits)
  then obtain x where x: "upgrade (sameOrigin url_host) r = Some x" using assms(1) by blast
  obtain code msg where "x = (code, msg)" by (cases x)
  with x assms(2) show ?thesis by (auto simp: serve_def serveWS_def sol_checks_def)
qed

theorem cross_origin_refused_witness:
  "\<exists>code msg. serve (\<lambda>check r. if check r then None else Some (403, ''forbidden'')) Some [1] None (\<lambda>e r n. (e, Suc n))
     \<lparr>rq_Path = ''/ws'', rq_t = [1], rq_cookie = None, rq_Origin = [7], rq_Host = [8]\<rparr> (0::nat) = (HttpReply code msg, 0)"
  by (rule cross_origin_refused) (simp_all add: mux_def main_routes_def split: if_splits)

text \<open>The serial console never leaks its BMC session.  However the browser behaves, the handler ends with the console marked done and the
  session's socket closed, or never had a console and holds no open socket; the only exception is a panic of the random source.\<close>

theorem sol_handler_closes:
  "case serveSOL env user pass msgs of
     SolFailed e so \<Rightarrow> is_panic e \<or> so = None \<or> ss_closed (the so)
   | SolEnded w sol \<Rightarrow> so_done sol \<and> (ss_closed (so_s sol) \<or> (\<exists>e. w = Some e \<and> is_panic e))"
proof -
  have o: "is_panic e \<or> so = None \<or> ss_closed (the so)" if "OpenSOL env user pass True = (Inl e, so)" for e so
    using open_sol_outcome [of env user pass True] that by (cases so) auto
  show ?thesis
    using o by (auto simp: serveSOL_def split: prod.split sum.split option.split dest!: sol_Close_closes)
qed

text \<open>C24: Keystrokes arrive in order.  With a working random source and no failing write, the browser loop sends every non-empty message as
  one packet, in the order received, each sealed under the next session sequence number and numbered 1 to 15 round and round; it stops
  only when the browser goes away.\<close>

theorem sol_input_in_order:
  assumes "env_ok env" and "\<And>n p e. e_peer env n p \<noteq> WriteErr e" and "keyed (so_s sol)"
  shows "\<exists>sol' pkts. sol_pump env msgs sol = (None, sol') \<and> ss_sent (so_s sol') = ss_sent (so_s sol) @ pkts
    \<and> carries (so_s sol) (ss_outSeq (so_s sol)) (so_txSeq sol) (typed msgs) pkts"
  using assms by (rule sol_pump_carries)

theorem sol_input_in_order_witness:
  "\<exists>sol' p1 p2. sol_pump (demo_ipmi_env\<lparr>e_peer := \<lambda>n p. ReadErr (Errorf ''gone'')\<rparr>) [(1, [104]), (2, []), (2, [105])] (new_sol demo_session2 True) = (None, sol')
     \<and> ss_sent (so_s sol') = ss_sent demo_session2 @ [p1, p2]"
proof -
  let ?env = "demo_ipmi_env\<lparr>e_peer := \<lambda>n p. ReadErr (Errorf ''gone'')\<rparr>" and ?sol = "new_sol demo_session2 True"
  have "env_ok ?env" by (simp add: env_ok_def demo_ipmi_env_def)
  moreover have "keyed (so_s ?sol)" by (simp add: keyed_def demo_session2_def new_sol_def)
  ultimately obtain sol' pkts where o: "sol_pump ?env [(1, [104]), (2, []), (2, [105])] ?sol = (None, sol')" "ss_sent (so_s sol') = ss_sent (so_s ?sol) @ pkts"
    "carries (so_s ?sol) (ss_outSeq (so_s ?sol)) (so_txSeq ?sol) (typed [(1, [104]), (2, []), (2, [105])]) pkts"
    using sol_input_in_order [of ?env ?sol "[(1, [104]), (2, []), (2, [105])]"] by auto
  moreover obtain p1 p2 where "pkts = [p1, p2]" using o(3) by (auto simp: typed_def split: list.splits)
  ultimately show ?thesis by (simp add: new_sol_def)
qed

text \<open>The screenshot shows what the browser is sent.  For a framebuffer of ordinary size the PNG endpoint and the WebSocket serialiser
  both panic or both succeed, and then the picture has the same red, green and blue bytes for every pixel, fully opaque.\<close>

theorem screenshot_agrees:
  assumes "0 \<le> fb_W fb" and "0 \<le> fb_H fb" and "4 * fb_W fb * fb_H fb < 2 ^ 63"
  shows "case serializeFB fb of
      Inl e \<Rightarrow> handleScreenPNG fb = Inl e
    | Inr buf \<Rightarrow> (\<exists>png. handleScreenPNG fb = Inr png \<and> length png + 8 = length buf
        \<and> (\<forall>i < length (fb_Pixels fb). \<forall>k < 4. png ! (4 * i + k) = (if k = 3 then 0xFF else buf ! (8 + 4 * i + k))))"
proof -
  let ?n = "nat (fb_W fb * fb_H fb)" and ?ps = "fb_Pixels fb"
  have n: "0 \<le> fb_W fb * fb_H fb" using assms by simp
  have b: "mk_buf (nat (4 * fb_W fb * fb_H fb)) = [] @ replicate (4 * ?n) 0"
    using n by (simp add: mk_buf_def nat_mult_distrib [symmetric] mult.assoc)
  have g: "handleScreenPNG fb = (if 4 * length ?ps \<le> 4 * ?n then Inr ([] @ concat (map opaque_rgb ?ps) @ replicate (4 * ?n - 4 * length ?ps) 0) else Inl pixel_panic)"
    using assms png_pixels_layout [of "[]" 0 ?ps "replicate (4 * ?n) 0"] unfolding handleScreenPNG_def Let_def
    by (simp add: b)
  have p: "concat (map opaque_rgb ?ps) ! (4 * i + k) = opaque_rgb (?ps ! i) ! k" if "i < length ?ps" "k < 4" for i k
    by (rule nth_opaque_list [OF that])
  have lo: "length (concat (map opaque_rgb ps)) = 4 * length ps" "length (concat (map pixel_rgba ps)) = 4 * length ps" for ps
    by (induction ps) (simp_all add: opaque_rgb_def pixel_rgba_def)
  have rgb: "opaque_rgb q ! k = (if k = 3 then 0xFF else pixel_rgba q ! k)" if "k < 4" for q k
    using that by (auto simp: opaque_rgb_def pixel_rgba_def less_Suc_eq numeral_eq_Suc)
  show ?thesis
  proof (cases "npix fb \<le> fb_W fb * fb_H fb")
    case True
    then have le: "length ?ps \<le> ?n" using n by (simp add: nat_le_iff le_nat_iff)
    show ?thesis using True le rgb p nth_rgba_list lo
      unfolding g serializeFB_layout [OF assms(1,2)] by (auto simp: nth_append add.assoc)
  next
    case False
    then have "\<not> length ?ps \<le> ?n" using n by (simp add: nat_le_iff le_nat_iff)
    then show ?thesis using False unfolding g serializeFB_layout [OF assms(1,2)] by simp
  qed
qed

theorem screenshot_agrees_witness:
  "\<exists>png. handleScreenPNG (NewFramebuffer 2 1) = Inr png"
  using screenshot_agrees [of "NewFramebuffer 2 1"] serializeFB_layout [of "NewFramebuffer 2 1"] by (auto simp: NewFramebuffer_def)

text \<open>The certificate report compares the pin literally.  After a connection accepted under a pin, the report names the leaf's
  fingerprint, and its \<open>pin_matches\<close> is true exactly when the pin was written in lower case without colons.\<close>

theorem cert_report_pin_spelling:
  assumes "honours P U" and "pin \<noteq> []" and "UpgradeToTLS P U raw h pin l = (Inr c, l')"
  shows "\<exists>rep. handleCert pin now l' = Inr rep \<and> cr_fingerprint rep = to_lower (strip_colons pin)
    \<and> (cr_pin_matches rep \<longleftrightarrow> pin = to_lower (strip_colons pin))"
proof -
  obtain certs where h: "handshake P U raw h pin l = (Inr (c, certs), l')" using assms(3) by (auto simp: UpgradeToTLS_ok)
  show ?thesis by (rule pinned_handshake [OF assms(1,2) h]) (auto simp: handleCert_def Let_def)
qed

theorem cert_report_pin_spelling_witness:
  "\<exists>rep. handleCert (FingerprintSHA256 (demo_cert [1])) 0 (Some (demo_cert [1])) = Inr rep \<and> cr_pin_matches rep"
  using cert_report_pin_spelling [OF demo_honours _ demo_upgrade [of "[1]" "\<lparr>c_in = [], c_wr = []\<rparr>" "''bmc''" None], of 0] by auto

text \<open>The resolution flag round-trips: a width and height printed in decimal around an \<open>x\<close> are read back.\<close>

theorem resolution_roundtrip:
  assumes "w < 2 ^ 63" and "h < 2 ^ 63"
  shows "video_resolution (map of_char (dec w @ ''x'' @ dec h)) = (int w, int h)"
proof -
  have a: "scan_int (map of_char (dec w @ ''x'' @ dec h)) = Some (int w, 120 # map of_char (dec h))"
    using scan_int_dec [OF assms(1), of "120 # map of_char (dec h)"] by (simp add: is_digit_def)
  have b: "scan_int (map of_char (dec h)) = Some (int h, [])" using scan_int_dec [OF assms(2), of "[]"] by simp
  show ?thesis unfolding video_resolution_def a by (simp add: b)
qed

theorem resolution_roundtrip_witness: "video_resolution (map of_char (dec 800 @ ''x'' @ dec 600)) = (800, 600)"
  using resolution_roundtrip [of 800 600] by simp

end
