(* ===== verification/Cli_Tools.thy ===== *)
theory Cli_Tools
  imports Bridge_Access
begin

text \<open>
  The command line tools: \<open>cmd/apcp-probe\<close>, \<open>cmd/apcp-capture\<close>, \<open>cmd/beefkvm-power\<close>, \<open>cmd/beefkvm-vm\<close> and \<open>cmd/beefkvm-usb\<close>.  Each
  \<open>main\<close> is split into its flag checks and what it then does with the packages of the other theories.  \<open>log.Fatal\<close> ends the process without running
  deferred calls.  Printing is left out; \<open>%q\<close> is a parameter.
\<close>

section \<open>apcp-probe\<close>

record probe_flags =
  pf_pass :: bytes
  pf_pin :: bytes
  pf_learnPin :: bool
  pf_channel :: bytes

datatype probe_plan = ProbeFatal string | LearnPin | Probe byte

definition probe_checks :: "(bytes \<Rightarrow> string) \<Rightarrow> probe_flags \<Rightarrow> probe_plan" where
  "probe_checks quote f =
     (if pf_pass f = [] then ProbeFatal ''apcp-probe: --pass or BMC_PASS required''
      else
        (case (if pf_channel f = str_bytes ''kvm'' then Some SessionTypeKVM
               else if pf_channel f = str_bytes ''vm'' then Some SessionTypeVM else None) of
           None \<Rightarrow> ProbeFatal (''apcp-probe: unknown --type '' @ quote (pf_channel f) @ ''; want kvm or vm'')
         | Some chanType \<Rightarrow>
             if pf_learnPin f then LearnPin
             else if chanType = SessionTypeKVM \<and> pf_pin f = [] then
               ProbeFatal ''apcp-probe: --pin required for KVM channel; run with --learn-pin first''
             else Probe chanType))"

definition learn_request :: SessionRequest where
  "learn_request = \<lparr>sr_SessionType = SessionTypeKVM, sr_Field2 = 2, sr_Field3 = 34, sr_Capability = 5,
     sr_Nonce = map of_nat [0..<32], sr_NonceLen = 32\<rparr>"

text \<open>\<open>%x\<close> of a number.\<close>

fun hexn :: "nat \<Rightarrow> string" where
  "hexn n = (if n < 16 then [hex_digit n] else hexn (n div 16) @ [hex_digit (n mod 16)])"

declare hexn.simps [simp del]

text \<open>The result is the fingerprint printed and the writes and the close on the raw connection.\<close>

definition runLearnPin :: "x509_parser \<Rightarrow> utls \<Rightarrow> conn result \<Rightarrow> string \<Rightarrow> Certificate option \<Rightarrow> bytes result \<times> event list" where
  "runLearnPin P U dialled host l =
     (case dialled of
        Inl e \<Rightarrow> (Inl e, [])
      | Inr raw \<Rightarrow>
          let evs = [Write Raw (EncodeSessionRequest learn_request), CloseRaw]
          in case conn_write raw of
               (Some e, _) \<Rightarrow> (Inl (Wrapf ''send SessionRequest: '' e), evs)
             | (None, raw) \<Rightarrow>
                 (case conn_read_full SessionRequestLen raw of
                    (Inl e, _) \<Rightarrow> (Inl (Wrapf ''read SessionSetup: '' e), evs)
                  | (Inr buf, raw) \<Rightarrow>
                      (case DecodeSessionSetup buf of
                         Inl e \<Rightarrow> (Inl e, evs)
                       | Inr stp \<Rightarrow>
                           if \<not> SupportsSSL stp then
                             (Inl (Errorf (''BMC does not advertise SSL (caps 0x'' @ hexn (unat (ss_Capabilities stp)) @ '')'')), evs)
                           else (fst (PinFromServer P U raw host l), evs))))"

definition probe_video_frames :: "bytes list" where
  "probe_video_frames =
     [AVPTEncode \<lparr>a_ID = 782, a_Payload = [1, 1, 0, 0, 0, 0, 0, 0]\<rparr>, AVPTEncode \<lparr>a_ID = 770, a_Payload = [4, 0, 3, 0, 0, 0, 0, 0]\<rparr>,
      AVPTEncode \<lparr>a_ID = 772, a_Payload = mk_buf 8\<rparr>]"

definition preview :: "bytes \<Rightarrow> nat \<Rightarrow> bytes" where
  "preview b n = (if length b < n then b else take n b)"

text \<open>The frame reader: what it logs of each frame (type or id, length, first bytes) and the error it ends with.\<close>

function probe_read :: "byte \<Rightarrow> bytes \<Rightarrow> (u16 \<times> nat \<times> bytes) list \<times> gerror" where
  "probe_read chanType inp =
     (if chanType = SessionTypeVM then
        (case ReadFrame inp of
           (Inl e, _) \<Rightarrow> ([], e)
         | (Inr f, rest) \<Rightarrow> apfst (Cons (f_Type f, length (f_Payload f), preview (f_Payload f) 32)) (probe_read chanType rest))
      else
        (case ReadAVPTFrame inp of
           (Inl e, _) \<Rightarrow> ([], e)
         | (Inr f, rest) \<Rightarrow> apfst (Cons (a_ID f, length (a_Payload f), preview (a_Payload f) 32)) (probe_read chanType rest)))"
  by pat_completeness auto
termination
  by (relation "measure (\<lambda>(t, inp). length inp)") (auto dest: avpt.rd_shrinks [OF sym] avmp.rd_shrinks [OF sym])

declare probe_read.simps [simp del]

section \<open>apcp-capture\<close>

definition is_tile :: "u16 \<Rightarrow> bool" where
  "is_tile i \<longleftrightarrow> 129 \<le> i \<and> i \<le> 138 \<or> i = 34305 \<or> i = 34306 \<or> i = 34307 \<or> i = 34310 \<or> i = 34314"

text \<open>\<open>%04d\<close>, and the name of a tile file.\<close>

definition dec4 :: "nat \<Rightarrow> string" where
  "dec4 n = replicate (4 - length (dec n)) (CHR ''0'') @ dec n"

definition tile_name :: "string \<Rightarrow> nat \<Rightarrow> AVPTFrame \<Rightarrow> string" where
  "tile_name outDir saved f =
     outDir @ ''/tile-'' @ dec4 saved @ ''-id'' @ dec (unat (a_ID f)) @ ''-len'' @ dec (length (a_Payload f)) @ ''.bin''"

text \<open>The loop: \<open>write\<close> is the outcome of writing the file of the given name; the result is the files written, in order.\<close>

function capture_loop :: "(string \<Rightarrow> gerror option) \<Rightarrow> string \<Rightarrow> nat \<Rightarrow> int \<Rightarrow> bytes \<Rightarrow> (string \<times> bytes) list" where
  "capture_loop write outDir saved nTiles inp =
     (if int saved < nTiles then
        (case ReadAVPTFrame inp of
           (Inl e, _) \<Rightarrow> []
         | (Inr f, rest) \<Rightarrow>
             if \<not> is_tile (a_ID f) then capture_loop write outDir saved nTiles rest
             else
               let name = tile_name outDir saved f
               in (case write name of
                     Some e \<Rightarrow> []
                   | None \<Rightarrow> (name, a_Payload f) # capture_loop write outDir (saved + 1) nTiles rest))
      else [])"
  by pat_completeness auto
termination
  by (relation "measure (\<lambda>(w, d, s, n, inp). length inp)") (auto dest: avpt.rd_shrinks [OF sym])

declare capture_loop.simps [simp del]

section \<open>beefkvm-power\<close>

datatype power_exit = PowerUsage | PowerFatal gerror | PowerPanic gerror | PowerStatusLine ChassisStatus | PowerDone

definition fatal :: "string \<Rightarrow> gerror \<Rightarrow> power_exit" where
  "fatal what e = (if is_panic e then PowerPanic e else PowerFatal (Wrapf what e))"

definition strip_boot :: "bytes \<Rightarrow> bytes option" where
  "strip_boot cmd = (if take 5 cmd = str_bytes ''boot='' then Some (drop 5 cmd) else None)"

definition must :: "gerror option \<times> IpmiClient \<Rightarrow> power_exit \<times> IpmiClient" where
  "must r = (case r of (Some e, c) \<Rightarrow> (fatal ''ikvm-power: '' e, c) | (None, c) \<Rightarrow> (PowerDone, c))"

definition power_command :: "(bytes \<Rightarrow> string) \<Rightarrow> ipmi_env \<Rightarrow> bytes \<Rightarrow> IpmiClient \<Rightarrow> power_exit \<times> IpmiClient" where
  "power_command quote env cmd c =
     (if cmd = str_bytes ''status'' then
        (case PowerStatus env c of (Inl e, c) \<Rightarrow> (fatal ''ikvm-power: status: '' e, c) | (Inr st, c) \<Rightarrow> (PowerStatusLine st, c))
      else if cmd = str_bytes ''on'' then must (PowerOn env c)
      else if cmd = str_bytes ''off'' then must (PowerOff env c)
      else if cmd = str_bytes ''cycle'' then must (PowerCycle env c)
      else if cmd = str_bytes ''reset'' then must (PowerReset env c)
      else if cmd = str_bytes ''soft'' then must (PowerSoftShutdown env c)
      else
        (case strip_boot cmd of
           Some dev \<Rightarrow> must (SetOneTimeBoot quote env dev c)
         | None \<Rightarrow> (PowerFatal (Errorf (''ikvm-power: unknown command '' @ quote cmd)), c)))"

text \<open>The deferred \<open>Close\<close> runs when \<open>main\<close> returns or panics, not when \<open>log.Fatal\<close> exits.  The client is the one the process ends with.\<close>

definition power_main :: "(bytes \<Rightarrow> string) \<Rightarrow> ipmi_env \<Rightarrow> bytes \<Rightarrow> bytes \<Rightarrow> bytes list \<Rightarrow> power_exit \<times> IpmiClient" where
  "power_main quote env user pass args =
     (if length args = 0 then (PowerUsage, \<lparr>c_sess = None\<rparr>)
      else if pass = [] then (PowerFatal (Errorf ''ikvm-power: BMC_PASS (or --pass) required''), \<lparr>c_sess = None\<rparr>)
      else
        (case client_Open env user pass of
           Inl e \<Rightarrow> (fatal ''ikvm-power: open: '' e, \<lparr>c_sess = None\<rparr>)
         | Inr c \<Rightarrow>
             (case power_command quote env (args ! 0) c of
                (PowerFatal e, c) \<Rightarrow> (PowerFatal e, c)
              | (x, c) \<Rightarrow> (x, snd (client_Close env c)))))"

section \<open>beefkvm-vm and beefkvm-usb\<close>

text \<open>The media chosen by the flags, or the reason the tool refuses to start.\<close>

datatype vm_choice = VmFatal string | UseISO bytes | UseFloppy bytes | UseUSB bytes

definition vm_checks :: "bytes \<Rightarrow> bytes \<Rightarrow> bytes \<Rightarrow> bytes \<Rightarrow> bytes \<Rightarrow> vm_choice" where
  "vm_checks isoPath floppy usb pass pin =
     (if isoPath = [] \<and> floppy = [] \<and> usb = [] then VmFatal ''one of --iso, --floppy, or --usb required''
      else if isoPath \<noteq> [] \<and> floppy \<noteq> [] \<or> isoPath \<noteq> [] \<and> usb \<noteq> [] \<or> floppy \<noteq> [] \<and> usb \<noteq> [] then
        VmFatal ''only one of --iso, --floppy, or --usb allowed''
      else if pass = [] \<or> pin = [] then VmFatal ''BMC_PASS and BMC_PIN (or --pass/--pin) required''
      else if isoPath \<noteq> [] then UseISO isoPath
      else if floppy \<noteq> [] then UseFloppy floppy
      else UseUSB usb)"

definition open_error :: "string \<Rightarrow> bytes \<Rightarrow> Media result \<Rightarrow> Media result" where
  "open_error what path r = map_sum (\<lambda>e. if is_panic e then e else Wrapf (''open '' @ what @ '' '' @ bytes_str path @ '': '') e) id r"

definition vm_open :: "media_files \<Rightarrow> vm_choice \<Rightarrow> Media result" where
  "vm_open fs c =
     (case c of
        VmFatal msg \<Rightarrow> Inl (Errorf msg)
      | UseISO p \<Rightarrow> open_error ''ISO'' p (OpenCD (mf_open fs) (mf_stat fs) p)
      | UseFloppy p \<Rightarrow> open_error ''floppy'' p (OpenFloppy (mf_open fs) (mf_stat fs) p False)
      | UseUSB p \<Rightarrow> open_error ''USB'' p (OpenUSB (mf_open fs) (mf_stat fs) None (mf_stat fs) p False 0))"

definition usb_checks :: "bytes \<Rightarrow> bytes \<Rightarrow> bytes \<Rightarrow> string option" where
  "usb_checks img pass pin =
     (if img = [] then Some ''--img <path> required''
      else if pass = [] \<or> pin = [] then Some ''BMC_PASS and BMC_PIN (or --pass/--pin) required''
      else None)"

definition usb_open :: "media_files \<Rightarrow> gerror option \<Rightarrow> bytes \<Rightarrow> bool \<Rightarrow> int \<Rightarrow> Media result" where
  "usb_open fs trunc img create sz = open_error ''USB image'' img (OpenUSB (mf_open fs) (mf_stat fs) trunc (mf_stat fs) img create sz)"

text \<open>The tools' own \<open>itoa\<close>: digits are written backwards into a buffer of twenty bytes; an index below zero is a panic.  Negation wraps.\<close>

definition put_back :: "nat \<times> string \<Rightarrow> char \<Rightarrow> (nat \<times> string) result" where
  "put_back ib c = (case ib of (0, buf) \<Rightarrow> Inl (Panic ''index out of range'') | (Suc i, buf) \<Rightarrow> Inr (i, buf[i := c]))"

function itoa_loop :: "int \<Rightarrow> nat \<times> string \<Rightarrow> (nat \<times> string) result" where
  "itoa_loop n ib =
     (if n > 0 then
        (case put_back ib (char_of (48 + nat (n mod 10))) of
           Inl e \<Rightarrow> Inl e
         | Inr ib \<Rightarrow> itoa_loop (n div 10) ib)
      else Inr ib)"
  by pat_completeness auto
termination by (relation "measure (\<lambda>(n, ib). nat n)") auto

declare itoa_loop.simps [simp del]

definition neg64 :: "int \<Rightarrow> int" where
  "neg64 n = (if n = - (2 ^ 63) then n else - n)"

definition itoa :: "int \<Rightarrow> string result" where
  "itoa n =
     (if n = 0 then Inr ''0''
      else
        let neg = n < 0;
            n = (if neg then neg64 n else n)
        in case itoa_loop n (20, replicate 20 (CHR 0x00)) of
             Inl e \<Rightarrow> Inl e
           | Inr ib \<Rightarrow>
               (case (if neg then put_back ib (CHR ''-'') else Inr ib) of
                  Inl e \<Rightarrow> Inl e
                | Inr (i, buf) \<Rightarrow> Inr (drop i buf)))"

section \<open>Lemmas\<close>

lemma char_digit: "n < 10 \<Longrightarrow> (char_of (48 + n) :: char) = hex_digit n"
proof -
  have "\<forall>n \<in> set [0..<10]. (char_of (48 + n :: nat) :: char) = hex_digit n" by code_simp
  then show "n < 10 \<Longrightarrow> (char_of (48 + n) :: char) = hex_digit n" by simp
qed

lemma length_dec: "n < 10 ^ Suc k \<Longrightarrow> length (dec n) \<le> Suc k"
proof (induction k arbitrary: n)
  case 0
  then show ?case by (subst dec.simps) simp
next
  case (Suc k)
  then have "n div 10 < 10 ^ Suc k" by (simp add: less_mult_imp_div_less mult.commute)
  with Suc.IH [of "n div 10"] show ?case by (subst dec.simps) simp
qed

text \<open>The loop fills the buffer from the right with the decimal digits.\<close>

lemma itoa_loop_digits:
  "0 < n \<Longrightarrow> length (dec n) \<le> i \<Longrightarrow> length pre = i \<Longrightarrow>
     \<exists>pre'. itoa_loop (int n) (i, pre @ post) = Inr (i - length (dec n), pre' @ dec n @ post) \<and> length pre' = i - length (dec n)"
proof (induction n arbitrary: i pre post rule: less_induct)
  case (less n)
  then obtain j where i: "i = Suc j" by (cases i) (auto simp: dec.simps [of n] split: if_splits)
  obtain pre1 c where pre: "pre = pre1 @ [c]" "length pre1 = j" using less.prems(3) i by (metis append_butlast_last_id diff_Suc_1 length_butlast length_greater_0_conv zero_less_Suc)
  have d: "char_of (48 + nat (int n mod 10)) = hex_digit (n mod 10)" by (subst char_digit [symmetric]) (simp_all add: nat_mod_distrib)
  have step: "itoa_loop (int n) (i, pre @ post) = itoa_loop (int (n div 10)) (j, pre1 @ [hex_digit (n mod 10)] @ post)"
    using less.prems(1) by (subst itoa_loop.simps) (simp add: put_back_def i pre d zdiv_int list_update_append)
  show ?case
  proof (cases "n < 10")
    case True
    then show ?thesis using step pre i less.prems by (intro exI [of _ pre1]) (subst (asm) itoa_loop.simps, simp add: dec.simps [of n])
  next
    case False
    have dn: "dec n = dec (n div 10) @ [hex_digit (n mod 10)]" using False by (simp add: dec.simps [of n])
    have "n div 10 < n" "0 < n div 10" "length (dec (n div 10)) \<le> j" using False less.prems(2) dn i by auto
    from less.IH [OF this(1,2,3) pre(2), of "[hex_digit (n mod 10)] @ post"] show ?thesis using step dn i by auto
  qed
qed

lemma capture_loop_frames:
  "length inp < fuel \<Longrightarrow> read_all ReadAVPTFrame fuel inp = Some (fs, e) \<Longrightarrow> capture_loop (\<lambda>name. None) outDir saved nTiles inp =
     map (\<lambda>(i, f). (tile_name outDir i f, a_Payload f)) (enumerate saved (take (nat (nTiles - int saved)) (filter (\<lambda>f. is_tile (a_ID f)) fs)))"
proof (induction fuel arbitrary: inp fs saved)
  case (Suc fuel)
  obtain r rest where r: "ReadAVPTFrame inp = (r, rest)" by fastforce
  show ?case
  proof (cases "int saved < nTiles")
    case False
    then show ?thesis by (subst capture_loop.simps) simp
  next
    case True
    then have n: "nat (nTiles - int saved) = Suc (nat (nTiles - int (saved + 1)))" by simp
    show ?thesis
    proof (cases r)
      case (Inl e')
      then show ?thesis using Suc.prems r by (subst capture_loop.simps) simp
    next
      case (Inr f)
      then obtain fs' where fs: "fs = f # fs'" "read_all ReadAVPTFrame fuel rest = Some (fs', e)" using Suc.prems r by auto
      have l: "length rest < fuel" using avpt.rd_shrinks [of inp f rest] r Inr Suc.prems by simp
      note IH = Suc.IH [OF l fs(2)]
      show ?thesis using True r Inr fs(1) IH [of saved] IH [of "saved + 1"] by (subst capture_loop.simps) (simp add: n Let_def)
    qed
  qed
qed simp

lemma rawCall_open: "rawCall env netFn cmd data s = (r, s') \<Longrightarrow> ss_closed s' = ss_closed s"
  by (drule rawCall_effect) auto

lemma must_client: "snd (must r) = snd r"
  by (auto simp: must_def split: prod.splits option.splits)

lemma power_command_open:
  assumes "c_sess c = Some s" "power_command quote env cmd c = (x, c')"
  shows "\<exists>s'. c_sess c' = Some s' \<and> ss_closed s' = ss_closed s"
proof -
  define alive where "alive d \<longleftrightarrow> (\<exists>s'. c_sess d = Some s' \<and> ss_closed s' = ss_closed s)" for d :: IpmiClient
  have ctl: "alive (snd (with_sess (chassisControl env a) Some c))" for a
    using assms(1) by (auto simp: alive_def with_sess_def chassisControl_def split: prod.splits sum.splits if_splits dest: rawCall_open)
  have boot: "alive (snd (with_sess (setBootDevice env d) Some c))" for d
    using assms(1) by (auto simp: alive_def with_sess_def setBootDevice_def Let_def split: prod.splits sum.splits if_splits dest: rawCall_open)
  have st: "alive (snd (with_sess (getChassisStatus env) Inl c))"
    using assms(1) by (auto simp: alive_def with_sess_def getChassisStatus_def Let_def split: prod.splits sum.splits if_splits dest: rawCall_open)
  have status: "snd (case r of (Inl e, c) \<Rightarrow> (f e, c) | (Inr y, c) \<Rightarrow> (g y, c)) = snd r"
    for r :: "ChassisStatus result \<times> IpmiClient" and f and g :: "ChassisStatus \<Rightarrow> power_exit"
    by (cases r; cases "fst r") auto
  have "alive c" using assms(1) by (simp add: alive_def)
  with boot have dev: "alive (snd (SetOneTimeBoot quote env d c))" for d by (simp add: SetOneTimeBoot_def split: option.split)
  have "alive (snd (power_command quote env cmd c))"
    unfolding power_command_def PowerStatus_def PowerOn_def PowerOff_def PowerCycle_def PowerReset_def PowerSoftShutdown_def
    using \<open>alive c\<close> by (simp add: must_client status ctl dev st split: option.split)
  with assms(2) show ?thesis by (simp add: alive_def)
qed

section \<open>Properties\<close>

text \<open>C15: A learned pin works.  If the BMC presents the same chain on every connection, the fingerprint \<open>apcp-probe --learn-pin\<close> prints is
  accepted by the bridge's flag check, and every upgrade of a connection to that BMC with it succeeds, also when written in upper case or with
  colons.\<close>

theorem learned_pin_works:
  assumes "honours P U" and "\<And>raw. serves P U raw certs" and "fst (runLearnPin P U dialled host l) = Inr p"
    and "fl_host opts \<noteq> []" and "fl_pass opts \<noteq> []" and "\<not> fl_showVersion opts" and "to_lower (strip_colons q) = p"
  shows "main_checks (opts\<lparr>fl_pin := q\<rparr>) = Start \<and> (\<exists>c. fst (UpgradeToTLS P U raw2 h2 q l2) = Inr c)"
proof -
  obtain raw where "fst (PinFromServer P U raw host l) = Inr p"
    using assms(3) by (auto simp: runLearnPin_def Let_def split: sum.splits prod.splits option.splits if_splits)
  then obtain l1 where p: "PinFromServer P U raw host l = (Inr p, l1)" by (metis prod.collapse)
  obtain c leaf chain where h: "handshake P U raw host [] l = (Inr (c, leaf # chain), l1)" "p = FingerprintSHA256 leaf"
    using p by (auto simp: PinFromServer_ok)
  then have "certs = leaf # chain" using assms(2) [of raw] unfolding serves_def handshake_ok by metis
  then have "\<exists>c. fst (UpgradeToTLS P U raw2 h2 q l2) = Inr c"
    using learned_pin_selects_leaf [OF assms(1,2,2) p assms(7), of raw2 h2 l2] by simp
  moreover have "q \<noteq> []" using assms(7) h(2) by (auto simp: strip_colons_def)
  ultimately show ?thesis using assms(4-6) by (simp add: main_checks_def)
qed

definition demo_flags :: flags where
  "demo_flags = \<lparr>fl_host = [1], fl_user = [1], fl_pass = [1], fl_pin = [], fl_videoRes = [], fl_ipmiUser = [], fl_ipmiPass = [], fl_showVersion = False\<rparr>"

theorem learned_pin_works_witness:
  "\<exists>p. fst (runLearnPin demo_x509 (demo_utls [demo_cert [1]]) (Inr \<lparr>c_in = demo_setup 4, c_wr = []\<rparr>) ''bmc'' None) = Inr p
     \<and> main_checks (demo_flags\<lparr>fl_pin := p\<rparr>) = Start
     \<and> (\<exists>c. fst (UpgradeToTLS demo_x509 (demo_utls [demo_cert [1]]) \<lparr>c_in = [], c_wr = []\<rparr> ''bmc'' p None) = Inr c)"
proof -
  let ?U = "demo_utls [demo_cert [1]]" and ?p = "FingerprintSHA256 (demo_cert [1])"
  have pin: "fst (PinFromServer demo_x509 ?U raw ''bmc'' None) = Inr ?p" for raw
    by (simp add: PinFromServer_def handshake_def tls_config_def demo_utls_def verify_peer_def demo_x509_def demo_cert_def)
  have "conn_read_full SessionRequestLen \<lparr>c_in = demo_setup 4, c_wr = []\<rparr> = (Inr (demo_setup 4), \<lparr>c_in = [], c_wr = []\<rparr>)" by code_simp
  moreover have "case DecodeSessionSetup (demo_setup 4) of Inl e \<Rightarrow> False | Inr stp \<Rightarrow> SupportsSSL stp" by code_simp
  ultimately have r: "fst (runLearnPin demo_x509 ?U (Inr \<lparr>c_in = demo_setup 4, c_wr = []\<rparr>) ''bmc'' None) = Inr ?p"
    unfolding runLearnPin_def by (auto simp: Let_def conn_write_def pin split: sum.splits)
  show ?thesis
    using r learned_pin_works [OF demo_honours demo_serves r, of demo_flags ?p] by (auto simp: demo_flags_def)
qed

text \<open>The tools' decimal printer stays inside its twenty-byte buffer for every 64-bit integer and prints the decimal form, with one
  exception: for the least integer the negation wraps, no digit is written, and the result is a lone minus sign.\<close>

theorem itoa_decimal:
  assumes "- (2 ^ 63) \<le> n" and "n < 2 ^ 63"
  shows "itoa n = Inr (if n = - (2 ^ 63) then ''-'' else if n < 0 then ''-'' @ dec (nat (- n)) else dec (nat n))"
proof -
  have loop: "\<exists>pre'. itoa_loop (int m) (20, replicate 20 (CHR 0x00)) = Inr (20 - length (dec m), pre' @ dec m) \<and> length pre' = 20 - length (dec m)
      \<and> length (dec m) \<le> 19" if "0 < m" "m < 2 ^ 63" for m
  proof -
    have "length (dec m) \<le> Suc 18" by (rule length_dec) (use that in simp)
    with itoa_loop_digits [of m 20 "replicate 20 (CHR 0x00)" "[]"] that show ?thesis by simp
  qed
  consider "n = 0" | "0 < n" | "n = - (2 ^ 63)" | "n < 0" "n \<noteq> - (2 ^ 63)" by linarith
  then show ?thesis
  proof cases
    case 1
    then show ?thesis by (simp add: itoa_def dec.simps hex_digit_def)
  next
    case 2
    then have "0 < nat n" "nat n < 2 ^ 63" "int (nat n) = n" using assms by (simp_all add: nat_less_iff)
    with loop [OF this(1,2)] 2 show ?thesis by (auto simp: itoa_def Let_def)
  next
    case 3
    have "itoa_loop (- (2 ^ 63)) ib = Inr ib" for ib by (subst itoa_loop.simps) simp
    then show ?thesis using 3 by (simp add: itoa_def Let_def neg64_def put_back_def numeral_eq_Suc)
  next
    case 4
    have m: "0 < nat (- n)" "nat (- n) < 2 ^ 63" "int (nat (- n)) = - n" using 4 assms by (simp_all add: nat_less_iff)
    from loop [OF this(1,2)] obtain pre' where l: "itoa_loop (- n) (20, replicate 20 (CHR 0x00)) = Inr (20 - length (dec (nat (- n))), pre' @ dec (nat (- n)))"
      "length pre' = 20 - length (dec (nat (- n)))" "length (dec (nat (- n))) \<le> 19" using m(3) by auto
    obtain j where j: "20 - length (dec (nat (- n))) = Suc j" using l(3) by (cases "20 - length (dec (nat (- n)))") auto
    obtain pre1 c where "pre' = pre1 @ [c]" "length pre1 = j" using l(2) j by (metis append_butlast_last_id diff_Suc_1 length_butlast length_greater_0_conv zero_less_Suc)
    then show ?thesis using 4 l(1) j by (simp add: itoa_def Let_def neg64_def put_back_def list_update_append)
  qed
qed

theorem itoa_decimal_witness: "itoa (- (2 ^ 63)) = Inr ''-''"
  using itoa_decimal [of "- (2 ^ 63)"] by simp

text \<open>The capture tool saves the first tiles.  When every file can be written, the files are exactly the payloads of the first \<open>n\<close> frames
  whose id is a tile id, in the order received, under names numbered from the start; other frames are skipped.\<close>

theorem capture_saves_first_tiles:
  assumes "length inp < fuel" and "read_all ReadAVPTFrame fuel inp = Some (fs, e)"
  shows "capture_loop (\<lambda>name. None) outDir 0 nTiles inp =
    map (\<lambda>(i, f). (tile_name outDir i f, a_Payload f)) (enumerate 0 (take (nat nTiles) (filter (\<lambda>f. is_tile (a_ID f)) fs)))"
  using capture_loop_frames [OF assms, of outDir 0 nTiles] by simp

theorem capture_saves_first_tiles_witness:
  "capture_loop (\<lambda>name. None) ''d'' 0 1 (AVPTEncode \<lparr>a_ID = 5, a_Payload = []\<rparr> @ AVPTEncode \<lparr>a_ID = 130, a_Payload = [7]\<rparr>)
     = [(''d/tile-0000-id130-len1.bin'', [7])]"
proof -
  let ?inp = "AVPTEncode \<lparr>a_ID = 5, a_Payload = []\<rparr> @ AVPTEncode \<lparr>a_ID = 130, a_Payload = [7]\<rparr>"
  have "read_all ReadAVPTFrame 30 ?inp = Some ([\<lparr>a_ID = 5, a_Payload = []\<rparr>, \<lparr>a_ID = 130, a_Payload = [7]\<rparr>], EOF)" by code_simp
  moreover have "length ?inp < 30" by code_simp
  moreover have "tile_name ''d'' 0 \<lparr>a_ID = 130, a_Payload = [7]\<rparr> = ''d/tile-0000-id130-len1.bin''" by code_simp
  ultimately show ?thesis using capture_saves_first_tiles [of ?inp 30 _ _ "''d''" 1] by (simp add: is_tile_def)
qed

text \<open>The power tool releases its BMC session only when the command succeeds.  After a successful command the session is closed (short of a
  panic of the random source); after a failing one the process exits through \<open>log.Fatal\<close> with the session still open on the BMC.\<close>

theorem power_main_session:
  "if args = [] \<or> pass = [] then c_sess (snd (power_main quote env user pass args)) = None
   else case client_Open env user pass of
     Inl e \<Rightarrow> power_main quote env user pass args = (fatal ''ikvm-power: open: '' e, \<lparr>c_sess = None\<rparr>)
   | Inr c \<Rightarrow>
       (case power_command quote env (hd args) c of
          (PowerFatal e, c') \<Rightarrow> (\<exists>s. power_main quote env user pass args = (PowerFatal e, c') \<and> c_sess c' = Some s \<and> \<not> ss_closed s)
        | (x, c') \<Rightarrow> (\<exists>c''. power_main quote env user pass args = (x, c'')
            \<and> (c_sess c'' = None \<or> (\<exists>e. fst (client_Close env c') = Some e \<and> is_panic e))))"
proof (cases "args = [] \<or> pass = []")
  case True
  then show ?thesis by (auto simp: power_main_def)
next
  case False
  show ?thesis
  proof (cases "client_Open env user pass")
    case (Inl e)
    then show ?thesis using False by (auto simp: power_main_def)
  next
    case c: (Inr c)
    obtain x c' where pc: "power_command quote env (hd args) c = (x, c')" by fastforce
    obtain s so where s: "c = \<lparr>c_sess = Some s\<rparr>" "Dial env user pass = (Inr s, so)"
      using c by (auto simp: client_Open_def split: prod.splits sum.splits)
    then have "\<not> ss_closed s" using dial_cases [of env user pass] by auto
    then obtain s' where s': "c_sess c' = Some s'" "\<not> ss_closed s'" using power_command_open [OF _ pc, of s] s(1) by auto
    have "c_sess (snd (client_Close env c')) = None \<or> (\<exists>e. fst (client_Close env c') = Some e \<and> is_panic e)"
      by (auto simp: client_Close_def s'(1) split: option.splits prod.splits)
    moreover have "power_main quote env user pass args = (case (x, c') of
        (PowerFatal e, c) \<Rightarrow> (PowerFatal e, c)
      | (x, c) \<Rightarrow> (x, snd (client_Close env c)))"
      using False c pc by (simp add: power_main_def hd_conv_nth)
    ultimately show ?thesis using s' c pc False by (cases x) auto
  qed
qed

text \<open>The probe asks for the same video stream as the bridge does for its default resolution.\<close>

theorem probe_video_request: "probe_video_frames = video_setup_frames 1024 768"
  by code_simp

text \<open>The probe's virtual-media channel runs without a pin: with a password and no pin it starts, and the certificate callback then accepts
  whatever the peer presents, or nothing at all.\<close>

theorem probe_vm_unpinned:
  assumes "pass \<noteq> []"
  shows "probe_checks quote \<lparr>pf_pass = pass, pf_pin = [], pf_learnPin = False, pf_channel = str_bytes ''vm''\<rparr> = Probe SessionTypeVM
    \<and> fst (u_VerifyPeerCertificate (tls_config P []) certs l) = None"
  using assms by (simp add: probe_checks_def str_bytes_def tls_config_def verify_peer_unpinned)

theorem probe_vm_unpinned_witness:
  "probe_checks (\<lambda>s. ''?'') \<lparr>pf_pass = [1], pf_pin = [], pf_learnPin = False, pf_channel = str_bytes ''vm''\<rparr> = Probe SessionTypeVM"
  using probe_vm_unpinned [of "[1]"] by simp

text \<open>Learning a pin needs a password: without one the probe refuses to start, whatever its other flags.\<close>

theorem learn_pin_needs_password:
  "probe_checks quote \<lparr>pf_pass = [], pf_pin = pin, pf_learnPin = True, pf_channel = ch\<rparr> = ProbeFatal ''apcp-probe: --pass or BMC_PASS required''"
  by (simp add: probe_checks_def)

text \<open>The mount tool starts on exactly one image: with password and pin it opens the image of the one flag given, and refuses none or two;
  an ISO and a floppy are opened read-only.\<close>

theorem vm_tool_one_image:
  assumes "pass \<noteq> []" and "pin \<noteq> []"
  shows "(\<exists>msg. vm_checks isoPath floppy usb pass pin = VmFatal msg) \<longleftrightarrow> length (filter (\<lambda>p. p \<noteq> []) [isoPath, floppy, usb]) \<noteq> 1"
    and "vm_open fs (vm_checks isoPath floppy usb pass pin) = Inr m \<Longrightarrow> usb = [] \<Longrightarrow> m_readOnly m"
  using assms by (auto simp: vm_checks_def vm_open_def open_error_def OpenCD_def OpenFloppy_def split: if_splits vm_choice.splits sum.splits option.splits)

end
