(* ===== verification/Vcard_Pcsc.thy ===== *)
theory Vcard_Pcsc
  imports Vcard_Session
begin

text \<open>
  The PC/SC backends of the smart-card session (\<open>internal/vcard/pcsc_linux.go\<close>, \<open>pcsc_darwin.go\<close>, \<open>pcsc_windows.go\<close>,
  \<open>pcsc_stub.go\<close>).  The PC/SC library is a record of calls over its state \<open>'s\<close>: each returns its status code and what it writes through
  its pointers; the constants of its headers are fields.  Reader names are lists of characters \<open>'w\<close>, bytes for the C interface
  and 16-bit units for \<open>winscard.dll\<close>.  A slice beyond its buffer and the address of the first element of an empty one are the panics they
  are in Go.
\<close>

section \<open>The PC/SC library\<close>

record ('s, 'w) scard =
  sc_Establish :: "'s \<Rightarrow> (u32 \<times> u64) \<times> 's"
  sc_ListLen :: "u64 \<Rightarrow> 's \<Rightarrow> (u32 \<times> u32) \<times> 's"
  sc_List :: "u64 \<Rightarrow> u32 \<Rightarrow> 's \<Rightarrow> (u32 \<times> 'w list) \<times> 's"
  sc_Connect :: "u64 \<Rightarrow> 'w list \<Rightarrow> 's \<Rightarrow> (u32 \<times> u64 \<times> u32) \<times> 's"
  sc_Status :: "u64 \<Rightarrow> 's \<Rightarrow> (u32 \<times> u32 \<times> bytes \<times> u32) \<times> 's"
  sc_Transmit :: "u64 \<Rightarrow> u32 \<Rightarrow> bytes \<Rightarrow> nat \<Rightarrow> 's \<Rightarrow> (u32 \<times> bytes \<times> u32) \<times> 's"
  sc_Disconnect :: "u64 \<Rightarrow> 's \<Rightarrow> 's"
  sc_Release :: "u64 \<Rightarrow> 's \<Rightarrow> 's"
  sc_T0 :: u32
  sc_T1 :: u32
  sc_PRESENT :: u32
  sc_MaxATR :: nat

abbreviation (input) bounds_panic :: gerror where "bounds_panic \<equiv> Panic ''slice bounds out of range''"

text \<open>A buffer of \<open>n\<close> zeros after the library has written \<open>w\<close> into it, and its prefix \<open>buf[:n]\<close>.\<close>

definition written :: "nat \<Rightarrow> 'w :: zero list \<Rightarrow> 'w list" where
  "written n w = copy_from 0 w (replicate n 0)"

definition prefix_of :: "'w list \<Rightarrow> u32 \<Rightarrow> 'w list result" where
  "prefix_of buf n = (if unat n \<le> length buf then Inr (take (unat n) buf) else Inl bounds_panic)"

definition scardErr :: "string \<Rightarrow> u32 \<Rightarrow> gerror" where
  "scardErr what rv = Errorf (what @ '': 0x'' @ hexs (putBE32 rv))"

definition no_card_code :: "u32 \<Rightarrow> bool" where
  "no_card_code rv \<longleftrightarrow> rv = 0x8010000C \<or> rv = 0x80100069"

section \<open>The cgo backends\<close>

text \<open>\<open>LinuxPCSCReader\<close> and \<open>PCSCReader\<close> have the same fields.\<close>

record cgo_reader =
  cr_ctx :: u64
  cr_card :: u64
  cr_proto :: u32
  cr_readers :: bytes
  cr_atr :: bytes

definition cgo_Name :: "cgo_reader \<Rightarrow> bytes" where
  "cgo_Name r = (if cr_readers r = [] then [] else take (cStringLen (cr_readers r)) (cr_readers r))"

text \<open>From \<open>SCardConnect\<close> to the end of the constructor: the two backends have the same statements here.\<close>

definition cgo_connect :: "('s, byte) scard \<Rightarrow> cgo_reader \<Rightarrow> 's \<Rightarrow> cgo_reader result \<times> 's" where
  "cgo_connect api r s =
     (case sc_Connect api (cr_ctx r) (take (cStringLen (cr_readers r)) (cr_readers r)) s of
        ((rv, hcard, proto), s) \<Rightarrow>
          let r = r\<lparr>cr_card := hcard\<rparr>
          in if rv \<noteq> 0 then
               if no_card_code rv then (Inr r, s) else (Inl (scardErr ''SCardConnect'' rv), sc_Release api (cr_ctx r) s)
             else
               let r = r\<lparr>cr_proto := proto\<rparr>
               in case sc_Status api (cr_card r) s of
                    ((rv, state, atr, n), s) \<Rightarrow>
                      if rv = 0 then
                        (case prefix_of (written (sc_MaxATR api) atr) n of
                           Inl e \<Rightarrow> (Inl e, s)
                         | Inr a \<Rightarrow> (Inr (r\<lparr>cr_atr := a\<rparr>), s))
                      else (Inr r, s))"

definition NewLinuxPCSCReader :: "('s, byte) scard \<Rightarrow> 's \<Rightarrow> cgo_reader result \<times> 's" where
  "NewLinuxPCSCReader api s =
     (case sc_Establish api s of ((rv, ctx), s) \<Rightarrow>
        if rv \<noteq> 0 then (Inl (scardErr ''SCardEstablishContext'' rv), s)
        else (case sc_ListLen api ctx s of ((rv, n), s) \<Rightarrow>
          if rv \<noteq> 0 then (Inl (scardErr ''SCardListReaders'' rv), sc_Release api ctx s)
          else if n = 0 then (Inl (Errorf ''no smart-card readers attached''), sc_Release api ctx s)
          else (case sc_List api ctx n s of ((rv, w), s) \<Rightarrow>
            if rv \<noteq> 0 then (Inl (scardErr ''SCardListReaders'' rv), sc_Release api ctx s)
            else cgo_connect api \<lparr>cr_ctx = ctx, cr_card = 0, cr_proto = 0, cr_readers = written (unat n) w, cr_atr = []\<rparr> s)))"

text \<open>On macOS \<open>&r.readers[0]\<close> is taken of a list that may be empty.\<close>

definition NewPCSCReader :: "('s, byte) scard \<Rightarrow> 's \<Rightarrow> cgo_reader result \<times> 's" where
  "NewPCSCReader api s =
     (case sc_Establish api s of ((rv, ctx), s) \<Rightarrow>
        if rv \<noteq> 0 then (Inl (scardErr ''SCardEstablishContext'' rv), s)
        else (case sc_ListLen api ctx s of ((rv, n), s) \<Rightarrow>
          if rv \<noteq> 0 then (Inl (scardErr ''SCardListReaders'' rv), sc_Release api ctx s)
          else if n = 0 then (Inl (Panic ''index out of range''), s)
          else (case sc_List api ctx n s of ((rv, w), s) \<Rightarrow>
            if rv \<noteq> 0 then (Inl (scardErr ''SCardListReaders'' rv), sc_Release api ctx s)
            else cgo_connect api \<lparr>cr_ctx = ctx, cr_card = 0, cr_proto = 0, cr_readers = written (unat n) w, cr_atr = []\<rparr> s)))"

definition cgo_exchange :: "('s, byte) scard \<Rightarrow> cgo_reader \<Rightarrow> bytes \<Rightarrow> 's \<Rightarrow> bytes result \<times> 's" where
  "cgo_exchange api r apdu s =
     (let pci = (if cr_proto r = sc_T0 api then sc_T0 api else sc_T1 api)
      in case sc_Transmit api (cr_card r) pci apdu 258 s of ((rv, w, n), s) \<Rightarrow>
           if rv \<noteq> 0 then (Inl (scardErr ''SCardTransmit'' rv), s) else (prefix_of (written 258 w) n, s))"

definition linux_Transmit :: "('s, byte) scard \<Rightarrow> cgo_reader \<Rightarrow> bytes \<Rightarrow> 's \<Rightarrow> bytes result \<times> 's" where
  "linux_Transmit api r apdu s =
     (if cr_card r = 0 then (Inl (Errorf ''no card connected''), s)
      else if apdu = [] then (Inl (Errorf ''empty APDU''), s)
      else cgo_exchange api r apdu s)"

text \<open>The macOS backend takes \<open>&apdu[0]\<close> without the guard.\<close>

definition darwin_Transmit :: "('s, byte) scard \<Rightarrow> cgo_reader \<Rightarrow> bytes \<Rightarrow> 's \<Rightarrow> bytes result \<times> 's" where
  "darwin_Transmit api r apdu s =
     (if cr_card r = 0 then (Inl (Errorf ''no card connected''), s)
      else if apdu = [] then (Inl (Panic ''index out of range''), s)
      else cgo_exchange api r apdu s)"

definition cgo_Present :: "('s, byte) scard \<Rightarrow> cgo_reader \<Rightarrow> 's \<Rightarrow> bool \<times> 's" where
  "cgo_Present api r s =
     (if cr_card r = 0 then (False, s)
      else (case sc_Status api (cr_card r) s of ((rv, state, atr, n), s) \<Rightarrow> (rv = 0 \<and> state AND sc_PRESENT api \<noteq> 0, s)))"

definition cgo_Close :: "('s, byte) scard \<Rightarrow> cgo_reader \<Rightarrow> 's \<Rightarrow> cgo_reader \<times> 's" where
  "cgo_Close api r s =
     (let (r, s) = (if cr_card r \<noteq> 0 then (r\<lparr>cr_card := 0\<rparr>, sc_Disconnect api (cr_card r) s) else (r, s))
      in if cr_ctx r \<noteq> 0 then (r\<lparr>cr_ctx := 0\<rparr>, sc_Release api (cr_ctx r) s) else (r, s))"

section \<open>Reader status\<close>

record reader_status =
  st_Available :: bool
  st_Reader :: bytes
  st_CardPresent :: bool
  st_ATR :: string
  st_Reason :: string

text \<open>\<open>% x\<close>: the bytes in hexadecimal, separated by spaces.\<close>

fun hex_spaced :: "bytes \<Rightarrow> string" where
  "hex_spaced [] = ''''"
| "hex_spaced [b] = hex2 b"
| "hex_spaced (b # bs) = hex2 b @ '' '' @ hex_spaced bs"

definition failed_status :: "gerror \<Rightarrow> reader_status" where
  "failed_status e = \<lparr>st_Available = False, st_Reader = [], st_CardPresent = False, st_ATR = '''', st_Reason = err_text e\<rparr>"

definition open_status :: "bytes \<Rightarrow> bool \<Rightarrow> bytes \<Rightarrow> reader_status" where
  "open_status name present atr =
     \<lparr>st_Available = True, st_Reader = name, st_CardPresent = present,
      st_ATR = (if present \<and> atr \<noteq> [] then hex_spaced atr else ''''), st_Reason = ''''\<rparr>"

text \<open>\<open>Status\<close>: a panic of the constructor passes through; the reader is closed on return.\<close>

definition cgo_status_of :: "('s, byte) scard \<Rightarrow> cgo_reader result \<times> 's \<Rightarrow> reader_status result \<times> 's" where
  "cgo_status_of api m =
     (case m of
        (Inl (Panic p), s) \<Rightarrow> (Inl (Panic p), s)
      | (Inl e, s) \<Rightarrow> (Inr (failed_status e), s)
      | (Inr r, s) \<Rightarrow>
          (case cgo_Present api r s of (present, s) \<Rightarrow>
             (Inr (open_status (cgo_Name r) present (cr_atr r)), snd (cgo_Close api r s))))"

definition linux_Status :: "('s, byte) scard \<Rightarrow> 's \<Rightarrow> reader_status result \<times> 's" where
  "linux_Status api s = cgo_status_of api (NewLinuxPCSCReader api s)"

definition darwin_Status :: "('s, byte) scard \<Rightarrow> 's \<Rightarrow> reader_status result \<times> 's" where
  "darwin_Status api s = cgo_status_of api (NewPCSCReader api s)"

definition stub_Status :: reader_status where
  "stub_Status = \<lparr>st_Available = False, st_Reader = [], st_CardPresent = False, st_ATR = '''',
     st_Reason = ''PC/SC smart-card support is only built on macOS''\<rparr>"

text \<open>The stub reader: no card, no answer.\<close>

definition StubReader :: "'c Reader" where
  "StubReader = \<lparr>rd_Transmit = (\<lambda>apdu c. (Inl (Errorf ''no card present''), c)), rd_Present = (\<lambda>c. False), rd_ATR = (\<lambda>c. [])\<rparr>"

definition stub_OpenReader :: "'c Reader result" where
  "stub_OpenReader = Inl (Errorf ''PC/SC smart-card support is only built on macOS'')"

section \<open>The Windows backend\<close>

record win_reader =
  wr_ctx :: u64
  wr_card :: u64
  wr_proto :: u32
  wr_name :: bytes
  wr_atr :: bytes

fun first_unit :: "nat \<Rightarrow> u16 list \<Rightarrow> nat" where
  "first_unit i [] = i"
| "first_unit i (c # cs) = (if c \<noteq> 0 then first_unit (i + 1) cs else i)"

text \<open>\<open>firstMultiString\<close>; decoding the UTF-16 units is the library's.\<close>

definition firstMultiString :: "(u16 list \<Rightarrow> bytes) \<Rightarrow> u16 list \<Rightarrow> bytes" where
  "firstMultiString utf16ToString buf = (let end = first_unit 0 buf in if end = 0 then [] else utf16ToString (take end buf))"

definition win_readATR :: "('s, u16) scard \<Rightarrow> win_reader \<Rightarrow> 's \<Rightarrow> win_reader \<times> 's" where
  "win_readATR api r s =
     (if wr_card r = 0 then (r, s)
      else (case sc_Status api (wr_card r) s of ((rv, state, w, n), s) \<Rightarrow>
        let atr = written 33 w
        in if rv = 0 \<and> unat n \<le> length atr then (r\<lparr>wr_atr := take (unat n) atr\<rparr>, s) else (r, s)))"

definition NewWinPCSCReader ::
  "(u16 list \<Rightarrow> bytes) \<Rightarrow> (bytes \<Rightarrow> u16 list result) \<Rightarrow> ('s, u16) scard \<Rightarrow> 's \<Rightarrow> win_reader result \<times> 's" where
  "NewWinPCSCReader utf16ToString utf16FromString api s =
     (case sc_Establish api s of ((rv, ctx), s) \<Rightarrow>
        if rv \<noteq> 0 then (Inl (scardErr ''SCardEstablishContext'' rv), s)
        else (case sc_ListLen api ctx s of ((rv, n), s) \<Rightarrow>
          if rv \<noteq> 0 \<or> n = 0 then
            (Inl (if rv \<noteq> 0 then scardErr ''SCardListReaders'' rv else Errorf ''no smart-card readers attached''), sc_Release api ctx s)
          else (case sc_List api ctx n s of ((rv, w), s) \<Rightarrow>
            if rv \<noteq> 0 then (Inl (scardErr ''SCardListReaders'' rv), sc_Release api ctx s)
            else
              let name = firstMultiString utf16ToString (written (unat n) w)
              in if name = [] then (Inl (Errorf ''no smart-card readers attached''), sc_Release api ctx s)
                 else (case utf16FromString name of
                   Inl e \<Rightarrow> (Inl e, sc_Release api ctx s)
                 | Inr units \<Rightarrow>
                     (case sc_Connect api ctx units s of ((rv, hcard, proto), s) \<Rightarrow>
                        let r = \<lparr>wr_ctx = ctx, wr_card = hcard, wr_proto = 0, wr_name = name, wr_atr = []\<rparr>
                        in if rv \<noteq> 0 then
                             if no_card_code rv then (Inr r, s) else (Inl (scardErr ''SCardConnect'' rv), sc_Release api ctx s)
                           else (case win_readATR api (r\<lparr>wr_proto := proto\<rparr>) s of (r, s) \<Rightarrow> (Inr r, s)))))))"

definition win_Transmit :: "('s, u16) scard \<Rightarrow> win_reader \<Rightarrow> bytes \<Rightarrow> 's \<Rightarrow> bytes result \<times> 's" where
  "win_Transmit api r apdu s =
     (if wr_card r = 0 then (Inl (Errorf ''no card connected''), s)
      else if apdu = [] then (Inl (Errorf ''empty APDU''), s)
      else
        let proto = (if wr_proto r = 0 then 2 else wr_proto r)
        in case sc_Transmit api (wr_card r) proto apdu 258 s of ((rv, w, n), s) \<Rightarrow>
             if rv \<noteq> 0 then (Inl (scardErr ''SCardTransmit'' rv), s)
             else
               let resp = written 258 w;
                   n = (if unat n > length resp then of_nat (length resp) else n)
               in (prefix_of resp n, s))"

definition scardStatePresent :: u32 where
  "scardStatePresent = 0x0020"

definition win_Present :: "('s, u16) scard \<Rightarrow> win_reader \<Rightarrow> 's \<Rightarrow> bool \<times> 's" where
  "win_Present api r s =
     (if wr_card r = 0 then (False, s)
      else (case sc_Status api (wr_card r) s of ((rv, state, atr, n), s) \<Rightarrow> (rv = 0 \<and> state AND scardStatePresent \<noteq> 0, s)))"

definition win_Close :: "('s, u16) scard \<Rightarrow> win_reader \<Rightarrow> 's \<Rightarrow> win_reader \<times> 's" where
  "win_Close api r s =
     (let (r, s) = (if wr_card r \<noteq> 0 then (r\<lparr>wr_card := 0\<rparr>, sc_Disconnect api (wr_card r) s) else (r, s))
      in if wr_ctx r \<noteq> 0 then (r\<lparr>wr_ctx := 0\<rparr>, sc_Release api (wr_ctx r) s) else (r, s))"

definition win_Status ::
  "(u16 list \<Rightarrow> bytes) \<Rightarrow> (bytes \<Rightarrow> u16 list result) \<Rightarrow> ('s, u16) scard \<Rightarrow> 's \<Rightarrow> reader_status \<times> 's" where
  "win_Status utf16ToString utf16FromString api s =
     (case NewWinPCSCReader utf16ToString utf16FromString api s of
        (Inl e, s) \<Rightarrow> (failed_status e, s)
      | (Inr r, s) \<Rightarrow>
          (case win_Present api r s of (present, s) \<Rightarrow>
             (open_status (wr_name r) present (wr_atr r), snd (win_Close api r s))))"


section \<open>Lemmas: contexts\<close>

text \<open>What the PC/SC documentation says of its contexts, for \<open>live\<close> the set of contexts that are established: a successful
  \<open>SCardEstablishContext\<close> adds a new non-null one, \<open>SCardReleaseContext\<close> removes it, no other call changes them; and an
  answer-to-reset or a reply that is reported as received fits the buffer it was given.\<close>

definition scard_laws :: "('s, 'w) scard \<Rightarrow> ('s \<Rightarrow> u64 set) \<Rightarrow> bool" where
  "scard_laws api live \<longleftrightarrow>
     (\<forall>s. case sc_Establish api s of ((rv, ctx), s') \<Rightarrow>
        if rv = 0 then ctx \<noteq> 0 \<and> ctx \<notin> live s \<and> live s' = insert ctx (live s) else live s' = live s)
     \<and> (\<forall>s ctx. live (snd (sc_ListLen api ctx s)) = live s)
     \<and> (\<forall>s ctx n. live (snd (sc_List api ctx n s)) = live s)
     \<and> (\<forall>s ctx name. live (snd (sc_Connect api ctx name s)) = live s)
     \<and> (\<forall>s h. live (snd (sc_Status api h s)) = live s)
     \<and> (\<forall>s h pci apdu n. live (snd (sc_Transmit api h pci apdu n s)) = live s)
     \<and> (\<forall>s h. live (sc_Disconnect api h s) = live s)
     \<and> (\<forall>s ctx. live (sc_Release api ctx s) = live s - {ctx})
     \<and> (\<forall>s h. case sc_Status api h s of ((rv, state, atr, n), s') \<Rightarrow> rv = 0 \<longrightarrow> unat n \<le> sc_MaxATR api)
     \<and> (\<forall>s h pci apdu k. case sc_Transmit api h pci apdu k s of ((rv, w, n), s') \<Rightarrow> rv = 0 \<longrightarrow> unat n \<le> k)"

named_theorems scard_keeps \<open>how each library call changes the live contexts\<close>

lemma scard_live [scard_keeps]:
  assumes "scard_laws api live"
  shows "sc_ListLen api c s = (x, s') \<Longrightarrow> live s' = live s" "sc_List api c n s = (y, s') \<Longrightarrow> live s' = live s"
    "sc_Connect api c name s = (z, s') \<Longrightarrow> live s' = live s" "sc_Status api h s = (w, s') \<Longrightarrow> live s' = live s"
    "sc_Transmit api h pci apdu k s = (t, s') \<Longrightarrow> live s' = live s"
    "live (sc_Disconnect api h s) = live s" "live (sc_Release api c s) = live s - {c}"
  using assms unfolding scard_laws_def by (metis snd_conv)+

lemma scard_establish:
  assumes "scard_laws api live" "sc_Establish api s = ((rv, ctx), s')"
  shows "rv \<noteq> 0 \<Longrightarrow> live s' = live s" "rv = 0 \<Longrightarrow> live s' = insert ctx (live s) \<and> ctx \<noteq> 0 \<and> ctx \<notin> live s"
  using assms unfolding scard_laws_def by (auto dest!: spec [of _ s] split: if_splits)

lemma length_written [simp]: "length (written n w) = n"
  by (simp add: written_def)

lemma atr_fits:
  assumes "scard_laws api live" "sc_Status api h s = ((0, state, atr, n), s')"
  shows "prefix_of (written (sc_MaxATR api) atr) n = Inr (take (unat n) (written (sc_MaxATR api) atr))"
  using assms unfolding scard_laws_def prefix_of_def by (auto dest!: spec [of _ s] spec [of _ h])

lemma reply_fits:
  assumes "scard_laws api live" "sc_Transmit api h pci apdu k s = ((0, w, n), s')"
  shows "unat n \<le> k"
proof -
  have "\<forall>s h pci apdu k. case sc_Transmit api h pci apdu k s of ((rv, w, n), s') \<Rightarrow> rv = 0 \<longrightarrow> unat n \<le> k"
    using assms(1) unfolding scard_laws_def by (elim conjE)
  then show ?thesis using assms(2)
    by (elim allE [of _ s] allE [of _ h] allE [of _ pci] allE [of _ apdu] allE [of _ k]) simp
qed

text \<open>Exchanging an APDU on Linux neither faults nor touches the contexts.\<close>

lemma linux_Transmit_safe:
  assumes "scard_laws api live" "linux_Transmit api r apdu s = (x, s')"
  shows "live s' = live s" "x \<noteq> Inl (Panic p)"
proof -
  define pci where "pci = (if cr_proto r = sc_T0 api then sc_T0 api else sc_T1 api)"
  obtain rv w n s1 where t: "sc_Transmit api (cr_card r) pci apdu 258 s = ((rv, w, n), s1)" by (metis prod_cases3 surj_pair)
  show "live s' = live s" using assms(2) t scard_live(5) [OF assms(1) t]
    by (auto simp: linux_Transmit_def cgo_exchange_def Let_def pci_def split: if_splits)
  show "x \<noteq> Inl (Panic p)" using assms(2) t reply_fits [OF assms(1), of "cr_card r" pci apdu 258 s]
    by (auto simp: linux_Transmit_def cgo_exchange_def Let_def pci_def scardErr_def prefix_of_def split: if_splits)
qed

text \<open>What a constructor owes: an error leaves no context behind, a reader holds exactly the new one.\<close>

definition holds :: "('s \<Rightarrow> u64 set) \<Rightarrow> u64 set \<Rightarrow> ('r \<Rightarrow> u64) \<Rightarrow> 'r result \<times> 's \<Rightarrow> bool" where
  "holds live before ctx m =
     (case m of
        (Inl e, s) \<Rightarrow> (\<forall>p. e \<noteq> Panic p) \<and> live s = before
      | (Inr r, s) \<Rightarrow> ctx r \<noteq> 0 \<and> ctx r \<notin> before \<and> live s = insert (ctx r) before)"

lemma cgo_connect_holds:
  assumes "scard_laws api live" "cr_ctx r \<noteq> 0" "cr_ctx r \<notin> before" "live s = insert (cr_ctx r) before"
  shows "holds live before cr_ctx (cgo_connect api r s)"
proof -
  obtain rv hc proto s1 where c: "sc_Connect api (cr_ctx r) (take (cStringLen (cr_readers r)) (cr_readers r)) s = ((rv, hc, proto), s1)"
    by (metis prod_cases3 surj_pair)
  obtain rv2 state atr n s2 where t: "sc_Status api hc s1 = ((rv2, state, atr, n), s2)" by (metis prod_cases4 surj_pair)
  have l: "live s1 = insert (cr_ctx r) before" "live s2 = insert (cr_ctx r) before" "live (sc_Release api (cr_ctx r) s1) = before"
    using scard_live(3) [OF assms(1) c] scard_live(4) [OF assms(1) t] scard_live(7) [OF assms(1)] assms(3,4) by auto
  show ?thesis
    using c t l assms(2,3) atr_fits [OF assms(1), of hc s1] by (cases "rv2 = 0") (auto simp: cgo_connect_def holds_def Let_def scardErr_def)
qed

text \<open>The macOS constructor keeps the contract when the library never reports an empty list as a success.\<close>

lemma NewReader_holds:
  assumes "scard_laws api live"
  shows "holds live (live s) cr_ctx (NewLinuxPCSCReader api s)"
    "(\<And>c s. fst (sc_ListLen api c s) \<noteq> (0, 0)) \<Longrightarrow> holds live (live s) cr_ctx (NewPCSCReader api s)"
proof -
  obtain rv ctx s1 where e: "sc_Establish api s = ((rv, ctx), s1)" by (metis surj_pair)
  obtain rv2 n s2 where l: "sc_ListLen api ctx s1 = ((rv2, n), s2)" by (metis surj_pair)
  obtain rv3 w s3 where g: "sc_List api ctx n s2 = ((rv3, w), s3)" by (metis surj_pair)
  note keep = scard_live(1) [OF assms l] scard_live(2) [OF assms g] scard_live(7) [OF assms]
  let ?r = "\<lparr>cr_ctx = ctx, cr_card = 0, cr_proto = 0, cr_readers = written (unat n) w, cr_atr = []\<rparr>"
  have c: "holds live (live s) cr_ctx (cgo_connect api ?r s3)" if "rv = 0"
    using scard_establish(2) [OF assms e that] keep(1,2) by (intro cgo_connect_holds [OF assms]) auto
  show "holds live (live s) cr_ctx (NewLinuxPCSCReader api s)"
    using e l g c keep scard_establish [OF assms e] by (auto simp: NewLinuxPCSCReader_def holds_def scardErr_def)
  show "holds live (live s) cr_ctx (NewPCSCReader api s)" if "\<And>c s. fst (sc_ListLen api c s) \<noteq> (0, 0)"
    using e l g c keep scard_establish [OF assms e] that [of ctx s1] by (auto simp: NewPCSCReader_def holds_def scardErr_def)
qed

lemma win_readATR_keeps: "scard_laws api live \<Longrightarrow> win_readATR api r s = (r', s') \<Longrightarrow> live s' = live s \<and> wr_ctx r' = wr_ctx r"
  using scard_live(4) [of api live "wr_card r" s] by (auto simp: win_readATR_def Let_def split: if_splits prod.splits)

lemma NewWin_holds:
  assumes "scard_laws api live" "\<And>b p. utf16FromString b \<noteq> Inl (Panic p)"
  shows "holds live (live s) wr_ctx (NewWinPCSCReader utf16ToString utf16FromString api s)"
proof -
  obtain rv ctx s1 where e: "sc_Establish api s = ((rv, ctx), s1)" by (metis surj_pair)
  obtain rv2 n s2 where l: "sc_ListLen api ctx s1 = ((rv2, n), s2)" by (metis surj_pair)
  obtain rv3 w s3 where g: "sc_List api ctx n s2 = ((rv3, w), s3)" by (metis surj_pair)
  define name where "name = firstMultiString utf16ToString (written (unat n) w)"
  obtain units rv4 hc proto s4 where c: "sc_Connect api ctx units s3 = ((rv4, hc, proto), s4)"
    and u: "utf16FromString name = Inr units \<or> (\<exists>er. utf16FromString name = Inl er)"
    by (cases "utf16FromString name") (metis prod_cases3 surj_pair)+
  let ?r = "\<lparr>wr_ctx = ctx, wr_card = hc, wr_proto = proto, wr_name = name, wr_atr = []\<rparr>"
  obtain r5 s5 where a: "win_readATR api ?r s4 = (r5, s5)" by (metis surj_pair)
  note keep = scard_live(1) [OF assms(1) l] scard_live(2) [OF assms(1) g] scard_live(3) [OF assms(1) c]
    scard_live(7) [OF assms(1)] win_readATR_keeps [OF assms(1) a]
  show ?thesis
    using e l g c u a keep scard_establish [OF assms(1) e] assms(2) [of name]
    by (cases "rv4 = 0"; cases "no_card_code rv4")
      (auto simp: NewWinPCSCReader_def holds_def scardErr_def Let_def name_def [symmetric])
qed

lemma Close_releases:
  assumes "scard_laws api live"
  shows "cr_ctx r \<noteq> 0 \<Longrightarrow> live (snd (cgo_Close api r s)) = live s - {cr_ctx r}"
  using scard_live(6,7) [OF assms] by (auto simp: cgo_Close_def Let_def)

lemma win_Close_releases:
  assumes "scard_laws api live"
  shows "wr_ctx r \<noteq> 0 \<Longrightarrow> live (snd (win_Close api r s)) = live s - {wr_ctx r}"
  using scard_live(6,7) [OF assms] by (auto simp: win_Close_def Let_def)

lemma cgo_Present_keeps: "scard_laws api live \<Longrightarrow> cgo_Present api r s = (p, s') \<Longrightarrow> live s' = live s"
  using scard_live(4) [of api live "cr_card r" s] by (auto simp: cgo_Present_def split: if_splits prod.splits)

lemma win_Present_keeps: "scard_laws api live \<Longrightarrow> win_Present api r s = (p, s') \<Longrightarrow> live s' = live s"
  using scard_live(4) [of api live "wr_card r" s] by (auto simp: win_Present_def split: if_splits prod.splits)

section \<open>Properties\<close>

text \<open>C39: probing and opening a reader leaks no PC/SC context.  On Linux and on Windows, whatever the library answers, a failing
  constructor releases the context it established, closing the reader it returns releases it too, and the status probe, which
  does both, always returns and leaves the set of live contexts as it was.\<close>

theorem pcsc_no_leak:
  assumes "scard_laws api live" "scard_laws wapi wlive" "\<forall>b p. utf16FromString b \<noteq> Inl (Panic p)"
  shows "(case NewLinuxPCSCReader api s of (Inl e, s') \<Rightarrow> live s' = live s | (Inr r, s') \<Rightarrow> live (snd (cgo_Close api r s')) = live s)
    \<and> (case NewWinPCSCReader utf16ToString utf16FromString wapi t of
         (Inl e, t') \<Rightarrow> wlive t' = wlive t | (Inr r, t') \<Rightarrow> wlive (snd (win_Close wapi r t')) = wlive t)
    \<and> (\<exists>st s'. linux_Status api s = (Inr st, s') \<and> live s' = live s)
    \<and> wlive (snd (win_Status utf16ToString utf16FromString wapi t)) = wlive t"
proof -
  obtain rl s1 where l: "NewLinuxPCSCReader api s = (rl, s1)" by (metis surj_pair)
  obtain rw t1 where w: "NewWinPCSCReader utf16ToString utf16FromString wapi t = (rw, t1)" by (metis surj_pair)
  have h: "holds live (live s) cr_ctx (rl, s1)" "holds wlive (wlive t) wr_ctx (rw, t1)"
    using NewReader_holds(1) [OF assms(1), of s] NewWin_holds [OF assms(2), of utf16FromString t utf16ToString] assms(3) by (simp_all add: l w)
  have linux: "\<exists>st s'. linux_Status api s = (Inr st, s') \<and> live s' = live s"
  proof (cases rl)
    case (Inl e)
    then show ?thesis using h(1) by (cases e) (auto simp: linux_Status_def cgo_status_of_def l holds_def)
  next
    case (Inr r)
    obtain p s2 where p: "cgo_Present api r s1 = (p, s2)" by (metis surj_pair)
    show ?thesis using Inr h(1) p cgo_Present_keeps [OF assms(1) p] Close_releases [OF assms(1), of r s2]
      by (auto simp: linux_Status_def cgo_status_of_def l holds_def)
  qed
  have win: "wlive (snd (win_Status utf16ToString utf16FromString wapi t)) = wlive t"
  proof (cases rw)
    case (Inl e)
    then show ?thesis using h(2) by (simp add: win_Status_def w holds_def)
  next
    case (Inr r)
    obtain p t2 where p: "win_Present wapi r t1 = (p, t2)" by (metis surj_pair)
    show ?thesis using Inr h(2) p win_Present_keeps [OF assms(2) p] win_Close_releases [OF assms(2), of r t2]
      by (auto simp: win_Status_def w holds_def)
  qed
  show ?thesis using h linux win Close_releases [OF assms(1)] win_Close_releases [OF assms(2)]
    by (auto simp: l w holds_def split: sum.splits)
qed

text \<open>A library whose state is the list of live contexts: one reader, whose card refuses to connect.\<close>

definition demo_scard :: "'w list \<Rightarrow> (u64 list, 'w) scard" where
  "demo_scard name =
     \<lparr>sc_Establish = (\<lambda>s. if 7 \<in> set s then ((0x8010001D, 0), s) else ((0, 7), 7 # s)),
      sc_ListLen = (\<lambda>c s. ((0, of_nat (length name)), s)), sc_List = (\<lambda>c n s. ((0, name), s)),
      sc_Connect = (\<lambda>c n s. ((0x8010000C, 0, 0), s)), sc_Status = (\<lambda>h s. ((6, 0, [], 0), s)),
      sc_Transmit = (\<lambda>h pci apdu n s. ((0x80100016, [], 0), s)),
      sc_Disconnect = (\<lambda>h s. s), sc_Release = (\<lambda>c s. removeAll c s), sc_T0 = 1, sc_T1 = 2, sc_PRESENT = 4, sc_MaxATR = 33\<rparr>"

lemma demo_scard_laws: "scard_laws (demo_scard name) set"
  by (simp add: scard_laws_def demo_scard_def)

theorem pcsc_no_leak_witness:
  "(\<exists>st s'. linux_Status (demo_scard [82, 0, 0]) [3] = (Inr st, s') \<and> set s' = {3})
    \<and> fst (linux_Status (demo_scard [82, 0, 0]) [3]) = Inr (open_status [82] False [])
    \<and> set (snd (win_Status (map ucast) (\<lambda>b. Inr (map ucast b)) (demo_scard [82, 0, 0]) [])) = {}"
proof -
  have "fst (linux_Status (demo_scard [82, 0, 0]) [3]) = Inr (open_status [82] False [])" by code_simp
  then show ?thesis
    using pcsc_no_leak [OF demo_scard_laws demo_scard_laws, where utf16FromString = "\<lambda>b. Inr (map ucast b)" and utf16ToString = "map ucast" and s = "[3]" and t = "[]"] by simp
qed

text \<open>\<open>SCardStatusW\<close> documents its state as one of the values 0 to 6 (absent, present, \<dots>, specific); \<open>0x20\<close> is the bit that
  \<open>SCardGetStatusChange\<close> uses.  So with a library that follows its documentation the Windows backend never reports a card, whatever
  is in the reader, and every block of a session is answered with the no-card status.\<close>

definition win_status_documented :: "('s, u16) scard \<Rightarrow> bool" where
  "win_status_documented api \<longleftrightarrow> (\<forall>h s. case sc_Status api h s of ((rv, state, atr, n), s') \<Rightarrow> state \<le> 6)"

theorem win_card_never_present:
  assumes "win_status_documented api"
  shows "\<not> fst (win_Present api r s) \<and> \<not> st_CardPresent (fst (win_Status utf16ToString utf16FromString api t))"
proof -
  have small: "state AND scardStatePresent = 0" if "state \<le> 6" for state :: u32
  proof -
    have "state < 2 ^ 5" using that by (auto intro: le_less_trans)
    then have "take_bit 5 state = state" by (simp add: less_mask_eq take_bit_eq_mask)
    then have lo: "\<not> bit state i" if "5 \<le> i" for i using that by (metis bit_take_bit_iff not_le)
    define k :: nat where "k = 5"
    have "scardStatePresent = push_bit k 1" by (simp add: scardStatePresent_def k_def)
    moreover have "\<not> bit state k" using lo by (simp add: k_def)
    then have "state AND push_bit k 1 = 0" by (intro bit_word_eqI) (auto simp: bit_simps)
    ultimately show ?thesis by (simp only:)
  qed
  have p: "\<not> fst (win_Present api q u)" for q u
    using assms small unfolding win_status_documented_def win_Present_def
    by (auto dest!: spec [of _ "wr_card q"] spec [of _ u] split: prod.splits)
  then show ?thesis using p by (auto simp: win_Status_def open_status_def failed_status_def split: sum.splits prod.splits) (metis fst_conv)+
qed

theorem win_card_never_present_witness:
  "\<not> fst (win_Present (demo_scard [82, 0 :: u16] \<lparr>sc_Status := \<lambda>h s. ((0, 6, [0x3B], 1), s)\<rparr>) \<lparr>wr_ctx = 7, wr_card = 1, wr_proto = 2, wr_name = [82], wr_atr = []\<rparr> [7])"
proof -
  have "win_status_documented (demo_scard [82, 0 :: u16] \<lparr>sc_Status := \<lambda>h s. ((0, 6, [0x3B], 1), s)\<rparr>)"
    by (simp add: win_status_documented_def demo_scard_def)
  from win_card_never_present [OF this] show ?thesis by simp
qed

text \<open>Two faults of the macOS backend that its siblings guard against: an empty APDU, which a transfer block of length zero from the BMC
  presents to an inserted card, and a reader list that the library reports as empty.\<close>

lemma darwin_faults:
  "cr_card r \<noteq> 0 \<Longrightarrow> fst (darwin_Transmit api r [] s) = Inl (Panic ''index out of range'')"
  "cr_card r \<noteq> 0 \<Longrightarrow> fst (linux_Transmit api r [] s) = Inl (Errorf ''empty APDU'')"
  "sc_Establish api s = ((0, ctx), s') \<Longrightarrow> sc_ListLen api ctx s' = ((0, 0), s'') \<Longrightarrow>
     fst (NewPCSCReader api s) = Inl (Panic ''index out of range'')
     \<and> fst (NewLinuxPCSCReader api s) = Inl (Errorf ''no smart-card readers attached'')"
  by (simp_all add: darwin_Transmit_def linux_Transmit_def NewPCSCReader_def NewLinuxPCSCReader_def)

text \<open>A reply the library reports as longer than the buffer is cut on Windows; the C backends would fault.\<close>

lemma Transmit_reply:
  assumes "sc_Transmit wapi (wr_card r) (if wr_proto r = 0 then 2 else wr_proto r) apdu 258 s = ((0, w, n), s')" "wr_card r \<noteq> 0" "apdu \<noteq> []"
  shows "win_Transmit wapi r apdu s = (Inr (take (unat n) (written 258 w)), s')"
  using assms by (auto simp: win_Transmit_def prefix_of_def Let_def)

end
