(* ===== verification/Bridge_Mount.thy ===== *)
theory Bridge_Mount
  imports Bridge_Session Vcard_Pcsc
begin

text \<open>
  One virtual-media mount from the request to the clean-up (\<open>cmd/beefkvm/main.go\<close>: \<open>mountISOSubchannel\<close>,
  \<open>mountMediaSubchannel\<close>, \<open>openVMSession\<close>, \<open>handleVMUnmount\<close>), with the parts it holds while it lives: the socket of its session and
  the heartbeat on it, the PC/SC context of the smart-card reader, the open image file and the entry of the mount table.  The session itself is
  \<open>Run\<close> of \<open>Vm_Session\<close> over the Linux reader of \<open>Vcard_Pcsc\<close>; an unmount request is served while \<open>Run\<close> waits for its
  next frame.  A panic of the session goroutine stops the program.
\<close>

section \<open>State\<close>

record 's host =
  h_bmc :: bmc_state
  h_pcsc :: 's
  h_mounts :: "u16 \<Rightarrow> nat option"
  h_files :: nat

record mounted =
  mt_conn :: nat
  mt_reader :: "cgo_reader option"
  mt_media :: Media

text \<open>The reader as the session sees it.\<close>

definition linux_reader :: "('s, byte) scard \<Rightarrow> cgo_reader \<Rightarrow> 's Reader" where
  "linux_reader api r =
     \<lparr>rd_Transmit = linux_Transmit api r, rd_Present = (\<lambda>s. fst (cgo_Present api r s)), rd_ATR = (\<lambda>s. cr_atr r)\<rparr>"

section \<open>Mounting\<close>

definition openVMSession :: "environment \<Rightarrow> bmc_state \<Rightarrow> nat result \<times> bmc_state" where
  "openVMSession env st =
     (case Open env (bridge_session SessionTypeVM False (n_user st) (n_pass st) False) of
        (Some e, _, _) \<Rightarrow> (Inl e, st)
      | (None, s, _) \<Rightarrow> let (h, st) = new_socket st in (Inr h, st))"

text \<open>With no usable reader the session goes on without smart card; the log line asks the reader for the card.\<close>

definition attach_reader :: "('s, byte) scard \<Rightarrow> 's \<Rightarrow> cgo_reader option result \<times> 's" where
  "attach_reader api s =
     (case NewLinuxPCSCReader api s of
        (Inl (Panic p), s) \<Rightarrow> (Inl (Panic p), s)
      | (Inl e, s) \<Rightarrow> (Inr None, s)
      | (Inr r, s) \<Rightarrow> (Inr (Some r), snd (cgo_Present api r s)))"

definition mountMediaSubchannel ::
  "('s, byte) scard \<Rightarrow> environment \<Rightarrow> Media \<Rightarrow> 's host \<Rightarrow> mounted result \<times> 's host" where
  "mountMediaSubchannel api env media st =
     (if n_sess (h_bmc st) = None then (Inl (Errorf ''KVM session not open''), st)
      else if h_mounts st 0 \<noteq> None then (Inl (Errorf ''drive_id=0 already mounted; unmount first''), st)
      else
        (case openVMSession env (h_bmc st) of
           (Inl e, bmc) \<Rightarrow> (Inl (Wrapf ''open VM session: '' e), st\<lparr>h_bmc := bmc\<rparr>)
         | (Inr h, bmc) \<Rightarrow>
             let st = st\<lparr>h_bmc := bmc\<lparr>n_beating := h # n_beating bmc\<rparr>\<rparr>
             in case attach_reader api (h_pcsc st) of
                  (Inl e, s) \<Rightarrow> (Inl e, st\<lparr>h_pcsc := s\<rparr>)
                | (Inr rd, s) \<Rightarrow>
                    (Inr \<lparr>mt_conn = h, mt_reader = rd, mt_media = media\<rparr>,
                     st\<lparr>h_pcsc := s, h_mounts := (h_mounts st)(0 := Some h)\<rparr>)))"

definition mountISOSubchannel ::
  "media_files \<Rightarrow> bytes \<Rightarrow> ('s, byte) scard \<Rightarrow> environment \<Rightarrow> 's host \<Rightarrow> mounted result \<times> 's host" where
  "mountISOSubchannel fs isoPath api env st =
     (case OpenCD (mf_open fs) (mf_stat fs) isoPath of
        Inl e \<Rightarrow> (Inl (Wrapf ''open ISO: '' e), st)
      | Inr media \<Rightarrow>
          (case mountMediaSubchannel api env media (st\<lparr>h_files := h_files st + 1\<rparr>) of
             (Inl e, st) \<Rightarrow> (Inl e, st\<lparr>h_files := h_files st - 1\<rparr>)
           | (Inr m, st) \<Rightarrow> (Inr m, st)))"

section \<open>Unmounting\<close>

text \<open>The reply, with the socket the handler closes after detaching the medium.\<close>

datatype unmount_reply = UnmountError nat string | Unmounted u16 nat

definition handleVMUnmount :: "string \<Rightarrow> u16 result \<Rightarrow> 's host \<Rightarrow> unmount_reply" where
  "handleVMUnmount meth body st =
     (if meth \<noteq> ''POST'' then UnmountError 405 ''POST required''
      else
        (case body of
           Inl e \<Rightarrow> UnmountError 400 (''bad json: '' @ err_text e)
         | Inr driveID \<Rightarrow>
             (case h_mounts st driveID of
                None \<Rightarrow> UnmountError 404 ''no such mount''
              | Some h \<Rightarrow> Unmounted driveID h)))"

definition media_is_open :: "'c VmSession \<Rightarrow> bool" where
  "media_is_open s = (case s_Media s of None \<Rightarrow> False | Some m \<Rightarrow> m_f m \<noteq> None)"

text \<open>\<open>Detach\<close> closes the file; then the socket is closed.\<close>

definition apply_unmount :: "'s vm_env \<Rightarrow> gerror option \<Rightarrow> unmount_reply \<Rightarrow> 's VmSession \<times> 's host \<Rightarrow> 's VmSession \<times> 's host" where
  "apply_unmount env clo reply sst =
     (case (reply, sst) of
        (UnmountError n t, s, st) \<Rightarrow> (s, st)
      | (Unmounted d h, s, st) \<Rightarrow>
          (snd (Detach env clo 0 s),
           st\<lparr>h_files := h_files st - (if media_is_open s then 1 else 0), h_bmc := close_socket h (h_bmc st)\<rparr>))"

section \<open>The session goroutine\<close>

datatype 's life = Hangs | Crashes string | Released "'s host"

definition mount_cleanup :: "('s, byte) scard \<Rightarrow> mounted \<Rightarrow> 's VmSession \<Rightarrow> 's host \<Rightarrow> 's host" where
  "mount_cleanup api m s st =
     (let st = st\<lparr>h_pcsc := s_card s, h_bmc := (h_bmc st)\<lparr>n_beating := removeAll (mt_conn m) (n_beating (h_bmc st))\<rparr>\<rparr>;
          st = (if h_mounts st 0 = Some (mt_conn m) then st\<lparr>h_mounts := (h_mounts st)(0 := None)\<rparr> else st);
          st = (case mt_reader m of None \<Rightarrow> st | Some r \<Rightarrow> st\<lparr>h_pcsc := snd (cgo_Close api r (h_pcsc st))\<rparr>);
          st = st\<lparr>h_bmc := close_socket (mt_conn m) (h_bmc st)\<rparr>
      in st\<lparr>h_files := h_files st - (if media_is_open s then 1 else 0)\<rparr>)"

text \<open>The life of a mount: \<open>Run\<close> over what the controller sends, an unmount request when there is one, and the clean-up.\<close>

definition mount_env :: "('s, byte) scard \<Rightarrow> (nat \<Rightarrow> gerror option) \<Rightarrow> (nat \<Rightarrow> io_outcome) \<Rightarrow> mounted \<Rightarrow> 's vm_env" where
  "mount_env api wr io m = \<lparr>e_VCard = map_option (linux_reader api) (mt_reader m), e_write = wr, e_io = io\<rparr>"

definition mount_life ::
  "('s, byte) scard \<Rightarrow> (nat \<Rightarrow> gerror option) \<Rightarrow> (nat \<Rightarrow> io_outcome) \<Rightarrow> gerror option \<Rightarrow> mounted \<Rightarrow> bytes \<Rightarrow> (string \<times> u16 result) option
     \<Rightarrow> 's host \<Rightarrow> 's life" where
  "mount_life api wr io clo m conn unmount st =
     (case Run (mount_env api wr io m) \<lparr>s_Media = Some (mt_media m), s_card = h_pcsc st, s_sent = [], s_nwrite = 0, s_nio = 0\<rparr> conn of
        None \<Rightarrow> Hangs
      | Some (Some (Panic p), s) \<Rightarrow> Crashes p
      | Some (err, s) \<Rightarrow>
          (case (case unmount of
                   None \<Rightarrow> (s, st)
                 | Some (meth, body) \<Rightarrow> apply_unmount (mount_env api wr io m) clo (handleVMUnmount meth body st) (s, st)) of
             (s, st) \<Rightarrow> Released (mount_cleanup api m s st)))"

section \<open>Lemmas: what a session does to the card\<close>

text \<open>An invariant of the card that exchanging an APDU preserves holds through the session.\<close>

definition card_inv :: "'c vm_env \<Rightarrow> ('c \<Rightarrow> bool) \<Rightarrow> bool" where
  "card_inv env P \<longleftrightarrow> (\<forall>rd apdu c. e_VCard env = Some rd \<longrightarrow> P c \<longrightarrow> P (snd (rd_Transmit rd apdu c)))"

definition write_ok :: "'c vm_env \<Rightarrow> bool" where
  "write_ok env \<longleftrightarrow> (\<forall>n p. e_write env n \<noteq> Some (Panic p))"

definition good_step :: "('c \<Rightarrow> bool) \<Rightarrow> 'c step \<Rightarrow> bool" where
  "good_step P r \<longleftrightarrow> P (s_card (snd r)) \<and> (\<forall>p. fst r \<noteq> Some (Panic p))"

lemma good_send [simp]:
  assumes "write_ok env" "P (s_card s)"
  shows "good_step P (sendFrame env f s)" "good_step P (send env t b s)" "good_step P (sendClientStatus env d st s)"
    "good_step P (sendVdiskReadData env d b' n data s)" "good_step P (sendVdiskRelease env d s)"
  using assms by (auto simp: good_step_def send_defs sendFrame_def write_ok_def Let_def split: option.splits)

lemma good_request:
  "write_ok env \<Longrightarrow> P (s_card s) \<Longrightarrow> s_Media s \<noteq> None \<Longrightarrow> good_step P (sendVdiskRequest env d s)"
  by (auto simp: sendVdiskRequest_def)

lemma good_read_loop:
  assumes "vdisk_read_loop env d m bf buf n cur s = Some r" "write_ok env" "P (s_card s)"
  shows "good_step P r"
  using assms(1,3)
proof (induction rule: vdisk_read_loop_rounds)
  case (round m buf n cur s c len got err s1 s2 m' r)
  have "P (s_card s2)" using good_send(4) [OF assms(2), of P s1 d cur c "take len (got @ drop len buf)"] round(4,5,8)
    by (auto simp: good_step_def media_read_def split: prod.splits)
  then show ?case using round.IH by simp
next
  case (send_failed m buf n cur s c len got err s1 e s2)
  then show ?case using good_send(4) [OF assms(2), of P s1 d cur c "take len (got @ drop len buf)"]
    by (auto simp: media_read_def split: prod.splits)
qed (use assms(2) in \<open>auto simp: media_read_def split: prod.splits\<close>)

lemma xfer_card: "card_inv env P \<Longrightarrow> e_VCard env = Some rd \<Longrightarrow> P c \<Longrightarrow> P (snd (HandleVcardXferBlock rd payload c))"
  by (auto simp: HandleVcardXferBlock_def Let_def card_inv_def split: prod.splits sum.splits) (metis snd_conv)+

text \<open>Only an empty disconnect message makes the session panic.\<close>

lemma good_handle:
  assumes "handle env f s = Some r" "write_ok env" "card_inv env P" "P (s_card s)"
    "f_Type f = MsgDisconnect \<longrightarrow> f_Payload f \<noteq> []"
  shows "good_step P r"
proof -
  have read: "respondVdiskRead env f s = Some r \<Longrightarrow> good_step P r"
    using assms(2,4) good_read_loop [OF _ assms(2)]
    by (auto simp: respondVdiskRead_def Let_def split: if_splits option.splits) (auto simp: good_step_def)
  have wrt: "good_step P (respondVdiskWrite env f s)"
    using assms(2,4) by (auto simp: respondVdiskWrite_def Let_def split: option.splits prod.splits) (auto simp: good_step_def)
  have xfer: "good_step P (respondVcardXferBlock env f s)"
    using assms(2,4) xfer_card [OF assms(3) _ assms(4), of _ "f_Payload f"]
    by (auto simp: respondVcardXferBlock_def split: option.splits prod.splits sum.splits) (fastforce simp: good_step_def)+
  have rest: "good_step P (respondVdiskInfo env f s)" "good_step P (respondAlternateTocData env f s)"
    "good_step P (None, s)" "good_step P (Some EOF, s)"
    using assms(2,4) good_request [where P = P, OF assms(2,4)]
    by (auto simp: respondVdiskInfo_def respondAlternateTocData_def Let_def split: option.splits) (auto simp: good_step_def)
  show ?thesis using assms(1,2,4,5) read wrt xfer rest
    by (auto simp: handle_def split: if_splits)
qed

lemma ReadFrame_no_panic: "ReadFrame conn = (Inl e, rest) \<Longrightarrow> e \<noteq> Panic p"
  by (auto simp: ReadFrame_def ReadFull_def Let_def split: if_splits)

lemma good_run_loop:
  assumes "write_ok env" "card_inv env P"
  shows "run_loop env s conn = Some r \<Longrightarrow> P (s_card s) \<Longrightarrow> read_all ReadFrame k conn = Some (fs, e0) \<Longrightarrow>
    list_all (\<lambda>f. f_Type f = MsgDisconnect \<longrightarrow> f_Payload f \<noteq> []) fs \<Longrightarrow> good_step P r"
proof (induction k arbitrary: s conn fs)
  case (Suc k)
  obtain rf rest where rf: "ReadFrame conn = (rf, rest)" by (metis surj_pair)
  show ?case
  proof (cases rf)
    case (Inl e)
    then have "r = (Some e, s)" using Suc.prems(1) rf by (simp add: run_loop.simps [of env s conn])
    moreover have "\<forall>p. e \<noteq> Panic p" using ReadFrame_no_panic rf Inl by metis
    ultimately show ?thesis using Suc.prems(2) by (simp add: good_step_def)
  next
    case (Inr f)
    then obtain fs' where fs: "fs = f # fs'" "read_all ReadFrame k rest = Some (fs', e0)"
      using Suc.prems(3) rf by (auto split: option.splits)
    obtain e s1 where h: "handle env f s = Some (e, s1)"
      using Suc.prems(1) rf Inr by (cases "handle env f s") (auto simp: run_loop.simps [of env s conn])
    have g: "good_step P (e, s1)" using good_handle [OF h assms Suc.prems(2)] Suc.prems(4) fs(1) by simp
    show ?thesis
    proof (cases e)
      case None
      then have "run_loop env s1 rest = Some r" using Suc.prems(1) rf Inr h by (simp add: run_loop.simps [of env s conn])
      then show ?thesis using Suc.IH fs Suc.prems(4) g by (simp add: good_step_def)
    next
      case (Some x)
      then show ?thesis using Suc.prems(1) rf Inr h g by (simp add: run_loop.simps [of env s conn])
    qed
  qed
qed simp

lemma good_announce:
  assumes "write_ok env" "P (s_card s)" "s_Media s \<noteq> None"
  shows "good_step P (vm_announce env s)"
proof -
  have req: "good_step P (sendVdiskRequest env 0 s)" using good_request [where P = P, OF assms] .
  obtain e s1 where r: "sendVdiskRequest env 0 s = (e, s1)" by (metis surj_pair)
  then have "P (s_card s1)" using req by (simp add: good_step_def)
  then show ?thesis using req r assms(1,3) good_send(1) [of env P s1]
    by (cases e) (auto simp: vm_announce_def sendVdiskRequestCD_def sendVdiskRequestUSB_def split: option.splits)
qed

text \<open>A session over a connection without zero blocking factors and empty disconnects ends without a panic.\<close>

definition tame :: "bytes \<Rightarrow> bool" where
  "tame conn \<longleftrightarrow> (\<exists>k fs e0. read_all ReadFrame k conn = Some (fs, e0) \<and> list_all positive_factor fs
     \<and> list_all (\<lambda>f. f_Type f = MsgDisconnect \<longrightarrow> f_Payload f \<noteq> []) fs)"

lemma Run_good:
  assumes "tame conn" "write_ok env" "card_inv env P" "P (s_card s)" "s_Media s \<noteq> None"
  shows "\<exists>e s'. Run env s conn = Some (Some e, s') \<and> P (s_card s') \<and> (\<forall>p. e \<noteq> Panic p)"
proof -
  obtain k fs e0 where t: "read_all ReadFrame k conn = Some (fs, e0)" "list_all positive_factor fs"
    "list_all (\<lambda>f. f_Type f = MsgDisconnect \<longrightarrow> f_Payload f \<noteq> []) fs" using assms(1) unfolding tame_def by blast
  obtain e s' where r: "Run env s conn = Some (Some e, s')"
  proof -
    obtain a s1 where "vm_announce env s = (a, s1)" by (metis surj_pair)
    moreover obtain e s2 where "run_loop env s1 conn = Some (Some e, s2)" using run_loop_returns [OF t(1,2)] by blast
    ultimately show ?thesis using that by (cases a) (auto simp: Run_def)
  qed
  obtain a s1 where a: "vm_announce env s = (a, s1)" by (metis surj_pair)
  have ga: "good_step P (a, s1)" using good_announce [where P = P, OF assms(2,4,5)] a by simp
  have "good_step P (Some e, s')"
  proof (cases a)
    case None
    then have "run_loop env s1 conn = Some (Some e, s')" using r a by (simp add: Run_def)
    moreover have "P (s_card s1)" using ga by (simp add: good_step_def)
    ultimately show ?thesis by (rule good_run_loop [where P = P, OF assms(2,3) _ _ t(1,3)])
  next
    case (Some x)
    then show ?thesis using r a ga by (simp add: Run_def)
  qed
  then show ?thesis using r by (simp add: good_step_def)
qed

section \<open>Lemmas: what a mount holds\<close>

definition held :: "('s \<Rightarrow> u64 set) \<Rightarrow> 's host \<Rightarrow> nat list \<times> nat list \<times> u64 set \<times> (u16 \<Rightarrow> nat option) \<times> nat" where
  "held live st = (n_open (h_bmc st), n_beating (h_bmc st), live (h_pcsc st), h_mounts st, h_files st)"

definition fresh_handles :: "bmc_state \<Rightarrow> bool" where
  "fresh_handles b \<longleftrightarrow> (\<forall>h \<in> set (n_open b) \<union> set (n_beating b). h < n_next b)"

text \<open>The contexts a mounted session accounts for.\<close>

definition reader_ctx :: "cgo_reader option \<Rightarrow> u64 set \<Rightarrow> u64 set" where
  "reader_ctx rd base = (case rd of None \<Rightarrow> base | Some r \<Rightarrow> insert (cr_ctx r) base)"

lemma attach_reader_holds:
  assumes "scard_laws api live" "attach_reader api s = (x, s')"
  shows "\<exists>rd. x = Inr rd \<and> live s' = reader_ctx rd (live s) \<and> (\<forall>r. rd = Some r \<longrightarrow> cr_ctx r \<noteq> 0 \<and> cr_ctx r \<notin> live s)"
proof -
  obtain m s1 where n: "NewLinuxPCSCReader api s = (m, s1)" by (metis surj_pair)
  have h: "holds live (live s) cr_ctx (m, s1)" using NewReader_holds(1) [OF assms(1), of s] n by simp
  show ?thesis
  proof (cases m)
    case (Inl e)
    then show ?thesis using h assms(2) n by (cases e) (auto simp: attach_reader_def holds_def reader_ctx_def)
  next
    case (Inr r)
    obtain p s2 where p: "cgo_Present api r s1 = (p, s2)" by (metis surj_pair)
    show ?thesis using Inr h assms(2) n p cgo_Present_keeps [OF assms(1) p] by (auto simp: attach_reader_def holds_def reader_ctx_def)
  qed
qed

lemma mounted_card_inv:
  assumes "scard_laws api live"
  shows "card_inv (mount_env api wr io m) (\<lambda>c. live c = L)"
proof -
  have "live (snd (linux_Transmit api r apdu c)) = live c" for r apdu c using linux_Transmit_safe(1) [OF assms] by (metis prod.collapse)
  then show ?thesis by (auto simp: card_inv_def mount_env_def linux_reader_def)
qed

text \<open>A mount that comes up holds one socket with its heartbeat, one file, the table entry and at most one context.\<close>

lemma mounted_holds:
  assumes "scard_laws api live" "fresh_handles (h_bmc st)" "h_mounts st = (\<lambda>_. None)"
    "mountISOSubchannel fs path api env st = (x, st1)"
  shows "(\<exists>e. x = Inl e \<and> held live st1 = held live st) \<or>
    (\<exists>m. x = Inr m \<and> m_f (mt_media m) \<noteq> None \<and> mt_conn m \<notin> set (n_open (h_bmc st)) \<and> mt_conn m \<notin> set (n_beating (h_bmc st))
      \<and> (\<forall>r. mt_reader m = Some r \<longrightarrow> cr_ctx r \<noteq> 0 \<and> cr_ctx r \<notin> live (h_pcsc st))
      \<and> held live st1 = (mt_conn m # n_open (h_bmc st), mt_conn m # n_beating (h_bmc st), reader_ctx (mt_reader m) (live (h_pcsc st)),
          [0 \<mapsto> mt_conn m], h_files st + 1))"
proof (cases "OpenCD (mf_open fs) (mf_stat fs) path")
  case (Inl e)
  then show ?thesis using assms(4) by (auto simp: mountISOSubchannel_def)
next
  case (Inr media)
  have f: "m_f media \<noteq> None" using Inr by (auto simp: OpenCD_def split: sum.splits option.splits)
  obtain y st2 where m: "mountMediaSubchannel api env media (st\<lparr>h_files := h_files st + 1\<rparr>) = (y, st2)" by (metis surj_pair)
  have x: "(x, st1) = (case y of Inl e \<Rightarrow> (Inl e, st2\<lparr>h_files := h_files st2 - 1\<rparr>) | Inr m \<Rightarrow> (Inr m, st2))"
    using assms(4) Inr m by (cases y) (auto simp: mountISOSubchannel_def)
  obtain z b where o: "openVMSession env (h_bmc st) = (z, b)" by (metis surj_pair)
  obtain w s2 where a: "attach_reader api (h_pcsc st) = (w, s2)" by (metis surj_pair)
  obtain rd where rd: "w = Inr rd" "live s2 = reader_ctx rd (live (h_pcsc st))"
    "\<And>r. rd = Some r \<Longrightarrow> cr_ctx r \<noteq> 0 \<and> cr_ctx r \<notin> live (h_pcsc st)" using attach_reader_holds [OF assms(1) a] by blast
  show ?thesis
  proof (cases "n_sess (h_bmc st) = None \<or> (\<exists>e. z = Inl e)")
    case True
    then have "\<exists>e. y = Inl e \<and> held live st2 = held live (st\<lparr>h_files := h_files st + 1\<rparr>)"
      using m o assms(3) by (auto simp: mountMediaSubchannel_def openVMSession_def held_def Let_def split: prod.splits option.splits if_splits)
    then show ?thesis using x by (auto simp: held_def)
  next
    case False
    then obtain h where z: "z = Inr h" by (cases z) auto
    then have h: "h = n_next (h_bmc st)" "n_open b = h # n_open (h_bmc st)" "n_beating b = n_beating (h_bmc st)"
      using o by (auto simp: openVMSession_def new_socket_def Let_def split: prod.splits option.splits)
    have new: "h \<notin> set (n_open (h_bmc st))" "h \<notin> set (n_beating (h_bmc st))" using assms(2) h(1) by (auto simp: fresh_handles_def)
    have "x = Inr \<lparr>mt_conn = h, mt_reader = rd, mt_media = media\<rparr>
        \<and> st1 = st\<lparr>h_files := h_files st + 1, h_bmc := b\<lparr>n_beating := h # n_beating b\<rparr>, h_pcsc := s2, h_mounts := (h_mounts st)(0 := Some h)\<rparr>"
      using m o a z rd(1) False assms(3) x by (auto simp: mountMediaSubchannel_def Let_def)
    then show ?thesis using f new h rd assms(3) by (auto simp: held_def)
  qed
qed

lemma cleanup_releases:
  assumes "scard_laws api live" "live (s_card s) = reader_ctx (mt_reader m) L"
    "\<And>r. mt_reader m = Some r \<Longrightarrow> cr_ctx r \<noteq> 0 \<and> cr_ctx r \<notin> L" "h_mounts st = [0 \<mapsto> mt_conn m]"
    "removeAll (mt_conn m) (n_open (h_bmc st)) = op" "removeAll (mt_conn m) (n_beating (h_bmc st)) = bt"
    "h_files st = (if media_is_open s then F + 1 else F)"
  shows "held live (mount_cleanup api m s st) = (op, bt, L, \<lambda>_. None, F)"
proof -
  have m: "([0 \<mapsto> mt_conn m])(0 := None) = (\<lambda>_. None)" by auto
  have c: "live (case mt_reader m of None \<Rightarrow> s_card s | Some r \<Rightarrow> snd (cgo_Close api r (s_card s))) = L"
    using assms(2,3) Close_releases [OF assms(1)] by (auto simp: reader_ctx_def split: option.splits)
  show ?thesis using assms(4-7) c m by (cases "mt_reader m") (auto simp: mount_cleanup_def held_def Let_def close_socket_def)
qed

lemma Detach_card: "s_card (snd (Detach env clo d s)) = s_card s \<and> \<not> media_is_open (snd (Detach env clo d s))"
  by (auto simp: Detach_def media_is_open_def send_defs split: option.splits prod.splits) (metis sendFrame_keeps(2) snd_conv)

section \<open>Property: the life of a mount\<close>

text \<open>C2: A mount gives back everything it took.  Mounting an image either fails and leaves sockets, heartbeats, card contexts, mount table and open
  files as they were, or enters the mount in the table; and then, whatever the controller sends (short of a zero blocking factor or an
  empty disconnect), whatever the card and the file do, with or without an unmount request, the session ends and its clean-up
  restores all of them.\<close>

theorem mount_life_releases:
  assumes "scard_laws api live" "fresh_handles (h_bmc st)" "h_mounts st = (\<lambda>_. None)" "tame conn" "\<forall>n p. wr n \<noteq> Some (Panic p)"
  shows "case mountISOSubchannel fs path api env st of
      (Inl e, st1) \<Rightarrow> held live st1 = held live st
    | (Inr m, st1) \<Rightarrow> h_mounts st1 0 = Some (mt_conn m)
        \<and> (\<exists>st2. mount_life api wr io clo m conn unmount st1 = Released st2 \<and> held live st2 = held live st)"
proof -
  obtain x st1 where r: "mountISOSubchannel fs path api env st = (x, st1)" by (metis surj_pair)
  show ?thesis
  proof (cases x)
    case (Inl e)
    then show ?thesis using mounted_holds [OF assms(1-3) r] r by auto
  next
    case (Inr m)
    let ?b = "h_bmc st" and ?env = "mount_env api wr io m" and ?L = "live (h_pcsc st)"
    let ?s0 = "\<lparr>s_Media = Some (mt_media m), s_card = h_pcsc st1, s_sent = [], s_nwrite = 0, s_nio = 0\<rparr>"
    have h: "m_f (mt_media m) \<noteq> None" "mt_conn m \<notin> set (n_open ?b)" "mt_conn m \<notin> set (n_beating ?b)"
      "\<And>r. mt_reader m = Some r \<Longrightarrow> cr_ctx r \<noteq> 0 \<and> cr_ctx r \<notin> ?L"
      and st1: "n_open (h_bmc st1) = mt_conn m # n_open ?b" "n_beating (h_bmc st1) = mt_conn m # n_beating ?b"
      "live (h_pcsc st1) = reader_ctx (mt_reader m) ?L" "h_mounts st1 = [0 \<mapsto> mt_conn m]" "h_files st1 = h_files st + 1"
      using mounted_holds [OF assms(1-3) r] Inr by (auto simp: held_def)
    have w: "write_ok ?env" using assms(5) by (simp add: write_ok_def mount_env_def)
    obtain e s where run: "Run ?env ?s0 conn = Some (Some e, s)" "live (s_card s) = reader_ctx (mt_reader m) ?L" "\<forall>p. e \<noteq> Panic p"
      using Run_good [OF assms(4) w mounted_card_inv [OF assms(1)], of ?s0 "reader_ctx (mt_reader m) ?L"] st1(3) by auto
    have "media_is_open s" using Run_evolves [OF run(1)] h(1)
      by (auto simp: session_evolves_def media_evolves_def media_is_open_def option_rel_Some1 split: option.splits)
    note open_s = this
    define u where "u = (case unmount of None \<Rightarrow> (s, st1) | Some (meth, body) \<Rightarrow> apply_unmount ?env clo (handleVMUnmount meth body st1) (s, st1))"
    obtain s3 st3 where u3: "u = (s3, st3)" by (metis surj_pair)
    have u: "live (s_card s3) = reader_ctx (mt_reader m) ?L" "h_mounts st3 = [0 \<mapsto> mt_conn m]"
      "removeAll (mt_conn m) (n_open (h_bmc st3)) = n_open ?b" "removeAll (mt_conn m) (n_beating (h_bmc st3)) = n_beating ?b"
      "h_files st3 = (if media_is_open s3 then h_files st + 1 else h_files st)"
      using u3 run(2) st1 h(2,3) open_s Detach_card [of ?env clo 0 s]
      by (auto simp: u_def apply_unmount_def handleVMUnmount_def close_socket_def split: option.splits if_splits sum.splits)
    have "mount_life api wr io clo m conn unmount st1 = Released (mount_cleanup api m s3 st3)"
      using run(1,3) u3 by (cases e) (auto simp: mount_life_def u_def)
    moreover have "held live (mount_cleanup api m s3 st3) = held live st"
      using cleanup_releases [OF assms(1) u(1) h(4) u(2-5)] assms(3) by (simp add: held_def)
    ultimately show ?thesis using r Inr st1(4) by simp
  qed
qed

definition demo_host :: "u64 list host" where
  "demo_host = \<lparr>h_bmc = demo_bmc\<lparr>n_sess := Some (0, Apcp_Session.demo_session 3), n_open := [0], n_beating := [0], n_next := 1\<rparr>, h_pcsc = [3],
     h_mounts = (\<lambda>_. None), h_files = 0\<rparr>"

definition demo_mount :: "mounted result \<times> u64 list host" where
  "demo_mount = mountISOSubchannel \<lparr>mf_open = Inr [1, 2], mf_stat = None\<rparr> [99, 100] (demo_scard [82, 0, 0])
     (Apcp_Session.demo_env 4 demo_vm_reply) demo_host"

theorem mount_life_releases_witness:
  "\<exists>m st1 st2. demo_mount = (Inr m, st1) \<and> mt_reader m \<noteq> None \<and> n_open (h_bmc st1) = [1, 0] \<and> set (h_pcsc st1) = {3, 7}
    \<and> mount_life (demo_scard [82, 0, 0]) (\<lambda>_. None) (\<lambda>_. IoOk) None m [] (Some (''POST'', Inr 0)) st1 = Released st2
    \<and> held set st2 = ([0], [0], {3}, \<lambda>_. None, 0)"
proof -
  have up: "case fst demo_mount of Inl e \<Rightarrow> False | Inr m \<Rightarrow> mt_reader m \<noteq> None" "n_open (h_bmc (snd demo_mount)) = [1, 0]"
    "set (h_pcsc (snd demo_mount)) = {3, 7}" by code_simp+
  obtain x st1 where x: "demo_mount = (x, st1)" by (metis surj_pair)
  obtain m where "x = Inr m" "mt_reader m \<noteq> None" using up(1) [unfolded x] by (cases x) auto
  then have m: "demo_mount = (Inr m, st1)" "mt_reader m \<noteq> None" using x by simp_all
  have "read_all ReadFrame 1 [] = Some ([], EOF)" by code_simp
  then have t: "tame []" unfolding tame_def by (intro exI [of _ 1] exI [of _ "[]"] exI [of _ EOF]) simp
  have f: "fresh_handles (h_bmc demo_host)" "h_mounts demo_host = (\<lambda>_. None)" "held set demo_host = ([0], [0], {3}, \<lambda>_. None, 0)"
    by (simp_all add: fresh_handles_def demo_host_def held_def)
  have life: "case demo_mount of
      (Inl e, st1) \<Rightarrow> held set st1 = held set demo_host
    | (Inr m, st1) \<Rightarrow> h_mounts st1 0 = Some (mt_conn m)
        \<and> (\<exists>st2. mount_life (demo_scard [82, 0, 0]) (\<lambda>_. None) (\<lambda>_. IoOk) None m [] (Some (''POST'', Inr 0)) st1 = Released st2
             \<and> held set st2 = held set demo_host)"
    unfolding demo_mount_def by (rule mount_life_releases [OF demo_scard_laws f(1,2) t]) simp
  from life [unfolded m(1)] obtain st2 where "mount_life (demo_scard [82, 0, 0]) (\<lambda>_. None) (\<lambda>_. IoOk) None m [] (Some (''POST'', Inr 0)) st1 = Released st2"
    "held set st2 = held set demo_host" by auto
  then show ?thesis using m up(2,3) [unfolded x] f(3) by (intro exI [of _ m] exI [of _ st1] exI [of _ st2]) simp
qed

end
