(* ===== verification/Cli_Main.thy ===== *)
theory Cli_Main
  imports Cli_Tools Bridge_Mount
begin

text \<open>
  The whole \<open>main\<close> of the tools that hold a session: \<open>cmd/beefkvm-vm\<close> and \<open>cmd/beefkvm-usb\<close> (checks, image, session, protocol loop, deferred
  closes), \<open>cmd/apcp-capture\<close> (two sockets, video request, capture loop) and \<open>cmd/apcp-probe\<close> (session, video request, reader, hold).  The steps are
  the definitions of \<open>Cli_Tools\<close>, \<open>Apcp_Session\<close> and \<open>Vm_Session\<close>.  \<open>log.Fatal\<close> ends the process without running deferred calls.  The
  heartbeat each tool starts is the machine \<open>StartHeartbeat\<close>; what it writes between the frames of the loop is not repeated here.
\<close>

section \<open>beefkvm-vm and beefkvm-usb\<close>

text \<open>How a tool ends: refused with a fatal message, crashed, never, or after its protocol loop, with the error it logs and the session after the
  deferred close of the image.\<close>

datatype tool_end = ToolFatal gerror | ToolPanic gerror | ToolHangs | ToolEnds "gerror option" "unit VmSession"

definition tool_fatal :: "string \<Rightarrow> gerror \<Rightarrow> tool_end" where
  "tool_fatal what e = (if is_panic e then ToolPanic e else ToolFatal (Wrapf what e))"

definition close_media :: "gerror option \<Rightarrow> unit VmSession \<Rightarrow> unit VmSession" where
  "close_media clo s = s\<lparr>s_Media := map_option (\<lambda>m. snd (media_Close clo m)) (s_Media s)\<rparr>"

text \<open>From the opened image on: the session, the protocol loop over what the controller sends, and the deferred close.  The trace is what opening
  the session wrote and closed.\<close>

definition serve_media ::
  "environment \<Rightarrow> (nat \<Rightarrow> gerror option) \<Rightarrow> (nat \<Rightarrow> io_outcome) \<Rightarrow> gerror option \<Rightarrow> bytes \<Rightarrow> bytes \<Rightarrow> Media \<Rightarrow> tool_end \<times> event list" where
  "serve_media env wr io clo user pass media =
     (case Open env (bridge_session SessionTypeVM False user pass False) of
        (Some e, _, evs) \<Rightarrow> (tool_fatal ''VM session open: '' e, evs)
      | (None, s, evs) \<Rightarrow>
          (case Run \<lparr>e_VCard = None, e_write = wr, e_io = io\<rparr>
                  \<lparr>s_Media = Some media, s_card = (), s_sent = [], s_nwrite = 0, s_nio = 0\<rparr> (c_in (snd (the (s_Conn s)))) of
             None \<Rightarrow> (ToolHangs, evs)
           | Some (Some (Panic p), _) \<Rightarrow> (ToolPanic (Panic p), evs)
           | Some (err, vs) \<Rightarrow> (ToolEnds err (close_media clo vs), evs)))"

text \<open>The connection settings; \<open>dial\<close> is the network at the address the tool builds.\<close>

record tool_flags =
  tf_host :: bytes
  tf_port :: int
  tf_user :: bytes
  tf_pass :: bytes
  tf_pin :: bytes

definition session_on ::
  "(string \<Rightarrow> environment) \<Rightarrow> (nat \<Rightarrow> gerror option) \<Rightarrow> (nat \<Rightarrow> io_outcome) \<Rightarrow> gerror option \<Rightarrow> tool_flags \<Rightarrow> Media \<Rightarrow> tool_end \<times> event list" where
  "session_on dial wr io clo f media =
     (case itoa (tf_port f) of
        Inl e \<Rightarrow> (ToolPanic e, [])
      | Inr port \<Rightarrow> serve_media (dial (bytes_str (tf_host f) @ '':'' @ port)) wr io clo (tf_user f) (tf_pass f) media)"

definition vm_main ::
  "media_files \<Rightarrow> (string \<Rightarrow> environment) \<Rightarrow> (nat \<Rightarrow> gerror option) \<Rightarrow> (nat \<Rightarrow> io_outcome) \<Rightarrow> gerror option
     \<Rightarrow> tool_flags \<Rightarrow> bytes \<Rightarrow> bytes \<Rightarrow> bytes \<Rightarrow> tool_end \<times> event list" where
  "vm_main fs dial wr io clo f isoPath floppy usb =
     (case vm_open fs (vm_checks isoPath floppy usb (tf_pass f) (tf_pin f)) of
        Inl e \<Rightarrow> (if is_panic e then ToolPanic e else ToolFatal e, [])
      | Inr media \<Rightarrow> session_on dial wr io clo f media)"

definition usb_main ::
  "media_files \<Rightarrow> gerror option \<Rightarrow> (string \<Rightarrow> environment) \<Rightarrow> (nat \<Rightarrow> gerror option) \<Rightarrow> (nat \<Rightarrow> io_outcome) \<Rightarrow> gerror option
     \<Rightarrow> tool_flags \<Rightarrow> bytes \<Rightarrow> bool \<Rightarrow> int \<Rightarrow> tool_end \<times> event list" where
  "usb_main fs trunc dial wr io clo f img create sz =
     (case usb_checks img (tf_pass f) (tf_pin f) of
        Some msg \<Rightarrow> (ToolFatal (Errorf msg), [])
      | None \<Rightarrow>
          (case usb_open fs trunc img create sz of
             Inl e \<Rightarrow> (if is_panic e then ToolPanic e else ToolFatal e, [])
           | Inr media \<Rightarrow> session_on dial wr io clo f media))"

section \<open>apcp-capture\<close>

text \<open>\<open>Sscanf(res, "%dx%d", &w, &h)\<close> into two zero variables: what does not parse stays zero.\<close>

definition capture_resolution :: "nat list \<Rightarrow> int \<times> int" where
  "capture_resolution s =
     (case scan_int s of
        None \<Rightarrow> (0, 0)
      | Some (w, s) \<Rightarrow> if take 1 s = [120] then (case scan_int (drop 1 s) of None \<Rightarrow> (w, 0) | Some (h, _) \<Rightarrow> (w, h)) else (w, 0))"

text \<open>A run of the capture tool: the traces of opening the two sessions, what is then written on the two sockets (the errors of these writes are
  dropped), and the files saved.\<close>

record capture_run =
  cr_open :: "event list"
  cr_openVideo :: "event list"
  cr_primary :: "bytes list"
  cr_video :: "bytes list"
  cr_files :: "(string \<times> bytes) list"

definition capture_main ::
  "environment \<Rightarrow> environment \<Rightarrow> (string \<Rightarrow> gerror option) \<Rightarrow> bytes \<Rightarrow> bytes \<Rightarrow> bytes \<Rightarrow> string \<Rightarrow> int \<Rightarrow> nat list \<Rightarrow> gerror option \<times> capture_run" where
  "capture_main env env2 write user pass pin outDir nTiles res =
     (let r = \<lparr>cr_open = [], cr_openVideo = [], cr_primary = [], cr_video = [], cr_files = []\<rparr> in
      if pass = [] \<or> pin = [] then (Some (Errorf ''--pass and --pin required''), r)
      else
        (case Open env (bridge_session SessionTypeKVM False user pass True) of
           (Some e, _, evs) \<Rightarrow> (Some e, r\<lparr>cr_open := evs\<rparr>)
         | (None, primary, evs) \<Rightarrow>
             (case Open env2 (bridge_session SessionTypeKVMVMSubchannel True [] [] False) of
                (Some e, _, evs2) \<Rightarrow> (Some e, r\<lparr>cr_open := evs, cr_openVideo := evs2\<rparr>)
              | (None, video, evs2) \<Rightarrow>
                  let dc = EncodeVideoSyncDC (s_KVMSessionID primary) (kr_SessionID (s_KVMLoginResponse primary));
                      (w, h) = capture_resolution res
                  in (None, \<lparr>cr_open = evs, cr_openVideo = evs2, cr_primary = video_setup_frames w h, cr_video = [dc],
                       cr_files = capture_loop write outDir 0 nTiles (c_in (snd (the (s_Conn video))))\<rparr>))))"

section \<open>apcp-probe\<close>

text \<open>A run of the probe: it ends refused, with the learned pin, or after its hold, with what it wrote and what its reader logged.\<close>

datatype probe_end =
    ProbeRefused gerror
  | ProbePin bytes
  | ProbeHeld "bytes list" "(u16 \<times> nat \<times> bytes) list \<times> gerror"

definition probe_fatal :: "string \<Rightarrow> gerror \<Rightarrow> probe_end" where
  "probe_fatal what e = ProbeRefused (if is_panic e then e else Wrapf what e)"

definition probe_main ::
  "(bytes \<Rightarrow> string) \<Rightarrow> x509_parser \<Rightarrow> utls \<Rightarrow> environment \<Rightarrow> bytes \<Rightarrow> bytes \<Rightarrow> bool \<Rightarrow> probe_flags \<Rightarrow> probe_end" where
  "probe_main quote P U env host user preempt f =
     (case probe_checks quote f of
        ProbeFatal msg \<Rightarrow> ProbeRefused (Errorf msg)
      | LearnPin \<Rightarrow>
          (case fst (runLearnPin P U (e_Dial env) (bytes_str host) None) of
             Inl e \<Rightarrow> probe_fatal ''apcp-probe: learn-pin: '' e
           | Inr p \<Rightarrow> ProbePin p)
      | Probe chanType \<Rightarrow>
          (case Open env (bridge_session chanType False user (pf_pass f) preempt) of
             (Some e, _, _) \<Rightarrow> probe_fatal ''apcp-probe: '' e
           | (None, s, _) \<Rightarrow>
               ProbeHeld (if chanType = SessionTypeKVM then probe_video_frames else []) (probe_read chanType (c_in (snd (the (s_Conn s)))))))"

section \<open>Lemmas\<close>

lemma open_error_ok: "open_error what path r = Inr m \<longleftrightarrow> r = Inr m"
  by (cases r) (auto simp: open_error_def)

lemma vm_open_fresh: "vm_open fs c = Inr m \<Longrightarrow> media_fresh m"
  by (cases c) (auto simp: vm_open_def open_error_ok dest: OpenCD_fresh OpenUSB_fresh OpenFloppy_fresh)

lemma usb_open_fresh: "usb_open fs trunc img create sz = Inr m \<Longrightarrow> media_fresh m \<and> \<not> m_readOnly m"
  by (auto simp: usb_open_def open_error_ok dest: OpenUSB_fresh)

lemma vm_open_choice: "vm_open fs (vm_checks isoPath floppy usb pass pin) = Inr m \<Longrightarrow>
    pass \<noteq> [] \<and> pin \<noteq> [] \<and> length (filter (\<lambda>p. p \<noteq> []) [isoPath, floppy, usb]) = 1 \<and> (m_readOnly m \<longleftrightarrow> usb = [])"
  by (auto simp: vm_checks_def vm_open_def open_error_ok dest: OpenCD_fresh OpenUSB_fresh OpenFloppy_fresh split: if_splits)

lemma usb_checks_ok: "usb_checks img pass pin = None \<longleftrightarrow> img \<noteq> [] \<and> pass \<noteq> [] \<and> pin \<noteq> []"
  by (auto simp: usb_checks_def)

text \<open>The port printer ends inside its buffer for every 64-bit port.\<close>

lemma itoa_Inr: "- (2 ^ 63) \<le> n \<Longrightarrow> n < 2 ^ 63 \<Longrightarrow> \<exists>p. itoa n = Inr p"
  by (simp add: itoa_decimal)

text \<open>A failing \<open>Open\<close> has closed its socket when it had one; a succeeding one closes nothing and stores the connection.\<close>

lemma Open_trace:
  assumes "Open env s = (r, s', evs)" "s_Conn s = None"
  shows "(r = None \<longrightarrow> CloseRaw \<notin> set evs \<and> s_Conn s' \<noteq> None) \<and> (r \<noteq> None \<longrightarrow> evs = [] \<or> last evs = CloseRaw)"
proof (cases "e_Dial env")
  case (Inl d)
  with assms show ?thesis by (auto simp: Open_def)
next
  case (Inr raw)
  from assms(1) Inr show ?thesis
  proof (cases rule: Open_dialled)
    case (exchange s0 evs0)
    from exchange(1) show ?thesis
    proof (cases rule: open_exchange_cases)
      case (login ch c s1 evs')
      then have "CloseRaw \<notin> set evs'" by (auto dest: open_login_trace)
      with login exchange show ?thesis by (cases r) (auto dest!: open_login_ok)
    qed (use exchange in auto)
  qed auto
qed

lemma bridge_session_Conn [simp]: "s_Conn (bridge_session t skip user pass preempt) = None"
  by (simp add: bridge_session_def)

text \<open>What a tool may assume of the controller: once the session is open, the frames it sends are ones the protocol loop survives.\<close>

definition tame_peer :: "bytes \<Rightarrow> bytes \<Rightarrow> environment \<Rightarrow> bool" where
  "tame_peer user pass env \<longleftrightarrow>
     (case Open env (bridge_session SessionTypeVM False user pass False) of
        (None, s, evs) \<Rightarrow> tame (c_in (snd (the (s_Conn s))))
      | _ \<Rightarrow> True)"

definition ended_well :: "Media \<Rightarrow> tool_end \<times> event list \<Rightarrow> bool" where
  "ended_well m r \<longleftrightarrow>
     (case r of
        (ToolHangs, _) \<Rightarrow> False
      | (ToolFatal _, evs) \<Rightarrow> evs = [] \<or> last evs = CloseRaw
      | (ToolPanic _, evs) \<Rightarrow> evs = [] \<or> last evs = CloseRaw
      | (ToolEnds err s, evs) \<Rightarrow> CloseRaw \<notin> set evs \<and> err \<noteq> None
          \<and> (\<exists>m'. s_Media s = Some m' \<and> m_f m' = None \<and> m_readOnly m' = m_readOnly m \<and> (m_readOnly m \<longrightarrow> m_bytesWritten m' = m_bytesWritten m)))"

lemma serve_media_ends:
  assumes "tame_peer user pass env" "\<forall>n p. wr n \<noteq> Some (Panic p)"
  shows "ended_well media (serve_media env wr io clo user pass media)"
proof -
  let ?env = "\<lparr>e_VCard = None, e_write = wr, e_io = io\<rparr> :: unit vm_env"
  let ?s0 = "\<lparr>s_Media = Some media, s_card = (), s_sent = [], s_nwrite = 0, s_nio = 0\<rparr>"
  obtain r s evs where o: "Open env (bridge_session SessionTypeVM False user pass False) = (r, s, evs)" by (metis prod_cases3)
  note t = Open_trace [OF o bridge_session_Conn]
  show ?thesis
  proof (cases r)
    case (Some e)
    then show ?thesis using o t by (simp add: serve_media_def ended_well_def tool_fatal_def)
  next
    case None
    have "tame (c_in (snd (the (s_Conn s))))" using assms(1) o None by (simp add: tame_peer_def)
    moreover have "write_ok ?env" using assms(2) by (simp add: write_ok_def)
    ultimately obtain e s' where run: "Run ?env ?s0 (c_in (snd (the (s_Conn s)))) = Some (Some e, s')" "\<forall>p. e \<noteq> Panic p"
      using Run_good [of "c_in (snd (the (s_Conn s)))" ?env "\<lambda>_. True" ?s0] by (auto simp: card_inv_def)
    obtain m' where m': "s_Media s' = Some m'" "media_evolves media m'"
      using Run_evolves [OF run(1)] by (cases "s_Media s'") (auto simp: session_evolves_def)
    have "serve_media env wr io clo user pass media = (ToolEnds (Some e) (close_media clo s'), evs)"
      using o None run by (cases e) (simp_all add: serve_media_def)
    then show ?thesis using m' t None
      by (auto simp: ended_well_def close_media_def media_Close_def media_evolves_def split: option.splits)
  qed
qed

lemma session_on_ends:
  assumes "\<And>addr. tame_peer (tf_user f) (tf_pass f) (dial addr)" "\<forall>n p. wr n \<noteq> Some (Panic p)"
    and "- (2 ^ 63) \<le> tf_port f" "tf_port f < 2 ^ 63"
  shows "ended_well media (session_on dial wr io clo f media)"
  using itoa_Inr [OF assms(3,4)] serve_media_ends [OF assms(1,2)] by (auto simp: session_on_def)

lemma saved_payloads: "map snd (map (\<lambda>(i, f). (name i f, a_Payload f)) (enumerate k fs)) = map a_Payload fs"
  by (induction fs arbitrary: k) simp_all

section \<open>Properties\<close>

text \<open>A run of the mount tool.  Nothing is sent before the flags name exactly one image, a password and a pin and the image is open.  With a
  64-bit port, a controller whose frames the protocol loop survives and writes that do not panic, the tool always ends: refused, with every socket
  it opened closed again, or after its protocol loop, with the session socket never closed early, the image closed, and an ISO or floppy image
  without a byte written.\<close>

theorem vm_main_runs:
  assumes "\<And>addr. tame_peer (tf_user f) (tf_pass f) (dial addr)" and "\<forall>n p. wr n \<noteq> Some (Panic p)"
    and "- (2 ^ 63) \<le> tf_port f" and "tf_port f < 2 ^ 63"
  shows "case vm_open fs (vm_checks isoPath floppy usb (tf_pass f) (tf_pin f)) of
      Inl e \<Rightarrow> vm_main fs dial wr io clo f isoPath floppy usb = (if is_panic e then ToolPanic e else ToolFatal e, [])
    | Inr m \<Rightarrow> tf_pass f \<noteq> [] \<and> tf_pin f \<noteq> [] \<and> length (filter (\<lambda>p. p \<noteq> []) [isoPath, floppy, usb]) = 1
        \<and> (m_readOnly m \<longleftrightarrow> usb = []) \<and> ended_well m (vm_main fs dial wr io clo f isoPath floppy usb)"
proof (cases "vm_open fs (vm_checks isoPath floppy usb (tf_pass f) (tf_pin f))")
  case (Inl e)
  then show ?thesis by (simp add: vm_main_def)
next
  case (Inr m)
  have "ended_well m (vm_main fs dial wr io clo f isoPath floppy usb)"
    unfolding vm_main_def Inr sum.case by (rule session_on_ends [OF assms])
  with vm_open_choice [OF Inr] show ?thesis unfolding Inr sum.case by blast
qed

definition demo_tool :: tool_flags where
  "demo_tool = \<lparr>tf_host = str_bytes ''bmc'', tf_port = 2068, tf_user = [97], tf_pass = [115], tf_pin = [1]\<rparr>"

definition demo_image :: media_files where
  "demo_image = \<lparr>mf_open = Inr (replicate 2048 7), mf_stat = None\<rparr>"

abbreviation "demo_network \<equiv> \<lambda>addr. Apcp_Session.demo_env 1 demo_vm_reply"

lemma demo_tame_peer: "tame_peer [97] [115] (demo_network addr)"
proof -
  let ?o = "Open (Apcp_Session.demo_env 1 demo_vm_reply) (bridge_session SessionTypeVM False [97] [115] False)"
  have "fst ?o = None \<and> c_in (snd (the (s_Conn (fst (snd ?o))))) = []" by code_simp
  moreover have "tame []"
    unfolding tame_def by (intro exI [of _ 1] exI [of _ "[]"] exI [of _ EOF]) (auto simp: ReadFrame_def ReadFull_def)
  ultimately show ?thesis by (cases ?o) (auto simp: tame_peer_def)
qed

theorem vm_main_runs_witness:
  "\<exists>m. vm_open demo_image (vm_checks [1] [] [] [115] [1]) = Inr m \<and> m_readOnly m
     \<and> ended_well m (vm_main demo_image demo_network (\<lambda>_. None) (\<lambda>_. IoOk) None demo_tool [1] [] [])"
proof -
  have t: "\<And>addr. tame_peer (tf_user demo_tool) (tf_pass demo_tool) (demo_network addr)" using demo_tame_peer by (simp add: demo_tool_def)
  have "case vm_open demo_image (vm_checks [1] [] [] [115] [1]) of Inl e \<Rightarrow> False | Inr m \<Rightarrow> True" by code_simp
  then obtain m where m: "vm_open demo_image (vm_checks [1] [] [] [115] [1]) = Inr m" by (auto split: sum.splits)
  show ?thesis
    using vm_main_runs [OF t, where wr = "\<lambda>_. None" and fs = demo_image and isoPath = "[1]" and floppy = "[]" and usb = "[]" and io = "\<lambda>_. IoOk" and clo = None] m by (simp add: demo_tool_def)
qed

text \<open>The USB tool ends as well, and writes nothing before its checks pass: it has an image path, a password and a pin, and the image is open
  and writable.\<close>

theorem usb_main_runs:
  assumes "\<And>addr. tame_peer (tf_user f) (tf_pass f) (dial addr)" and "\<forall>n p. wr n \<noteq> Some (Panic p)"
    and "- (2 ^ 63) \<le> tf_port f" and "tf_port f < 2 ^ 63" and "usb_main fs trunc dial wr io clo f img create sz = (r, evs)"
  shows "evs = [] \<or> img \<noteq> [] \<and> tf_pass f \<noteq> [] \<and> tf_pin f \<noteq> []
      \<and> (\<exists>m. usb_open fs trunc img create sz = Inr m \<and> \<not> m_readOnly m \<and> ended_well m (r, evs))"
proof (cases "evs = []")
  case False
  then obtain m where c: "usb_checks img (tf_pass f) (tf_pin f) = None" and m: "usb_open fs trunc img create sz = Inr m"
    and r: "session_on dial wr io clo f m = (r, evs)"
    using assms(5) by (auto simp: usb_main_def split: option.splits sum.splits)
  have "ended_well m (r, evs)" using session_on_ends [OF assms(1-4)] unfolding r [symmetric] .
  then show ?thesis using m c usb_open_fresh [OF m] by (simp add: usb_checks_ok)
qed simp

theorem usb_main_runs_witness:
  "case usb_main demo_image None demo_network (\<lambda>_. None) (\<lambda>_. IoOk) None demo_tool [1] True 4096 of
     (r, evs) \<Rightarrow> evs = [] \<or> (\<exists>m. usb_open demo_image None [1] True 4096 = Inr m \<and> \<not> m_readOnly m \<and> ended_well m (r, evs))"
proof -
  obtain r evs where u: "usb_main demo_image None demo_network (\<lambda>_. None) (\<lambda>_. IoOk) None demo_tool [1] True 4096 = (r, evs)" by fastforce
  have t: "\<And>addr. tame_peer (tf_user demo_tool) (tf_pass demo_tool) (demo_network addr)" using demo_tame_peer by (simp add: demo_tool_def)
  show ?thesis using usb_main_runs [OF t _ _ _ u] u by (auto simp: demo_tool_def)
qed

text \<open>The capture tool asks for the stream the bridge asks for.  Against a controller whose login reply wants a companion socket, and with the
  same resolution, what it writes on the video socket and then on the primary one is what a connecting bridge writes, and the files are the payloads
  of the first tile frames that arrive.\<close>

theorem capture_asks_like_bridge:
  assumes "Open env (bridge_session SessionTypeKVM False user pass True) = (None, s, evs)" and "kr_NeedsCompanion (s_KVMLoginResponse s)"
    and "Open env2 (bridge_session SessionTypeKVMVMSubchannel True [] [] False) = (None, v, evs2)"
    and "connectBMC env env2 st = (None, st')" and "n_user st = user" and "n_pass st = pass" and "n_log st = []"
    and "pass \<noteq> []" and "pin \<noteq> []" and "capture_resolution res = (n_initW st, n_initH st)"
    and "length (c_in (snd (the (s_Conn v)))) < fuel" and "read_all ReadAVPTFrame fuel (c_in (snd (the (s_Conn v)))) = Some (fs, e)"
  shows "\<exists>r. capture_main env env2 (\<lambda>name. None) user pass pin outDir nTiles res = (None, r)
    \<and> n_log st' = map (Pair (n_next st + 1)) (cr_video r) @ map (Pair (n_next st)) (cr_primary r)
    \<and> map snd (cr_files r) = map a_Payload (take (nat nTiles) (filter (\<lambda>f. is_tile (a_ID f)) fs))"
proof -
  let ?dc = "EncodeVideoSyncDC (s_KVMSessionID s) (kr_SessionID (s_KVMLoginResponse s))"
  let ?files = "capture_loop (\<lambda>name. None) outDir 0 nTiles (c_in (snd (the (s_Conn v))))"
  have "capture_main env env2 (\<lambda>name. None) user pass pin outDir nTiles res
      = (None, \<lparr>cr_open = evs, cr_openVideo = evs2, cr_primary = video_setup_frames (n_initW st) (n_initH st), cr_video = [?dc], cr_files = ?files\<rparr>)"
    using assms(1,3,8-10) by (simp add: capture_main_def)
  moreover have "map snd ?files = map a_Payload (take (nat nTiles) (filter (\<lambda>f. is_tile (a_ID f)) fs))"
    unfolding capture_loop_frames [OF assms(11,12), of outDir 0 nTiles] unfolding saved_payloads by simp
  moreover have "n_log st' = [(n_next st + 1, ?dc)] @ map (Pair (n_next st)) (video_setup_frames (n_initW st) (n_initH st))"
    using assms(1-7) by (auto simp: connectBMC_def openVideoCompanion_def start_video_def new_socket_def write_socket_def video_setup_frames_def Let_def
        split: option.splits)
  ultimately show ?thesis by simp
qed

text \<open>A controller that accepts the login, wants a companion socket, and sends one tile frame on it.\<close>

definition demo_kvm :: "bytes \<Rightarrow> environment" where
  "demo_kvm reply = \<lparr>e_Dial = Inr \<lparr>c_in = demo_setup 1 @ reply, c_wr = []\<rparr>, e_UpgradeTLS = Some Inr, e_Rand32 = Inr (replicate 32 7), e_RandSess = 42\<rparr>"

theorem capture_asks_like_bridge_witness:
  "\<exists>st' r. connectBMC (demo_kvm (AVPTEncode \<lparr>a_ID = 769, a_Payload = replicate 10 0\<rparr>)) (demo_kvm (AVPTEncode \<lparr>a_ID = 130, a_Payload = [7]\<rparr>)) (demo_bmc\<lparr>n_initW := 0, n_initH := 0\<rparr>) = (None, st')
     \<and> capture_main (demo_kvm (AVPTEncode \<lparr>a_ID = 769, a_Payload = replicate 10 0\<rparr>)) (demo_kvm (AVPTEncode \<lparr>a_ID = 130, a_Payload = [7]\<rparr>)) (\<lambda>name. None)
         [97] [115] [1] ''d'' 1 [] = (None, r)
     \<and> n_log st' = map (Pair 1) (cr_video r) @ map (Pair 0) (cr_primary r) \<and> map snd (cr_files r) = [[7]]"
proof -
  let ?e1 = "demo_kvm (AVPTEncode \<lparr>a_ID = 769, a_Payload = replicate 10 0\<rparr>)" and ?e2 = "demo_kvm (AVPTEncode \<lparr>a_ID = 130, a_Payload = [7]\<rparr>)"
  let ?f = "\<lparr>a_ID = 130, a_Payload = [7]\<rparr>"
  let ?o1 = "Open ?e1 (bridge_session SessionTypeKVM False [97] [115] True)" and ?o2 = "Open ?e2 (bridge_session SessionTypeKVMVMSubchannel True [] [] False)"
  have o: "fst ?o1 = None \<and> kr_NeedsCompanion (s_KVMLoginResponse (fst (snd ?o1)))" "fst ?o2 = None \<and> c_in (snd (the (s_Conn (fst (snd ?o2))))) = AVPTEncode ?f"
    "fst (connectBMC ?e1 ?e2 (demo_bmc\<lparr>n_initW := 0, n_initH := 0\<rparr>)) = None" by code_simp+
  obtain s evs v evs2 st' where p: "?o1 = (None, s, evs)" "?o2 = (None, v, evs2)" "connectBMC ?e1 ?e2 (demo_bmc\<lparr>n_initW := 0, n_initH := 0\<rparr>) = (None, st')"
    using o by (cases ?o1; cases ?o2; cases "connectBMC ?e1 ?e2 (demo_bmc\<lparr>n_initW := 0, n_initH := 0\<rparr>)") auto
  have "read_all ReadAVPTFrame 20 (AVPTEncode ?f) = Some ([?f], EOF)" "length (AVPTEncode ?f) < 20" by code_simp+
  moreover have "capture_resolution [] = (0, 0)" by code_simp
  ultimately have "read_all ReadAVPTFrame 20 (c_in (snd (the (s_Conn v)))) = Some ([?f], EOF)" "length (c_in (snd (the (s_Conn v)))) < 20"
    "capture_resolution [] = (n_initW (demo_bmc\<lparr>n_initW := 0, n_initH := 0\<rparr>), n_initH (demo_bmc\<lparr>n_initW := 0, n_initH := 0\<rparr>))"
    using o(2) p(2) by (simp_all add: demo_bmc_def)
  then obtain r where "capture_main ?e1 ?e2 (\<lambda>name. None) [97] [115] [1] ''d'' 1 [] = (None, r)"
    "n_log st' = map (Pair (n_next (demo_bmc\<lparr>n_initW := 0, n_initH := 0\<rparr>) + 1)) (cr_video r) @ map (Pair (n_next (demo_bmc\<lparr>n_initW := 0, n_initH := 0\<rparr>))) (cr_primary r)"
    "map snd (cr_files r) = map a_Payload (take (nat 1) (filter (\<lambda>f. is_tile (a_ID f)) [?f]))"
    using capture_asks_like_bridge [OF p(1) _ p(2,3), where pin = "[1]" and res = "[]" and outDir = "''d''" and nTiles = 1
      and fuel = 20 and fs = "[?f]" and e = EOF] o(1) p(1) by (auto simp: demo_bmc_def)
  then show ?thesis using p(3) by (auto simp: demo_bmc_def is_tile_def)
qed

end
