(* ===== verification/Spec2Isabelle.thy ===== *)
theory Spec2Isabelle
  imports Input_Event Capture_Log Video_Avocent2 Video_Jpeg Cli_Main
begin

text \<open>
  A verification development for beefkvm, a browser KVM client for Avocent-style baseboard management controllers (BMC).

  \<^bold>\<open>The program.\<close>  The bridge (\<open>cmd/beefkvm\<close>) opens an APCP session to the BMC over pinned TLS (\<open>internal/apcp\<close>, \<open>internal/tlsdial\<close>), reads
  video frames from it, decodes them into a framebuffer (\<open>internal/video\<close>) and pushes that to browsers over WebSockets; keyboard and mouse events
  travel back (\<open>internal/input\<close>).  Disk images are served to the BMC over a virtual-media session (\<open>internal/vm\<close>), smart-card requests are passed
  to a local reader (\<open>internal/vcard\<close>), and sensors, power, users, network and the serial console are reached over IPMI 2.0
  (\<open>internal/ipmi\<close>).  Small command line tools use the same packages, and \<open>internal/apcplog\<close> records sessions.

  \<^bold>\<open>Theories and the code they model.\<close>  Every definition has the name of its Go counterpart where Isabelle allows it; a Go struct is a record,
  a loop a recursive function, an error or panic a value of \<open>gerror\<close> in a sum, a mutex-protected step one atomic function.

  \<^item> \<open>Go_Prelude\<close>: bytes and machine words, slices, \<open>copy\<close>, byte orders, \<open>fmt\<close> verbs, \<open>io.ReadFull\<close>, errors; the shared simplification rules.
  \<^item> \<open>Apcp_Frame\<close> (\<open>apcp/frame.go\<close>, \<open>msgtype.go\<close>, \<open>avpt.go\<close>): both frame formats and the setup and login packets.  The locale \<open>framing\<close>
    states what a frame codec promises (decode after encode, a read consumes input); the two codecs and the capture format interpret it.
  \<^item> \<open>Apcp_Session\<close> (\<open>apcp/session.go\<close>): \<open>Open\<close> as a function from an environment (dial, TLS hook, random source) to the error, the session and
    the trace of socket writes and closes; the heartbeat loop.
  \<^item> \<open>Tls_Dial\<close> (\<open>tlsdial/dial.go\<close>): SHA-256, the certificate callback, the handshake over an abstract \<open>utls\<close>, learning a pin.
  \<^item> \<open>Input_Event\<close> (\<open>input/input.go\<close>), \<open>Capture_Log\<close> (\<open>apcplog/capture.go\<close>), \<open>Vcard_Session\<close> (\<open>vcard/vcard.go\<close>), \<open>Vcard_Pcsc\<close>
    (\<open>vcard/pcsc_linux.go\<close>, \<open>pcsc_darwin.go\<close>, \<open>pcsc_windows.go\<close>, \<open>pcsc_stub.go\<close>: the readers over an abstract PC/SC library).
  \<^item> \<open>Vm_Session\<close> (\<open>vm/vm.go\<close>): media images, every request handler, the session loop.
  \<^item> \<open>Std_Crypto\<close> (SHA-1, HMAC, AES-128, CBC of the Go library; locale \<open>block_cipher\<close>), \<open>Ipmi_Rmcp\<close> (\<open>crypto.go\<close>, \<open>rmcp.go\<close>),
    \<open>Ipmi_Session\<close> (\<open>session.go\<close>: RAKP, retries, sequence numbers), \<open>Ipmi_Client\<close> (\<open>client.go\<close>, \<open>chassis.go\<close>, \<open>user.go\<close>, \<open>lan.go\<close>,
    \<open>inventory.go\<close>; the locale \<open>ipmi_sender\<close> is what the commands need of the client's \<open>Send\<close>), \<open>Ipmi_Sdr\<close> (\<open>sdr.go\<close>), \<open>Ipmi_Sensor\<close> (\<open>sensor.go\<close>),
    \<open>Ipmi_Sel\<close> (\<open>sel.go\<close>), \<open>Ipmi_Sol\<close> (\<open>sol.go\<close>, with the interleaving of its goroutines as a step relation).
  \<^item> \<open>Video_Decoder\<close> (\<open>decoder.go\<close>), \<open>Video_Avocent2\<close> (\<open>avocent2*.go\<close>), \<open>Avocent_Bits\<close>, \<open>Avocent_Huffman\<close>, \<open>Video_Dct\<close> and
    \<open>Video_Avocent\<close> (\<open>avocent.go\<close>, \<open>avocent_dct.go\<close>, the tables of \<open>jpeg.go\<close>): framebuffer, run-length codec, packet dispatcher, and the tile codec from
    bit buffer to painted pixels; \<open>Video_Jpeg\<close> (\<open>jpeg.go\<close>): the DCT tile decoder of packet 134 and the float transforms.
  \<^item> \<open>Bridge_Video\<close> (\<open>cmd/beefkvm/main.go\<close>: video loop, frame handlers, push loop, WebSocket messages), \<open>Bridge_Session\<close> (connecting,
    supervision with backoff, mounts as a step relation over the handlers' critical sections), \<open>Bridge_Mount\<close> (one mount from the request to the
    clean-up: session socket, smart-card reader, \<open>Run\<close>, unmount request), \<open>Bridge_Ipmi\<close> (\<open>ipmi_handlers.go\<close>), \<open>Bridge_Access\<close>
    (start-up checks, token gate, origin check, routes, certificate and screenshot endpoints, \<open>sol_handler.go\<close>).
  \<^item> \<open>Cli_Tools\<close>: \<open>apcp-probe\<close>, \<open>apcp-capture\<close>, \<open>beefkvm-power\<close>, \<open>beefkvm-vm\<close>, \<open>beefkvm-usb\<close>; \<open>Cli_Main\<close>: their \<open>main\<close> from the checks to the exit.
  \<^item> This theory: properties that span several of them.

  \<^bold>\<open>What is shown.\<close>
  \<^item> Wire formats: frame readers accept exactly the encodings and round-trip; RMCP+ packets round-trip under encryption, and a packet with the
    authentication bit is accepted only with the right code; captures replay.
  \<^item> Sessions: \<open>Open\<close> fails closed; credentials follow the session request only under TLS and only to the pinned certificate; a learned pin selects its
    certificate; RAKP success establishes keys, and what it does not check; sequence numbers never repeat; serial output arrives exactly once.
  \<^item> Storage: reads serve the image's bytes, a read-only image never changes, the session loop ends, and exactly which request makes it spin.
  \<^item> Management: commands never panic on any answer of the BMC, walks of the sensor repository and event log are complete, and the
    endpoints above them write a proper reply for every input; a page of the event log is the page asked for.
  \<^item> Video: decoding any packet returns and stays inside the framebuffer; bit buffer, Huffman symbols, coefficient blocks, runs and palette tiles decode
    to what an encoder wrote; a JPEG tile paints exactly its coding units; fragments of a packet are reassembled; every frame is acknowledged; the browser sees the framebuffer.
  \<^item> Supervision and access: reconnects back off within bounds and release sockets, and when they do not; mounts are tracked unless two
    requests overlap; a mount gives back its socket, heartbeat, card context, table entry and file however it ends; no PC/SC context leaks; no endpoint answers without the token, no WebSocket opens across origins.
  \<^item> Tools: the mount tools send nothing before their checks pass, always end, and end with the image closed; the capture tool asks for the bridge's stream.

  \<^bold>\<open>Termination and bounds.\<close>  Loops over an input are functions with a measure on what is left of it.  Walks a BMC can make endless
  (\<open>ScanSensors\<close>, \<open>ScanSEL\<close>), the read loop of \<open>Vm_Session\<close> and the tile codec's opcode loop are \<open>partial_function (option)\<close>: \<open>None\<close> is divergence, and the theorems
  prove that a result exists or say when none does.  \<open>read_all\<close>, used in statements only, takes fuel, and fuel above the length of the input is proved
  enough.  Lengths, sequence numbers and checksums keep their Go width as words; Go \<open>int\<close> arithmetic that stays within 64 bits is on \<open>int\<close>, and where it
  can leave them (\<open>sel_page\<close>, \<open>itoa\<close>, the scanned integers) the wrap or range check is written out.

  \<^bold>\<open>Parameters.\<close>  Sockets are the bytes they will deliver with scripted write results, or an answer function for datagrams; random sources, files, clocks,
  \<open>url.Parse\<close>, \<open>x509.ParseCertificate\<close>, \<open>json.Unmarshal\<close>, \<open>%q\<close>, the WebSocket upgrader, \<open>utls\<close>, the PC/SC library and the cosine are arguments, and what is relied on is a
  named hypothesis (\<open>env_ok\<close>, \<open>honours\<close>, \<open>serves\<close>, \<open>scard_laws\<close>) with an instance in a witness.  The sensor conversion takes its floating-point operations as an argument; the inverse
  transforms use exact rationals with explicit rounding to single precision, product and sum rounded separately (a compiler that fuses them would round once).

  \<^bold>\<open>Not modelled.\<close>  The TLS record layer (third-party), the PC/SC library itself, the heartbeat's writes between the frames of the tools' protocol loops,
  logging and printing, static files, and the formatting of certificate names and dates.
\<close>

section \<open>Credentials\<close>

text \<open>C1: The bridge sends credentials to the pinned BMC only.  If it gets past its flag checks, then in every session it opens where the session
  setup offers TLS, everything written after the session request (that is, the login frame with the password) is written under TLS, and only after a
  handshake in which the peer presented the certificate whose SHA-256 the pin flag spells.\<close>

theorem bridge_credentials_pinned:
  assumes "honours P U" and "main_checks opts = Start"
    and "Open (pinned_env P U host (fl_pin opts) l env) (bridge_session t skip (fl_user opts) (fl_pass opts) preempt) = (r, s', evs)"
    and "SupportsSSL (s_Setup s')" and "Write ch b \<in> set evs" and "b \<noteq> EncodeSessionRequest (session_request s')"
  shows "ch = Tls \<and> (\<exists>raw c leaf chain. u_Handshake U (tls_config P (fl_pin opts)) hello_spec raw l = (Inr (c, leaf # chain), Some leaf)
    \<and> str_bytes (hexs (Sum256 (crt_Raw leaf))) = to_lower (strip_colons (fl_pin opts)))"
proof -
  have "fl_pin opts \<noteq> []" using assms(2) by (auto simp: main_checks_def split: if_splits)
  from login_needs_pin [OF assms(1) this assms(3-6)] show ?thesis .
qed

theorem bridge_credentials_pinned_witness:
  "\<exists>r s' evs b. Open (pinned_env demo_x509 (demo_utls [demo_cert [1]]) ''bmc'' (FingerprintSHA256 (demo_cert [1])) None (Apcp_Session.demo_env 4 KVMHeartbeat))
       (bridge_session 3 False [1] [1] True) = (r, s', evs) \<and> Write Tls b \<in> set evs
     \<and> (\<exists>raw c leaf chain. u_Handshake (demo_utls [demo_cert [1]]) (tls_config demo_x509 (FingerprintSHA256 (demo_cert [1]))) hello_spec raw None
          = (Inr (c, leaf # chain), Some leaf) \<and> str_bytes (hexs (Sum256 (crt_Raw leaf))) = FingerprintSHA256 (demo_cert [1]))"
proof -
  let ?env = "Apcp_Session.demo_env 4 KVMHeartbeat" and ?s = "bridge_session 3 False [1] [1] True" and ?pin = "FingerprintSHA256 (demo_cert [1])"
  let ?e = "pinned_env demo_x509 (demo_utls [demo_cert [1]]) ''bmc'' ?pin None ?env" and ?opts = "demo_flags\<lparr>fl_pin := ?pin\<rparr>"
  have e: "?e = ?env" by (simp add: pinned_env_def Apcp_Session.demo_env_def demo_upgrade fun_eq_iff)
  obtain r s' evs where o: "Open ?e ?s = (r, s', evs)" by (cases "Open ?e ?s") auto
  have ssl: "SupportsSSL (s_Setup (fst (snd (Open ?env ?s))))" by code_simp
  have "list_ex (\<lambda>ev. case ev of Write Tls b \<Rightarrow> length b \<noteq> 53 | _ \<Rightarrow> False) (snd (snd (Open ?env ?s)))" by code_simp
  then obtain x where x: "x \<in> set evs" "case x of Write Tls b \<Rightarrow> length b \<noteq> 53 | _ \<Rightarrow> False" using o by (auto simp: e list_ex_iff)
  from x(2) obtain ch b where "x = Write ch b" by (cases x) auto
  with x have "Write Tls b \<in> set evs" "length b \<noteq> 53" by (cases ch; auto)+
  moreover have "length (EncodeSessionRequest (session_request s')) = 53" by (simp add: EncodeSessionRequest_def Let_def)
  ultimately have w: "Write Tls b \<in> set evs" "b \<noteq> EncodeSessionRequest (session_request s')" by auto
  have opts: "main_checks ?opts = Start" "fl_pin ?opts = ?pin" "fl_user ?opts = [1]" "fl_pass ?opts = [1]"
    by (simp_all add: main_checks_def demo_flags_def)
  show ?thesis
    using bridge_credentials_pinned [OF demo_honours opts(1), unfolded opts(2,3,4), OF o _ w] ssl o w(1) by (auto simp: e)
qed

end
